(* ===== verification/Prelude.thy ===== *)
theory Prelude
  imports Main "HOL-Library.Word" "HOL-Library.Multiset"
begin

unbundle bit_operations_syntax

text \<open>
  Shared vocabulary of the development: the machine integer types of the kernel, the byte
  order conversions of the Rust standard library (\<open>from_le_bytes\<close>, \<open>to_le_bytes\<close>), slices and
  \<open>copy_from_slice\<close>, \<open>Vec::swap_remove\<close>, \<open>checked_add\<close>, and the power-of-two alignment helpers
  that \<open>pmm.rs\<close>, \<open>vmm.rs\<close>, \<open>heap.rs\<close> and \<open>elf.rs\<close> each carry a copy of.

  The collection \<open>align_simps\<close> reads aligned words as natural numbers, \<open>slice_simps\<close> reads
  slices and slice updates element by element.
\<close>

named_theorems align_simps "aligned words as natural numbers"
named_theorems slice_simps "slices and slice updates, element by element"

section \<open>Machine integers\<close>

type_synonym u8 = "8 word"
type_synonym u16 = "16 word"
type_synonym u32 = "32 word"
type_synonym u64 = "64 word"

text \<open>\<open>u64::checked_add\<close>, and \<open>usize::checked_add\<close> on counters kept as natural numbers
  (a \<open>usize\<close> has 64 bits on the kernel's only target).\<close>

definition checked_add :: "u64 \<Rightarrow> u64 \<Rightarrow> u64 option" where
  "checked_add a b = (if unat a + unat b < 2 ^ 64 then Some (a + b) else None)"

definition checked_add_usize :: "nat \<Rightarrow> nat \<Rightarrow> nat option" where
  "checked_add_usize a b = (if a + b < 2 ^ 64 then Some (a + b) else None)"

lemma checked_add_Some:
  "checked_add a b = Some c \<Longrightarrow> c = a + b \<and> unat c = unat a + unat b"
  by (auto simp: checked_add_def unat_word_ariths split: if_splits)

lemma checked_add_None: "checked_add a b = None \<longleftrightarrow> 2 ^ 64 \<le> unat a + unat b"
  by (simp add: checked_add_def not_less)

lemma unat_u64_less: "unat (x :: u64) < 18446744073709551616"
  using unsigned_less [of x] by simp

lemma unat_add_u64:
  "unat a + unat b < 18446744073709551616 \<Longrightarrow> unat (a + b :: u64) = unat a + unat b"
  by (simp add: unat_word_ariths)

lemma unat_of_nat_u64: "n < 18446744073709551616 \<Longrightarrow> unat (of_nat n :: u64) = n"
  by (simp add: unat_of_nat)

section \<open>Power-of-two alignment\<close>

lemma and_not_mask_push_drop: "v AND NOT (mask n) = push_bit n (drop_bit n v)"
  for v :: "'a::len word"
  by (rule bit_word_eqI) (auto simp: bit_simps)

lemma unat_and_not_mask:
  fixes v :: "'a::len word"
  shows "unat (v AND NOT (mask n)) = unat v div 2 ^ n * 2 ^ n"
proof -
  have "unat v div 2 ^ n * 2 ^ n \<le> unat v" by simp
  also have "unat v < 2 ^ LENGTH('a)" by (rule unsigned_less)
  finally have less: "unat v div 2 ^ n * 2 ^ n < 2 ^ LENGTH('a)" .
  have "unat (v AND NOT (mask n)) = take_bit LENGTH('a) (push_bit n (drop_bit n (unat v)))"
    by (simp only: and_not_mask_push_drop unsigned_push_bit_eq unat_drop_bit_eq)
  also have "\<dots> = unat v div 2 ^ n * 2 ^ n"
    using less by (simp add: take_bit_eq_mod push_bit_eq_mult drop_bit_eq_div)
  finally show ?thesis .
qed

text \<open>The two helpers, as \<open>pmm.rs\<close> and \<open>vmm.rs\<close> write them (\<open>a\<close> is a power of two).\<close>

definition align_down :: "u64 \<Rightarrow> u64 \<Rightarrow> u64" where
  "align_down v a = v AND NOT (a - 1)"

definition align_up :: "u64 \<Rightarrow> u64 \<Rightarrow> u64" where
  "align_up v a = (v + a - 1) AND NOT (a - 1)"

abbreviation (input) PAGE_SIZE :: u64 where "PAGE_SIZE \<equiv> 4096"

lemma page_mask: "(4095 :: u64) = mask 12"
  by (simp add: mask_eq_exp_minus_1)

lemma unat_align_down_page [align_simps]:
  "unat (align_down v PAGE_SIZE) = unat v div 4096 * 4096"
  using unat_and_not_mask [of v 12] by (simp add: align_down_def page_mask)

lemma unat_align_up_page:
  assumes "unat v + 4095 < 18446744073709551616"
  shows "unat (align_up v PAGE_SIZE) = (unat v + 4095) div 4096 * 4096"
proof -
  have n: "unat (4095 :: u64) = 4095" and eq: "v + 4096 - 1 = v + 4095" by simp_all
  have "unat (v + 4096 - 1) = unat v + 4095"
    unfolding eq using assms unat_add_u64 [of v 4095] by (simp only: n)
  then show ?thesis
    using unat_and_not_mask [of "v + 4096 - 1" 12] by (simp add: align_up_def page_mask)
qed

lemma unat_and_page_mask: "unat ((v :: u64) AND 4095) = unat v mod 4096"
  unfolding page_mask take_bit_eq_mask [symmetric] unsigned_take_bit_eq
  by (simp add: take_bit_eq_mod)

section \<open>Bytes and little-endian words\<close>

fun le_nat :: "u8 list \<Rightarrow> nat" where
  "le_nat [] = 0"
| "le_nat (b # bs) = unat b + 256 * le_nat bs"

text \<open>\<open>uN::from_le_bytes\<close> and \<open>uN::to_le_bytes\<close>.\<close>

definition from_le :: "u8 list \<Rightarrow> 'a::len word" where
  "from_le bs = of_nat (le_nat bs)"

fun le_bytes :: "nat \<Rightarrow> nat \<Rightarrow> u8 list" where
  "le_bytes 0 n = []"
| "le_bytes (Suc k) n = of_nat (n mod 256) # le_bytes k (n div 256)"

definition to_le :: "nat \<Rightarrow> 'a::len word \<Rightarrow> u8 list" where
  "to_le k w = le_bytes k (unat w)"

lemma length_le_bytes [simp]: "length (le_bytes k n) = k"
  by (induction k arbitrary: n) auto

lemma length_to_le [simp]: "length (to_le k w) = k"
  by (simp add: to_le_def)

lemma le_nat_less: "le_nat bs < 256 ^ length bs"
proof (induction bs)
  case (Cons b bs)
  have "unat b < 256" using unsigned_less [of b] by simp
  with Cons show ?case by (simp add: le_nat.simps)
qed simp

lemma le_nat_le_bytes: "le_nat (le_bytes k n) = n mod 256 ^ k"
proof (induction k arbitrary: n)
  case (Suc k)
  have "unat (of_nat (n mod 256) :: u8) = n mod 256" by (simp add: unat_of_nat)
  with Suc show ?case by (simp add: mod_mult2_eq)
qed simp

lemma le_bytes_le_nat: "le_bytes (length bs) (le_nat bs) = bs"
proof (induction bs)
  case (Cons b bs)
  have "unat b < 256" using unsigned_less [of b] by simp
  then have "(unat b + 256 * le_nat bs) mod 256 = unat b"
    and "(unat b + 256 * le_nat bs) div 256 = le_nat bs" by simp_all
  with Cons show ?case by simp
qed simp

text \<open>Both round trips, for a word of exactly \<open>k\<close> bytes.\<close>

lemma from_le_to_le:
  fixes w :: "'a::len word"
  assumes "LENGTH('a) = 8 * k"
  shows "from_le (to_le k w) = w"
proof -
  have "unat w < 2 ^ LENGTH('a)" by (rule unsigned_less)
  then have "unat w < 256 ^ k" by (simp add: assms power_mult)
  then show ?thesis by (simp add: from_le_def to_le_def le_nat_le_bytes)
qed

lemma to_le_from_le:
  assumes "LENGTH('a) = 8 * k" and "length bs = k"
  shows "to_le k (from_le bs :: 'a::len word) = bs"
proof -
  have "le_nat bs < 2 ^ LENGTH('a)"
    using le_nat_less [of bs] assms by (simp add: power_mult)
  then have "unat (from_le bs :: 'a word) = le_nat bs"
    by (simp add: from_le_def unat_of_nat)
  with assms show ?thesis
    using le_bytes_le_nat [of bs] by (simp add: to_le_def)
qed

lemmas from_le_to_le_16 [simp] = from_le_to_le [where 'a = 16 and k = 2, simplified]
lemmas from_le_to_le_32 [simp] = from_le_to_le [where 'a = 32 and k = 4, simplified]
lemmas from_le_to_le_64 [simp] = from_le_to_le [where 'a = 64 and k = 8, simplified]

section \<open>Slices and vectors\<close>

text \<open>\<open>slice xs a b\<close> is \<open>&xs[a..b]\<close> and \<open>copy_at xs at ys\<close> is
  \<open>xs[at..at + ys.len()].copy_from_slice(ys)\<close>; both panic out of range, which the models that
  use them check first or prove impossible.\<close>

definition slice :: "'a list \<Rightarrow> nat \<Rightarrow> nat \<Rightarrow> 'a list" where
  "slice xs a b = take (b - a) (drop a xs)"

definition copy_at :: "'a list \<Rightarrow> nat \<Rightarrow> 'a list \<Rightarrow> 'a list" where
  "copy_at xs at ys = take at xs @ ys @ drop (at + length ys) xs"

lemma length_slice [simp]: "b \<le> length xs \<Longrightarrow> length (slice xs a b) = b - a"
  by (simp add: slice_def)

lemma nth_slice [slice_simps]:
  "b \<le> length xs \<Longrightarrow> i < b - a \<Longrightarrow> slice xs a b ! i = xs ! (a + i)"
  by (simp add: slice_def)

lemma length_copy_at [simp]:
  "at + length ys \<le> length xs \<Longrightarrow> length (copy_at xs at ys) = length xs"
  by (simp add: copy_at_def)

lemma nth_copy_at [slice_simps]:
  assumes "at + length ys \<le> length xs" and "i < length xs"
  shows "copy_at xs at ys ! i = (if at \<le> i \<and> i < at + length ys then ys ! (i - at) else xs ! i)"
  using assms by (auto simp: copy_at_def nth_append min_def)

lemma slice_copy_at_same:
  assumes "at + length ys \<le> length xs"
  shows "slice (copy_at xs at ys) at (at + length ys) = ys"
  using assms by (simp add: slice_def copy_at_def)

lemma slice_copy_at_other:
  assumes "at + length ys \<le> length xs" and "b \<le> length xs" and "b \<le> at \<or> at + length ys \<le> a"
  shows "slice (copy_at xs at ys) a b = slice xs a b"
  using assms by (intro nth_equalityI) (auto simp: slice_simps)

text \<open>An image put together by copying pieces in at increasing places.\<close>

lemma copies_slice:
  assumes "list_all (\<lambda>(at, ys). at + length ys \<le> length b) cs" "sorted_wrt (\<lambda>(i, xs) (j, ys). i + length xs \<le> j) cs"
  shows "length (fold (\<lambda>(at, ys) b. copy_at b at ys) cs b) = length b"
    "(at, ys) \<in> set cs \<Longrightarrow> slice (fold (\<lambda>(at, ys) b. copy_at b at ys) cs b) at (at + length ys) = ys"
proof -
  have other: "length (fold (\<lambda>(at, ys) b. copy_at b at ys) cs b) = length b \<and>
    slice (fold (\<lambda>(at, ys) b. copy_at b at ys) cs b) i j = slice b i j"
    if "list_all (\<lambda>(at, ys). at + length ys \<le> length b \<and> j \<le> at) cs" "j \<le> length b" for b i j cs
    using that by (induction cs arbitrary: b) (auto simp: slice_copy_at_other)
  show "length (fold (\<lambda>(at, ys) b. copy_at b at ys) cs b) = length b"
    using assms(1) by (induction cs arbitrary: b) auto
  show "slice (fold (\<lambda>(at, ys) b. copy_at b at ys) cs b) at (at + length ys) = ys" if "(at, ys) \<in> set cs"
    using assms that
  proof (induction cs arbitrary: b)
    case (Cons c cs)
    obtain i xs where c: "c = (i, xs)" by force
    have len: "length (copy_at b i xs) = length b" using Cons.prems(1) c by simp
    show ?case
    proof (cases "(at, ys) = (i, xs)")
      case True
      have "list_all (\<lambda>(at, ys). at + length ys \<le> length (copy_at b i xs) \<and> i + length xs \<le> at) cs"
        using Cons.prems(1,2) c len by (fastforce simp: list_all_iff)
      then show ?thesis using other [of "copy_at b i xs" "i + length xs" cs i] Cons.prems(1) c True len by (simp add: slice_copy_at_same)
    next
      case False
      then show ?thesis using Cons.IH [of "copy_at b i xs"] Cons.prems c len by auto
    qed
  qed simp
qed

text \<open>\<open>Vec::swap_remove\<close>: the last element takes the place of the removed one.\<close>

definition swap_remove :: "'a list \<Rightarrow> nat \<Rightarrow> 'a list" where
  "swap_remove xs i = butlast (xs[i := last xs])"

lemma length_swap_remove [simp]: "length (swap_remove xs i) = length xs - 1"
  by (simp add: swap_remove_def)

lemma mset_swap_remove:
  assumes "i < length xs"
  shows "mset xs = add_mset (xs ! i) (mset (swap_remove xs i))"
proof -
  let ?ys = "xs[i := last xs]"
  from assms have ne: "xs \<noteq> []" by auto
  have last: "last ?ys = last xs"
    using assms ne by (simp add: last_conv_nth nth_list_update)
  have "mset ?ys = add_mset (last xs) (mset (butlast ?ys))"
    using append_butlast_last_id [of ?ys] ne last
    by (metis add_mset_add_single list_update_nonempty mset.simps(1) mset.simps(2) mset_append)
  moreover have "mset ?ys = add_mset (last xs) (mset xs - {#xs ! i#})"
    using assms by (rule mset_update)
  ultimately have "mset (butlast ?ys) = mset xs - {#xs ! i#}" by simp
  with assms show ?thesis by (simp add: swap_remove_def)
qed

lemma set_swap_remove_subset: "i < length xs \<Longrightarrow> set (swap_remove xs i) \<subseteq> set xs"
  by (metis insert_iff mset_swap_remove set_mset_add_mset_insert set_mset_mset subsetI)

text \<open>\<open>iter().position(p)\<close>.\<close>

fun position :: "('a \<Rightarrow> bool) \<Rightarrow> 'a list \<Rightarrow> nat option" where
  "position p [] = None"
| "position p (x # xs) = (if p x then Some 0 else map_option Suc (position p xs))"

lemma position_Some:
  "position p xs = Some i \<Longrightarrow> i < length xs \<and> p (xs ! i) \<and> (\<forall>j < i. \<not> p (xs ! j))"
proof (induction xs arbitrary: i)
  case (Cons x xs)
  then show ?case
    by (cases i) (auto simp: less_Suc_eq_0_disj split: if_splits)
qed simp

lemma position_None: "position p xs = None \<longleftrightarrow> (\<forall>x \<in> set xs. \<not> p x)"
  by (induction xs) auto

lemma find_Some_iff_hd: "List.find p xs = Some x \<Longrightarrow> p x \<and> x \<in> set xs"
  by (induction xs) (auto split: if_splits)

section \<open>Results\<close>

text \<open>\<open>Result<T, E>\<close> is \<open>'e + 'a\<close> with \<open>Inl\<close> the error; \<open>and_then\<close> is the \<open>?\<close> operator of a
  computation without state, \<open>ok_or\<close> and \<open>map_err\<close> are the methods of that name.\<close>

definition and_then :: "'e + 'a \<Rightarrow> ('a \<Rightarrow> 'e + 'b) \<Rightarrow> 'e + 'b" where
  "and_then r f = (case r of Inl e \<Rightarrow> Inl e | Inr a \<Rightarrow> f a)"

definition ok_or :: "'e \<Rightarrow> 'a option \<Rightarrow> 'e + 'a" where
  "ok_or e x = (case x of None \<Rightarrow> Inl e | Some a \<Rightarrow> Inr a)"

definition map_err :: "('e \<Rightarrow> 'f) \<Rightarrow> 'e + 'a \<Rightarrow> 'f + 'a" where
  "map_err f r = (case r of Inl e \<Rightarrow> Inl (f e) | Inr a \<Rightarrow> Inr a)"

text \<open>\<open>and_next\<close> is \<open>?\<close> in a computation that also threads a state.\<close>

definition and_next :: "('e + 'a) \<times> 's \<Rightarrow> ('a \<Rightarrow> 's \<Rightarrow> ('e + 'b) \<times> 's) \<Rightarrow> ('e + 'b) \<times> 's" where
  "and_next rs f = (case rs of (Inl e, s) \<Rightarrow> (Inl e, s) | (Inr a, s) \<Rightarrow> f a s)"

lemma and_next_simps [simp]:
  "and_next (Inl e, s) f = (Inl e, s)"
  "and_next (Inr a, s) f = f a s"
  by (simp_all add: and_next_def)

lemma and_next_Inr: "and_next rs f = (Inr b, s') \<longleftrightarrow> (\<exists>a s. rs = (Inr a, s) \<and> f a s = (Inr b, s'))"
  by (auto simp: and_next_def split: prod.splits sum.splits)

lemma and_then_simps [simp]:
  "and_then (Inl e) f = Inl e"
  "and_then (Inr a) f = f a"
  by (simp_all add: and_then_def)

lemma ok_or_simps [simp]:
  "ok_or e None = Inl e"
  "ok_or e (Some a) = Inr a"
  by (simp_all add: ok_or_def)

lemma map_err_simps [simp]:
  "map_err f (Inl e) = Inl (f e)"
  "map_err f (Inr a) = Inr a"
  by (simp_all add: map_err_def)

lemma and_then_Inr: "and_then r f = Inr b \<longleftrightarrow> (\<exists>a. r = Inr a \<and> f a = Inr b)"
  by (cases r) auto

lemma ok_or_Inr: "ok_or e x = Inr a \<longleftrightarrow> x = Some a"
  by (cases x) auto

end
