(* ===== verification/Pmm.thy ===== *)
theory Pmm
  imports Prelude
begin

unbundle bit_operations_syntax

text \<open>
  The physical memory manager, \<open>src/pmm.rs\<close>: a bitmap with one bit per 4 KiB frame (set means
  in use), single-frame and contiguous allocation, release, and the construction of the bitmap
  from the bootloader's memory map.

  The bitmap is the list of its 64-bit words. Counters (\<open>usize\<close>) are natural numbers, physical
  addresses are \<open>u64\<close> words. The types of the \<open>limine\<close> crate are parameters: a memory map
  entry carries a type of any sort, and \<open>entry_type_consts\<close> holds the crate's constants.
\<close>

section \<open>Memory map\<close>

datatype kind =
  Usable | Reserved | AcpiReclaimable | AcpiNvs | BadMemory | BootloaderReclaimable
| KernelAndModules | Framebuffer | UnknownKind

record 'ty entry_type_consts =
  USABLE :: 'ty
  RESERVED :: 'ty
  ACPI_RECLAIMABLE :: 'ty
  ACPI_NVS :: 'ty
  BAD_MEMORY :: 'ty
  BOOTLOADER_RECLAIMABLE :: 'ty
  KERNEL_AND_MODULES :: 'ty
  FRAMEBUFFER :: 'ty

definition kind_of :: "'ty entry_type_consts \<Rightarrow> 'ty \<Rightarrow> kind" where
  "kind_of c t =
     (if t = USABLE c then Usable
      else if t = RESERVED c then Reserved
      else if t = ACPI_RECLAIMABLE c then AcpiReclaimable
      else if t = ACPI_NVS c then AcpiNvs
      else if t = BAD_MEMORY c then BadMemory
      else if t = BOOTLOADER_RECLAIMABLE c then BootloaderReclaimable
      else if t = KERNEL_AND_MODULES c then KernelAndModules
      else if t = FRAMEBUFFER c then Framebuffer
      else UnknownKind)"

record region =
  rbase :: u64
  rlen :: u64
  rkind :: kind

record 'ty mm_entry =
  entry_base :: u64
  entry_length :: u64
  entry_type :: 'ty

definition empty_region :: region where
  "empty_region = \<lparr>rbase = 0, rlen = 0, rkind = UnknownKind\<rparr>"

definition MIN_ALLOC_ADDR :: u64 where "MIN_ALLOC_ADDR = 0x100000"
definition MAX_REGIONS :: nat where "MAX_REGIONS = 128"

section \<open>The bitmap\<close>

definition bm_test_bit :: "u64 list \<Rightarrow> nat \<Rightarrow> bool" where
  "bm_test_bit bm i = (bm ! (i div 64) AND push_bit (i mod 64) 1 \<noteq> 0)"

definition bm_set_bit :: "u64 list \<Rightarrow> nat \<Rightarrow> u64 list" where
  "bm_set_bit bm i = bm[i div 64 := bm ! (i div 64) OR push_bit (i mod 64) 1]"

definition bm_clear_bit :: "u64 list \<Rightarrow> nat \<Rightarrow> u64 list" where
  "bm_clear_bit bm i = bm[i div 64 := bm ! (i div 64) AND NOT (push_bit (i mod 64) 1)]"

definition put_bit :: "u64 list \<Rightarrow> nat \<Rightarrow> bool \<Rightarrow> u64 list" where
  "put_bit bm i used = (if used then bm_set_bit bm i else bm_clear_bit bm i)"

text \<open>The three loops of \<open>fill_range\<close>: single bits up to a word boundary, whole words, and the
  remaining single bits.\<close>

fun fill_head :: "u64 list \<Rightarrow> nat \<Rightarrow> nat \<Rightarrow> bool \<Rightarrow> u64 list \<times> nat \<times> nat" where
  "fill_head bm first cnt used =
     (if 0 < cnt \<and> first mod 64 \<noteq> 0
      then fill_head (put_bit bm first used) (first + 1) (cnt - 1) used
      else (bm, first, cnt))"

fun fill_words :: "u64 list \<Rightarrow> nat \<Rightarrow> nat \<Rightarrow> bool \<Rightarrow> u64 list \<times> nat \<times> nat" where
  "fill_words bm first cnt used =
     (if 64 \<le> cnt
      then fill_words (bm[first div 64 := (if used then NOT 0 else 0)]) (first + 64) (cnt - 64) used
      else (bm, first, cnt))"

fun fill_tail :: "u64 list \<Rightarrow> nat \<Rightarrow> nat \<Rightarrow> bool \<Rightarrow> u64 list" where
  "fill_tail bm first cnt used =
     (if 0 < cnt
      then fill_tail (put_bit bm first used) (first + 1) (cnt - 1) used
      else bm)"

declare fill_head.simps [simp del] fill_words.simps [simp del] fill_tail.simps [simp del]

definition fill_range :: "u64 list \<Rightarrow> nat \<Rightarrow> nat \<Rightarrow> bool \<Rightarrow> u64 list" where
  "fill_range bm first cnt used =
     (let (bm1, first1, count1) = fill_head bm first cnt used;
          (bm2, first2, count2) = fill_words bm1 first1 count1 used
      in fill_tail bm2 first2 count2 used)"

section \<open>The allocator\<close>

datatype free_error = NotInitialized | Unaligned | OutOfRange | NotAllocated

record pmm =
  bitmap :: "u64 list"
  bitmap_words :: nat
  total_frames :: nat
  free_frames :: nat
  usable_frames :: nat
  next_hint :: nat
  regions :: "region list"
  region_count :: nat

text \<open>\<open>u64::trailing_zeros\<close>.\<close>

definition trailing_zeros :: "u64 \<Rightarrow> nat" where
  "trailing_zeros w = length (takeWhile (\<lambda>i. \<not> bit w i) [0..<64])"

fun alloc_one_loop :: "pmm \<Rightarrow> nat list \<Rightarrow> u64 option \<times> pmm" where
  "alloc_one_loop p [] = (None, p)"
| "alloc_one_loop p (n # ns) =
     (let w = (next_hint p + n) mod bitmap_words p; word = bitmap p ! w in
      if word \<noteq> NOT 0 then
        let b = trailing_zeros (NOT word); frame = w * 64 + b in
        (Some (of_nat frame * PAGE_SIZE),
         p\<lparr>bitmap := (bitmap p)[w := word OR push_bit b 1],
           free_frames := free_frames p - 1, next_hint := w\<rparr>)
      else alloc_one_loop p ns)"

definition alloc_one :: "pmm \<Rightarrow> u64 option \<times> pmm" where
  "alloc_one p =
     (if free_frames p = 0 then (None, p) else alloc_one_loop p [0..<bitmap_words p])"

function contiguous_loop :: "u64 list \<Rightarrow> nat \<Rightarrow> nat \<Rightarrow> nat \<Rightarrow> nat \<Rightarrow> nat \<Rightarrow> nat option" where
  "contiguous_loop bm tot cnt run start frame =
     (if frame < tot then
        if frame mod 64 = 0 \<and> bm ! (frame div 64) = NOT 0
        then contiguous_loop bm tot cnt 0 start (frame + 64)
        else if bm_test_bit bm frame
        then contiguous_loop bm tot cnt 0 start (frame + 1)
        else
          let start' = (if run = 0 then frame else start); run' = run + 1 in
          if run' = cnt then Some start'
          else contiguous_loop bm tot cnt run' start' (frame + 1)
      else None)"
  by pat_completeness auto
termination
  by (relation "measure (\<lambda>(bm, tot, cnt, run, start, frame). tot - frame)") auto

declare contiguous_loop.simps [simp del]

definition pmm_alloc_contiguous :: "pmm \<Rightarrow> nat \<Rightarrow> u64 option \<times> pmm" where
  "pmm_alloc_contiguous p cnt =
     (if cnt = 0 \<or> free_frames p < cnt then (None, p)
      else case contiguous_loop (bitmap p) (total_frames p) cnt 0 0 0 of
        None \<Rightarrow> (None, p)
      | Some start \<Rightarrow>
          (Some (of_nat start * PAGE_SIZE),
           p\<lparr>bitmap := fill_range (bitmap p) start cnt True,
             free_frames := free_frames p - cnt\<rparr>))"

definition pmm_free :: "pmm \<Rightarrow> u64 \<Rightarrow> nat \<Rightarrow> (free_error + unit) \<times> pmm" where
  "pmm_free p phys cnt =
     (if cnt = 0 then (Inr (), p)
      else if phys mod PAGE_SIZE \<noteq> 0 then (Inl Unaligned, p)
      else
        let first = unat (phys div PAGE_SIZE) in
        case checked_add_usize first cnt of
          None \<Rightarrow> (Inl OutOfRange, p)
        | Some end \<Rightarrow>
            if total_frames p < end then (Inl OutOfRange, p)
            else if \<not> list_all (bm_test_bit (bitmap p)) [first..<end] then (Inl NotAllocated, p)
            else
              (Inr (),
               p\<lparr>bitmap := fill_range (bitmap p) first cnt False,
                 free_frames := free_frames p + cnt,
                 next_hint := min (next_hint p) (first div 64)\<rparr>))"

section \<open>The global allocator\<close>

text \<open>
  The part of the kernel's state that the memory managers share: the direct map offset, the
  allocator behind its lock (\<open>None\<close> before \<open>init\<close>) and physical memory, read and written as
  aligned 64-bit words by physical address. The direct map makes \<open>phys_to_virt p\<close> an alias of
  physical address \<open>p\<close>, so accesses through it are accesses of \<open>mem\<close> at \<open>p\<close>. Later components
  extend the record with their own state.
\<close>

record kernel =
  hhdm_offset :: u64
  pmm_lock :: "pmm option"
  mem :: "u64 \<Rightarrow> u64"

definition phys_to_virt :: "'a kernel_scheme \<Rightarrow> u64 \<Rightarrow> u64" where
  "phys_to_virt s phys = phys + hhdm_offset s"

definition alloc_frame :: "'a kernel_scheme \<Rightarrow> u64 option \<times> 'a kernel_scheme" where
  "alloc_frame s =
     (case pmm_lock s of
        None \<Rightarrow> (None, s)
      | Some p \<Rightarrow> (let (r, p') = alloc_one p in (r, s\<lparr>pmm_lock := Some p'\<rparr>)))"

definition zero_page :: "(u64 \<Rightarrow> u64) \<Rightarrow> u64 \<Rightarrow> u64 \<Rightarrow> u64" where
  "zero_page m phys = (\<lambda>a. if unat phys \<le> unat a \<and> unat a < unat phys + 4096 then 0 else m a)"

definition alloc_frame_zeroed :: "'a kernel_scheme \<Rightarrow> u64 option \<times> 'a kernel_scheme" where
  "alloc_frame_zeroed s =
     (case alloc_frame s of
        (None, s') \<Rightarrow> (None, s')
      | (Some phys, s') \<Rightarrow> (Some phys, s'\<lparr>mem := zero_page (mem s') phys\<rparr>))"

definition alloc_contiguous :: "'a kernel_scheme \<Rightarrow> nat \<Rightarrow> u64 option \<times> 'a kernel_scheme" where
  "alloc_contiguous s cnt =
     (case pmm_lock s of
        None \<Rightarrow> (None, s)
      | Some p \<Rightarrow>
          (let (r, p') = (if cnt = 1 then alloc_one p else pmm_alloc_contiguous p cnt)
           in (r, s\<lparr>pmm_lock := Some p'\<rparr>)))"

text \<open>A rejected release is logged and otherwise ignored.\<close>

definition free_frames_at :: "'a kernel_scheme \<Rightarrow> u64 \<Rightarrow> nat \<Rightarrow> 'a kernel_scheme" where
  "free_frames_at s phys cnt =
     (case pmm_lock s of
        None \<Rightarrow> s
      | Some p \<Rightarrow> (let (r, p') = pmm_free p phys cnt in s\<lparr>pmm_lock := Some p'\<rparr>))"

definition free_frame :: "'a kernel_scheme \<Rightarrow> u64 \<Rightarrow> 'a kernel_scheme" where
  "free_frame s phys = free_frames_at s phys 1"

fun hhdm_loop :: "region list \<Rightarrow> (u64 \<times> u64) list \<Rightarrow> nat \<Rightarrow> (u64 \<times> u64) list \<times> nat" where
  "hhdm_loop [] out n = (out, n)"
| "hhdm_loop (r # rs) out n =
     (if rkind r \<in> {Usable, BootloaderReclaimable, KernelAndModules, AcpiReclaimable, AcpiNvs} then
        let start = align_down (rbase r) PAGE_SIZE; end = align_up (rbase r + rlen r) PAGE_SIZE in
        if end > start then hhdm_loop rs (out[n := (start, end)]) (n + 1) else hhdm_loop rs out n
      else hhdm_loop rs out n)"

definition hhdm_ranges :: "'a kernel_scheme \<Rightarrow> (u64 \<times> u64) list \<times> nat" where
  "hhdm_ranges s =
     (let out = replicate MAX_REGIONS (0, 0) in
      case pmm_lock s of
        None \<Rightarrow> (out, 0)
      | Some p \<Rightarrow> hhdm_loop (take (region_count p) (regions p)) out 0)"

definition free_frame_count :: "'a kernel_scheme \<Rightarrow> nat" where
  "free_frame_count s = (case pmm_lock s of None \<Rightarrow> 0 | Some p \<Rightarrow> free_frames p)"

definition usable_frame_count :: "'a kernel_scheme \<Rightarrow> nat" where
  "usable_frame_count s = (case pmm_lock s of None \<Rightarrow> 0 | Some p \<Rightarrow> usable_frames p)"

definition phys_top :: "'a kernel_scheme \<Rightarrow> u64" where
  "phys_top s = (case pmm_lock s of None \<Rightarrow> 0 | Some p \<Rightarrow> of_nat (total_frames p) * PAGE_SIZE)"

text \<open>The frames of a region that may be handed out, as the first byte and one past the last: the
  two lines that \<open>init\<close> and \<open>reclaim_bootloader_memory\<close> share.\<close>

definition region_start :: "region \<Rightarrow> u64" where
  "region_start r = align_up (max (rbase r) MIN_ALLOC_ADDR) PAGE_SIZE"

definition region_end :: "region \<Rightarrow> u64" where
  "region_end r = align_down (rbase r + rlen r) PAGE_SIZE"

text \<open>One pass over the regions of kind \<open>k\<close> that clears their bits and counts their frames.\<close>

fun release_regions :: "kind \<Rightarrow> region list \<Rightarrow> u64 list \<Rightarrow> nat \<Rightarrow> u64 list \<times> nat" where
  "release_regions k [] bm frames = (bm, frames)"
| "release_regions k (r # rs) bm frames =
     (if rkind r \<noteq> k then release_regions k rs bm frames
      else if region_end r > region_start r then
        let n = unat ((region_end r - region_start r) div PAGE_SIZE) in
        release_regions k rs (fill_range bm (unat (region_start r div PAGE_SIZE)) n False) (frames + n)
      else release_regions k rs bm frames)"

definition reclaim_bootloader_memory :: "'a kernel_scheme \<Rightarrow> nat \<times> 'a kernel_scheme" where
  "reclaim_bootloader_memory s =
     (case pmm_lock s of
        None \<Rightarrow> (0, s)
      | Some p \<Rightarrow>
          (let (bm, frames) =
                 release_regions BootloaderReclaimable (take (region_count p) (regions p)) (bitmap p) 0
           in (frames,
               s\<lparr>pmm_lock := Some (p\<lparr>bitmap := bm, free_frames := free_frames p + frames,
                                    usable_frames := usable_frames p + frames, next_hint := 0\<rparr>)\<rparr>)))"

fun copy_regions :: "'ty entry_type_consts \<Rightarrow> 'ty mm_entry list \<Rightarrow> region list \<Rightarrow> nat \<Rightarrow> region list \<times> nat" where
  "copy_regions c [] rs cnt = (rs, cnt)"
| "copy_regions c (e # es) rs cnt =
     (if cnt = MAX_REGIONS then (rs, cnt)
      else copy_regions c es
             (rs[cnt := \<lparr>rbase = entry_base e, rlen = entry_length e, rkind = kind_of c (entry_type e)\<rparr>])
             (cnt + 1))"

definition highest_address :: "region list \<Rightarrow> u64" where
  "highest_address rs =
     fold (\<lambda>r highest. if rkind r = Usable \<or> rkind r = BootloaderReclaimable
                       then max highest (rbase r + rlen r) else highest) rs 0"

definition bitmap_place :: "region list \<Rightarrow> u64 \<Rightarrow> u64" where
  "bitmap_place rs bitmap_frames =
     (case find (\<lambda>r. rkind r = Usable \<and> region_end r > region_start r
                    \<and> region_end r - region_start r \<ge> bitmap_frames * PAGE_SIZE) rs of
        None \<Rightarrow> 0
      | Some r \<Rightarrow> region_start r)"

definition pmm_init ::
  "'ty entry_type_consts \<Rightarrow> 'ty mm_entry list option \<Rightarrow> u64 option \<Rightarrow> 'a kernel_scheme \<Rightarrow> 'a kernel_scheme"
where
  "pmm_init c mm_response hhdm_response s =
     (case (mm_response, hhdm_response) of
        (Some entries, Some hhdm) \<Rightarrow>
          let s1 = s\<lparr>hhdm_offset := hhdm\<rparr>;
              (rs, cnt) = copy_regions c entries (replicate MAX_REGIONS empty_region) 0;
              highest = highest_address (take cnt rs)
          in if highest = 0 then s1
             else
               let tot_frames = unat (highest div PAGE_SIZE);
                   words = (tot_frames + 63) div 64;
                   bitmap_bytes = of_nat words * 8;
                   bitmap_frames = align_up bitmap_bytes PAGE_SIZE div PAGE_SIZE;
                   bitmap_phys = bitmap_place (take cnt rs) bitmap_frames
               in if bitmap_phys = 0 then s1
                  else
                    let (bm, frames) = release_regions Usable (take cnt rs) (replicate words (NOT 0)) 0;
                        bm' = fill_range bm (unat (bitmap_phys div PAGE_SIZE)) (unat bitmap_frames) True;
                        free = frames - unat bitmap_frames
                    in s1\<lparr>pmm_lock := Some
                            \<lparr>bitmap = bm', bitmap_words = words, total_frames = tot_frames,
                             free_frames = free, usable_frames = free, next_hint = 0,
                             regions = rs, region_count = cnt\<rparr>\<rparr>
      | _ \<Rightarrow> s)"

section \<open>Lemmas: the bitmap\<close>

lemma bm_test_bit_iff: "bm_test_bit bm i \<longleftrightarrow> bit (bm ! (i div 64)) (i mod 64)"
  by (simp add: bm_test_bit_def bit_iff_and_push_bit_not_eq_0)

lemma div_mod_64_eq: "i div 64 = j div 64 \<Longrightarrow> i mod 64 = j mod 64 \<longleftrightarrow> i = (j::nat)"
  by (metis div_mult_mod_eq)

lemma length_put_bit [simp]: "length (put_bit bm i used) = length bm"
  by (simp add: put_bit_def bm_set_bit_def bm_clear_bit_def)

lemma bm_test_put_bit:
  assumes "i < 64 * length bm"
  shows "bm_test_bit (put_bit bm i used) j \<longleftrightarrow> (if j = i then used else bm_test_bit bm j)"
proof -
  have i: "i div 64 < length bm"
    using assms by (simp add: less_mult_imp_div_less mult.commute)
  show ?thesis
  proof (cases "j div 64 = i div 64")
    case True
    then show ?thesis
      using i div_mod_64_eq [OF True]
      by (auto simp: put_bit_def bm_set_bit_def bm_clear_bit_def bm_test_bit_iff bit_or_iff
          bit_and_iff bit_not_iff bit_exp_iff)
  next
    case False
    then show ?thesis
      by (auto simp: put_bit_def bm_set_bit_def bm_clear_bit_def bm_test_bit_iff)
  qed
qed

lemma bm_test_put_word:
  assumes "i < 64 * length bm" "64 dvd i"
  shows "bm_test_bit (bm[i div 64 := (if used then NOT 0 else 0)]) j \<longleftrightarrow>
           (if i \<le> j \<and> j < i + 64 then used else bm_test_bit bm j)"
proof -
  have "i div 64 < length bm"
    using assms by (simp add: less_mult_imp_div_less mult.commute)
  moreover have "i \<le> j \<and> j < i + 64 \<longleftrightarrow> j div 64 = i div 64"
    using assms(2) by (auto elim!: dvdE)
  ultimately show ?thesis
    by (auto simp: bm_test_bit_iff)
qed

lemma length_fill_tail [simp]: "length (fill_tail bm first cnt used) = length bm"
  by (induction bm first cnt used rule: fill_tail.induct) (subst fill_tail.simps, auto)

lemma bm_test_fill_tail:
  "first + cnt \<le> 64 * length bm \<Longrightarrow>
   bm_test_bit (fill_tail bm first cnt used) j \<longleftrightarrow>
     (if first \<le> j \<and> j < first + cnt then used else bm_test_bit bm j)"
proof (induction bm first cnt used rule: fill_tail.induct)
  case (1 bm first cnt used)
  show ?case
  proof (cases "0 < cnt")
    case True
    then have "bm_test_bit (fill_tail bm first cnt used) j \<longleftrightarrow>
        (if first + 1 \<le> j \<and> j < first + 1 + (cnt - 1) then used
         else bm_test_bit (put_bit bm first used) j)"
      using 1 by (subst fill_tail.simps) simp
    then show ?thesis
      using 1(2) True by (auto simp: bm_test_put_bit)
  qed (auto simp: fill_tail.simps)
qed

text \<open>What the first two loops leave: the bits they have passed are filled, and the rest of the
  range is still to do.\<close>

definition filled_to :: "u64 list \<Rightarrow> nat \<Rightarrow> nat \<Rightarrow> bool \<Rightarrow> u64 list \<times> nat \<times> nat \<Rightarrow> bool" where
  "filled_to bm first cnt used r =
     (case r of (bm', first', cnt') \<Rightarrow>
        length bm' = length bm \<and> first \<le> first' \<and> first' + cnt' = first + cnt \<and>
        (\<forall>j. bm_test_bit bm' j \<longleftrightarrow> (if first \<le> j \<and> j < first' then used else bm_test_bit bm j)))"

lemma filled_to_step:
  assumes "filled_to bm' (first + d) (cnt - d) used r" "d \<le> cnt" "length bm' = length bm"
    and "\<And>j. bm_test_bit bm' j \<longleftrightarrow> (if first \<le> j \<and> j < first + d then used else bm_test_bit bm j)"
  shows "filled_to bm first cnt used r"
  using assms by (auto simp: filled_to_def split: prod.splits)

lemma filled_to_refl: "filled_to bm first cnt used (bm, first, cnt)"
  by (auto simp: filled_to_def)

lemma fill_head_filled:
  "first + cnt \<le> 64 * length bm \<Longrightarrow> filled_to bm first cnt used (fill_head bm first cnt used)"
proof (induction bm first cnt used rule: fill_head.induct)
  case (1 bm first cnt used)
  show ?case
  proof (cases "0 < cnt \<and> first mod 64 \<noteq> 0")
    case True
    then have "filled_to (put_bit bm first used) (first + 1) (cnt - 1) used (fill_head bm first cnt used)"
      using 1 by (subst fill_head.simps) simp
    then show ?thesis
      by (rule filled_to_step) (use True 1(2) in \<open>auto simp: bm_test_put_bit\<close>)
  next
    case False
    then show ?thesis by (subst fill_head.simps) (auto simp: filled_to_refl)
  qed
qed

lemma fill_head_aligned:
  "fill_head bm first cnt used = (bm', first', cnt') \<Longrightarrow> cnt' = 0 \<or> first' mod 64 = 0"
proof (induction bm first cnt used rule: fill_head.induct)
  case (1 bm first cnt used)
  show ?case
    using 1(1) 1(2) [unfolded fill_head.simps [of bm first cnt used]]
    by (cases "0 < cnt \<and> first mod 64 \<noteq> 0") auto
qed

lemma fill_words_filled:
  "first + cnt \<le> 64 * length bm \<Longrightarrow> first mod 64 = 0 \<or> cnt = 0 \<Longrightarrow>
   filled_to bm first cnt used (fill_words bm first cnt used)"
proof (induction bm first cnt used rule: fill_words.induct)
  case (1 bm first cnt used)
  show ?case
  proof (cases "64 \<le> cnt")
    case True
    let ?bm = "bm[first div 64 := (if used then NOT 0 else 0)]"
    have "filled_to ?bm (first + 64) (cnt - 64) used (fill_words bm first cnt used)"
      using 1 True by (subst fill_words.simps) simp
    moreover have "bm_test_bit ?bm j \<longleftrightarrow> (if first \<le> j \<and> j < first + 64 then used else bm_test_bit bm j)" for j
      using 1(2,3) True by (intro bm_test_put_word) auto
    moreover have "length ?bm = length bm" by simp
    ultimately show ?thesis
      using True by (rule_tac filled_to_step)
  next
    case False
    then show ?thesis by (subst fill_words.simps) (auto simp: filled_to_refl)
  qed
qed

lemma fill_range_bits:
  assumes "first + cnt \<le> 64 * length bm"
  shows "length (fill_range bm first cnt used) = length bm"
    and "bm_test_bit (fill_range bm first cnt used) j \<longleftrightarrow>
           (if first \<le> j \<and> j < first + cnt then used else bm_test_bit bm j)"
proof -
  obtain bm1 f1 c1 where 1: "fill_head bm first cnt used = (bm1, f1, c1)" by (metis prod_cases3)
  obtain bm2 f2 c2 where 2: "fill_words bm1 f1 c1 used = (bm2, f2, c2)" by (metis prod_cases3)
  have h: "filled_to bm first cnt used (bm1, f1, c1)"
    using fill_head_filled [OF assms, of used] 1 by simp
  have w: "filled_to bm1 f1 c1 used (bm2, f2, c2)"
    using fill_words_filled [of f1 c1 bm1 used] fill_head_aligned [OF 1] h 2 assms
    by (auto simp: filled_to_def)
  have eq: "fill_range bm first cnt used = fill_tail bm2 f2 c2 used"
    by (simp add: fill_range_def 1 2)
  show "length (fill_range bm first cnt used) = length bm"
    using h w by (simp add: eq filled_to_def)
  show "bm_test_bit (fill_range bm first cnt used) j \<longleftrightarrow>
           (if first \<le> j \<and> j < first + cnt then used else bm_test_bit bm j)"
    using h w assms by (auto simp: eq filled_to_def bm_test_fill_tail)
qed


section \<open>Lemmas: invariant, allocation of one frame\<close>

definition free_set :: "pmm \<Rightarrow> nat set" where
  "free_set p = {i. i < 64 * length (bitmap p) \<and> \<not> bm_test_bit (bitmap p) i}"

text \<open>The allocator's invariant: the bitmap has a word for every 64 frames, the bits past the last
  frame are set, the counter counts the clear bits, and every frame's address fits in 64 bits.\<close>

definition pmm_inv :: "pmm \<Rightarrow> bool" where
  "pmm_inv p \<longleftrightarrow>
     length (bitmap p) = bitmap_words p \<and> bitmap_words p = (total_frames p + 63) div 64 \<and>
     free_set p \<subseteq> {..<total_frames p} \<and> free_frames p = card (free_set p) \<and>
     total_frames p * 4096 < 18446744073709551616"

lemma finite_free_set [simp, intro]: "finite (free_set p)"
  by (rule finite_subset [of _ "{..<64 * length (bitmap p)}"]) (auto simp: free_set_def)

lemma pmm_invD:
  assumes "pmm_inv p"
  shows "length (bitmap p) = bitmap_words p" "total_frames p \<le> 64 * length (bitmap p)"
    "free_set p \<subseteq> {..<total_frames p}" "free_frames p = card (free_set p)"
    "total_frames p * 4096 < 18446744073709551616"
  using assms by (auto simp: pmm_inv_def)

lemma free_set_update [simp]:
  "free_set (p\<lparr>free_frames := a\<rparr>) = free_set p" "free_set (p\<lparr>next_hint := b\<rparr>) = free_set p"
  "free_set (p\<lparr>usable_frames := c\<rparr>) = free_set p"
  by (simp_all add: free_set_def)

lemma free_set_fill_range:
  assumes "first + cnt \<le> 64 * length (bitmap p)"
  shows "free_set (p\<lparr>bitmap := fill_range (bitmap p) first cnt used\<rparr>) =
           (if used then free_set p - {first..<first + cnt} else free_set p \<union> {first..<first + cnt})"
  using assms by (auto simp: free_set_def fill_range_bits)

lemma trailing_zeros_bit:
  assumes "w \<noteq> 0"
  shows "trailing_zeros w < 64" "bit w (trailing_zeros w)"
proof -
  obtain n where n: "bit w n"
    using assms by (auto simp: bit_eq_iff)
  then have "n < 64" using bit_imp_le_length [of w n] by simp
  have "\<exists>i\<in>set [0..<64]. \<not> \<not> bit w i" using n \<open>n < 64\<close> by auto
  then have "takeWhile (\<lambda>i. \<not> bit w i) [0..<64] \<noteq> [0..<64]"
    by (metis takeWhile_eq_all_conv)
  then have l: "trailing_zeros w < length [0..<64]"
    unfolding trailing_zeros_def
    by (metis length_takeWhile_le linorder_not_le order_antisym takeWhile_eq_take take_all_iff)
  then show "trailing_zeros w < 64" by simp
  show "bit w (trailing_zeros w)"
    using nth_length_takeWhile [of "\<lambda>i. \<not> bit w i" "[0..<64]"] l
    by (simp add: trailing_zeros_def)
qed

lemma unat_frame_address:
  "f * 4096 < 18446744073709551616 \<Longrightarrow> unat (of_nat f * PAGE_SIZE) = f * 4096"
  by (metis (no_types, lifting) of_nat_mult of_nat_numeral unat_of_nat_u64)

lemma word_full_iff: "w = (NOT 0 :: u64) \<longleftrightarrow> (\<forall>i<64. bit w i)"
  by (auto simp: bit_eq_iff bit_not_iff dest: bit_imp_le_length)

lemma bm_word_full:
  assumes "w < length bm" "bm ! w = NOT 0" "i div 64 = w"
  shows "bm_test_bit bm i"
  using assms by (simp add: bm_test_bit_iff)

text \<open>The search visits every word once, so failing means that no bit is clear.\<close>

lemma mod_rotation_surj:
  "w < n \<Longrightarrow> \<exists>k\<in>set [0..<n]. (h + k) mod n = (w::nat)"
proof -
  assume w: "w < n"
  have "(h + (w + n * h - h) mod n) mod n = (h + (w + n * h - h)) mod n"
    by (simp add: mod_add_right_eq)
  also have "h + (w + n * h - h) = w + n * h"
    using w by (cases n) auto
  also have "(w + n * h) mod n = w" using w by simp
  finally show ?thesis
    using w by (intro bexI [of _ "(w + n * h - h) mod n"]) auto
qed

lemma alloc_one_loop_cases:
  "(alloc_one_loop p ns = (None, p) \<and> (\<forall>n\<in>set ns. bitmap p ! ((next_hint p + n) mod bitmap_words p) = NOT 0)) \<or>
   (\<exists>n w b. w = (next_hint p + n) mod bitmap_words p \<and> b = trailing_zeros (NOT (bitmap p ! w)) \<and>
     bitmap p ! w \<noteq> NOT 0 \<and>
     alloc_one_loop p ns =
       (Some (of_nat (w * 64 + b) * PAGE_SIZE),
         p\<lparr>bitmap := (bitmap p)[w := (bitmap p ! w) OR push_bit b 1],
           free_frames := free_frames p - 1, next_hint := w\<rparr>))"
proof (induction ns)
  case (Cons n ns)
  show ?case
  proof (cases "bitmap p ! ((next_hint p + n) mod bitmap_words p) = NOT 0")
    case True
    then have "alloc_one_loop p (n # ns) = alloc_one_loop p ns" by (simp add: Let_def)
    then show ?thesis using Cons.IH True by auto
  next
    case False
    then show ?thesis
      by (intro disjI2 exI [of _ n] exI conjI) (rule refl, rule refl, simp_all add: Let_def)
  qed
qed simp

lemma not_eq_zero_iff: "NOT w = 0 \<longleftrightarrow> w = (NOT 0 :: u64)"
  by (metis bit.double_compl)

lemma alloc_one_spec:
  assumes "pmm_inv p"
  shows "(alloc_one p = (None, p) \<and> free_set p = {}) \<or>
    (\<exists>f p'. alloc_one p = (Some (of_nat f * PAGE_SIZE), p') \<and> f \<in> free_set p \<and>
       free_set p' = free_set p - {f} \<and> pmm_inv p' \<and> total_frames p' = total_frames p \<and>
       regions p' = regions p \<and> region_count p' = region_count p \<and> usable_frames p' = usable_frames p)"
proof (cases "free_frames p = 0")
  case True
  then show ?thesis using pmm_invD [OF assms] by (simp add: alloc_one_def)
next
  case False
  note inv = pmm_invD [OF assms]
  have some: "\<exists>f\<in>free_set p. True" using False inv by auto
  then have "0 < length (bitmap p)" by (auto simp: free_set_def)
  then have words: "(next_hint p + n) mod bitmap_words p < length (bitmap p)" for n
    using inv by simp
  consider (none) "\<forall>n\<in>set [0..<bitmap_words p]. bitmap p ! ((next_hint p + n) mod bitmap_words p) = NOT 0"
    | (found) n w b where "w = (next_hint p + n) mod bitmap_words p" "b = trailing_zeros (NOT (bitmap p ! w))"
      "bitmap p ! w \<noteq> NOT 0"
      "alloc_one p = (Some (of_nat (w * 64 + b) * PAGE_SIZE),
         p\<lparr>bitmap := (bitmap p)[w := (bitmap p ! w) OR push_bit b 1],
           free_frames := free_frames p - 1, next_hint := w\<rparr>)"
    using alloc_one_loop_cases [of p "[0..<bitmap_words p]"] False
    unfolding alloc_one_def by (simp only: if_False) blast
  then show ?thesis
  proof cases
    case none
    have "bm_test_bit (bitmap p) f" if "f < 64 * length (bitmap p)" for f
    proof -
      have "f div 64 < bitmap_words p" using that inv by (simp add: less_mult_imp_div_less mult.commute)
      then obtain k where "k \<in> set [0..<bitmap_words p]" "(next_hint p + k) mod bitmap_words p = f div 64"
        using mod_rotation_surj by blast
      then show ?thesis using none bm_word_full [of "f div 64" "bitmap p" f] that
        by (metis inv(1) \<open>f div 64 < bitmap_words p\<close>)
    qed
    then show ?thesis using some by (auto simp: free_set_def)
  next
    case found
    define f where "f = w * 64 + b"
    have b: "b < 64" "\<not> bit (bitmap p ! w) b"
      using trailing_zeros_bit [of "NOT (bitmap p ! w)"] found(2,3)
      by (auto simp: not_eq_zero_iff bit_not_iff)
    have f: "f div 64 = w" "f mod 64 = b" using b by (auto simp: f_def)
    have len: "f < 64 * length (bitmap p)" using words [of n] found(1) b by (auto simp: f_def)
    have free: "f \<in> free_set p" using len f b by (simp add: free_set_def bm_test_bit_iff)
    have put: "(bitmap p)[w := (bitmap p ! w) OR push_bit b 1] = put_bit (bitmap p) f True"
      using f by (simp add: put_bit_def bm_set_bit_def)
    define p' where "p' = p\<lparr>bitmap := put_bit (bitmap p) f True, free_frames := free_frames p - 1, next_hint := w\<rparr>"
    have set: "free_set p' = free_set p - {f}"
      using len by (auto simp: p'_def free_set_def bm_test_put_bit)
    then have "pmm_inv p'"
      using assms free by (auto simp: pmm_inv_def p'_def card_Diff_singleton)
    moreover have "alloc_one p = (Some (of_nat f * PAGE_SIZE), p')"
      using found(4) unfolding put p'_def f_def .
    ultimately show ?thesis
      using set free by (intro disjI2 exI [of _ f] exI [of _ p']) (simp add: p'_def)
  qed
qed

section \<open>Lemmas: contiguous allocation and release\<close>

definition run_at :: "u64 list \<Rightarrow> nat \<Rightarrow> nat \<Rightarrow> nat \<Rightarrow> bool" where
  "run_at bm tot cnt s \<longleftrightarrow> s + cnt \<le> tot \<and> (\<forall>i\<in>{s..<s + cnt}. \<not> bm_test_bit bm i)"

lemma contiguous_loop_spec:
  assumes "run < cnt" "run \<le> frame" "\<forall>i. frame - run \<le> i \<and> i < frame \<longrightarrow> \<not> bm_test_bit bm i"
    "0 < run \<longrightarrow> start = frame - run" "\<forall>s. run_at bm tot cnt s \<longrightarrow> frame - run \<le> s"
  shows "case contiguous_loop bm tot cnt run start frame of
      None \<Rightarrow> \<forall>s. \<not> run_at bm tot cnt s
    | Some s \<Rightarrow> run_at bm tot cnt s \<and> (\<forall>s'. run_at bm tot cnt s' \<longrightarrow> s \<le> s')"
  using assms
proof (induction bm tot cnt run start frame rule: contiguous_loop.induct)
  case (1 bm tot cnt run start frame)
  note IH = 1(1,2,3) and pre = 1(4-8)
  have nil: "\<not> (x \<le> i \<and> i < x)" for x i :: nat by simp
  consider (over) "\<not> frame < tot"
    | (full) "frame < tot" "frame mod 64 = 0" "bm ! (frame div 64) = NOT 0"
    | (used) "frame < tot" "\<not> (frame mod 64 = 0 \<and> bm ! (frame div 64) = NOT 0)" "bm_test_bit bm frame"
    | (clear) "frame < tot" "\<not> (frame mod 64 = 0 \<and> bm ! (frame div 64) = NOT 0)" "\<not> bm_test_bit bm frame"
    by metis
  then show ?case
  proof cases
    case over
    have "\<not> run_at bm tot cnt s" for s
    proof
      assume r: "run_at bm tot cnt s"
      then have "frame - run \<le> s" "s + cnt \<le> tot" using pre(5) by (auto simp: run_at_def)
      then show False using over pre(1,2) by linarith
    qed
    then show ?thesis
      using over by (subst contiguous_loop.simps) simp
  next
    case full
    have word: "bm_test_bit bm i" if "frame \<le> i" "i < frame + 64" for i
    proof -
      obtain k where "frame = 64 * k" using full(2) by auto
      then have "i div 64 = frame div 64" using that by (intro div_nat_eqI) auto
      then show ?thesis using full(3) by (simp add: bm_test_bit_iff)
    qed
    have "frame + 64 \<le> s" if r: "run_at bm tot cnt s" for s
    proof (rule ccontr)
      assume "\<not> frame + 64 \<le> s"
      then have "max s frame \<in> {s..<s + cnt}" "frame \<le> max s frame" "max s frame < frame + 64"
        using pre r by auto
      then show False using word [of "max s frame"] r unfolding run_at_def by blast
    qed
    moreover have "contiguous_loop bm tot cnt run start frame = contiguous_loop bm tot cnt 0 start (frame + 64)"
      using full by (subst contiguous_loop.simps) simp
    ultimately show ?thesis
      using IH(1) full pre(1) by (simp add: nil)
  next
    case used
    have "frame + 1 \<le> s" if r: "run_at bm tot cnt s" for s
    proof (rule ccontr)
      assume "\<not> frame + 1 \<le> s"
      then have "frame \<in> {s..<s + cnt}" using pre r by auto
      then show False using used(3) r by (auto simp: run_at_def)
    qed
    moreover have "contiguous_loop bm tot cnt run start frame = contiguous_loop bm tot cnt 0 start (frame + 1)"
      using used by (subst contiguous_loop.simps) auto
    ultimately show ?thesis
      using IH(2) used pre(1) by (simp add: nil)
  next
    case clear
    define start' where "start' = (if run = 0 then frame else start)"
    have s': "start' = frame - run" using pre by (auto simp: start'_def)
    have clr: "\<not> bm_test_bit bm i" if "frame - run \<le> i" "i < frame + 1" for i
      using pre(3) clear(3) that by (cases "i = frame") auto
    show ?thesis
    proof (cases "run + 1 = cnt")
      case True
      have eq: "contiguous_loop bm tot cnt run start frame = Some start'"
        using clear True by (subst contiguous_loop.simps) (auto simp: start'_def Let_def)
      have "run_at bm tot cnt start'"
        using clr clear(1) pre(2) True by (auto simp: run_at_def s')
      then show ?thesis using pre(5) by (simp add: eq s')
    next
      case False
      have "contiguous_loop bm tot cnt run start frame = contiguous_loop bm tot cnt (run + 1) start' (frame + 1)"
        using clear False by (subst contiguous_loop.simps) (auto simp: start'_def Let_def)
      then show ?thesis
        using IH(3) [of start' "run + 1"] clear False pre s' clr by (simp add: start'_def [symmetric])
    qed
  qed
qed

lemma run_at_free_set:
  assumes "pmm_inv p"
  shows "run_at (bitmap p) (total_frames p) cnt s \<longleftrightarrow>
           s + cnt \<le> total_frames p \<and> {s..<s + cnt} \<subseteq> free_set p"
  using pmm_invD(1,2) [OF assms] by (auto simp: run_at_def free_set_def subset_eq)

lemma pmm_inv_fill_range:
  assumes "pmm_inv p" "first + cnt \<le> total_frames p"
    and "p' = p\<lparr>bitmap := fill_range (bitmap p) first cnt used, free_frames := n, next_hint := h\<rparr>"
    and "used \<longrightarrow> {first..<first + cnt} \<subseteq> free_set p \<and> n = free_frames p - cnt"
    and "\<not> used \<longrightarrow> {first..<first + cnt} \<inter> free_set p = {} \<and> n = free_frames p + cnt"
  shows "pmm_inv p'"
    and "free_set p' = (if used then free_set p - {first..<first + cnt} else free_set p \<union> {first..<first + cnt})"
proof -
  note inv = pmm_invD [OF assms(1)]
  have le: "first + cnt \<le> 64 * length (bitmap p)" using assms(2) inv by simp
  show set: "free_set p' = (if used then free_set p - {first..<first + cnt} else free_set p \<union> {first..<first + cnt})"
    using free_set_fill_range [OF le] by (simp add: assms(3))
  have "n = card (free_set p')"
    unfolding set using assms(4,5) inv by (auto simp: card_Diff_subset card_Un_disjoint Int_commute)
  then show "pmm_inv p'"
    using assms(1,2) set le by (auto simp: pmm_inv_def assms(3) fill_range_bits)
qed

text \<open>Allocation of a run is first fit, and complete: it fails only if there is no run.\<close>

lemma pmm_alloc_contiguous_spec:
  assumes "pmm_inv p" "0 < cnt"
  shows "(pmm_alloc_contiguous p cnt = (None, p) \<and> (\<forall>s. \<not> {s..<s + cnt} \<subseteq> free_set p)) \<or>
    (\<exists>s p'. pmm_alloc_contiguous p cnt = (Some (of_nat s * PAGE_SIZE), p') \<and>
       {s..<s + cnt} \<subseteq> free_set p \<and> (\<forall>s'. {s'..<s' + cnt} \<subseteq> free_set p \<longrightarrow> s \<le> s') \<and>
       free_set p' = free_set p - {s..<s + cnt} \<and> pmm_inv p' \<and> total_frames p' = total_frames p)"
proof -
  note inv = pmm_invD [OF assms(1)]
  have bound: "s + cnt \<le> total_frames p" if "{s..<s + cnt} \<subseteq> free_set p" for s
  proof -
    have "s + cnt - 1 \<in> {s..<s + cnt}" using assms(2) by auto
    then have "s + cnt - 1 < total_frames p" using that inv(3) by blast
    then show ?thesis by simp
  qed
  show ?thesis
  proof (cases "free_frames p < cnt")
    case True
    have "\<not> {s..<s + cnt} \<subseteq> free_set p" for s
      using card_mono [of "free_set p" "{s..<s + cnt}"] True inv(4) by auto
    then show ?thesis using True by (simp add: pmm_alloc_contiguous_def)
  next
    case False
    note loop = contiguous_loop_spec [of 0 cnt 0 "bitmap p" 0 "total_frames p"]
    show ?thesis
    proof (cases "contiguous_loop (bitmap p) (total_frames p) cnt 0 0 0")
      case None
      then show ?thesis
        using loop assms False bound
        by (auto simp: pmm_alloc_contiguous_def run_at_free_set)
    next
      case (Some s)
      define p' where "p' = p\<lparr>bitmap := fill_range (bitmap p) s cnt True, free_frames := free_frames p - cnt\<rparr>"
      have fit: "s + cnt \<le> total_frames p" "{s..<s + cnt} \<subseteq> free_set p"
        "\<forall>s'. {s'..<s' + cnt} \<subseteq> free_set p \<longrightarrow> s \<le> s'"
        using loop Some assms bound by (auto simp: run_at_free_set)
      have "pmm_inv p'" "free_set p' = free_set p - {s..<s + cnt}"
        using pmm_inv_fill_range [OF assms(1) fit(1), where p' = p' and n = "free_frames p - cnt" and used = True and h = "next_hint p"] fit
        by (simp_all add: p'_def)
      moreover have "pmm_alloc_contiguous p cnt = (Some (of_nat s * PAGE_SIZE), p')"
        using Some False assms(2) by (simp add: pmm_alloc_contiguous_def p'_def)
      ultimately show ?thesis using fit by (auto simp: p'_def)
    qed
  qed
qed

lemma unat_frame_of: "unat (phys div PAGE_SIZE) = unat phys div 4096"
  by (simp add: unat_div)

lemma aligned_iff: "phys mod PAGE_SIZE = 0 \<longleftrightarrow> unat phys mod 4096 = 0"
  by (simp add: word_unat_eq_iff unat_mod_distrib)

text \<open>Release, branch by branch.\<close>

lemma pmm_free_spec:
  assumes "pmm_inv p" "0 < cnt" "first = unat phys div 4096"
  shows "unat phys mod 4096 \<noteq> 0 \<Longrightarrow> pmm_free p phys cnt = (Inl Unaligned, p)"
    and "unat phys mod 4096 = 0 \<Longrightarrow> total_frames p < first + cnt \<Longrightarrow> pmm_free p phys cnt = (Inl OutOfRange, p)"
    and "unat phys mod 4096 = 0 \<Longrightarrow> first + cnt \<le> total_frames p \<Longrightarrow>
         {first..<first + cnt} \<inter> free_set p \<noteq> {} \<Longrightarrow> pmm_free p phys cnt = (Inl NotAllocated, p)"
    and "unat phys mod 4096 = 0 \<Longrightarrow> first + cnt \<le> total_frames p \<Longrightarrow>
         {first..<first + cnt} \<inter> free_set p = {} \<Longrightarrow>
         \<exists>p'. pmm_free p phys cnt = (Inr (), p') \<and> pmm_inv p' \<and> total_frames p' = total_frames p \<and>
              free_set p' = free_set p \<union> {first..<first + cnt}"
proof -
  note inv = pmm_invD [OF assms(1)]
  have used: "list_all (bm_test_bit (bitmap p)) [first..<first + cnt] \<longleftrightarrow> {first..<first + cnt} \<inter> free_set p = {}"
    if "first + cnt \<le> total_frames p"
    using that inv(2) by (auto simp: list_all_iff free_set_def disjoint_iff)
  show "unat phys mod 4096 \<noteq> 0 \<Longrightarrow> pmm_free p phys cnt = (Inl Unaligned, p)"
    using assms(2) by (simp add: pmm_free_def aligned_iff)
  show "unat phys mod 4096 = 0 \<Longrightarrow> total_frames p < first + cnt \<Longrightarrow> pmm_free p phys cnt = (Inl OutOfRange, p)"
    using assms(2,3) by (auto simp: pmm_free_def aligned_iff unat_frame_of checked_add_usize_def Let_def)
  assume al: "unat phys mod 4096 = 0" and le: "first + cnt \<le> total_frames p"
  have add: "checked_add_usize (unat phys div 4096) cnt = Some (first + cnt)"
    using le inv(5) assms(3) by (simp add: checked_add_usize_def)
  show "{first..<first + cnt} \<inter> free_set p \<noteq> {} \<Longrightarrow> pmm_free p phys cnt = (Inl NotAllocated, p)"
    using al le add used assms(2,3) by (simp add: pmm_free_def aligned_iff unat_frame_of Let_def)
  assume free: "{first..<first + cnt} \<inter> free_set p = {}"
  define p' where "p' = p\<lparr>bitmap := fill_range (bitmap p) first cnt False, free_frames := free_frames p + cnt,
    next_hint := min (next_hint p) (first div 64)\<rparr>"
  have "pmm_free p phys cnt = (Inr (), p')"
    using al le add used free assms(2,3) by (simp add: pmm_free_def aligned_iff unat_frame_of Let_def p'_def)
  moreover have "pmm_inv p'" "free_set p' = free_set p \<union> {first..<first + cnt}"
    using pmm_inv_fill_range [OF assms(1) le p'_def] free by simp_all
  ultimately show "\<exists>p'. pmm_free p phys cnt = (Inr (), p') \<and> pmm_inv p' \<and> total_frames p' = total_frames p \<and>
              free_set p' = free_set p \<union> {first..<first + cnt}"
    by (auto simp: p'_def)
qed

section \<open>Lemmas: building the bitmap from the memory map\<close>

definition allocatable :: "region \<Rightarrow> bool" where
  "allocatable r \<longleftrightarrow> rkind r = Usable \<or> rkind r = BootloaderReclaimable"

definition region_limit :: "region \<Rightarrow> nat" where
  "region_limit r = unat (rbase r) + unat (rlen r)"

fun disjoint_regions :: "region list \<Rightarrow> bool" where
  "disjoint_regions [] = True"
| "disjoint_regions (r # rs) =
     (list_all (\<lambda>q. allocatable r \<and> allocatable q \<longrightarrow>
         region_limit r \<le> unat (rbase q) \<or> region_limit q \<le> unat (rbase r)) rs \<and> disjoint_regions rs)"

text \<open>What the boot protocol promises of the memory map: allocatable regions do not reach the last
  page of the address space, end below the frame limit and do not overlap.\<close>

definition regions_ok :: "region list \<Rightarrow> nat \<Rightarrow> bool" where
  "regions_ok rs tot \<longleftrightarrow> disjoint_regions rs \<and>
     list_all (\<lambda>r. allocatable r \<longrightarrow>
        region_limit r + 4096 < 18446744073709551616 \<and> region_limit r div 4096 \<le> tot) rs"

definition region_frames :: "region \<Rightarrow> nat set" where
  "region_frames r = {unat (region_start r) div 4096 ..< unat (region_end r) div 4096}"

definition kind_frames :: "kind \<Rightarrow> region list \<Rightarrow> nat set" where
  "kind_frames k rs = (\<Union>r \<in> {r \<in> set rs. rkind r = k}. region_frames r)"

lemma unat_max_u64: "unat (max a b) = max (unat a) (unat (b::u64))"
  by (simp add: max_def word_le_nat_alt)

lemma region_bounds:
  assumes "region_limit r + 4096 < 18446744073709551616"
  shows "unat (region_start r) = (max (unat (rbase r)) 1048576 + 4095) div 4096 * 4096"
    and "unat (region_end r) = region_limit r div 4096 * 4096"
proof -
  have "unat (max (rbase r) MIN_ALLOC_ADDR) = max (unat (rbase r)) 1048576"
    by (simp add: unat_max_u64 MIN_ALLOC_ADDR_def)
  moreover have "max (unat (rbase r)) 1048576 + 4095 < 18446744073709551616"
    using assms by (simp add: region_limit_def)
  ultimately show "unat (region_start r) = (max (unat (rbase r)) 1048576 + 4095) div 4096 * 4096"
    unfolding region_start_def by (simp add: unat_align_up_page)
  have "unat (rbase r + rlen r) = region_limit r"
    using assms by (simp add: region_limit_def unat_add_u64)
  then show "unat (region_end r) = region_limit r div 4096 * 4096"
    unfolding region_end_def by (simp add: unat_align_down_page)
qed

lemma region_frames_bounds:
  assumes "region_limit r + 4096 < 18446744073709551616" "f \<in> region_frames r"
  shows "unat (rbase r) \<le> f * 4096" "f * 4096 + 4096 \<le> region_limit r" "256 \<le> f" "f < region_limit r div 4096"
  using assms(2) unfolding region_frames_def region_bounds [OF assms(1)] by auto

lemma region_frames_disjoint:
  assumes "region_limit r + 4096 < 18446744073709551616" "region_limit q + 4096 < 18446744073709551616"
    and "region_limit r \<le> unat (rbase q) \<or> region_limit q \<le> unat (rbase r)"
  shows "region_frames r \<inter> region_frames q = {}"
  using region_frames_bounds(1,2) [OF assms(1)] region_frames_bounds(1,2) [OF assms(2)] assms(3)
  by (force simp: disjoint_iff)

text \<open>What the loops compute for one region: the first frame and the number of frames.\<close>

lemma region_words:
  assumes "region_limit r + 4096 < 18446744073709551616"
  shows "region_end r > region_start r \<longleftrightarrow> region_frames r \<noteq> {}"
    and "region_end r > region_start r \<Longrightarrow>
      unat ((region_end r - region_start r) div PAGE_SIZE) = card (region_frames r)"
    and "region_end r > region_start r \<Longrightarrow>
      region_frames r = {unat (region_start r div PAGE_SIZE) ..<
                         unat (region_start r div PAGE_SIZE) + card (region_frames r)}"
proof -
  note b = region_bounds [OF assms]
  show "region_end r > region_start r \<longleftrightarrow> region_frames r \<noteq> {}"
    by (auto simp: word_less_nat_alt region_frames_def b)
  assume less: "region_end r > region_start r"
  then have "unat (region_end r - region_start r) = unat (region_end r) - unat (region_start r)"
    by (simp add: unat_sub less_imp_le)
  then show n: "unat ((region_end r - region_start r) div PAGE_SIZE) = card (region_frames r)"
    by (simp add: unat_frame_of region_frames_def b flip: diff_mult_distrib)
  show "region_frames r = {unat (region_start r div PAGE_SIZE) ..<
                         unat (region_start r div PAGE_SIZE) + card (region_frames r)}"
    using less by (simp add: region_frames_def unat_frame_of b word_less_nat_alt)
qed

lemma kind_frames_Cons:
  "kind_frames k (r # rs) = (if rkind r = k then region_frames r else {}) \<union> kind_frames k rs"
  by (auto simp: kind_frames_def)

lemma regions_ok_Cons:
  "regions_ok (r # rs) tot \<longleftrightarrow>
     list_all (\<lambda>q. allocatable r \<and> allocatable q \<longrightarrow>
         region_limit r \<le> unat (rbase q) \<or> region_limit q \<le> unat (rbase r)) rs \<and>
     (allocatable r \<longrightarrow> region_limit r + 4096 < 18446744073709551616 \<and> region_limit r div 4096 \<le> tot) \<and>
     regions_ok rs tot"
  by (auto simp: regions_ok_def)

lemma finite_kind_frames [simp]: "finite (kind_frames k rs)"
  by (auto simp: kind_frames_def region_frames_def)

lemma regions_okD:
  assumes "regions_ok rs tot" "r \<in> set rs" "allocatable r"
  shows "region_limit r + 4096 < 18446744073709551616" "region_limit r div 4096 \<le> tot"
  using assms by (auto simp: regions_ok_def list_all_iff)

lemma kind_frames_bounds:
  assumes "regions_ok rs tot" "k = Usable \<or> k = BootloaderReclaimable" "f \<in> kind_frames k rs"
  shows "f < tot" "256 \<le> f"
proof -
  obtain r where r: "r \<in> set rs" "allocatable r" "f \<in> region_frames r"
    using assms(2,3) by (auto simp: kind_frames_def allocatable_def)
  note ok = regions_okD [OF assms(1) r(1,2)]
  show "f < tot" "256 \<le> f"
    using region_frames_bounds(3,4) [OF ok(1) r(3)] ok(2) by simp_all
qed

lemma region_kind_disjoint:
  assumes "regions_ok (r # rs) tot" "allocatable r" "k = Usable \<or> k = BootloaderReclaimable"
  shows "region_frames r \<inter> kind_frames k rs = {}"
proof -
  have "region_frames r \<inter> region_frames q = {}" if "q \<in> set rs" "rkind q = k" for q
  proof -
    have "allocatable q" using that assms(3) by (simp add: allocatable_def)
    then show ?thesis
      using assms(1,2) that regions_okD [of rs tot q]
      by (intro region_frames_disjoint) (auto simp: regions_ok_Cons list_all_iff)
  qed
  then show ?thesis by (auto simp: kind_frames_def)
qed

lemma kinds_disjoint:
  "regions_ok rs tot \<Longrightarrow> kind_frames Usable rs \<inter> kind_frames BootloaderReclaimable rs = {}"
proof (induction rs)
  case (Cons r rs)
  have "regions_ok rs tot" using Cons.prems by (simp add: regions_ok_Cons)
  with Cons.IH show ?case
    using region_kind_disjoint [OF Cons.prems, of Usable] region_kind_disjoint [OF Cons.prems, of BootloaderReclaimable]
    by (auto simp: kind_frames_Cons allocatable_def)
qed (simp add: kind_frames_def)

lemma release_regions_spec:
  assumes "regions_ok rs tot" "tot \<le> 64 * length bm" "k = Usable \<or> k = BootloaderReclaimable"
    "release_regions k rs bm n = (bm', n')"
  shows "length bm' = length bm \<and> n' = n + card (kind_frames k rs) \<and>
    (\<forall>i. bm_test_bit bm' i \<longleftrightarrow> bm_test_bit bm i \<and> i \<notin> kind_frames k rs)"
  using assms
proof (induction rs arbitrary: bm n)
  case Nil
  then show ?case by (simp add: kind_frames_def)
next
  case (Cons r rs)
  have ok: "regions_ok rs tot" using Cons.prems by (simp add: regions_ok_Cons)
  show ?case
  proof (cases "rkind r = k")
    case False
    then show ?thesis using Cons ok by (simp add: kind_frames_Cons)
  next
    case True
    have al: "allocatable r" using True Cons.prems(3) by (auto simp: allocatable_def)
    note lim = regions_okD [OF Cons.prems(1) list.set_intros(1) al] and w = region_words [OF lim(1)]
    show ?thesis
    proof (cases "region_end r > region_start r")
      case False
      then show ?thesis using Cons ok True w(1) by (simp add: kind_frames_Cons)
    next
      case less: True
      define first where "first = unat (region_start r div PAGE_SIZE)"
      define c where "c = card (region_frames r)"
      have fr: "region_frames r = {first..<first + c}" using w(3) [OF less] by (simp add: first_def c_def)
      have "0 < c" using w(1) less by (auto simp: c_def region_frames_def card_gt_0_iff)
      then have "first + c - 1 \<in> region_frames r" by (auto simp: fr)
      then have le: "first + c \<le> 64 * length bm"
        using region_frames_bounds(4) [OF lim(1), of "first + c - 1"] lim(2) Cons.prems(2) by linarith
      have rec: "release_regions k rs (fill_range bm first c False) (n + c) = (bm', n')"
        using Cons.prems(4) True less w(2) by (simp add: Let_def first_def c_def)
      have disj: "region_frames r \<inter> kind_frames k rs = {}"
        using region_kind_disjoint [OF Cons.prems(1) al Cons.prems(3)] .
      have "card (kind_frames k (r # rs)) = c + card (kind_frames k rs)"
        using True disj by (simp add: kind_frames_Cons c_def card_Un_disjoint region_frames_def)
      then show ?thesis
        using Cons.IH [OF ok _ Cons.prems(3) rec] Cons.prems(2) True fr
        by (auto simp: kind_frames_Cons fill_range_bits [OF le])
    qed
  qed
qed

definition entry_region :: "'ty entry_type_consts \<Rightarrow> 'ty mm_entry \<Rightarrow> region" where
  "entry_region c e = \<lparr>rbase = entry_base e, rlen = entry_length e, rkind = kind_of c (entry_type e)\<rparr>"

lemma copy_regions_take:
  "copy_regions c es rs cnt = (rs', cnt') \<Longrightarrow> length rs = 128 \<Longrightarrow> cnt \<le> 128 \<Longrightarrow>
   take cnt' rs' = take cnt rs @ map (entry_region c) (take (128 - cnt) es)"
proof (induction es arbitrary: rs cnt)
  case (Cons e es)
  show ?case
  proof (cases "cnt = 128")
    case False
    let ?rs = "rs[cnt := entry_region c e]"
    have "copy_regions c es ?rs (cnt + 1) = (rs', cnt')"
      using Cons.prems False by (simp add: MAX_REGIONS_def entry_region_def)
    then have "take cnt' rs' = take (cnt + 1) ?rs @ map (entry_region c) (take (128 - (cnt + 1)) es)"
      using Cons.IH [of ?rs "cnt + 1"] Cons.prems False by simp
    moreover have "take (cnt + 1) ?rs = take cnt rs @ [entry_region c e]"
      using Cons.prems False by (simp add: take_Suc_conv_app_nth)
    moreover have "128 - cnt = Suc (128 - (cnt + 1))" using False Cons.prems by simp
    ultimately show ?thesis by simp
  qed (use Cons.prems in \<open>simp add: MAX_REGIONS_def\<close>)
qed simp

lemma highest_fold:
  "h \<le> fold (\<lambda>r highest. if rkind r = Usable \<or> rkind r = BootloaderReclaimable
                       then max highest (rbase r + rlen r) else highest) rs (h::u64)"
proof (induction rs arbitrary: h)
  case (Cons r rs)
  show ?case
    using Cons.IH [of h] Cons.IH [of "max h (rbase r + rlen r)"] by auto
qed simp

lemma highest_address_ge:
  assumes "r \<in> set rs" "allocatable r" "region_limit r + 4096 < 18446744073709551616"
  shows "region_limit r \<le> unat (highest_address rs)"
proof -
  have "region_limit r = unat (rbase r + rlen r)"
    using assms(3) by (simp add: region_limit_def unat_add_u64)
  moreover have "rbase r + rlen r \<le> fold (\<lambda>r highest. if rkind r = Usable \<or> rkind r = BootloaderReclaimable
                       then max highest (rbase r + rlen r) else highest) rs h" for h
    using assms(1,2)
  proof (induction rs arbitrary: h)
    case (Cons q rs)
    then show ?case
      using order_trans [OF max.cobounded2 [of "rbase r + rlen r" h] highest_fold [of "max h (rbase r + rlen r)" rs]]
      by (auto simp: allocatable_def)
  qed simp
  ultimately show ?thesis by (simp add: highest_address_def word_le_nat_alt)
qed

lemma regions_ok_highest:
  assumes "regions_ok rs tot"
  shows "regions_ok rs (unat (highest_address rs) div 4096)"
  using assms highest_address_ge [of _ rs]
  by (auto simp: regions_ok_def list_all_iff intro!: div_le_mono)

definition bitmap_frames_for :: "nat \<Rightarrow> nat" where
  "bitmap_frames_for tot = ((tot + 63) div 64 * 8 + 4095) div 4096"

lemma unat_bitmap_frames:
  assumes "tot * 4096 < 18446744073709551616"
  shows "unat (align_up (of_nat ((tot + 63) div 64) * 8) PAGE_SIZE div PAGE_SIZE) = bitmap_frames_for tot"
    and "unat (align_up (of_nat ((tot + 63) div 64) * 8) PAGE_SIZE div PAGE_SIZE * PAGE_SIZE) = bitmap_frames_for tot * 4096"
proof -
  have "unat (of_nat ((tot + 63) div 64) * 8 :: u64) = (tot + 63) div 64 * 8"
    using assms unat_of_nat_u64 [of "(tot + 63) div 64 * 8"] by simp
  then show 1: "unat (align_up (of_nat ((tot + 63) div 64) * 8) PAGE_SIZE div PAGE_SIZE) = bitmap_frames_for tot"
    using assms by (simp add: unat_frame_of unat_align_up_page bitmap_frames_for_def)
  then have "align_up (of_nat ((tot + 63) div 64) * 8) PAGE_SIZE div PAGE_SIZE = of_nat (bitmap_frames_for tot)"
    by (simp flip: 1)
  then show "unat (align_up (of_nat ((tot + 63) div 64) * 8) PAGE_SIZE div PAGE_SIZE * PAGE_SIZE) = bitmap_frames_for tot * 4096"
    using assms unat_frame_address [of "bitmap_frames_for tot"] by (simp add: bitmap_frames_for_def)
qed

lemma interval_prefix: "n \<le> c \<Longrightarrow> R = {a..<a + c} \<Longrightarrow> {a..<a + n} \<subseteq> (R :: nat set)"
  by auto

lemma bitmap_place_cases:
  assumes "regions_ok rs tot" "unat bf = n" "unat (bf * PAGE_SIZE) = n * 4096"
  shows "(bitmap_place rs bf = 0 \<and> (\<forall>r\<in>set rs. rkind r = Usable \<longrightarrow> region_frames r = {} \<or> card (region_frames r) < n)) \<or>
    (bitmap_place rs bf \<noteq> 0 \<and> kind_frames Usable rs \<noteq> {} \<and>
     {unat (bitmap_place rs bf div PAGE_SIZE) ..< unat (bitmap_place rs bf div PAGE_SIZE) + n} \<subseteq> kind_frames Usable rs)"
proof -
  let ?P = "\<lambda>r. rkind r = Usable \<and> region_end r > region_start r \<and> region_end r - region_start r \<ge> bf * PAGE_SIZE"
  have P: "?P r \<longleftrightarrow> rkind r = Usable \<and> region_frames r \<noteq> {} \<and> n \<le> card (region_frames r)" if "r \<in> set rs" for r
  proof (cases "rkind r = Usable")
    case True
    note lim = regions_okD(1) [OF assms(1) that, unfolded allocatable_def, OF disjI1, OF True]
    show ?thesis
    proof (cases "region_end r > region_start r")
      case less: True
      then have "unat (region_end r - region_start r) = card (region_frames r) * 4096"
        by (simp add: unat_sub less_imp_le region_frames_def region_bounds [OF lim] flip: diff_mult_distrib)
      then show ?thesis using True less region_words(1) [OF lim] assms(3) by (auto simp: word_le_nat_alt)
    qed (use region_words(1) [OF lim] in auto)
  qed simp
  show ?thesis
  proof (cases "find ?P rs")
    case None
    then have "\<not> ?P r" if "r \<in> set rs" for r using that by (simp only: find_None_iff) blast
    then have "region_frames r = {} \<or> card (region_frames r) < n" if "r \<in> set rs" "rkind r = Usable" for r
      using P [OF that(1)] that by (metis linorder_not_le)
    moreover have "bitmap_place rs bf = 0" using None by (simp add: bitmap_place_def)
    ultimately show ?thesis by simp
  next
    case (Some r)
    then have r: "r \<in> set rs" "?P r" by (auto simp: find_Some_iff)
    note lim = regions_okD(1) [OF assms(1) r(1), unfolded allocatable_def, OF disjI1, OF conjunct1, OF r(2)]
    have place: "bitmap_place rs bf = region_start r" using Some by (simp add: bitmap_place_def)
    have "bitmap_place rs bf \<noteq> 0"
      using region_bounds(1) [OF lim] by (auto simp: place word_unat_eq_iff)
    moreover have "n \<le> card (region_frames r)" "region_frames r \<noteq> {}" using P [OF r(1)] r(2) by blast+
    then have "{unat (region_start r div PAGE_SIZE) ..< unat (region_start r div PAGE_SIZE) + n} \<subseteq> region_frames r"
      using interval_prefix region_words(3) [OF lim conjunct1 [OF conjunct2 [OF r(2)]]] by blast
    moreover have "region_frames r \<subseteq> kind_frames Usable rs" using r by (auto simp: kind_frames_def)
    ultimately show ?thesis using \<open>region_frames r \<noteq> {}\<close> unfolding place by blast
  qed
qed

text \<open>The allocator that \<open>init\<close> installs.\<close>

definition boot_state :: "region list \<Rightarrow> pmm \<Rightarrow> nat set \<Rightarrow> bool" where
  "boot_state rs p store \<longleftrightarrow>
     pmm_inv p \<and> take (region_count p) (regions p) = rs \<and> regions_ok rs (total_frames p) \<and>
     store \<subseteq> kind_frames Usable rs \<and> card store * 512 \<ge> bitmap_words p \<and>
     free_set p = kind_frames Usable rs - store \<and> usable_frames p = free_frames p"

lemma init_bitmap:
  assumes ok: "regions_ok rs tot" and tot: "tot * 4096 < 18446744073709551616"
    and words: "words = (tot + 63) div 64"
    and rel: "release_regions Usable rs (replicate words (NOT 0)) 0 = (bm, frames)"
    and place: "{first ..< first + n} \<subseteq> kind_frames Usable rs" and n: "n = bitmap_frames_for tot"
    and p: "p = \<lparr>bitmap = fill_range bm first n True, bitmap_words = words, total_frames = tot,
                 free_frames = frames - n, usable_frames = frames - n, next_hint = 0,
                 regions = rs', region_count = cnt\<rparr>"
    and rs': "take cnt rs' = rs" and some: "kind_frames Usable rs \<noteq> {}"
  shows "boot_state rs p {first..<first + n}"
proof -
  note rr = release_regions_spec [OF ok _ disjI1, OF _ refl, of "replicate words (NOT 0)", OF _ rel]
  have le: "tot \<le> 64 * words" using words by simp
  have len: "length bm = words" and frames: "frames = card (kind_frames Usable rs)"
    and bits: "bm_test_bit bm i \<longleftrightarrow> bm_test_bit (replicate words (NOT 0)) i \<and> i \<notin> kind_frames Usable rs" for i
    using rr le by auto
  have ones: "bm_test_bit (replicate words (NOT 0)) i" if "i < 64 * words" for i
    using that by (simp add: bm_test_bit_iff less_mult_imp_div_less mult.commute)
  have usable: "f < tot" if "f \<in> kind_frames Usable rs" for f
    using kind_frames_bounds(1) [OF ok disjI1 that] by simp
  have "0 < tot" using some usable by fastforce
  then have "0 < n" by (simp add: n bitmap_frames_for_def)
  then have "first + n - 1 \<in> {first..<first + n}" by auto
  then have "first + n - 1 < tot" using place usable by blast
  then have fit: "first + n \<le> 64 * length bm" using le len by simp
  have set: "free_set p = kind_frames Usable rs - {first..<first + n}"
    using ones usable le len by (force simp: free_set_def p fill_range_bits [OF fit] bits)
  have "card (free_set p) = frames - n"
    unfolding set frames using place by (simp add: card_Diff_subset)
  then have "pmm_inv p"
    using len words tot usable set by (auto simp: pmm_inv_def p fill_range_bits [OF fit])
  moreover have "words \<le> n * 512" unfolding n words bitmap_frames_for_def by linarith
  ultimately show ?thesis
    using set place ok rs' by (simp add: boot_state_def p)
qed

lemma pmm_init_spec:
  assumes ok: "regions_ok (map (entry_region c) (take 128 es)) m"
  defines "rs \<equiv> map (entry_region c) (take 128 es)"
  shows "(\<exists>p store. pmm_lock (pmm_init c (Some es) (Some h) s) = Some p \<and> boot_state rs p store) \<or>
    (pmm_lock (pmm_init c (Some es) (Some h) s) = pmm_lock s \<and>
     (\<forall>r\<in>set rs. rkind r = Usable \<longrightarrow> region_frames r = {} \<or>
        card (region_frames r) < bitmap_frames_for (unat (highest_address rs) div 4096)))"
proof -
  obtain rs' cnt where copy: "copy_regions c es (replicate MAX_REGIONS empty_region) 0 = (rs', cnt)"
    by fastforce
  have rs: "take cnt rs' = rs"
    using copy_regions_take [OF copy] by (simp add: MAX_REGIONS_def rs_def)
  define tot where "tot = unat (highest_address rs) div 4096"
  define bf where "bf = align_up (of_nat ((tot + 63) div 64) * 8) PAGE_SIZE div PAGE_SIZE"
  have ok': "regions_ok rs tot" using regions_ok_highest [OF ok] by (simp add: rs_def tot_def)
  have tot: "tot * 4096 < 18446744073709551616"
    using unat_u64_less [of "highest_address rs"] unfolding tot_def by linarith
  note bf_n = unat_bitmap_frames [OF tot, folded bf_def]
  obtain bm frames where rel: "release_regions Usable rs (replicate ((tot + 63) div 64) (NOT 0)) 0 = (bm, frames)"
    by fastforce
  have zero: "region_frames r = {}" if "highest_address rs = 0" "r \<in> set rs" "rkind r = Usable" for r
  proof -
    have "kind_frames Usable rs = {}"
      using kind_frames_bounds(1) [OF ok', of Usable] that(1) by (auto simp: tot_def)
    then show ?thesis using that by (auto simp: kind_frames_def)
  qed
  show ?thesis
    using bitmap_place_cases [OF ok' bf_n]
  proof (elim disjE conjE)
    assume "bitmap_place rs bf = 0" "\<forall>r\<in>set rs. rkind r = Usable \<longrightarrow> region_frames r = {} \<or> card (region_frames r) < bitmap_frames_for tot"
    then show ?thesis
      using zero by (auto simp: pmm_init_def copy rs Let_def unat_frame_of simp flip: tot_def bf_def)
  next
    assume pl: "bitmap_place rs bf \<noteq> 0" "kind_frames Usable rs \<noteq> {}"
      "{unat (bitmap_place rs bf div PAGE_SIZE) ..< unat (bitmap_place rs bf div PAGE_SIZE) + bitmap_frames_for tot}
         \<subseteq> kind_frames Usable rs"
    have "highest_address rs \<noteq> 0" using zero pl(2) by (auto simp: kind_frames_def)
    then show ?thesis
      using pl(1) init_bitmap [OF ok' tot refl rel pl(3) refl refl rs pl(2)]
      by (auto simp: pmm_init_def copy rs Let_def unat_frame_of rel [simplified] bf_n simp flip: tot_def bf_def)
  qed
qed

lemma reclaim_spec:
  assumes "pmm_lock s = Some p" "pmm_inv p" "rs = take (region_count p) (regions p)"
    "regions_ok rs (total_frames p)" "K = kind_frames BootloaderReclaimable rs" "K \<inter> free_set p = {}"
  shows "\<exists>p'. reclaim_bootloader_memory s = (card K, s\<lparr>pmm_lock := Some p'\<rparr>) \<and> pmm_inv p' \<and>
           free_set p' = free_set p \<union> K \<and> usable_frames p' = usable_frames p + card K"
proof -
  note inv = pmm_invD [OF assms(2)]
  obtain bm n where rel: "release_regions BootloaderReclaimable rs (bitmap p) 0 = (bm, n)" by fastforce
  note rr = release_regions_spec [OF assms(4) inv(2) disjI2, OF refl, OF rel, folded assms(5)]
  define p' where "p' = p\<lparr>bitmap := bm, free_frames := free_frames p + n,
    usable_frames := usable_frames p + n, next_hint := 0\<rparr>"
  have K: "f < total_frames p" if "f \<in> K" for f
    using kind_frames_bounds(1) [OF assms(4) disjI2] that by (simp add: assms(5))
  have set: "free_set p' = free_set p \<union> K"
    using rr K inv(2) by (force simp: free_set_def p'_def)
  have "card (free_set p') = free_frames p + n"
    unfolding set using assms(5,6) rr inv(4) by (subst card_Un_disjoint) auto
  then have "pmm_inv p'"
    using assms(2) set rr K by (auto simp: pmm_inv_def p'_def)
  then show ?thesis
    using set rr rel assms(1,3)
    by (intro exI [of _ p']) (simp add: reclaim_bootloader_memory_def p'_def)
qed

section \<open>The allocator's interface\<close>

text \<open>What the page-table code, the heap, the ELF loader and the scheduler rely on: frames handed
  out were free and no longer are, and releasing a frame that is in use makes it free again.\<close>

locale frame_allocator =
  fixes ok :: "'s \<Rightarrow> bool" and frees :: "'s \<Rightarrow> nat set" and limit :: "'s \<Rightarrow> nat"
    and alloc :: "'s \<Rightarrow> u64 option \<times> 's" and release :: "'s \<Rightarrow> u64 \<Rightarrow> 's"
  assumes frees_limit: "ok s \<Longrightarrow> frees s \<subseteq> {..<limit s}"
    and limit_bound: "ok s \<Longrightarrow> limit s * 4096 < 18446744073709551616"
    and alloc_law: "ok s \<Longrightarrow> (alloc s = (None, s) \<and> frees s = {}) \<or>
      (\<exists>f s'. alloc s = (Some (of_nat f * PAGE_SIZE), s') \<and> f \<in> frees s \<and> frees s' = frees s - {f} \<and>
              ok s' \<and> limit s' = limit s)"
    and release_law: "ok s \<Longrightarrow> f < limit s \<Longrightarrow> f \<notin> frees s \<Longrightarrow>
      ok (release s (of_nat f * PAGE_SIZE)) \<and> limit (release s (of_nat f * PAGE_SIZE)) = limit s \<and>
      frees (release s (of_nat f * PAGE_SIZE)) = insert f (frees s)"
begin

lemma alloc_SomeE:
  assumes "ok s" "alloc s = (Some a, s')"
  obtains f where "a = of_nat f * PAGE_SIZE" "unat a = f * 4096" "f \<in> frees s" "frees s' = frees s - {f}"
    "ok s'" "limit s' = limit s" "f < limit s"
proof -
  obtain f where f: "a = of_nat f * PAGE_SIZE" "f \<in> frees s" "frees s' = frees s - {f}" "ok s'" "limit s' = limit s"
    using alloc_law [OF assms(1)] assms(2) by auto
  moreover have lt: "f < limit s" using f(2) frees_limit [OF assms(1)] by auto
  moreover have "unat a = f * 4096"
    unfolding f(1) using lt limit_bound [OF assms(1)] by (intro unat_frame_address) linarith
  ultimately show ?thesis using that by blast
qed

lemma alloc_None: "ok s \<Longrightarrow> alloc s = (None, s') \<longleftrightarrow> s' = s \<and> frees s = {}"
  by (drule alloc_law) (elim disjE exE conjE, auto)

lemma alloc_ok: "ok s \<Longrightarrow> alloc s = (r, s') \<Longrightarrow> ok s' \<and> frees s' \<subseteq> frees s \<and> limit s' = limit s"
  using alloc_law [of s] by auto

lemma alloc_page_aligned: "ok s \<Longrightarrow> alloc s = (Some a, s') \<Longrightarrow> unat a mod 4096 = 0"
  by (metis alloc_SomeE mod_mult_self2_is_0)

lemma alloc_alloc_distinct:
  assumes "ok s" "alloc s = (Some a, s1)" "alloc s1 = (Some b, s2)"
  shows "a \<noteq> b"
proof -
  obtain f where f: "unat a = f * 4096" "frees s1 = frees s - {f}" "ok s1"
    by (rule alloc_SomeE [OF assms(1,2)])
  obtain g where g: "unat b = g * 4096" "g \<in> frees s1"
    by (rule alloc_SomeE [OF f(3) assms(3)])
  have "f \<noteq> g" using f(2) g(2) by blast
  then have "f * 4096 \<noteq> g * 4096" by simp
  then show ?thesis using f(1) g(1) by metis
qed

lemma alloc_release:
  assumes "ok s" "alloc s = (Some a, s')"
  shows "ok (release s' a)" "frees (release s' a) = frees s"
proof -
  obtain f where f: "a = of_nat f * PAGE_SIZE" "f \<in> frees s" "frees s' = frees s - {f}" "ok s'" "limit s' = limit s" "f < limit s"
    by (rule alloc_SomeE [OF assms])
  have "f < limit s'" "f \<notin> frees s'" using f by auto
  then show "ok (release s' a)" "frees (release s' a) = frees s"
    using release_law [OF f(4)] f(1,2,3) by auto
qed

end

definition kernel_ok :: "'a kernel_scheme \<Rightarrow> bool" where
  "kernel_ok s = (case pmm_lock s of None \<Rightarrow> True | Some p \<Rightarrow> pmm_inv p)"

definition kernel_free :: "'a kernel_scheme \<Rightarrow> nat set" where
  "kernel_free s = (case pmm_lock s of None \<Rightarrow> {} | Some p \<Rightarrow> free_set p)"

definition kernel_limit :: "'a kernel_scheme \<Rightarrow> nat" where
  "kernel_limit s = (case pmm_lock s of None \<Rightarrow> 0 | Some p \<Rightarrow> total_frames p)"

lemma alloc_frame_law:
  assumes "kernel_ok s"
  shows "(alloc_frame s = (None, s) \<and> kernel_free s = {}) \<or>
      (\<exists>f s'. alloc_frame s = (Some (of_nat f * PAGE_SIZE), s') \<and> f \<in> kernel_free s \<and>
         kernel_free s' = kernel_free s - {f} \<and> kernel_ok s' \<and> kernel_limit s' = kernel_limit s)"
proof (cases "pmm_lock s")
  case (Some p)
  then show ?thesis
    using alloc_one_spec [of p] assms
    by (auto simp: alloc_frame_def kernel_ok_def kernel_free_def kernel_limit_def)
qed (simp add: alloc_frame_def kernel_free_def)

lemma free_frame_law:
  assumes "kernel_ok s" "f < kernel_limit s" "f \<notin> kernel_free s"
  shows "kernel_ok (free_frame s (of_nat f * PAGE_SIZE)) \<and>
    kernel_limit (free_frame s (of_nat f * PAGE_SIZE)) = kernel_limit s \<and>
    kernel_free (free_frame s (of_nat f * PAGE_SIZE)) = insert f (kernel_free s)"
proof (cases "pmm_lock s")
  case None
  then show ?thesis using assms by (simp add: kernel_limit_def)
next
  case (Some p)
  have p: "pmm_inv p" "f < total_frames p" "f \<notin> free_set p"
    using assms Some by (auto simp: kernel_ok_def kernel_limit_def kernel_free_def)
  have u: "unat (of_nat f * PAGE_SIZE) = f * 4096"
    using pmm_invD(5) [OF p(1)] p(2) by (intro unat_frame_address) linarith
  obtain p' where "pmm_free p (of_nat f * PAGE_SIZE) 1 = (Inr (), p')" "pmm_inv p'"
    "total_frames p' = total_frames p" "free_set p' = free_set p \<union> {f..<f + 1}"
    using pmm_free_spec(4) [OF p(1), of 1 f "of_nat f * PAGE_SIZE"] u p(2,3) by auto
  then show ?thesis
    using Some by (simp add: free_frame_def free_frames_at_def kernel_ok_def kernel_free_def kernel_limit_def)
qed

interpretation frames: frame_allocator
  "kernel_ok :: 'a kernel_scheme \<Rightarrow> bool" kernel_free kernel_limit alloc_frame free_frame
proof
  fix s :: "'a kernel_scheme"
  assume ok: "kernel_ok s"
  show "kernel_free s \<subseteq> {..<kernel_limit s}" "kernel_limit s * 4096 < 18446744073709551616"
    using ok pmm_invD(3,5) by (auto simp: kernel_ok_def kernel_free_def kernel_limit_def split: option.splits)
  show "(alloc_frame s = (None, s) \<and> kernel_free s = {}) \<or>
      (\<exists>f s'. alloc_frame s = (Some (of_nat f * PAGE_SIZE), s') \<and> f \<in> kernel_free s \<and>
         kernel_free s' = kernel_free s - {f} \<and> kernel_ok s' \<and> kernel_limit s' = kernel_limit s)"
    by (rule alloc_frame_law [OF ok])
  fix f
  assume "f < kernel_limit s" "f \<notin> kernel_free s"
  then show "kernel_ok (free_frame s (of_nat f * PAGE_SIZE)) \<and>
    kernel_limit (free_frame s (of_nat f * PAGE_SIZE)) = kernel_limit s \<and>
    kernel_free (free_frame s (of_nat f * PAGE_SIZE)) = insert f (kernel_free s)"
    by (rule free_frame_law [OF ok])
qed

section \<open>Properties\<close>

lemma free_set_list: "free_set p = set (filter (\<lambda>i. \<not> bm_test_bit (bitmap p) i) [0..<64 * length (bitmap p)])"
  by (auto simp: free_set_def)

lemma pmm_inv_list [code]:
  "pmm_inv p \<longleftrightarrow>
     (let fs = filter (\<lambda>i. \<not> bm_test_bit (bitmap p) i) [0..<64 * length (bitmap p)] in
      length (bitmap p) = bitmap_words p \<and> bitmap_words p = (total_frames p + 63) div 64 \<and>
      list_all (\<lambda>i. i < total_frames p) fs \<and> free_frames p = length fs \<and>
      total_frames p * 4096 < 18446744073709551616)"
proof -
  have "card (free_set p) = length (filter (\<lambda>i. \<not> bm_test_bit (bitmap p) i) [0..<64 * length (bitmap p)])"
    unfolding free_set_list by (rule distinct_card) simp
  then show ?thesis
    unfolding pmm_inv_def Let_def by (auto simp: free_set_list list_all_iff)
qed

text \<open>A small allocator for the examples: 16 frames, of which 4 to 7 and 10 are free.\<close>

definition pmm_example :: pmm where
  "pmm_example = \<lparr>bitmap = [0xFFFFFFFFFFFFFB0F], bitmap_words = 1, total_frames = 16, free_frames = 5,
     usable_frames = 5, next_hint = 0, regions = [], region_count = 0\<rparr>"

lemma pmm_example_list: "filter (\<lambda>i. \<not> bm_test_bit [0xFFFFFFFFFFFFFB0F] i) [0..<64] = [4, 5, 6, 7, 10]"
  by (simp add: bm_test_bit_iff upt_conv_Cons)

lemma pmm_example_inv: "pmm_inv pmm_example"
  by (simp add: pmm_inv_list pmm_example_def pmm_example_list)

lemma pmm_example_free: "free_set pmm_example = {4, 5, 6, 7, 10}"
  unfolding free_set_list by (simp add: pmm_example_def pmm_example_list del: set_filter)

lemma pmm_example_total: "total_frames pmm_example = 16"
  by (simp add: pmm_example_def)

lemma bitmap_eqI:
  assumes "length bm = length bm'" "\<And>i. i < 64 * length bm \<Longrightarrow> bm_test_bit bm i = bm_test_bit bm' i"
  shows "bm = bm'"
proof (rule nth_equalityI [OF assms(1)])
  fix w assume w: "w < length bm"
  show "bm ! w = bm' ! w"
  proof (rule bit_word_eqI)
    fix b assume "b < LENGTH(64)"
    then show "bit (bm ! w) b = bit (bm' ! w) b"
      using assms(2) [of "w * 64 + b"] w by (simp add: bm_test_bit_iff)
  qed
qed

lemma fold_put_bit:
  "first + n \<le> 64 * length bm \<Longrightarrow>
   length (fold (\<lambda>i bm. put_bit bm i used) [first..<first + n] bm) = length bm \<and>
   (\<forall>j. bm_test_bit (fold (\<lambda>i bm. put_bit bm i used) [first..<first + n] bm) j \<longleftrightarrow>
     (if first \<le> j \<and> j < first + n then used else bm_test_bit bm j))"
proof (induction n)
  case (Suc n)
  then show ?case by (auto simp: bm_test_put_bit)
qed auto

text \<open>C5. The optimised \<open>fill_range\<close>, which writes whole words where it can, computes the same bitmap
  as setting (or clearing) the bits of the range one at a time.\<close>

theorem fill_range_eq_bitwise:
  assumes "first + cnt \<le> 64 * length bm"
  shows "fill_range bm first cnt used = fold (\<lambda>i bm. put_bit bm i used) [first..<first + cnt] bm"
  using fold_put_bit [OF assms] by (intro bitmap_eqI) (simp_all add: fill_range_bits [OF assms])

theorem fill_range_eq_bitwise_witness:
  "60 + 70 \<le> 64 * length [0, 0, 0 :: u64] \<and>
   fill_range [0, 0, 0] 60 70 True = fold (\<lambda>i bm. put_bit bm i True) [60..<60 + 70] [0, 0, 0]"
  using fill_range_eq_bitwise [of 60 70 "[0, 0, 0]" True] by simp

text \<open>C1. Allocating one frame keeps the invariant, returns the address of a frame that was free and
  marks exactly that frame, and fails only if no frame is free.\<close>

theorem alloc_one_correct:
  assumes "pmm_inv p"
  shows "case alloc_one p of
      (None, p') \<Rightarrow> p' = p \<and> free_set p = {}
    | (Some a, p') \<Rightarrow> pmm_inv p' \<and> (\<exists>f. f \<in> free_set p \<and> unat a = f * 4096 \<and> free_set p' = free_set p - {f})"
proof -
  have "f * 4096 < 18446744073709551616" if "f \<in> free_set p" for f
    using that pmm_invD(3,5) [OF assms] by fastforce
  then show ?thesis
    using alloc_one_spec [OF assms] unat_frame_address by auto
qed

theorem alloc_one_correct_witness:
  "case alloc_one pmm_example of
      (None, p') \<Rightarrow> p' = pmm_example \<and> free_set pmm_example = {}
    | (Some a, p') \<Rightarrow> pmm_inv p' \<and> (\<exists>f. f \<in> free_set pmm_example \<and> unat a = f * 4096 \<and>
         free_set p' = free_set pmm_example - {f})"
  by (rule alloc_one_correct [OF pmm_example_inv])

text \<open>C4. Allocating a run of frames keeps the invariant, is first fit, and is complete: the run it
  returns was free, no run starts lower, and it fails only if there is no free run of that length.
  The loop's skipping of full words loses no run.\<close>

theorem alloc_contiguous_first_fit:
  assumes "pmm_inv p" "0 < cnt"
  shows "case pmm_alloc_contiguous p cnt of
      (None, p') \<Rightarrow> p' = p \<and> (\<forall>s. \<not> {s..<s + cnt} \<subseteq> free_set p)
    | (Some a, p') \<Rightarrow> pmm_inv p' \<and>
        (\<exists>s. unat a = s * 4096 \<and> {s..<s + cnt} \<subseteq> free_set p \<and> (\<forall>s' < s. \<not> {s'..<s' + cnt} \<subseteq> free_set p) \<and>
             free_set p' = free_set p - {s..<s + cnt})"
proof -
  have "unat (of_nat s * PAGE_SIZE) = s * 4096" if "{s..<s + cnt} \<subseteq> free_set p" for s
  proof -
    have "s \<in> free_set p" using that assms(2) by auto
    then show ?thesis using pmm_invD(3,5) [OF assms(1)] by (intro unat_frame_address) fastforce
  qed
  then show ?thesis
    using pmm_alloc_contiguous_spec [OF assms] by (elim disjE exE conjE) (auto simp: linorder_not_le [symmetric])
qed

theorem alloc_contiguous_first_fit_witness:
  "case pmm_alloc_contiguous pmm_example 3 of
      (None, p') \<Rightarrow> p' = pmm_example \<and> (\<forall>s. \<not> {s..<s + 3} \<subseteq> free_set pmm_example)
    | (Some a, p') \<Rightarrow> pmm_inv p' \<and>
        (\<exists>s. unat a = s * 4096 \<and> {s..<s + 3} \<subseteq> free_set pmm_example \<and>
             (\<forall>s' < s. \<not> {s'..<s' + 3} \<subseteq> free_set pmm_example) \<and>
             free_set p' = free_set pmm_example - {s..<s + 3})"
  by (rule alloc_contiguous_first_fit [OF pmm_example_inv]) simp

text \<open>C3. Releasing a run: each error branch is taken exactly when its condition holds and leaves the
  allocator as it was (a double free is rejected as \<open>NotAllocated\<close>); otherwise exactly the frames of
  the run become free and the invariant is kept.\<close>

theorem pmm_free_correct:
  assumes "pmm_inv p" "0 < cnt" "first = unat phys div 4096"
  shows "(if unat phys mod 4096 \<noteq> 0 then pmm_free p phys cnt = (Inl Unaligned, p)
     else if total_frames p < first + cnt then pmm_free p phys cnt = (Inl OutOfRange, p)
     else if {first..<first + cnt} \<inter> free_set p \<noteq> {} then pmm_free p phys cnt = (Inl NotAllocated, p)
     else (case pmm_free p phys cnt of (r, p') \<Rightarrow> r = Inr () \<and> pmm_inv p' \<and>
             total_frames p' = total_frames p \<and> free_set p' = free_set p \<union> {first..<first + cnt}))"
  using pmm_free_spec [OF assms] by (auto simp: not_less)

theorem pmm_free_correct_witness:
  "(case pmm_free pmm_example 0x8000 2 of (r, p') \<Rightarrow> r = Inr () \<and> pmm_inv p' \<and>
      total_frames p' = total_frames pmm_example \<and> free_set p' = free_set pmm_example \<union> {8..<8 + 2}) \<and>
   pmm_free pmm_example 0x7000 2 = (Inl NotAllocated, pmm_example)"
  using pmm_free_correct [OF pmm_example_inv, of 2 8 "0x8000"] pmm_free_correct [OF pmm_example_inv, of 2 7 "0x7000"]
  by (simp add: pmm_example_free pmm_example_total)



definition boot_consts :: "nat entry_type_consts" where
  "boot_consts = \<lparr>USABLE = 0, RESERVED = 1, ACPI_RECLAIMABLE = 2, ACPI_NVS = 3, BAD_MEMORY = 4,
     BOOTLOADER_RECLAIMABLE = 5, KERNEL_AND_MODULES = 6, FRAMEBUFFER = 7\<rparr>"

definition boot_map :: "nat mm_entry list" where
  "boot_map = [\<lparr>entry_base = 0, entry_length = 0x9F000, entry_type = 0\<rparr>,
     \<lparr>entry_base = 0x100000, entry_length = 0x100000, entry_type = 0\<rparr>,
     \<lparr>entry_base = 0x200000, entry_length = 0x4000, entry_type = 5\<rparr>]"

definition kernel_reset :: kernel where
  "kernel_reset = \<lparr>hhdm_offset = 0, pmm_lock = None, mem = (\<lambda>a. 0)\<rparr>"


text \<open>A frame taken by \<open>alloc_frame\<close> is not taken again until it is released: two allocations in a
  row give different frames, and releasing a frame right after allocating it restores the set of
  free frames.\<close>

theorem alloc_free_roundtrip:
  assumes "kernel_ok s" "alloc_frame s = (Some a, s1)"
  shows "kernel_ok (free_frame s1 a) \<and> kernel_free (free_frame s1 a) = kernel_free s \<and>
    fst (alloc_frame s1) \<noteq> Some a"
  using frames.alloc_release [OF assms] frames.alloc_alloc_distinct [OF assms]
  by (cases "alloc_frame s1") auto

definition kernel_example :: kernel where
  "kernel_example = \<lparr>hhdm_offset = 0xFFFF800000000000, pmm_lock = Some pmm_example, mem = (\<lambda>a. 0)\<rparr>"

lemma kernel_example_ok: "kernel_ok kernel_example" "kernel_free kernel_example = {4, 5, 6, 7, 10}"
  by (simp_all add: kernel_ok_def kernel_free_def kernel_example_def pmm_example_inv pmm_example_free)

theorem alloc_free_roundtrip_witness:
  "\<exists>a s1. alloc_frame kernel_example = (Some a, s1) \<and> kernel_ok (free_frame s1 a) \<and>
     kernel_free (free_frame s1 a) = {4, 5, 6, 7, 10} \<and> fst (alloc_frame s1) \<noteq> Some a"
proof -
  obtain a s1 where "alloc_frame kernel_example = (Some a, s1)"
    using alloc_frame_law [OF kernel_example_ok(1)] kernel_example_ok(2) by auto
  then show ?thesis
    using alloc_free_roundtrip [OF kernel_example_ok(1)] kernel_example_ok(2) by blast
qed

end
