(* ===== verification/Vmm.thy ===== *)
theory Vmm
  imports Pmm "HOL-Library.Monad_Syntax"
begin

unbundle bit_operations_syntax

text \<open>
  The virtual memory manager, \<open>src/vmm.rs\<close>: four-level page tables in physical memory, mapping,
  unmapping and protection of 4 KiB pages, splitting of 2 MiB and 1 GiB pages, the software walks,
  process address spaces and the copies between kernel and user memory.

  A table is named by its physical address; the kernel reaches it through the direct map, so an
  access of entry \<open>i\<close> of table \<open>t\<close> is an access of physical memory at \<open>t + 8 * i\<close>. Operations that can
  panic return an option, with \<open>None\<close> for the panic. \<open>invlpg\<close> and the processor's control registers
  other than CR3 have no effect on the modelled state.
\<close>

section \<open>Flags and masks\<close>

definition PRESENT :: u64 where "PRESENT = 0x1"
definition WRITABLE :: u64 where "WRITABLE = 0x2"
definition USER :: u64 where "USER = 0x4"
definition PWT :: u64 where "PWT = 0x8"
definition PCD :: u64 where "PCD = 0x10"
definition HUGE :: u64 where "HUGE = 0x80"
definition NO_EXECUTE :: u64 where "NO_EXECUTE = 0x8000000000000000"

definition KERNEL_RX :: u64 where "KERNEL_RX = PRESENT"
definition KERNEL_RO :: u64 where "KERNEL_RO = PRESENT OR NO_EXECUTE"
definition KERNEL_RW :: u64 where "KERNEL_RW = PRESENT OR WRITABLE OR NO_EXECUTE"
definition USER_RX :: u64 where "USER_RX = PRESENT OR USER"
definition USER_RO :: u64 where "USER_RO = PRESENT OR USER OR NO_EXECUTE"
definition USER_RW :: u64 where "USER_RW = PRESENT OR WRITABLE OR USER OR NO_EXECUTE"
definition KERNEL_WC :: u64 where "KERNEL_WC = PRESENT OR WRITABLE OR NO_EXECUTE OR PWT"
definition KERNEL_UC :: u64 where "KERNEL_UC = PRESENT OR WRITABLE OR NO_EXECUTE OR PCD"

definition ADDR_MASK :: u64 where "ADDR_MASK = 0x000FFFFFFFFFF000"
definition HUGE_2M :: u64 where "HUGE_2M = 0x200000"
definition HUGE_1G :: u64 where "HUGE_1G = 0x40000000"
definition HUGE_2M_MASK :: u64 where "HUGE_2M_MASK = 0x000FFFFFFFE00000"
definition HUGE_1G_MASK :: u64 where "HUGE_1G_MASK = 0x000FFFFFC0000000"
definition PAT_HUGE :: u64 where "PAT_HUGE = 0x1000"
definition PAT_4K :: u64 where "PAT_4K = 0x80"
definition USER_SPACE_END :: u64 where "USER_SPACE_END = 0x0000800000000000"
definition KERNEL_PML4_START :: nat where "KERNEL_PML4_START = 256"
definition ENTRIES :: nat where "ENTRIES = 512"

section \<open>Page tables\<close>

definition entry_addr :: "u64 \<Rightarrow> nat \<Rightarrow> u64" where
  "entry_addr t i = t + 8 * of_nat i"

definition read_entry :: "'a kernel_scheme \<Rightarrow> u64 \<Rightarrow> nat \<Rightarrow> u64" where
  "read_entry s t i = mem s (entry_addr t i)"

definition write_entry :: "'a kernel_scheme \<Rightarrow> u64 \<Rightarrow> nat \<Rightarrow> u64 \<Rightarrow> 'a kernel_scheme" where
  "write_entry s t i e = s\<lparr>mem := (mem s)(entry_addr t i := e)\<rparr>"

definition index :: "u64 \<Rightarrow> nat \<Rightarrow> nat" where
  "index virt level = unat (drop_bit (39 - level * 9) virt AND 0x1FF)"

definition child_table :: "'a kernel_scheme \<Rightarrow> u64 \<Rightarrow> nat \<Rightarrow> (u64 \<times> 'a kernel_scheme) option" where
  "child_table s parent idx =
     (let entry = read_entry s parent idx in
      if entry AND PRESENT \<noteq> 0 then
        if entry AND HUGE = 0 then Some (entry AND ADDR_MASK, s) else None
      else
        case alloc_frame_zeroed s of
          (None, s') \<Rightarrow> None
        | (Some phys, s') \<Rightarrow>
            Some (phys, write_entry s' parent idx (phys OR PRESENT OR WRITABLE OR USER)))"

definition split_flags :: "u64 \<Rightarrow> u64 \<Rightarrow> u64" where
  "split_flags entry pat =
     (let flags = entry AND NOT ADDR_MASK AND NOT HUGE in
      if entry AND PAT_HUGE \<noteq> 0 then flags OR pat else flags)"

definition split_huge :: "'a kernel_scheme \<Rightarrow> u64 \<Rightarrow> nat \<Rightarrow> 'a kernel_scheme option" where
  "split_huge s pd idx =
     (let entry = read_entry s pd idx; base = entry AND HUGE_2M_MASK; flags = split_flags entry PAT_4K in
      case alloc_frame_zeroed s of
        (None, s') \<Rightarrow> None
      | (Some phys, s') \<Rightarrow>
          (let s'' = fold (\<lambda>i st. write_entry st phys i ((base + of_nat i * PAGE_SIZE) OR flags)) [0..<ENTRIES] s'
           in Some (write_entry s'' pd idx (phys OR PRESENT OR WRITABLE OR USER))))"

definition split_1g_huge :: "'a kernel_scheme \<Rightarrow> u64 \<Rightarrow> nat \<Rightarrow> 'a kernel_scheme option" where
  "split_1g_huge s pdpt idx =
     (let entry = read_entry s pdpt idx; base = entry AND HUGE_1G_MASK; flags = split_flags entry PAT_HUGE in
      case alloc_frame_zeroed s of
        (None, s') \<Rightarrow> None
      | (Some phys, s') \<Rightarrow>
          (let s'' = fold (\<lambda>i st. write_entry st phys i
                            ((base + of_nat i * HUGE_2M) OR flags OR PRESENT OR HUGE)) [0..<ENTRIES] s'
           in Some (write_entry s'' pdpt idx (phys OR PRESENT OR WRITABLE OR USER))))"

definition pd_for :: "'a kernel_scheme \<Rightarrow> u64 \<Rightarrow> u64 \<Rightarrow> (u64 \<times> 'a kernel_scheme) option" where
  "pd_for s pdpt virt =
     (let idx = index virt 1; entry = read_entry s pdpt idx in
      do {
        s' \<leftarrow> (if entry AND PRESENT \<noteq> 0 \<and> entry AND HUGE \<noteq> 0 then split_1g_huge s pdpt idx else Some s);
        child_table s' pdpt idx
      })"

definition pt_for :: "'a kernel_scheme \<Rightarrow> u64 \<Rightarrow> u64 \<Rightarrow> (u64 \<times> 'a kernel_scheme) option" where
  "pt_for s pd virt =
     (let idx = index virt 2; entry = read_entry s pd idx in
      do {
        s' \<leftarrow> (if entry AND PRESENT \<noteq> 0 \<and> entry AND HUGE \<noteq> 0 then split_huge s pd idx else Some s);
        child_table s' pd idx
      })"

text \<open>The result of \<open>leaf_for\<close> is the physical address of the leaf entry. Its part from the page
  directory on is \<open>leaf_from_pd\<close>.\<close>

definition leaf_from_pd :: "'a kernel_scheme \<Rightarrow> u64 \<Rightarrow> u64 \<Rightarrow> (u64 option \<times> 'a kernel_scheme) option" where
  "leaf_from_pd s pd virt =
     (let pd_idx = index virt 2; entry = read_entry s pd pd_idx in
      if entry AND PRESENT = 0 then Some (None, s)
      else do {
        s' \<leftarrow> (if entry AND HUGE \<noteq> 0 then split_huge s pd pd_idx else Some s);
        let pt = read_entry s' pd pd_idx AND ADDR_MASK;
            leaf = entry_addr pt (index virt 3)
        in if mem s' leaf AND PRESENT = 0 then Some (None, s') else Some (Some leaf, s')
      })"

definition leaf_for :: "'a kernel_scheme \<Rightarrow> u64 \<Rightarrow> u64 \<Rightarrow> (u64 option \<times> 'a kernel_scheme) option" where
  "leaf_for s pml4 virt =
     (let pml4_entry = read_entry s pml4 (index virt 0) in
      if pml4_entry AND PRESENT = 0 \<or> pml4_entry AND HUGE \<noteq> 0 then Some (None, s)
      else
        let pdpt = pml4_entry AND ADDR_MASK; pdpt_idx = index virt 1; entry = read_entry s pdpt pdpt_idx in
        if entry AND PRESENT = 0 then Some (None, s)
        else do {
          s' \<leftarrow> (if entry AND HUGE \<noteq> 0 then split_1g_huge s pdpt pdpt_idx else Some s);
          leaf_from_pd s' (read_entry s' pdpt pdpt_idx AND ADDR_MASK) virt
        })"

definition map4k :: "'a kernel_scheme \<Rightarrow> u64 \<Rightarrow> u64 \<Rightarrow> u64 \<Rightarrow> u64 \<Rightarrow> 'a kernel_scheme option" where
  "map4k s pml4 virt phys flags =
     do {
       (pdpt, s1) \<leftarrow> child_table s pml4 (index virt 0);
       (pd, s2) \<leftarrow> pd_for s1 pdpt virt;
       (pt, s3) \<leftarrow> pt_for s2 pd virt;
       Some (write_entry s3 pt (index virt 3) ((phys AND ADDR_MASK) OR flags OR PRESENT))
     }"

definition map2m :: "'a kernel_scheme \<Rightarrow> u64 \<Rightarrow> u64 \<Rightarrow> u64 \<Rightarrow> u64 \<Rightarrow> 'a kernel_scheme option" where
  "map2m s pml4 virt phys flags =
     do {
       (pdpt, s1) \<leftarrow> child_table s pml4 (index virt 0);
       (pd, s2) \<leftarrow> child_table s1 pdpt (index virt 1);
       let idx = index virt 2; existing = read_entry s2 pd idx in
       if existing AND PRESENT = 0 \<or> existing AND HUGE \<noteq> 0
       then Some (write_entry s2 pd idx ((phys AND HUGE_2M_MASK) OR flags OR PRESENT OR HUGE))
       else None
     }"

definition walk :: "'a kernel_scheme \<Rightarrow> u64 \<Rightarrow> u64 \<Rightarrow> u64 option" where
  "walk s pml4 virt =
     (let e = read_entry s pml4 (index virt 0) in
      if e AND PRESENT = 0 then None
      else let e = read_entry s (e AND ADDR_MASK) (index virt 1) in
        if e AND PRESENT = 0 then None
        else if e AND HUGE \<noteq> 0 then Some ((e AND HUGE_1G_MASK) + (virt AND (HUGE_1G - 1)))
        else let e = read_entry s (e AND ADDR_MASK) (index virt 2) in
          if e AND PRESENT = 0 then None
          else if e AND HUGE \<noteq> 0 then Some ((e AND HUGE_2M_MASK) + (virt AND (HUGE_2M - 1)))
          else let leaf = read_entry s (e AND ADDR_MASK) (index virt 3) in
            if leaf AND PRESENT = 0 then None
            else Some ((leaf AND ADDR_MASK) + (virt AND (PAGE_SIZE - 1))))"

section \<open>The kernel's address space\<close>

text \<open>The VMM adds to the kernel state the PML4 behind its lock, the cached kernel CR3 and the
  processor's CR3.\<close>

record vkernel = kernel +
  vmm_lock :: "u64 option"
  KERNEL_CR3 :: u64
  cr3 :: u64

definition map_page :: "'a vkernel_scheme \<Rightarrow> u64 \<Rightarrow> u64 \<Rightarrow> u64 \<Rightarrow> 'a vkernel_scheme option" where
  "map_page s virt phys flags =
     (case vmm_lock s of None \<Rightarrow> Some s | Some pml4 \<Rightarrow> map4k s pml4 virt phys flags)"

definition translate :: "'a vkernel_scheme \<Rightarrow> u64 \<Rightarrow> u64 option" where
  "translate s virt = (case vmm_lock s of None \<Rightarrow> None | Some pml4 \<Rightarrow> walk s pml4 virt)"

text \<open>The additions of the loop are checked: on overflow the kernel panics.\<close>

function mmio_loop :: "'a vkernel_scheme \<Rightarrow> u64 \<Rightarrow> u64 \<Rightarrow> 'a vkernel_scheme option" where
  "mmio_loop s p end =
     (if p < end then
        let virt = hhdm_offset s + p in
        case (if translate s virt = None then map_page s virt p KERNEL_UC else Some s) of
          None \<Rightarrow> None
        | Some s' \<Rightarrow>
            (case checked_add p PAGE_SIZE of None \<Rightarrow> None | Some p' \<Rightarrow> mmio_loop s' p' end)
      else Some s)"
  by pat_completeness auto
termination
  by (relation "measure (\<lambda>(s, p, end). unat end - unat p)") (auto simp: checked_add_Some word_less_nat_alt)

declare mmio_loop.simps [simp del]

definition map_mmio :: "'a vkernel_scheme \<Rightarrow> u64 \<Rightarrow> u64 \<Rightarrow> (u64 \<times> 'a vkernel_scheme) option" where
  "map_mmio s phys len =
     (let start = phys AND NOT (PAGE_SIZE - 1);
          end = (phys + len + PAGE_SIZE - 1) AND NOT (PAGE_SIZE - 1)
      in case mmio_loop s start end of None \<Rightarrow> None | Some s' \<Rightarrow> Some (hhdm_offset s + phys, s'))"

definition unmap_page :: "'a vkernel_scheme \<Rightarrow> u64 \<Rightarrow> (u64 option \<times> 'a vkernel_scheme) option" where
  "unmap_page s virt =
     (case vmm_lock s of
        None \<Rightarrow> Some (None, s)
      | Some pml4 \<Rightarrow>
          (case leaf_for s pml4 virt of
             None \<Rightarrow> None
           | Some (None, s') \<Rightarrow> Some (None, s')
           | Some (Some leaf, s') \<Rightarrow>
               Some (Some (mem s' leaf AND ADDR_MASK), s'\<lparr>mem := (mem s')(leaf := 0)\<rparr>)))"

definition protect_page :: "'a vkernel_scheme \<Rightarrow> u64 \<Rightarrow> u64 \<Rightarrow> (bool \<times> 'a vkernel_scheme) option" where
  "protect_page s virt flags =
     (if flags \<notin> {KERNEL_RX, KERNEL_RO, KERNEL_RW, KERNEL_WC, KERNEL_UC} then Some (False, s)
      else case vmm_lock s of
        None \<Rightarrow> Some (False, s)
      | Some pml4 \<Rightarrow>
          (case leaf_for s pml4 virt of
             None \<Rightarrow> None
           | Some (None, s') \<Rightarrow> Some (False, s')
           | Some (Some leaf, s') \<Rightarrow>
               Some (True, s'\<lparr>mem := (mem s')(leaf := (mem s' leaf AND ADDR_MASK) OR flags OR PRESENT)\<rparr>)))"

definition current_cr3 :: "'a vkernel_scheme \<Rightarrow> u64" where
  "current_cr3 s = cr3 s AND ADDR_MASK"

section \<open>Building the kernel's page tables\<close>

text \<open>\<open>merge_ranges\<close>: an insertion sort by start address in place, then a compaction pass.\<close>

fun sift_down :: "(u64 \<times> u64) list \<Rightarrow> nat \<Rightarrow> (u64 \<times> u64) list" where
  "sift_down r 0 = r"
| "sift_down r (Suc j) =
     (if fst (r ! j) > fst (r ! Suc j)
      then sift_down (r[j := r ! Suc j, Suc j := r ! j]) j
      else r)"

fun merge_loop :: "(u64 \<times> u64) list \<Rightarrow> nat list \<Rightarrow> nat \<Rightarrow> (u64 \<times> u64) list \<times> nat" where
  "merge_loop r [] out = (r, out)"
| "merge_loop r (i # is) out =
     (if 0 < out \<and> fst (r ! i) \<le> snd (r ! (out - 1)) then
        if snd (r ! i) > snd (r ! (out - 1))
        then merge_loop (r[out - 1 := (fst (r ! (out - 1)), snd (r ! i))]) is out
        else merge_loop r is out
      else merge_loop (r[out := r ! i]) is (out + 1))"

definition merge_ranges :: "(u64 \<times> u64) list \<Rightarrow> (u64 \<times> u64) list \<times> nat" where
  "merge_ranges r =
     (let r' = fold (\<lambda>i r. sift_down r i) [1..<length r] r in merge_loop r' [0..<length r'] 0)"

function map_hhdm_range :: "'a kernel_scheme \<Rightarrow> u64 \<Rightarrow> u64 \<Rightarrow> u64 \<Rightarrow> u64 \<Rightarrow> 'a kernel_scheme option" where
  "map_hhdm_range s pml4 hhdm p end =
     (if p < end then
        if p mod HUGE_2M = 0 \<and> end - p \<ge> HUGE_2M then
          case map2m s pml4 (hhdm + p) p KERNEL_RW of
            None \<Rightarrow> None
          | Some s' \<Rightarrow>
              (case checked_add p HUGE_2M of None \<Rightarrow> None | Some p' \<Rightarrow> map_hhdm_range s' pml4 hhdm p' end)
        else
          case map4k s pml4 (hhdm + p) p KERNEL_RW of
            None \<Rightarrow> None
          | Some s' \<Rightarrow>
              (case checked_add p PAGE_SIZE of None \<Rightarrow> None | Some p' \<Rightarrow> map_hhdm_range s' pml4 hhdm p' end)
      else Some s)"
  by pat_completeness auto
termination
  by (relation "measure (\<lambda>(s, pml4, hhdm, p, end). unat end - unat p)")
    (auto simp: checked_add_Some word_less_nat_alt HUGE_2M_def)

text \<open>The loop shared by \<open>map_section\<close> and the framebuffer mapping: one page at a time, the virtual
  and the physical address computed from the loop variable.\<close>

function map_pages ::
  "'a kernel_scheme \<Rightarrow> u64 \<Rightarrow> (u64 \<Rightarrow> u64) \<Rightarrow> (u64 \<Rightarrow> u64) \<Rightarrow> u64 \<Rightarrow> u64 \<Rightarrow> u64 \<Rightarrow> 'a kernel_scheme option" where
  "map_pages s pml4 to_virt to_phys p end flags =
     (if p < end then
        case map4k s pml4 (to_virt p) (to_phys p) flags of
          None \<Rightarrow> None
        | Some s' \<Rightarrow>
            (case checked_add p PAGE_SIZE of
               None \<Rightarrow> None
             | Some p' \<Rightarrow> map_pages s' pml4 to_virt to_phys p' end flags)
      else Some s)"
  by pat_completeness auto
termination
  by (relation "measure (\<lambda>(s, pml4, to_virt, to_phys, p, end, flags). unat end - unat p)")
    (auto simp: checked_add_Some word_less_nat_alt)

declare map_hhdm_range.simps [simp del] map_pages.simps [simp del]

text \<open>The addresses that the linker script defines.\<close>

record kernel_image =
  text_start :: u64
  text_end :: u64
  rodata_start :: u64
  rodata_end :: u64
  data_start :: u64
  data_end :: u64

definition map_kernel_sections ::
  "kernel_image \<Rightarrow> 'a kernel_scheme \<Rightarrow> u64 \<Rightarrow> u64 \<Rightarrow> u64 \<Rightarrow> 'a kernel_scheme option" where
  "map_kernel_sections img s pml4 kernel_phys kernel_virt =
     (let map_section = (\<lambda>s start end flags.
            map_pages s pml4 id (\<lambda>v. kernel_phys + (v - kernel_virt))
              (align_down start PAGE_SIZE) (align_up end PAGE_SIZE) flags)
      in do {
        s1 \<leftarrow> map_section s (text_start img) (text_end img) KERNEL_RX;
        s2 \<leftarrow> map_section s1 (rodata_start img) (rodata_end img) KERNEL_RO;
        map_section s2 (data_start img) (data_end img) KERNEL_RW
      })"

fun map_ranges :: "'a kernel_scheme \<Rightarrow> u64 \<Rightarrow> u64 \<Rightarrow> (u64 \<times> u64) list \<Rightarrow> 'a kernel_scheme option" where
  "map_ranges s pml4 hhdm [] = Some s"
| "map_ranges s pml4 hhdm ((start, end) # rs) =
     do { s' \<leftarrow> map_hhdm_range s pml4 hhdm start end; map_ranges s' pml4 hhdm rs }"

text \<open>The framebuffer as \<open>init\<close> reads it: address, pitch and height.\<close>

definition map_framebuffer :: "'a kernel_scheme \<Rightarrow> u64 \<Rightarrow> u64 \<Rightarrow> (u64 \<times> u64 \<times> u64) option \<Rightarrow> 'a kernel_scheme option" where
  "map_framebuffer s pml4 hhdm fb =
     (case fb of
        None \<Rightarrow> Some s
      | Some (addr, pitch, height) \<Rightarrow>
          if addr < hhdm then Some s
          else
            let fb_phys = addr - hhdm;
                start = align_down fb_phys PAGE_SIZE;
                end = align_up (fb_phys + pitch * height) PAGE_SIZE
            in map_pages s pml4 (\<lambda>p. hhdm + p) id start end KERNEL_WC)"

definition vmm_init ::
  "(u64 \<times> u64) option \<Rightarrow> kernel_image \<Rightarrow> (u64 \<times> u64 \<times> u64) option \<Rightarrow> 'a vkernel_scheme \<Rightarrow> 'a vkernel_scheme option" where
  "vmm_init ka img fb s =
     (case ka of
        None \<Rightarrow> Some s
      | Some (kernel_phys, kernel_virt) \<Rightarrow>
          let hhdm = hhdm_offset s in
          if phys_top s = 0 then Some s
          else case alloc_frame_zeroed s of
            (None, s1) \<Rightarrow> Some s1
          | (Some pml4, s1) \<Rightarrow>
              let (ranges, n) = hhdm_ranges s1; (merged, n') = merge_ranges (take n ranges) in
              do {
                s2 \<leftarrow> map_ranges s1 pml4 hhdm (take n' merged);
                s3 \<leftarrow> map_framebuffer s2 pml4 hhdm fb;
                s4 \<leftarrow> map_kernel_sections img s3 pml4 kernel_phys kernel_virt;
                Some (s4\<lparr>cr3 := pml4, vmm_lock := Some pml4, KERNEL_CR3 := pml4\<rparr>)
              })"

section \<open>Process address spaces\<close>

record address_space =
  pml4_phys :: u64

definition space_map :: "'a kernel_scheme \<Rightarrow> address_space \<Rightarrow> u64 \<Rightarrow> u64 \<Rightarrow> u64 \<Rightarrow> 'a kernel_scheme option" where
  "space_map s sp virt phys flags =
     (if virt < USER_SPACE_END \<and> virt AND (PAGE_SIZE - 1) = 0 \<and> phys AND (PAGE_SIZE - 1) = 0 \<and>
         flags \<in> {USER_RX, USER_RO, USER_RW} \<and> walk s (pml4_phys sp) virt = None
      then map4k s (pml4_phys sp) virt phys flags
      else None)"

definition space_unmap :: "'a kernel_scheme \<Rightarrow> address_space \<Rightarrow> u64 \<Rightarrow> (u64 option \<times> 'a kernel_scheme) option" where
  "space_unmap s sp virt =
     (if virt < USER_SPACE_END then
        case leaf_for s (pml4_phys sp) virt of
          None \<Rightarrow> None
        | Some (None, s') \<Rightarrow> Some (None, s')
        | Some (Some leaf, s') \<Rightarrow>
            Some (Some (mem s' leaf AND ADDR_MASK), s'\<lparr>mem := (mem s')(leaf := 0)\<rparr>)
      else None)"

definition space_protect :: "'a kernel_scheme \<Rightarrow> address_space \<Rightarrow> u64 \<Rightarrow> u64 \<Rightarrow> (bool \<times> 'a kernel_scheme) option" where
  "space_protect s sp virt flags =
     (if virt \<ge> USER_SPACE_END \<or> flags \<notin> {USER_RX, USER_RO, USER_RW} then Some (False, s)
      else case leaf_for s (pml4_phys sp) virt of
        None \<Rightarrow> None
      | Some (None, s') \<Rightarrow> Some (False, s')
      | Some (Some leaf, s') \<Rightarrow>
          Some (True, s'\<lparr>mem := (mem s')(leaf := (mem s' leaf AND ADDR_MASK) OR flags OR PRESENT)\<rparr>))"

definition space_translate :: "'a kernel_scheme \<Rightarrow> address_space \<Rightarrow> u64 \<Rightarrow> u64 option" where
  "space_translate s sp virt = walk s (pml4_phys sp) virt"

definition free_pt :: "u64 \<Rightarrow> 'a kernel_scheme \<Rightarrow> 'a kernel_scheme" where
  "free_pt phys s =
     free_frame
       (fold (\<lambda>i st. let e = read_entry st phys i in
                     if e AND PRESENT \<noteq> 0 then free_frame st (e AND ADDR_MASK) else st) [0..<ENTRIES] s)
       phys"

definition free_pd :: "u64 \<Rightarrow> 'a kernel_scheme \<Rightarrow> 'a kernel_scheme" where
  "free_pd phys s =
     free_frame
       (fold (\<lambda>i st. let e = read_entry st phys i in
                     if e AND PRESENT = 0 then st
                     else if e AND HUGE \<noteq> 0 then free_frame st (e AND HUGE_2M_MASK)
                     else free_pt (e AND ADDR_MASK) st) [0..<ENTRIES] s)
       phys"

definition free_pdpt :: "u64 \<Rightarrow> 'a kernel_scheme \<Rightarrow> 'a kernel_scheme" where
  "free_pdpt phys s =
     free_frame
       (fold (\<lambda>i st. let e = read_entry st phys i in
                     if e AND PRESENT = 0 then st
                     else if e AND HUGE \<noteq> 0 then free_frame st (e AND HUGE_1G_MASK)
                     else free_pd (e AND ADDR_MASK) st) [0..<ENTRIES] s)
       phys"

text \<open>\<open>AddressSpace::drop\<close>.\<close>

definition free_user_half :: "u64 \<Rightarrow> 'a kernel_scheme \<Rightarrow> 'a kernel_scheme" where
  "free_user_half pml4 s =
     free_frame
       (fold (\<lambda>i st. let e = read_entry st pml4 i in
                     if e AND PRESENT \<noteq> 0 then free_pdpt (e AND ADDR_MASK) st else st)
          [0..<KERNEL_PML4_START] s)
       pml4"

definition create_address_space :: "'a vkernel_scheme \<Rightarrow> address_space option \<times> 'a vkernel_scheme" where
  "create_address_space s =
     (case vmm_lock s of
        None \<Rightarrow> (None, s)
      | Some kernel_pml4 \<Rightarrow>
          (case alloc_frame_zeroed s of
             (None, s1) \<Rightarrow> (None, s1)
           | (Some pml4, s1) \<Rightarrow>
               (Some \<lparr>pml4_phys = pml4\<rparr>,
                fold (\<lambda>i st. write_entry st pml4 i (read_entry st kernel_pml4 i)) [KERNEL_PML4_START..<ENTRIES] s1)))"

section \<open>User memory\<close>

definition walk_user :: "'a kernel_scheme \<Rightarrow> u64 \<Rightarrow> u64 \<Rightarrow> u64 option" where
  "walk_user s pml4 virt =
     (let pu = PRESENT OR USER; e = read_entry s pml4 (index virt 0) in
      if e AND pu \<noteq> pu then None
      else let e = read_entry s (e AND ADDR_MASK) (index virt 1) in
        if e AND pu \<noteq> pu \<or> e AND HUGE \<noteq> 0 then None
        else let e = read_entry s (e AND ADDR_MASK) (index virt 2) in
          if e AND pu \<noteq> pu \<or> e AND HUGE \<noteq> 0 then None
          else let leaf = read_entry s (e AND ADDR_MASK) (index virt 3) in
            if leaf AND pu \<noteq> pu then None
            else Some ((leaf AND ADDR_MASK) + (virt AND (PAGE_SIZE - 1))))"

definition walk_user_write :: "'a kernel_scheme \<Rightarrow> u64 \<Rightarrow> u64 \<Rightarrow> u64 option" where
  "walk_user_write s pml4 virt =
     (let pu = PRESENT OR USER; puw = PRESENT OR USER OR WRITABLE; e = read_entry s pml4 (index virt 0) in
      if e AND pu \<noteq> pu then None
      else let e = read_entry s (e AND ADDR_MASK) (index virt 1) in
        if e AND pu \<noteq> pu \<or> e AND HUGE \<noteq> 0 then None
        else let e = read_entry s (e AND ADDR_MASK) (index virt 2) in
          if e AND pu \<noteq> pu \<or> e AND HUGE \<noteq> 0 then None
          else let leaf = read_entry s (e AND ADDR_MASK) (index virt 3) in
            if leaf AND puw \<noteq> puw then None
            else Some ((leaf AND ADDR_MASK) + (virt AND (PAGE_SIZE - 1))))"

definition saturating_add :: "u64 \<Rightarrow> u64 \<Rightarrow> u64" where
  "saturating_add a b = (case checked_add a b of None \<Rightarrow> - 1 | Some c \<Rightarrow> c)"

function validate_loop :: "'a kernel_scheme \<Rightarrow> u64 \<Rightarrow> u64 \<Rightarrow> u64 \<Rightarrow> bool \<Rightarrow> bool" where
  "validate_loop s pml4 va end wr =
     (if va < end then
        if (if wr then walk_user_write s pml4 va else walk_user s pml4 va) = None then False
        else
          let next_page = saturating_add (va AND NOT (PAGE_SIZE - 1)) PAGE_SIZE in
          if next_page \<le> va then False else validate_loop s pml4 (min next_page end) end wr
      else True)"
  by pat_completeness auto
termination
  by (relation "measure (\<lambda>(s, pml4, va, end, wr). unat end - unat va)")
    (auto simp: word_less_nat_alt word_le_nat_alt min_def)

declare validate_loop.simps [simp del]

definition validate_user_range :: "'a vkernel_scheme \<Rightarrow> u64 \<Rightarrow> nat \<Rightarrow> bool \<Rightarrow> bool" where
  "validate_user_range s addr len wr =
     (if len = 0 then True
      else case checked_add addr (of_nat len) of
        None \<Rightarrow> False
      | Some end \<Rightarrow>
          if addr \<ge> USER_SPACE_END \<or> end > USER_SPACE_END then False
          else validate_loop s (current_cr3 s) addr end wr)"

text \<open>Bytes of physical memory.\<close>

definition mem_byte :: "(u64 \<Rightarrow> u64) \<Rightarrow> u64 \<Rightarrow> u8" where
  "mem_byte m a = ucast (drop_bit (8 * unat (a AND 7)) (m (a AND NOT 7)))"

definition set_byte :: "u64 \<Rightarrow> u8 \<Rightarrow> (u64 \<Rightarrow> u64) \<Rightarrow> u64 \<Rightarrow> u64" where
  "set_byte a b m =
     (let sh = 8 * unat (a AND 7); w = m (a AND NOT 7) in
      m(a AND NOT 7 := (w AND NOT (push_bit sh 0xFF)) OR push_bit sh (ucast b)))"

definition mem_bytes :: "(u64 \<Rightarrow> u64) \<Rightarrow> u64 \<Rightarrow> nat \<Rightarrow> u8 list" where
  "mem_bytes m a n = map (\<lambda>k. mem_byte m (a + of_nat k)) [0..<n]"

definition set_bytes :: "(u64 \<Rightarrow> u64) \<Rightarrow> u64 \<Rightarrow> u8 list \<Rightarrow> u64 \<Rightarrow> u64" where
  "set_bytes m a bs = fold (\<lambda>k. set_byte (a + of_nat k) (bs ! k)) [0..<length bs] m"

definition page_off :: "u64 \<Rightarrow> nat" where
  "page_off va = unat (va AND (PAGE_SIZE - 1))"

lemma page_off_less: "page_off va < 4096"
  by (simp add: page_off_def unat_and_page_mask)

lemma copy_progress:
  "done < len \<Longrightarrow> len - (done + min (len - done) (4096 - page_off va)) < len - done"
  using page_off_less [of va] by linarith

function copy_from_loop :: "'a kernel_scheme \<Rightarrow> u64 \<Rightarrow> u64 \<Rightarrow> u8 list \<Rightarrow> nat \<Rightarrow> bool \<times> u8 list" where
  "copy_from_loop s pml4 src dst done =
     (if done < length dst then
        let va = src + of_nat done; n = min (length dst - done) (4096 - page_off va) in
        case walk_user s pml4 va of
          None \<Rightarrow> (False, dst)
        | Some phys \<Rightarrow> copy_from_loop s pml4 src (copy_at dst done (mem_bytes (mem s) phys n)) (done + n)
      else (True, dst))"
  by pat_completeness auto
termination
  by (relation "measure (\<lambda>(s, pml4, src, dst, done). length dst - done)") (simp_all add: copy_progress mem_bytes_def)

definition copy_from_user :: "'a vkernel_scheme \<Rightarrow> u8 list \<Rightarrow> u64 \<Rightarrow> bool \<times> u8 list" where
  "copy_from_user s dst src =
     (if \<not> validate_user_range s src (length dst) False then (False, dst)
      else copy_from_loop s (current_cr3 s) src dst 0)"

function copy_to_loop :: "'a kernel_scheme \<Rightarrow> u64 \<Rightarrow> u64 \<Rightarrow> u8 list \<Rightarrow> nat \<Rightarrow> bool \<times> 'a kernel_scheme" where
  "copy_to_loop s pml4 dst src done =
     (if done < length src then
        let va = dst + of_nat done; n = min (length src - done) (4096 - page_off va) in
        case walk_user_write s pml4 va of
          None \<Rightarrow> (False, s)
        | Some phys \<Rightarrow> copy_to_loop (s\<lparr>mem := set_bytes (mem s) phys (take n (drop done src))\<rparr>) pml4 dst src (done + n)
      else (True, s))"
  by pat_completeness auto
termination
  by (relation "measure (\<lambda>(s, pml4, dst, src, done). length src - done)") (simp_all add: copy_progress)

declare copy_from_loop.simps [simp del] copy_to_loop.simps [simp del]

definition copy_to_user :: "'a vkernel_scheme \<Rightarrow> u64 \<Rightarrow> u8 list \<Rightarrow> bool \<times> 'a vkernel_scheme" where
  "copy_to_user s dst src =
     (if \<not> validate_user_range s dst (length src) True then (False, s)
      else copy_to_loop s (current_cr3 s) dst src 0)"

section \<open>Lemmas: bits of entries and addresses\<close>

lemma PRESENT_iff: "e AND PRESENT = 0 \<longleftrightarrow> \<not> bit e 0"
  unfolding PRESENT_def using bit_iff_and_push_bit_not_eq_0 [of e 0] by simp

lemma HUGE_iff: "e AND HUGE = 0 \<longleftrightarrow> \<not> bit e 7"
  unfolding HUGE_def using bit_iff_and_push_bit_not_eq_0 [of e 7] by simp

lemma bit_mask_range: "bit (mask b AND NOT (mask a) :: u64) n \<longleftrightarrow> a \<le> n \<and> n < b \<and> n < 64"
  by (auto simp: bit_simps)

lemma ADDR_MASK_range: "ADDR_MASK = mask 52 AND NOT (mask 12)"
  by (simp add: ADDR_MASK_def mask_eq_exp_minus_1)

lemma HUGE_2M_MASK_range: "HUGE_2M_MASK = mask 52 AND NOT (mask 21)"
  by (simp add: HUGE_2M_MASK_def mask_eq_exp_minus_1)

lemma HUGE_1G_MASK_range: "HUGE_1G_MASK = mask 52 AND NOT (mask 30)"
  by (simp add: HUGE_1G_MASK_def mask_eq_exp_minus_1)

lemma bit_masks:
  "bit ADDR_MASK n \<longleftrightarrow> 12 \<le> n \<and> n < 52"
  "bit HUGE_2M_MASK n \<longleftrightarrow> 21 \<le> n \<and> n < 52"
  "bit HUGE_1G_MASK n \<longleftrightarrow> 30 \<le> n \<and> n < 52"
  unfolding ADDR_MASK_range HUGE_2M_MASK_range HUGE_1G_MASK_range bit_mask_range by auto

lemma bit_single: "k < 64 \<Longrightarrow> bit (2 ^ k :: u64) n \<longleftrightarrow> n = k"
  by (auto simp: bit_exp_iff)

lemma bit_flags:
  "bit PRESENT n \<longleftrightarrow> n = 0" "bit WRITABLE n \<longleftrightarrow> n = 1" "bit USER n \<longleftrightarrow> n = 2" "bit HUGE n \<longleftrightarrow> n = 7"
  "bit PAT_HUGE n \<longleftrightarrow> n = 12" "bit PAT_4K n \<longleftrightarrow> n = 7"
  using bit_single [of 0 n] bit_single [of 1 n] bit_single [of 2 n] bit_single [of 7 n] bit_single [of 12 n]
  by (simp_all add: PRESENT_def WRITABLE_def USER_def HUGE_def PAT_HUGE_def PAT_4K_def)

lemma index_less [simp]: "index v k < 512"
proof -
  have m: "(0x1FF :: u64) = mask 9" by (simp add: mask_eq_exp_minus_1)
  have "unat (drop_bit (39 - k * 9) v AND 0x1FF) = unat (drop_bit (39 - k * 9) v) mod 2 ^ 9"
    unfolding m take_bit_eq_mask [symmetric] unsigned_take_bit_eq by (rule take_bit_eq_mod)
  then show ?thesis unfolding index_def by simp
qed

definition page_aligned :: "u64 \<Rightarrow> bool" where
  "page_aligned a \<longleftrightarrow> unat a mod 4096 = 0"

lemma page_aligned_addr: "page_aligned (e AND ADDR_MASK)"
proof -
  have "(e AND ADDR_MASK) AND 4095 = 0"
    by (rule bit_word_eqI) (simp add: bit_simps page_mask bit_masks)
  then show ?thesis
    unfolding page_aligned_def using unat_and_page_mask [of "e AND ADDR_MASK"] by simp
qed

lemma page_aligned_bits: "page_aligned a \<Longrightarrow> n < 12 \<Longrightarrow> \<not> bit a n"
proof -
  assume "page_aligned a" "n < 12"
  then have "a AND 4095 = 0"
    using unat_and_page_mask [of a] by (simp add: page_aligned_def unat_eq_0)
  then have "\<not> bit (a AND 4095) n" by simp
  then show ?thesis using \<open>n < 12\<close> by (simp add: bit_simps page_mask)
qed

lemma unat_entry_addr:
  assumes "page_aligned t" "i < 512"
  shows "unat (entry_addr t i) = unat t + 8 * i"
proof -
  have u: "unat (8 * of_nat i :: u64) = 8 * i"
    using assms(2) unat_of_nat_u64 [of "8 * i"] by simp
  obtain k where "unat t = 4096 * k" using assms(1) by (auto simp: page_aligned_def)
  then have "k < 4503599627370496" "unat t = 4096 * k" using unat_u64_less [of t] by linarith+
  then have "unat t + 8 * i < 18446744073709551616"
    using assms(2) by linarith
  then show ?thesis unfolding entry_addr_def by (simp add: unat_add_u64 u)
qed

lemma entry_addr_frame:
  "page_aligned t \<Longrightarrow> i < 512 \<Longrightarrow> unat (entry_addr t i) div 4096 = unat t div 4096"
  by (subst unat_entry_addr) (auto simp: page_aligned_def elim!: dvdE)

lemma entry_addr_eq_iff:
  assumes "page_aligned t" "page_aligned t'" "i < 512" "j < 512"
  shows "entry_addr t i = entry_addr t' j \<longleftrightarrow> t = t' \<and> i = j"
proof
  assume eq: "entry_addr t i = entry_addr t' j"
  have d: "unat t div 4096 = unat t' div 4096"
    using entry_addr_frame [OF assms(1,3)] entry_addr_frame [OF assms(2,4)] eq by simp
  then have "unat t = unat t'" using assms(1,2) unfolding page_aligned_def by (metis mod_div_decomp)
  moreover have "unat t + 8 * i = unat t' + 8 * j"
    using eq unat_entry_addr [OF assms(1,3)] unat_entry_addr [OF assms(2,4)] by simp
  ultimately show "t = t' \<and> i = j" by (simp add: word_unat_eq_iff)
qed simp

section \<open>Lemmas: the table tree\<close>

fun tbl_at :: "(u64 \<Rightarrow> u64) \<Rightarrow> u64 \<Rightarrow> nat list \<Rightarrow> u64 option" where
  "tbl_at m t [] = Some t"
| "tbl_at m t (i # p) =
     (let e = m (entry_addr t i) in if bit e 0 \<and> \<not> bit e 7 then tbl_at m (e AND ADDR_MASK) p else None)"

fun look :: "(u64 \<Rightarrow> u64) \<Rightarrow> u64 \<Rightarrow> nat list \<Rightarrow> (nat \<times> u64) option" where
  "look m t [] = None"
| "look m t (i # p) =
     (let e = m (entry_addr t i) in
      if \<not> bit e 0 then None
      else if bit e 7 \<or> p = [] then Some (length p, e)
      else look m (e AND ADDR_MASK) p)"

definition vpath :: "u64 \<Rightarrow> nat list" where
  "vpath v = [index v 0, index v 1, index v 2, index v 3]"

definition leaf_addr :: "nat \<times> u64 \<Rightarrow> u64 \<Rightarrow> u64" where
  "leaf_addr x v =
     (case x of (r, e) \<Rightarrow>
        if r = 0 then (e AND ADDR_MASK) + (v AND (PAGE_SIZE - 1))
        else if r = 1 then (e AND HUGE_2M_MASK) + (v AND (HUGE_2M - 1))
        else (e AND HUGE_1G_MASK) + (v AND (HUGE_1G - 1)))"

definition idx_path :: "nat list \<Rightarrow> bool" where
  "idx_path p \<longleftrightarrow> length p \<le> 3 \<and> list_all (\<lambda>i. i < 512) p"

text \<open>The invariant of the tables below a PML4, for a set of free frames: every table is a page
  whose frame is in use, no table is reached by two paths, and no PML4 entry is marked huge.\<close>

definition vm_inv :: "(u64 \<Rightarrow> u64) \<Rightarrow> u64 \<Rightarrow> nat set \<Rightarrow> bool" where
  "vm_inv m root F \<longleftrightarrow>
     (\<forall>p t. idx_path p \<longrightarrow> tbl_at m root p = Some t \<longrightarrow> page_aligned t \<and> unat t div 4096 \<notin> F) \<and>
     (\<forall>p q t. idx_path p \<longrightarrow> idx_path q \<longrightarrow> tbl_at m root p = Some t \<longrightarrow> tbl_at m root q = Some t \<longrightarrow> p = q) \<and>
     (\<forall>i<512. bit (m (entry_addr root i)) 0 \<longrightarrow> \<not> bit (m (entry_addr root i)) 7)"

lemma tbl_at_append:
  "tbl_at m t (p @ q) = (case tbl_at m t p of None \<Rightarrow> None | Some t' \<Rightarrow> tbl_at m t' q)"
  by (induction p arbitrary: t) (auto simp: Let_def)

lemma look_append:
  "tbl_at m t p = Some t' \<Longrightarrow> q \<noteq> [] \<Longrightarrow> look m t (p @ q) = look m t' q"
  by (induction p arbitrary: t) (auto simp: Let_def split: if_splits)

lemma tbl_at_eqI:
  "(\<And>q i r t'. p = q @ i # r \<Longrightarrow> tbl_at m t q = Some t' \<Longrightarrow> m' (entry_addr t' i) = m (entry_addr t' i)) \<Longrightarrow>
   tbl_at m' t p = tbl_at m t p"
proof (induction p arbitrary: t)
  case (Cons i p)
  have "m' (entry_addr t i) = m (entry_addr t i)" using Cons.prems [of "[]" i p t] by simp
  moreover have "tbl_at m' (m (entry_addr t i) AND ADDR_MASK) p = tbl_at m (m (entry_addr t i) AND ADDR_MASK) p"
    if "bit (m (entry_addr t i)) 0 \<and> \<not> bit (m (entry_addr t i)) 7"
    using that Cons.prems [of "i # _"] by (intro Cons.IH) (auto simp: Let_def)
  ultimately show ?case by (simp add: Let_def)
qed simp

lemma look_eqI:
  "(\<And>q i r t'. p = q @ i # r \<Longrightarrow> tbl_at m t q = Some t' \<Longrightarrow> m' (entry_addr t' i) = m (entry_addr t' i)) \<Longrightarrow>
   look m' t p = look m t p"
proof (induction p arbitrary: t)
  case (Cons i p)
  have "m' (entry_addr t i) = m (entry_addr t i)" using Cons.prems [of "[]" i p t] by simp
  moreover have "look m' (m (entry_addr t i) AND ADDR_MASK) p = look m (m (entry_addr t i) AND ADDR_MASK) p"
    if "bit (m (entry_addr t i)) 0 \<and> \<not> bit (m (entry_addr t i)) 7"
    using that Cons.prems [of "i # _"] by (intro Cons.IH) (auto simp: Let_def)
  ultimately show ?case by (auto simp: Let_def)
qed simp

lemma walk_look:
  assumes "vm_inv (mem s) root F"
  shows "walk s root v = map_option (\<lambda>x. leaf_addr x v) (look (mem s) root (vpath v))"
proof -
  have "bit (mem s (entry_addr root (index v 0))) 0 \<longrightarrow> \<not> bit (mem s (entry_addr root (index v 0))) 7"
    using assms by (simp add: vm_inv_def)
  then show ?thesis
    by (auto simp: walk_def Let_def read_entry_def vpath_def PRESENT_iff HUGE_iff leaf_addr_def)
qed

lemma vm_invD:
  assumes "vm_inv m root F" "idx_path p" "tbl_at m root p = Some t"
  shows "page_aligned t" "unat t div 4096 \<notin> F"
    and "idx_path q \<Longrightarrow> tbl_at m root q = Some t \<Longrightarrow> q = p"
  using assms unfolding vm_inv_def by blast+

lemma idx_path_simps [simp]:
  "idx_path []" "idx_path (p @ [i]) \<longleftrightarrow> length p \<le> 2 \<and> i < 512 \<and> idx_path p"
  by (auto simp: idx_path_def)

lemma idx_path_prefix: "idx_path (p @ q) \<Longrightarrow> idx_path p"
  by (auto simp: idx_path_def)

text \<open>Reading an entry of one table is not affected by writing another entry, or a free frame.\<close>

lemma entry_unchanged:
  assumes inv: "vm_inv m root F" and p: "idx_path p" "tbl_at m root p = Some t" "i < 512"
    and q: "idx_path q" "tbl_at m root q = Some t'" "j < 512" "(q, j) \<noteq> (p, i)"
    and m': "\<And>a. a \<noteq> entry_addr t i \<Longrightarrow> unat a div 4096 \<notin> F \<Longrightarrow> m' a = m a"
  shows "m' (entry_addr t' j) = m (entry_addr t' j)"
proof (rule m')
  have "t' \<noteq> t \<or> j \<noteq> i" using vm_invD(3) [OF inv p(1,2) q(1)] q(2,4) by auto
  then show "entry_addr t' j \<noteq> entry_addr t i"
    using entry_addr_eq_iff vm_invD(1) [OF inv p(1,2)] vm_invD(1) [OF inv q(1,2)] p(3) q(3) by metis
  show "unat (entry_addr t' j) div 4096 \<notin> F"
    using vm_invD(1,2) [OF inv q(1,2)] q(3) by (simp add: entry_addr_frame)
qed

text \<open>Writing an entry that is not a table pointer in a table of the tree, where no table hung before.\<close>

lemma write_leaf:
  assumes inv: "vm_inv m root F" and p: "idx_path p" "tbl_at m root p = Some t" "i < 512"
    and none: "length p < 3 \<Longrightarrow> tbl_at m root (p @ [i]) = None"
    and e: "length p = 3 \<or> \<not> bit e 0 \<or> (p \<noteq> [] \<and> bit e 7)"
    and m': "m' = m(entry_addr t i := e)"
  shows "vm_inv m' root F" (is ?inv)
    and "idx_path q \<Longrightarrow> tbl_at m' root q = tbl_at m root q"
    and "list_all (\<lambda>i. i < 512) q \<Longrightarrow> length q \<le> 4 \<Longrightarrow> \<forall>r. q \<noteq> p @ i # r \<Longrightarrow> look m' root q = look m root q"
    and "look m' root (p @ i # r) =
      (if \<not> bit e 0 then None else if bit e 7 \<or> r = [] then Some (length r, e) else look m' (e AND ADDR_MASK) r)"
proof -
  have other: "m' (entry_addr t' j) = m (entry_addr t' j)"
    if "idx_path q" "tbl_at m root q = Some t'" "j < 512" "(q, j) \<noteq> (p, i)" for q t' j
    by (rule entry_unchanged [OF inv p that]) (simp add: m')
  have off: "tbl_at m' root q = tbl_at m root q" if "idx_path q" "\<forall>r. q \<noteq> p @ i # r" for q
  proof (rule tbl_at_eqI)
    fix q1 j r t' assume "q = q1 @ j # r" "tbl_at m root q1 = Some t'"
    then show "m' (entry_addr t' j) = m (entry_addr t' j)"
      using that by (intro other [of q1]) (auto simp: idx_path_def)
  qed
  have tp: "tbl_at m' root p = Some t" using off [of p] p by simp
  have on: "tbl_at m' root (p @ i # r) = None" "tbl_at m root (p @ i # r) = None" if "idx_path (p @ i # r)" for r
  proof -
    have "length p < 3" using that by (simp add: idx_path_def)
    then show "tbl_at m' root (p @ i # r) = None" using e by (simp add: tbl_at_append tp) (auto simp: m' Let_def)
    show "tbl_at m root (p @ i # r) = None"
      using none [OF \<open>length p < 3\<close>] p by (auto simp: tbl_at_append Let_def split: if_splits)
  qed
  show same: "tbl_at m' root q = tbl_at m root q" if "idx_path q" for q
    using off [OF that] on that by (cases "\<exists>r. q = p @ i # r") auto
  show "look m' root q = look m root q" if "list_all (\<lambda>i. i < 512) q" "length q \<le> 4" "\<forall>r. q \<noteq> p @ i # r" for q
  proof (rule look_eqI)
    fix q1 j r t' assume "q = q1 @ j # r" "tbl_at m root q1 = Some t'"
    then show "m' (entry_addr t' j) = m (entry_addr t' j)"
      using that by (intro other [of q1]) (auto simp: idx_path_def)
  qed
  show "look m' root (p @ i # r) =
      (if \<not> bit e 0 then None else if bit e 7 \<or> r = [] then Some (length r, e) else look m' (e AND ADDR_MASK) r)"
  proof -
    have "m' (entry_addr t i) = e" by (simp add: m')
    then show ?thesis by (simp add: look_append [OF tp] Let_def)
  qed
  have "\<not> bit (m' (entry_addr root j)) 7" if "j < 512" "bit (m' (entry_addr root j)) 0" for j
  proof (cases "([], j) = (p, i)")
    case True
    then show ?thesis using that p e by (auto simp: m')
  next
    case False
    then have "m' (entry_addr root j) = m (entry_addr root j)" using other [of "[]" root j] that by simp
    then show ?thesis using inv that by (simp add: vm_inv_def)
  qed
  then show ?inv using inv same by (simp add: vm_inv_def)
qed

text \<open>Hanging a new table, on a free frame, below an entry that was not a table pointer.\<close>

lemma install_table:
  assumes inv: "vm_inv m root F" and p: "idx_path p" "length p \<le> 2" "tbl_at m root p = Some t" "i < 512"
    and none: "tbl_at m root (p @ [i]) = None"
    and f: "page_aligned f" "unat f div 4096 \<in> F"
    and m': "\<forall>a. a \<noteq> entry_addr t i \<longrightarrow> unat a div 4096 \<noteq> unat f div 4096 \<longrightarrow> m' a = m a"
    and e: "bit (m' (entry_addr t i)) 0" "\<not> bit (m' (entry_addr t i)) 7" "m' (entry_addr t i) AND ADDR_MASK = f"
    and sub: "\<forall>j<512. length p < 2 \<longrightarrow> bit (m' (entry_addr f j)) 0 \<longrightarrow> bit (m' (entry_addr f j)) 7"
  shows "vm_inv m' root (F - {unat f div 4096})" (is ?inv)
    and "idx_path q \<Longrightarrow> tbl_at m' root q = (if q = p @ [i] then Some f else tbl_at m root q)"
    and "list_all (\<lambda>i. i < 512) q \<Longrightarrow> length q \<le> 4 \<Longrightarrow> \<forall>r. q \<noteq> p @ i # r \<Longrightarrow> look m' root q = look m root q"
    and "r \<noteq> [] \<Longrightarrow> look m' root (p @ i # r) = look m' f r"
proof -
  have other: "m' (entry_addr t' j) = m (entry_addr t' j)"
    if "idx_path q" "tbl_at m root q = Some t'" "j < 512" "(q, j) \<noteq> (p, i)" for q t' j
    using f(2) by (intro entry_unchanged [OF inv p(1,3,4) that] m' [rule_format]) auto
  have off: "tbl_at m' root q = tbl_at m root q" if "idx_path q" "\<forall>r. q \<noteq> p @ i # r" for q
  proof (rule tbl_at_eqI)
    fix q1 j r t' assume "q = q1 @ j # r" "tbl_at m root q1 = Some t'"
    then show "m' (entry_addr t' j) = m (entry_addr t' j)"
      using that by (intro other [of q1]) (auto simp: idx_path_def)
  qed
  have tp: "tbl_at m' root p = Some t" using off [of p] p by simp
  have on: "tbl_at m' root (p @ i # r) = (if r = [] then Some f else None)" "tbl_at m root (p @ i # r) = None"
    if "idx_path (p @ i # r)" for r
  proof -
    show "tbl_at m' root (p @ i # r) = (if r = [] then Some f else None)"
    proof (cases r)
      case (Cons j r')
      then have "j < 512" "length p < 2" using that by (auto simp: idx_path_def)
      then show ?thesis using sub e Cons by (auto simp: tbl_at_append tp Let_def)
    qed (simp add: tbl_at_append tp e)
    show "tbl_at m root (p @ i # r) = None"
      using none p by (auto simp: tbl_at_append Let_def split: if_splits)
  qed
  show tbl: "tbl_at m' root q = (if q = p @ [i] then Some f else tbl_at m root q)" if "idx_path q" for q
    using off [OF that] on that by (cases "\<exists>r. q = p @ i # r") (auto split: if_splits)
  show "look m' root q = look m root q" if "list_all (\<lambda>i. i < 512) q" "length q \<le> 4" "\<forall>r. q \<noteq> p @ i # r" for q
  proof (rule look_eqI)
    fix q1 j r t' assume "q = q1 @ j # r" "tbl_at m root q1 = Some t'"
    then show "m' (entry_addr t' j) = m (entry_addr t' j)"
      using that by (intro other [of q1]) (auto simp: idx_path_def)
  qed
  show "look m' root (p @ i # r) = look m' f r" if "r \<noteq> []"
    using e that by (simp add: look_append [OF tp] Let_def)
  have huge: "\<not> bit (m' (entry_addr root j)) 7" if "j < 512" "bit (m' (entry_addr root j)) 0" for j
  proof (cases "([], j) = (p, i)")
    case True
    then show ?thesis using p e by auto
  next
    case False
    then have "m' (entry_addr root j) = m (entry_addr root j)" using other [of "[]" root j] that by simp
    then show ?thesis using inv that by (simp add: vm_inv_def)
  qed
  have fresh: "tbl_at m root q \<noteq> Some f" if "idx_path q" for q
    using vm_invD(2) [OF inv that] f(2) by auto
  have pages: "page_aligned t' \<and> unat t' div 4096 \<notin> F - {unat f div 4096}"
    if "idx_path q" "tbl_at m' root q = Some t'" for q t'
    using that tbl [OF that(1)] vm_invD(1,2) [OF inv that(1)] f(1) by (auto split: if_splits)
  have inj: "q = q'" if "idx_path q" "idx_path q'" "tbl_at m' root q = Some t'" "tbl_at m' root q' = Some t'" for q q' t'
  proof (cases "q = p @ [i] \<or> q' = p @ [i]")
    case True
    then show ?thesis
      using that tbl [OF that(1)] tbl [OF that(2)] fresh [OF that(1)] fresh [OF that(2)] by (auto split: if_splits)
  next
    case False
    then show ?thesis
      using that(3,4) vm_invD(3) [OF inv that(2) _ that(1)] unfolding tbl [OF that(1)] tbl [OF that(2)] by simp
  qed
  show ?inv unfolding vm_inv_def using pages inj huge by blast
qed

lemma zero_page_other: "unat a div 4096 \<noteq> unat f div 4096 \<Longrightarrow> page_aligned f \<Longrightarrow> zero_page m f a = m a"
  by (auto simp: zero_page_def page_aligned_def elim!: dvdE)

lemma zero_page_entry: "page_aligned f \<Longrightarrow> i < 512 \<Longrightarrow> zero_page m f (entry_addr f i) = 0"
  by (simp add: zero_page_def unat_entry_addr)

text \<open>Zeroed frames come from the allocator, so its laws apply.\<close>

lemma alloc_frame_mem: "alloc_frame s = (r, s') \<Longrightarrow> mem s' = mem s"
  by (auto simp: alloc_frame_def split: option.splits prod.splits)

lemma kernel_mem_simps [simp]:
  "kernel_ok (s\<lparr>mem := m\<rparr>) = kernel_ok s" "kernel_free (s\<lparr>mem := m\<rparr>) = kernel_free s"
  "kernel_limit (s\<lparr>mem := m\<rparr>) = kernel_limit s"
  by (simp_all add: kernel_ok_def kernel_free_def kernel_limit_def)

lemma alloc_frame_zeroed_cases:
  assumes "kernel_ok s" "kernel_limit s \<le> 1099511627776"
  obtains "alloc_frame_zeroed s = (None, s)" "kernel_free s = {}"
  | f s' where "alloc_frame_zeroed s = (Some f, s')" "mem s' = zero_page (mem s) f" "page_aligned f"
    "unat f < 4503599627370496" "unat f div 4096 \<in> kernel_free s"
    "kernel_free s' = kernel_free s - {unat f div 4096}" "kernel_ok s'" "kernel_limit s' = kernel_limit s"
proof (cases "alloc_frame s")
  case (Pair r s1)
  show ?thesis
  proof (cases r)
    case None
    then show ?thesis using that(1) Pair frames.alloc_None [OF assms(1)] by (simp add: alloc_frame_zeroed_def)
  next
    case (Some a)
    obtain f where f: "unat a = f * 4096" "f \<in> kernel_free s" "kernel_free s1 = kernel_free s - {f}" "kernel_ok s1"
      "kernel_limit s1 = kernel_limit s" "f < kernel_limit s"
      using Pair Some by (auto elim: frames.alloc_SomeE [OF assms(1)])
    show ?thesis
      by (rule that(2) [of a "s1\<lparr>mem := zero_page (mem s1) a\<rparr>"])
        (use Pair Some f assms(2) alloc_frame_mem [OF Pair] in
          \<open>simp_all add: alloc_frame_zeroed_def page_aligned_def\<close>)
  qed
qed

lemma mem_fold_write_entry:
  assumes "page_aligned t" "n \<le> 512"
  shows "fold (\<lambda>i st. write_entry st t i (g i)) [0..<n] s =
    s\<lparr>mem := mem (fold (\<lambda>i st. write_entry st t i (g i)) [0..<n] s)\<rparr>"
    and "i < n \<Longrightarrow> mem (fold (\<lambda>i st. write_entry st t i (g i)) [0..<n] s) (entry_addr t i) = g i"
    and "unat a div 4096 \<noteq> unat t div 4096 \<Longrightarrow> mem (fold (\<lambda>i st. write_entry st t i (g i)) [0..<n] s) a = mem s a"
proof -
  show "fold (\<lambda>i st. write_entry st t i (g i)) [0..<n] s =
    s\<lparr>mem := mem (fold (\<lambda>i st. write_entry st t i (g i)) [0..<n] s)\<rparr>"
  proof -
    have "\<exists>m'. fold (\<lambda>i st. write_entry st t i (g i)) [0..<n] s = s\<lparr>mem := m'\<rparr>"
    proof (induction n)
      case 0
      show ?case by (intro exI [of _ "mem s"]) simp
    qed (auto simp: write_entry_def)
    then show ?thesis by auto
  qed
  show "mem (fold (\<lambda>i st. write_entry st t i (g i)) [0..<n] s) (entry_addr t i) = g i" if "i < n"
    using that assms(2)
  proof (induction n)
    case (Suc n)
    then show ?case
      using entry_addr_eq_iff [OF assms(1) assms(1), of i n] by (cases "i = n") (auto simp: write_entry_def)
  qed simp
  show "mem (fold (\<lambda>i st. write_entry st t i (g i)) [0..<n] s) a = mem s a" if "unat a div 4096 \<noteq> unat t div 4096"
    using assms(2)
  proof (induction n)
    case (Suc n)
    then have "a \<noteq> entry_addr t n" using that entry_addr_frame [OF assms(1), of n] by auto
    then show ?case using Suc by (simp add: write_entry_def)
  qed simp
qed

section \<open>Lemmas: creating and splitting tables\<close>

definition vm_ok :: "'a kernel_scheme \<Rightarrow> u64 \<Rightarrow> bool" where
  "vm_ok s root \<longleftrightarrow> kernel_ok s \<and> kernel_limit s \<le> 1099511627776 \<and> vm_inv (mem s) root (kernel_free s)"

definition mem_only :: "'a kernel_scheme \<Rightarrow> 'a kernel_scheme \<Rightarrow> bool" where
  "mem_only s s' \<longleftrightarrow> (\<exists>pl m. s' = s\<lparr>pmm_lock := pl, mem := m\<rparr>)"

lemma mem_onlyI: "s' = s\<lparr>pmm_lock := pl, mem := m\<rparr> \<Longrightarrow> mem_only s s'"
  by (auto simp: mem_only_def)

lemma mem_only_refl [simp]: "mem_only s s"
  by (rule mem_onlyI [where pl = "pmm_lock s" and m = "mem s"]) simp

lemma mem_only_trans: "mem_only s s1 \<Longrightarrow> mem_only s1 s2 \<Longrightarrow> mem_only s s2"
  unfolding mem_only_def by (elim exE, rule_tac x = pla in exI, rule_tac x = ma in exI) simp

lemma mem_only_write: "mem_only s (write_entry s t i e)" "mem_only s (s\<lparr>mem := m\<rparr>)"
  by (rule mem_onlyI [where pl = "pmm_lock s"], simp add: write_entry_def)+

lemma mem_only_alloc: "alloc_frame_zeroed s = (r, s') \<Longrightarrow> mem_only s s'"
proof -
  have "alloc_frame s = (r, s') \<Longrightarrow> mem_only s s'" for r s'
    by (auto simp: alloc_frame_def split: prod.splits option.splits
        intro: mem_onlyI [where m = "mem s"])
  then show "alloc_frame_zeroed s = (r, s') \<Longrightarrow> mem_only s s'"
    by (auto simp: alloc_frame_zeroed_def split: prod.splits option.splits
        intro: mem_only_trans [OF _ mem_only_write(2)])
qed

lemma mem_only_kernel:
  assumes "mem_only s s'"
  shows "hhdm_offset s' = hhdm_offset s"
  using assms by (auto simp: mem_only_def)

text \<open>A frame of data: in use, and no table. A step keeps the data when every such frame stays one with the same
  contents.\<close>

definition data_frame :: "'a kernel_scheme \<Rightarrow> u64 \<Rightarrow> nat \<Rightarrow> bool" where
  "data_frame s root f \<longleftrightarrow> f \<notin> kernel_free s \<and>
     (\<forall>q t. idx_path q \<longrightarrow> tbl_at (mem s) root q = Some t \<longrightarrow> unat t div 4096 \<noteq> f)"

definition keeps_data :: "'a kernel_scheme \<Rightarrow> u64 \<Rightarrow> 'a kernel_scheme \<Rightarrow> bool" where
  "keeps_data s root s' \<longleftrightarrow>
     (\<forall>f. data_frame s root f \<longrightarrow> data_frame s' root f \<and> (\<forall>a. unat a div 4096 = f \<longrightarrow> mem s' a = mem s a))"

lemma keeps_data_refl [simp]: "keeps_data s root s"
  by (simp add: keeps_data_def)

lemma keeps_data_trans: "keeps_data s root s1 \<Longrightarrow> keeps_data s1 root s2 \<Longrightarrow> keeps_data s root s2"
  unfolding keeps_data_def by metis

text \<open>A step that may add tables but changes no translation, no data, and no state but memory and the frame
  allocator.\<close>

definition vm_step :: "'a kernel_scheme \<Rightarrow> u64 \<Rightarrow> 'a kernel_scheme \<Rightarrow> bool" where
  "vm_step s root s' \<longleftrightarrow> vm_ok s' root \<and> (\<forall>v. walk s' root v = walk s root v) \<and>
     (\<forall>q t. idx_path q \<longrightarrow> tbl_at (mem s) root q = Some t \<longrightarrow> tbl_at (mem s') root q = Some t) \<and>
     kernel_free s' \<subseteq> kernel_free s \<and> mem_only s s' \<and> keeps_data s root s'"

text \<open>The same, taking at most one frame.\<close>

definition vm_step1 :: "'a kernel_scheme \<Rightarrow> u64 \<Rightarrow> 'a kernel_scheme \<Rightarrow> bool" where
  "vm_step1 s root s' \<longleftrightarrow> vm_step s root s' \<and> card (kernel_free s) \<le> Suc (card (kernel_free s'))"

lemma vm_step_refl: "vm_ok s root \<Longrightarrow> vm_step s root s"
  by (simp add: vm_step_def)

lemma vm_step_trans: "vm_step s root s1 \<Longrightarrow> vm_step s1 root s2 \<Longrightarrow> vm_step s root s2"
  unfolding vm_step_def using mem_only_trans keeps_data_trans by fastforce

lemma bit_high: "unat (f :: u64) < 2 ^ k \<Longrightarrow> k \<le> n \<Longrightarrow> \<not> bit f n"
proof -
  assume a: "unat f < 2 ^ k" "k \<le> n"
  have "unat f div 2 ^ n = 0"
    using a power_increasing [of k n "2::nat"] by (intro div_less) linarith
  then have "\<not> bit (unat f) n" by (simp add: bit_iff_odd)
  then show ?thesis by (simp add: bit_unsigned_iff)
qed

definition table_entry :: "u64 \<Rightarrow> u64" where
  "table_entry f = f OR PRESENT OR WRITABLE OR USER"

lemma table_entry_bits:
  assumes "page_aligned f" "unat f < 4503599627370496"
  shows "bit (table_entry f) 0" "\<not> bit (table_entry f) 7" "table_entry f AND ADDR_MASK = f"
proof -
  have low: "\<not> bit f n" if "n < 12" for n using page_aligned_bits [OF assms(1) that] .
  have high: "\<not> bit f n" if "52 \<le> n" for n using bit_high [of f 52 n] assms(2) that by simp
  show "bit (table_entry f) 0" "\<not> bit (table_entry f) 7"
    using low by (auto simp: table_entry_def bit_or_iff bit_flags)
  have range: "bit f n \<Longrightarrow> 12 \<le> n \<and> n < 52" for n using low [of n] high [of n] by fastforce
  show "table_entry f AND ADDR_MASK = f"
  proof (rule bit_word_eqI)
    fix n assume "n < LENGTH(64)"
    show "bit (table_entry f AND ADDR_MASK) n = bit f n"
      using range [of n] by (auto simp: table_entry_def bit_or_iff bit_and_iff bit_flags bit_masks)
  qed
qed

lemma vpath_path: "length (vpath v) = 4" "list_all (\<lambda>i. i < 512) (vpath v)"
  by (simp_all add: vpath_def)

lemma hang_table:
  assumes ok: "vm_ok s root" and p: "idx_path p" "length p \<le> 2" "tbl_at (mem s) root p = Some t" "i < 512"
    and none: "tbl_at (mem s) root (p @ [i]) = None"
    and alloc: "alloc_frame_zeroed s = (Some f, s1)" and n: "n \<le> 512"
    and s3: "s3 = write_entry (fold (\<lambda>j st. write_entry st f j (g j)) [0..<n] s1) t i (table_entry f)"
    and w: "\<And>j. w j = (if j < n then g j else 0)"
    and sub: "\<And>j. j < 512 \<Longrightarrow> length p < 2 \<Longrightarrow> bit (w j) 0 \<Longrightarrow> bit (w j) 7"
    and trans: "\<And>v j r. vpath v = p @ i # j # r \<Longrightarrow>
      map_option (\<lambda>x. leaf_addr x v) (look (mem s) root (vpath v)) =
        (if bit (w j) 0 then Some (leaf_addr (length r, w j) v) else None)"
  shows "vm_step1 s root s3 \<and> tbl_at (mem s3) root (p @ [i]) = Some f"
proof -
  have inv: "vm_inv (mem s) root (kernel_free s)" and kok: "kernel_ok s" "kernel_limit s \<le> 1099511627776"
    using ok by (auto simp: vm_ok_def)
  obtain f1: "mem s1 = zero_page (mem s) f" "page_aligned f" "unat f < 4503599627370496" "unat f div 4096 \<in> kernel_free s"
    "kernel_free s1 = kernel_free s - {unat f div 4096}" "kernel_ok s1" "kernel_limit s1 = kernel_limit s"
    by (rule alloc_frame_zeroed_cases [OF kok]) (use alloc in auto)
  note fw = mem_fold_write_entry [OF f1(2) n, where g = g and s = s1]
  define s2 where "s2 = fold (\<lambda>j st. write_entry st f j (g j)) [0..<n] s1"
  have m3: "mem s3 = (mem s2)(entry_addr t i := table_entry f)" by (simp add: s3 s2_def write_entry_def)
  have ft: "unat t div 4096 \<noteq> unat f div 4096" using vm_invD(2) [OF inv p(1,3)] f1(4) by auto
  have al: "page_aligned t" using vm_invD(1) [OF inv p(1,3)] .
  have neq: "entry_addr f j \<noteq> entry_addr t i" if "j < 512" for j
    using entry_addr_eq_iff [OF f1(2) al that p(4)] ft by auto
  have entries: "mem s3 (entry_addr f j) = w j" if "j < 512" for j
  proof (cases "j < n")
    case True
    then show ?thesis using fw(2) [of j] neq [OF that] by (simp add: m3 w s2_def)
  next
    case False
    have "mem (fold (\<lambda>j st. write_entry st f j (g j)) [0..<k] s1) (entry_addr f j) = 0" if "k \<le> n" for k
      using that
    proof (induction k)
      case 0
      then show ?case using f1(1,2) \<open>j < 512\<close> by (simp add: zero_page_entry)
    next
      case (Suc k)
      then show ?case
        using entry_addr_eq_iff [OF f1(2) f1(2), of j k] \<open>j < 512\<close> n False by (simp add: write_entry_def)
    qed
    then show ?thesis using neq [OF that] False by (simp add: m3 s2_def w)
  qed
  have out: "mem s3 a = mem s a" if "a \<noteq> entry_addr t i" "unat a div 4096 \<noteq> unat f div 4096" for a
    using that fw(3) zero_page_other f1(1,2) by (simp add: m3 s2_def)
  have e: "mem s3 (entry_addr t i) = table_entry f" by (simp add: m3)
  have e: "mem s3 (entry_addr t i) = table_entry f" by (simp add: m3)
  have sub': "\<forall>j<512. length p < 2 \<longrightarrow> bit (mem s3 (entry_addr f j)) 0 \<longrightarrow> bit (mem s3 (entry_addr f j)) 7"
    using sub by (simp add: entries)
  note inst = install_table [where m' = "mem s3", OF inv p none f1(2,4) _ _ _ _ sub', unfolded e,
      OF _ table_entry_bits [OF f1(2,3)]]
  have out': "\<forall>a. a \<noteq> entry_addr t i \<longrightarrow> unat a div 4096 \<noteq> unat f div 4096 \<longrightarrow> mem s3 a = mem s a"
    using out by blast
  have "mem_only s1 (fold (\<lambda>j st. write_entry st f j (g j)) [0..<n] s1)"
    by (subst fw(1)) (rule mem_only_write(2))
  then have only: "mem_only s s3"
    unfolding s3 by (rule mem_only_trans [OF mem_only_trans [OF mem_only_alloc [OF alloc]] mem_only_write(1)])
  have kf: "kernel_free s3 = kernel_free s - {unat f div 4096}" "kernel_ok s3" "kernel_limit s3 = kernel_limit s"
    unfolding s3 by (subst fw(1), simp add: write_entry_def f1(5-7))+
  have ok3: "vm_ok s3 root"
    using inst(1) [OF out'] kf kok by (simp add: vm_ok_def)
  have tbl: "tbl_at (mem s3) root q = (if q = p @ [i] then Some f else tbl_at (mem s) root q)" if "idx_path q" for q
    using inst(2) [OF out' that] .
  have "map_option (\<lambda>x. leaf_addr x v) (look (mem s3) root (vpath v)) =
        map_option (\<lambda>x. leaf_addr x v) (look (mem s) root (vpath v))" for v
  proof (cases "\<exists>r. vpath v = p @ i # r")
    case False
    then show ?thesis using inst(3) [OF out'] vpath_path [of v] by simp
  next
    case True
    then obtain r where r: "vpath v = p @ i # r" by blast
    then have len: "length r = 3 - length p" using vpath_path(1) [of v] by simp
    then obtain j r' where j: "r = j # r'" using p(2) by (cases r) auto
    have "j < 512" using vpath_path(2) [of v] r j by simp
    have "length p < 2 \<or> r' = []" using len j by (cases r') auto
    then have "look (mem s3) f r = (if bit (w j) 0 then Some (length r', w j) else None)"
      using sub [OF \<open>j < 512\<close>] by (auto simp: j Let_def entries [OF \<open>j < 512\<close>])
    then show ?thesis
      using trans [of v j r'] inst(4) [OF out', of r] r j by simp
  qed
  then have walk: "walk s3 root v = walk s root v" for v
    using walk_look [OF inv, of v] walk_look [of s3 root "kernel_free s3" v] ok3 by (simp add: vm_ok_def)
  have keeps: "keeps_data s root s3"
    unfolding keeps_data_def
  proof (intro allI impI conjI)
    fix g assume g: "data_frame s root g"
    then have gt: "g \<noteq> unat f div 4096" "g \<noteq> unat t div 4096"
      using f1(4) p(1,3) by (auto simp: data_frame_def)
    show "data_frame s3 root g"
      using g gt tbl kf(1) by (auto simp: data_frame_def split: if_splits)
    show "mem s3 a = mem s a" if "unat a div 4096 = g" for a
      using out [of a] that gt entry_addr_frame [OF al p(4)] by auto
  qed
  have "tbl_at (mem s3) root q = Some t'" if "idx_path q" "tbl_at (mem s) root q = Some t'" for q t'
    using tbl [OF that(1)] that(2) none by auto
  then show ?thesis
    using ok3 walk kf only keeps tbl [of "p @ [i]"] p f1(4)
    by (auto simp: vm_step1_def vm_step_def card_Diff_singleton_if)
qed


section \<open>Lemmas: descending and mapping\<close>

lemma tbl_at_snoc:
  "tbl_at m root p = Some t \<Longrightarrow>
   tbl_at m root (p @ [i]) =
     (if bit (m (entry_addr t i)) 0 \<and> \<not> bit (m (entry_addr t i)) 7 then Some (m (entry_addr t i) AND ADDR_MASK) else None)"
  by (simp add: tbl_at_append Let_def)

lemma child_table_step:
  assumes ok: "vm_ok s root" and p: "idx_path p" "length p \<le> 2" "tbl_at (mem s) root p = Some t" "i < 512"
    and e: "\<not> (bit (read_entry s t i) 0 \<and> bit (read_entry s t i) 7)"
  shows "(child_table s t i = None \<and> kernel_free s = {}) \<or>
    (\<exists>c s'. child_table s t i = Some (c, s') \<and> vm_step1 s root s' \<and> tbl_at (mem s') root (p @ [i]) = Some c)"
proof (cases "bit (read_entry s t i) 0")
  case True
  then show ?thesis
    using e tbl_at_snoc [OF p(3), of i] vm_step_refl [OF ok]
    by (simp add: vm_step1_def child_table_def PRESENT_iff HUGE_iff read_entry_def Let_def)
next
  case False
  have none: "tbl_at (mem s) root (p @ [i]) = None"
    using tbl_at_snoc [OF p(3), of i] False by (simp add: read_entry_def)
  have kok: "kernel_ok s" "kernel_limit s \<le> 1099511627776" using ok by (auto simp: vm_ok_def)
  show ?thesis
  proof (rule alloc_frame_zeroed_cases [OF kok])
    assume "alloc_frame_zeroed s = (None, s)" "kernel_free s = {}"
    then show ?thesis using False by (simp add: child_table_def PRESENT_iff Let_def)
  next
    fix f s1 assume alloc: "alloc_frame_zeroed s = (Some f, s1)"
    have "look (mem s) root (vpath v) = None" if "vpath v = p @ i # j # r" for v j r
      using False look_append [OF p(3), of "i # j # r"] that by (simp add: Let_def read_entry_def)
    then have "vm_step1 s root (write_entry s1 t i (table_entry f)) \<and>
        tbl_at (mem (write_entry s1 t i (table_entry f))) root (p @ [i]) = Some f"
      using hang_table [OF ok p none alloc, where n = 0 and w = "\<lambda>j. 0" and g = "\<lambda>j. 0"] by simp
    then show ?thesis
      using False alloc by (simp add: child_table_def PRESENT_iff Let_def table_entry_def or.assoc)
  qed
qed

lemma bit_of_nat_small:
  assumes "i < 512" "bit (of_nat i :: u64) n"
  shows "n < 9"
proof -
  have "unat (of_nat i :: u64) < 2 ^ 9" using assms(1) unat_of_nat_u64 [of i] by simp
  then show ?thesis using bit_high [of "of_nat i" 9 n] assms(2) by force
qed

lemma add_disjoint: "a AND b = (0 :: u64) \<Longrightarrow> a + b = a OR b"
  by (metis word_plus_and_or add_0)

lemma page_size_push: "w * PAGE_SIZE = push_bit 12 (w :: u64)" "w * HUGE_2M = push_bit 21 (w :: u64)"
  by (simp_all add: push_bit_eq_mult HUGE_2M_def)

lemma index_word:
  "of_nat (index v 3) = take_bit 9 (drop_bit 12 v)" "of_nat (index v 2) = take_bit 9 (drop_bit 21 v)"
proof -
  have m: "(0x1FF :: u64) = mask 9" by (simp add: mask_eq_exp_minus_1)
  show "of_nat (index v 3) = take_bit 9 (drop_bit 12 v)" "of_nat (index v 2) = take_bit 9 (drop_bit 21 v)"
    unfolding index_def m take_bit_eq_mask [symmetric] by simp_all
qed

lemma offset_masks: "PAGE_SIZE - 1 = mask 12" "HUGE_2M - 1 = mask 21" "HUGE_1G - 1 = mask 30"
  by (simp_all add: HUGE_2M_def HUGE_1G_def mask_eq_exp_minus_1)

text \<open>The offset in a huge page is the index of the smaller page and the offset in it.\<close>

lemma offset_split:
  "push_bit a (take_bit 9 (drop_bit a v)) + (v AND mask a) = (v AND mask (a + 9) :: u64)"
proof -
  have "push_bit a (take_bit 9 (drop_bit a v)) AND (v AND mask a) = 0"
    by (rule bit_word_eqI) (auto simp: bit_simps)
  moreover have "push_bit a (take_bit 9 (drop_bit a v)) OR (v AND mask a) = v AND mask (a + 9)"
    by (rule bit_word_eqI) (auto simp: bit_simps)
  ultimately show ?thesis by (simp add: add_disjoint)
qed

lemma split_flags_bits:
  "bit (split_flags e pat) n \<longleftrightarrow> (bit e n \<and> \<not> (12 \<le> n \<and> n < 52) \<and> n \<noteq> 7 \<and> n < 64) \<or> (bit e 12 \<and> bit pat n)"
proof -
  have "e AND PAT_HUGE = 0 \<longleftrightarrow> \<not> bit e 12"
    unfolding PAT_HUGE_def using bit_iff_and_push_bit_not_eq_0 [of e 12] by simp
  then show ?thesis
    by (auto simp: split_flags_def Let_def bit_or_iff bit_and_iff bit_not_iff bit_masks bit_flags
        dest: bit_imp_le_length)
qed

lemma split_2m_entry:
  assumes "j < 512" and w_def: "w = ((e AND HUGE_2M_MASK) + of_nat j * PAGE_SIZE) OR split_flags e PAT_4K"
  shows "bit w 0 \<longleftrightarrow> bit e 0" "w AND ADDR_MASK = (e AND HUGE_2M_MASK) + of_nat j * PAGE_SIZE"
proof -
  have small: "bit (of_nat j :: u64) n \<Longrightarrow> n < 9" for n using bit_of_nat_small [OF assms(1)] .
  have "(e AND HUGE_2M_MASK) AND push_bit 12 (of_nat j) = 0"
    by (rule bit_word_eqI) (auto simp: bit_and_iff bit_push_bit_iff bit_masks dest: small)
  then have sum: "(e AND HUGE_2M_MASK) + of_nat j * PAGE_SIZE = (e AND HUGE_2M_MASK) OR push_bit 12 (of_nat j)"
    by (simp add: page_size_push add_disjoint)
  have bits: "bit w n \<longleftrightarrow> (bit e n \<and> 21 \<le> n \<and> n < 52) \<or> (12 \<le> n \<and> n < 64 \<and> bit (of_nat j :: u64) (n - 12)) \<or>
      bit (split_flags e PAT_4K) n" for n
    by (auto simp: w_def sum bit_or_iff bit_and_iff bit_masks bit_push_bit_iff)
  show "bit w 0 \<longleftrightarrow> bit e 0" by (simp add: bits split_flags_bits bit_flags)
  show "w AND ADDR_MASK = (e AND HUGE_2M_MASK) + of_nat j * PAGE_SIZE"
    unfolding sum
  proof (rule bit_word_eqI)
    fix n assume "n < LENGTH(64)"
    then show "bit (w AND ADDR_MASK) n = bit ((e AND HUGE_2M_MASK) OR push_bit 12 (of_nat j)) n"
      using small [of "n - 12"]
      by (auto simp: bit_and_iff bit_or_iff bits bit_masks split_flags_bits bit_flags bit_push_bit_iff)
  qed
qed

lemma split_1g_entry:
  assumes "j < 512" and w_def: "w = ((e AND HUGE_1G_MASK) + of_nat j * HUGE_2M) OR split_flags e PAT_HUGE OR PRESENT OR HUGE"
  shows "bit w 0" "bit w 7" "w AND HUGE_2M_MASK = (e AND HUGE_1G_MASK) + of_nat j * HUGE_2M"
proof -
  have small: "bit (of_nat j :: u64) n \<Longrightarrow> n < 9" for n using bit_of_nat_small [OF assms(1)] .
  have "(e AND HUGE_1G_MASK) AND push_bit 21 (of_nat j) = 0"
    by (rule bit_word_eqI) (auto simp: bit_and_iff bit_push_bit_iff bit_masks dest: small)
  then have sum: "(e AND HUGE_1G_MASK) + of_nat j * HUGE_2M = (e AND HUGE_1G_MASK) OR push_bit 21 (of_nat j)"
    by (simp add: page_size_push add_disjoint)
  have bits: "bit w n \<longleftrightarrow> (bit e n \<and> 30 \<le> n \<and> n < 52) \<or> (21 \<le> n \<and> n < 64 \<and> bit (of_nat j :: u64) (n - 21)) \<or>
      bit (split_flags e PAT_HUGE) n \<or> n = 0 \<or> n = 7" for n
    by (auto simp: w_def sum bit_or_iff bit_and_iff bit_masks bit_push_bit_iff bit_flags)
  show "bit w 0" "bit w 7" by (simp_all add: bits)
  show "w AND HUGE_2M_MASK = (e AND HUGE_1G_MASK) + of_nat j * HUGE_2M"
    unfolding sum
  proof (rule bit_word_eqI)
    fix n assume "n < LENGTH(64)"
    then show "bit (w AND HUGE_2M_MASK) n = bit ((e AND HUGE_1G_MASK) OR push_bit 21 (of_nat j)) n"
      using small [of "n - 21"]
      by (auto simp: bit_and_iff bit_or_iff bits bit_masks split_flags_bits bit_flags bit_push_bit_iff)
  qed
qed

text \<open>A split keeps every translation and leaves a table pointer in the entry.\<close>

lemma split_huge_step:
  assumes ok: "vm_ok s root" and p: "idx_path p" "length p = 2" "tbl_at (mem s) root p = Some t" "i < 512"
    and e: "bit (read_entry s t i) 0" "bit (read_entry s t i) 7"
  shows "(split_huge s t i = None \<and> kernel_free s = {}) \<or>
    (\<exists>f s'. split_huge s t i = Some s' \<and> vm_step1 s root s' \<and> tbl_at (mem s') root (p @ [i]) = Some f)"
proof -
  define E where "E = read_entry s t i"
  define g where "g j = ((E AND HUGE_2M_MASK) + of_nat j * PAGE_SIZE) OR split_flags E PAT_4K" for j
  have kok: "kernel_ok s" "kernel_limit s \<le> 1099511627776" using ok by (auto simp: vm_ok_def)
  have none: "tbl_at (mem s) root (p @ [i]) = None"
    using tbl_at_snoc [OF p(3), of i] e by (simp add: read_entry_def)
  have trans: "map_option (\<lambda>x. leaf_addr x v) (look (mem s) root (vpath v)) =
      (if bit (if j < 512 then g j else 0) 0 then Some (leaf_addr (length r, if j < 512 then g j else 0) v) else None)"
    if v: "vpath v = p @ i # j # r" for v j r
  proof -
    have len: "r = []" using vpath_path(1) [of v] v p(2) by simp
    obtain a b where ab: "p = [a, b]" using p(2) by (metis (no_types, opaque_lifting) length_0_conv length_Suc_conv numeral_2_eq_2)
    have j: "j = index v 3" using v len by (simp add: vpath_def ab)
    have "look (mem s) root (vpath v) = Some (1, E)"
      using look_append [OF p(3), of "i # j # r"] v e len by (simp add: Let_def E_def read_entry_def)
    moreover have "g j AND ADDR_MASK = (E AND HUGE_2M_MASK) + push_bit 12 (take_bit 9 (drop_bit 12 v))"
      using split_2m_entry(2) [OF _ refl, of j E] by (simp add: g_def j index_word page_size_push)
    then have "leaf_addr (1, E) v = leaf_addr (0, g j) v"
      using offset_split [of 12 v] by (simp add: leaf_addr_def offset_masks(2) page_mask add.assoc)
    ultimately show ?thesis
      using split_2m_entry(1) [OF _ refl, of j E] e(1) j len by (simp add: g_def E_def)
  qed
  show ?thesis
  proof (rule alloc_frame_zeroed_cases [OF kok])
    assume "alloc_frame_zeroed s = (None, s)" "kernel_free s = {}"
    then show ?thesis by (simp add: split_huge_def Let_def)
  next
    fix f s1 assume alloc: "alloc_frame_zeroed s = (Some f, s1)"
    show ?thesis
      using hang_table [OF ok p(1) _ p(3,4) none alloc order_refl refl refl _ trans] p(2) alloc
      by (simp add: split_huge_def Let_def g_def E_def table_entry_def or.assoc ENTRIES_def)
  qed
qed

lemma split_1g_step:
  assumes ok: "vm_ok s root" and p: "idx_path p" "length p = 1" "tbl_at (mem s) root p = Some t" "i < 512"
    and e: "bit (read_entry s t i) 0" "bit (read_entry s t i) 7"
  shows "(split_1g_huge s t i = None \<and> kernel_free s = {}) \<or>
    (\<exists>f s'. split_1g_huge s t i = Some s' \<and> vm_step1 s root s' \<and> tbl_at (mem s') root (p @ [i]) = Some f)"
proof -
  define E where "E = read_entry s t i"
  define g where "g j = ((E AND HUGE_1G_MASK) + of_nat j * HUGE_2M) OR split_flags E PAT_HUGE OR PRESENT OR HUGE" for j
  have kok: "kernel_ok s" "kernel_limit s \<le> 1099511627776" using ok by (auto simp: vm_ok_def)
  have none: "tbl_at (mem s) root (p @ [i]) = None"
    using tbl_at_snoc [OF p(3), of i] e by (simp add: read_entry_def)
  have trans: "map_option (\<lambda>x. leaf_addr x v) (look (mem s) root (vpath v)) =
      (if bit (if j < 512 then g j else 0) 0 then Some (leaf_addr (length r, if j < 512 then g j else 0) v) else None)"
    if v: "vpath v = p @ i # j # r" for v j r
  proof -
    have len: "length r = 1" using vpath_path(1) [of v] v p(2) by simp
    obtain a where a: "p = [a]" using p(2) by (metis One_nat_def length_0_conv length_Suc_conv)
    have j: "j = index v 2" using v by (simp add: vpath_def a)
    have "look (mem s) root (vpath v) = Some (2, E)"
      using look_append [OF p(3), of "i # j # r"] v e len by (simp add: Let_def E_def read_entry_def)
    moreover have "g j AND HUGE_2M_MASK = (E AND HUGE_1G_MASK) + push_bit 21 (take_bit 9 (drop_bit 21 v))"
      using split_1g_entry(3) [OF _ refl, of j E] by (simp add: g_def j index_word page_size_push)
    then have "leaf_addr (2, E) v = leaf_addr (1, g j) v"
      using offset_split [of 21 v] by (simp add: leaf_addr_def offset_masks(2,3) add.assoc)
    ultimately show ?thesis
      using split_1g_entry(1) [OF _ refl, of j E] j len by (simp add: g_def E_def)
  qed
  have huge: "bit (if j < 512 then g j else 0) 7" if "bit (if j < 512 then g j else 0) 0" for j
    using that split_1g_entry(2) [OF _ refl, of j E] by (auto simp: g_def split: if_splits)
  show ?thesis
  proof (rule alloc_frame_zeroed_cases [OF kok])
    assume "alloc_frame_zeroed s = (None, s)" "kernel_free s = {}"
    then show ?thesis by (simp add: split_1g_huge_def Let_def)
  next
    fix f s1 assume alloc: "alloc_frame_zeroed s = (Some f, s1)"
    show ?thesis
      using hang_table [OF ok p(1) _ p(3,4) none alloc order_refl refl refl huge trans] p(2) alloc
      by (simp add: split_1g_huge_def Let_def g_def E_def table_entry_def or.assoc ENTRIES_def)
  qed
qed

lemma vm_step1D:
  assumes "vm_step1 s root s'"
  shows "vm_ok s' root" "walk s' root v = walk s root v"
    "idx_path q \<Longrightarrow> tbl_at (mem s) root q = Some t \<Longrightarrow> tbl_at (mem s') root q = Some t"
    "card (kernel_free s) \<le> Suc (card (kernel_free s'))" "mem_only s s'" "vm_step s root s'" "keeps_data s root s'"
    "kernel_free s' \<subseteq> kernel_free s"
  using assms by (auto simp: vm_step1_def vm_step_def)

lemma vm_stepD:
  assumes "vm_step s root s'"
  shows "vm_ok s' root" "walk s' root v = walk s root v"
    "idx_path q \<Longrightarrow> tbl_at (mem s) root q = Some t \<Longrightarrow> tbl_at (mem s') root q = Some t" "mem_only s s'"
  using assms by (auto simp: vm_step_def)

lemma child_table_present:
  assumes "tbl_at (mem s) root p = Some t" "tbl_at (mem s) root (p @ [i]) = Some c"
  shows "child_table s t i = Some (c, s)" "bit (read_entry s t i) 0" "\<not> bit (read_entry s t i) 7"
    "read_entry s t i AND ADDR_MASK = c"
  using assms(2) tbl_at_snoc [OF assms(1), of i]
  by (auto simp: child_table_def Let_def PRESENT_iff HUGE_iff read_entry_def split: if_splits)

text \<open>The two lookups of \<open>map4k\<close> below the PML4, with splitting.\<close>

lemma pd_for_step:
  assumes ok: "vm_ok s root" and p: "idx_path p" "length p = 1" "tbl_at (mem s) root p = Some t"
  shows "(pd_for s t virt = None \<and> kernel_free s = {}) \<or>
    (\<exists>c s'. pd_for s t virt = Some (c, s') \<and> vm_step1 s root s' \<and> tbl_at (mem s') root (p @ [index virt 1]) = Some c)"
proof (cases "bit (read_entry s t (index virt 1)) 0 \<and> bit (read_entry s t (index virt 1)) 7")
  case True
  from split_1g_step [OF ok p index_less conjunct1 [OF True] conjunct2 [OF True]] show ?thesis
  proof (elim disjE exE conjE)
    fix f s' assume s': "split_1g_huge s t (index virt 1) = Some s'" "vm_step1 s root s'"
      "tbl_at (mem s') root (p @ [index virt 1]) = Some f"
    have "tbl_at (mem s') root p = Some t" using vm_step1D(3) [OF s'(2) p(1,3)] .
    from child_table_present(1) [OF this s'(3)] show ?thesis
      using True s' by (simp add: pd_for_def Let_def PRESENT_iff HUGE_iff)
  qed (use True in \<open>simp add: pd_for_def Let_def PRESENT_iff HUGE_iff\<close>)
next
  case False
  then show ?thesis
    using child_table_step [OF ok p(1) _ p(3) index_less False] p(2)
    by (auto simp: pd_for_def Let_def PRESENT_iff HUGE_iff)
qed

lemma pt_for_step:
  assumes ok: "vm_ok s root" and p: "idx_path p" "length p = 2" "tbl_at (mem s) root p = Some t"
  shows "(pt_for s t virt = None \<and> kernel_free s = {}) \<or>
    (\<exists>c s'. pt_for s t virt = Some (c, s') \<and> vm_step1 s root s' \<and> tbl_at (mem s') root (p @ [index virt 2]) = Some c)"
proof (cases "bit (read_entry s t (index virt 2)) 0 \<and> bit (read_entry s t (index virt 2)) 7")
  case True
  from split_huge_step [OF ok p index_less conjunct1 [OF True] conjunct2 [OF True]] show ?thesis
  proof (elim disjE exE conjE)
    fix f s' assume s': "split_huge s t (index virt 2) = Some s'" "vm_step1 s root s'"
      "tbl_at (mem s') root (p @ [index virt 2]) = Some f"
    have "tbl_at (mem s') root p = Some t" using vm_step1D(3) [OF s'(2) p(1,3)] .
    from child_table_present(1) [OF this s'(3)] show ?thesis
      using True s' by (simp add: pt_for_def Let_def PRESENT_iff HUGE_iff)
  qed (use True in \<open>simp add: pt_for_def Let_def PRESENT_iff HUGE_iff\<close>)
next
  case False
  then show ?thesis
    using child_table_step [OF ok p(1) _ p(3) index_less False] p(2)
    by (auto simp: pt_for_def Let_def PRESENT_iff HUGE_iff)
qed

lemma pml4_entry_not_huge:
  assumes "vm_ok s root" "i < 512"
  shows "\<not> (bit (read_entry s root i) 0 \<and> bit (read_entry s root i) 7)"
  using assms by (auto simp: vm_ok_def vm_inv_def read_entry_def)

text \<open>Writing a 4 KiB leaf entry changes the translation of exactly one page.\<close>

lemma write_leaf_step:
  assumes ok: "vm_ok s root" and t: "tbl_at (mem s) root [index virt 0, index virt 1, index virt 2] = Some t"
    and s': "s' = write_entry s t (index virt 3) e"
  shows "vm_ok s' root" "mem_only s s'" "keeps_data s root s'"
    "walk s' root v = (if vpath v = vpath virt then if bit e 0 then Some ((e AND ADDR_MASK) + (v AND (PAGE_SIZE - 1))) else None
                       else walk s root v)"
proof -
  let ?p = "[index virt 0, index virt 1, index virt 2]"
  have inv: "vm_inv (mem s) root (kernel_free s)" using ok by (simp add: vm_ok_def)
  have idx: "idx_path ?p" by (simp add: idx_path_def)
  note wl = write_leaf [OF inv idx t index_less [of virt 3], of e "mem s'"]
  have m: "mem s' = (mem s)(entry_addr t (index virt 3) := e)" by (simp add: s' write_entry_def)
  have inv': "vm_inv (mem s') root (kernel_free s)" using wl(1) m by simp
  then show "vm_ok s' root" using ok by (simp add: vm_ok_def s' write_entry_def)
  show "mem_only s s'" by (simp add: s' mem_only_write)
  have al: "page_aligned t" using vm_invD(1) [OF inv idx t] .
  have out: "mem s' a = mem s a" if "unat a div 4096 \<noteq> unat t div 4096" for a
    using that entry_addr_frame [OF al index_less [of virt 3]] by (auto simp: m)
  have "data_frame s' root f \<longleftrightarrow> data_frame s root f" for f
    using wl(2) m by (simp add: data_frame_def s' write_entry_def)
  moreover have "unat t div 4096 \<noteq> f" if "data_frame s root f" for f
    using that idx t unfolding data_frame_def by blast
  ultimately show "keeps_data s root s'"
    using out unfolding keeps_data_def by metis
  have virt: "vpath virt = ?p @ index virt 3 # []" by (simp add: vpath_def)
  show "walk s' root v = (if vpath v = vpath virt then if bit e 0 then Some ((e AND ADDR_MASK) + (v AND (PAGE_SIZE - 1))) else None
                       else walk s root v)"
  proof (cases "vpath v = vpath virt")
    case True
    then have "look (mem s') root (vpath v) = (if bit e 0 then Some (0, e) else None)"
      using wl(4) [of "[]"] m by (simp add: virt)
    then show ?thesis using True walk_look [OF inv'] by (simp add: leaf_addr_def)
  next
    case False
    have "\<forall>r. vpath v \<noteq> ?p @ index virt 3 # r"
      using False vpath_path(1) [of v] by (auto simp: virt)
    then have "look (mem s') root (vpath v) = look (mem s) root (vpath v)"
      using wl(3) m vpath_path [of v] by simp
    then show ?thesis using False walk_look [OF inv'] walk_look [OF inv] by simp
  qed
qed

lemma map4k_spec:
  assumes ok: "vm_ok s root" and frames: "3 \<le> card (kernel_free s)" and flags: "flags AND ADDR_MASK = 0"
  shows "\<exists>s'. map4k s root virt phys flags = Some s' \<and> vm_ok s' root \<and> mem_only s s' \<and>
    card (kernel_free s) \<le> card (kernel_free s') + 3 \<and> kernel_free s' \<subseteq> kernel_free s \<and> keeps_data s root s' \<and>
    (\<forall>v. walk s' root v =
      (if vpath v = vpath virt then Some ((phys AND ADDR_MASK) + (v AND (PAGE_SIZE - 1))) else walk s root v))"
proof -
  have nonempty: "kernel_free x \<noteq> {}" if "0 < card (kernel_free x)" for x :: "'a kernel_scheme" using that by auto
  obtain pdpt s1 where 1: "child_table s root (index virt 0) = Some (pdpt, s1)" "vm_step1 s root s1"
    "tbl_at (mem s1) root [index virt 0] = Some pdpt"
    using child_table_step [OF ok, of "[]" root "index virt 0"] pml4_entry_not_huge [OF ok index_less] frames nonempty [of s]
    by auto
  note d1 = vm_step1D [OF 1(2)]
  obtain pd s2 where 2: "pd_for s1 pdpt virt = Some (pd, s2)" "vm_step1 s1 root s2"
    "tbl_at (mem s2) root [index virt 0, index virt 1] = Some pd"
    using pd_for_step [OF d1(1) _ _ 1(3), of virt] d1(4) frames nonempty [of s1] by (auto simp: idx_path_def)
  note d2 = vm_step1D [OF 2(2)]
  obtain pt s3 where 3: "pt_for s2 pd virt = Some (pt, s3)" "vm_step1 s2 root s3"
    "tbl_at (mem s3) root [index virt 0, index virt 1, index virt 2] = Some pt"
    using pt_for_step [OF d2(1) _ _ 2(3), of virt] d1(4) d2(4) frames nonempty [of s2] by (auto simp: idx_path_def)
  note d3 = vm_step1D [OF 3(2)]
  define e where "e = (phys AND ADDR_MASK) OR flags OR PRESENT"
  define s4 where "s4 = write_entry s3 pt (index virt 3) e"
  note w = write_leaf_step [OF d3(1) 3(3) s4_def]
  have e: "bit e 0" "e AND ADDR_MASK = phys AND ADDR_MASK"
  proof -
    show "bit e 0" by (simp add: e_def bit_or_iff bit_flags)
    have "\<not> (bit flags n \<and> bit ADDR_MASK n)" for n using flags by (metis bit_0_eq bit_and_iff bot_apply bot_bool_def)
    then show "e AND ADDR_MASK = phys AND ADDR_MASK"
      by (intro bit_word_eqI) (auto simp: e_def bit_or_iff bit_and_iff bit_flags bit_masks)
  qed
  have "map4k s root virt phys flags = Some s4"
    using 1(1) 2(1) 3(1) by (simp add: map4k_def s4_def e_def)
  moreover have "mem_only s s4"
    using d1(5) d2(5) d3(5) w(2) by (blast intro: mem_only_trans)
  moreover have "card (kernel_free s) \<le> card (kernel_free s4) + 3"
    using d1(4) d2(4) d3(4) by (simp add: s4_def write_entry_def)
  moreover have "kernel_free s4 \<subseteq> kernel_free s"
    using d1(8) d2(8) d3(8) by (auto simp: s4_def write_entry_def)
  moreover have "keeps_data s root s4"
    using d1(7) d2(7) d3(7) w(3) by (blast intro: keeps_data_trans)
  ultimately show ?thesis
    using w(1,4) e d1(2) d2(2) d3(2) by auto
qed

section \<open>Lemmas: changing an existing mapping\<close>

lemma walk_absent:
  assumes "vm_ok s root" "vpath virt = p @ i # r" "tbl_at (mem s) root p = Some t" "\<not> bit (read_entry s t i) 0"
  shows "walk s root virt = None"
proof -
  have "look (mem s) root (vpath virt) = None"
    using look_append [OF assms(3), of "i # r"] assms(2,4) by (simp add: Let_def read_entry_def)
  then show ?thesis using assms(1) walk_look [of s root "kernel_free s" virt] by (simp add: vm_ok_def)
qed

lemma tbl_at_entry:
  assumes "tbl_at (mem s) root p = Some t" "bit (read_entry s t i) 0" "\<not> bit (read_entry s t i) 7"
  shows "tbl_at (mem s) root (p @ [i]) = Some (read_entry s t i AND ADDR_MASK)"
  using assms by (simp add: tbl_at_snoc read_entry_def)

text \<open>One level of \<open>leaf_for\<close>: a present entry becomes a table pointer, by splitting if it is huge.\<close>

lemma leaf_level:
  assumes ok: "vm_ok s root" and p: "idx_path p" "tbl_at (mem s) root p = Some t" "i < 512"
    and pr: "bit (read_entry s t i) 0" and free: "0 < card (kernel_free s)"
    and split: "bit (read_entry s t i) 7 \<Longrightarrow> (res = None \<and> kernel_free s = {}) \<or>
      (\<exists>f s'. res = Some s' \<and> vm_step1 s root s' \<and> tbl_at (mem s') root (p @ [i]) = Some f)"
  obtains s' where "(if read_entry s t i AND HUGE \<noteq> 0 then res else Some s) = Some s'" "vm_step1 s root s'"
    "tbl_at (mem s') root (p @ [i]) = Some (read_entry s' t i AND ADDR_MASK)"
proof (cases "bit (read_entry s t i) 7")
  case True
  have "kernel_free s \<noteq> {}" using free by auto
  then obtain f s' where s': "res = Some s'" "vm_step1 s root s'" "tbl_at (mem s') root (p @ [i]) = Some f"
    using split [OF True] by blast
  have "tbl_at (mem s') root p = Some t" using vm_step1D(3) [OF s'(2) p(1,2)] .
  from child_table_present(4) [OF this s'(3)] show ?thesis
    using that [of s'] s' True by (simp add: HUGE_iff)
next
  case False
  then show ?thesis
    using that [of s] tbl_at_entry [OF p(2) pr] vm_step_refl [OF ok] by (simp add: HUGE_iff vm_step1_def)
qed

text \<open>What the lookup of a leaf promises: an address in the page table that maps \<open>virt\<close>, or that
  \<open>virt\<close> is not mapped.\<close>

definition leaf_result :: "'a kernel_scheme \<Rightarrow> u64 \<Rightarrow> u64 \<Rightarrow> u64 option \<Rightarrow> bool" where
  "leaf_result s root virt r \<longleftrightarrow>
     (case r of
        None \<Rightarrow> walk s root virt = None
      | Some leaf \<Rightarrow> \<exists>t. tbl_at (mem s) root [index virt 0, index virt 1, index virt 2] = Some t \<and>
          leaf = entry_addr t (index virt 3) \<and> bit (mem s leaf) 0)"

lemma vpath_splits:
  "vpath virt = [] @ index virt 0 # [index virt 1, index virt 2, index virt 3]"
  "vpath virt = [index virt 0] @ index virt 1 # [index virt 2, index virt 3]"
  "vpath virt = [index virt 0, index virt 1] @ index virt 2 # [index virt 3]"
  "vpath virt = [index virt 0, index virt 1, index virt 2] @ index virt 3 # []"
  by (simp_all add: vpath_def)

lemma idx_path_index:
  "idx_path [index virt a]" "idx_path [index virt a, index virt b]" "idx_path [index virt a, index virt b, index virt c]"
  by (simp_all add: idx_path_def)

lemma leaf_from_pd_spec:
  assumes ok: "vm_ok s root" and free: "0 < card (kernel_free s)"
    and t: "tbl_at (mem s) root [index virt 0, index virt 1] = Some pd"
  shows "\<exists>r s'. leaf_from_pd s pd virt = Some (r, s') \<and> vm_step s root s' \<and> leaf_result s' root virt r"
proof (cases "bit (read_entry s pd (index virt 2)) 0")
  case False
  then show ?thesis
    using walk_absent [OF ok vpath_splits(3) t] vm_step_refl [OF ok]
    by (simp add: leaf_from_pd_def Let_def PRESENT_iff leaf_result_def)
next
  case e: True
  obtain s' where s': "(if read_entry s pd (index virt 2) AND HUGE \<noteq> 0 then split_huge s pd (index virt 2) else Some s) = Some s'"
    "vm_step1 s root s'"
    "tbl_at (mem s') root ([index virt 0, index virt 1] @ [index virt 2]) = Some (read_entry s' pd (index virt 2) AND ADDR_MASK)"
    by (rule leaf_level [OF ok idx_path_index(2) t index_less e free split_huge_step [OF ok idx_path_index(2) _ t index_less e]])
      simp_all
  let ?pt = "read_entry s' pd (index virt 2) AND ADDR_MASK"
  have t3: "tbl_at (mem s') root [index virt 0, index virt 1, index virt 2] = Some ?pt" using s'(3) by simp
  note d = vm_step1D [OF s'(2)]
  have lf: "leaf_from_pd s pd virt =
      (if bit (mem s' (entry_addr ?pt (index virt 3))) 0 then Some (Some (entry_addr ?pt (index virt 3)), s') else Some (None, s'))"
    using e s'(1) by (simp add: leaf_from_pd_def Let_def PRESENT_iff)
  show ?thesis
  proof (cases "bit (mem s' (entry_addr ?pt (index virt 3))) 0")
    case False
    then have "walk s' root virt = None"
      using walk_absent [OF d(1) vpath_splits(4) t3] by (simp add: read_entry_def)
    then show ?thesis using False lf d(6) by (simp add: leaf_result_def)
  qed (use lf d(6) t3 in \<open>auto simp: leaf_result_def\<close>)
qed

lemma leaf_for_spec:
  assumes ok: "vm_ok s root" and free: "2 \<le> card (kernel_free s)"
  shows "\<exists>r s'. leaf_for s root virt = Some (r, s') \<and> vm_step s root s' \<and> leaf_result s' root virt r"
proof -
  let ?e0 = "read_entry s root (index virt 0)"
  let ?pdpt = "?e0 AND ADDR_MASK"
  let ?e1 = "read_entry s ?pdpt (index virt 1)"
  consider (a) "\<not> bit ?e0 0" | (b) "bit ?e0 0" "\<not> bit ?e1 0" | (c) "bit ?e0 0" "bit ?e1 0" by blast
  then show ?thesis
  proof cases
    case a
    then show ?thesis
      using walk_absent [OF ok vpath_splits(1)] vm_step_refl [OF ok]
      by (simp add: leaf_for_def Let_def PRESENT_iff leaf_result_def)
  next
    case b
    then have nh: "\<not> bit ?e0 7" using pml4_entry_not_huge [OF ok index_less] by blast
    have t1: "tbl_at (mem s) root [index virt 0] = Some ?pdpt"
      using tbl_at_entry [of s root "[]" root "index virt 0"] b nh by simp
    show ?thesis
      using b walk_absent [OF ok vpath_splits(2) t1] vm_step_refl [OF ok] nh
      by (simp add: leaf_for_def Let_def PRESENT_iff HUGE_iff leaf_result_def)
  next
    case c
    then have nh: "\<not> bit ?e0 7" using pml4_entry_not_huge [OF ok index_less] by blast
    have t1: "tbl_at (mem s) root [index virt 0] = Some ?pdpt"
      using tbl_at_entry [of s root "[]" root "index virt 0"] c nh by simp
    have free1: "0 < card (kernel_free s)" using free by linarith
    obtain s1 where s1: "(if ?e1 AND HUGE \<noteq> 0 then split_1g_huge s ?pdpt (index virt 1) else Some s) = Some s1"
      "vm_step1 s root s1"
      "tbl_at (mem s1) root ([index virt 0] @ [index virt 1]) = Some (read_entry s1 ?pdpt (index virt 1) AND ADDR_MASK)"
      by (rule leaf_level [OF ok idx_path_index(1) t1 index_less c(2) free1 split_1g_step [OF ok idx_path_index(1) _ t1 index_less c(2)]])
        simp_all
    note d = vm_step1D [OF s1(2)]
    have "0 < card (kernel_free s1)" using d(4) free by linarith
    from leaf_from_pd_spec [OF d(1) this, of virt] s1(3) obtain r s2 where
      r: "leaf_from_pd s1 (read_entry s1 ?pdpt (index virt 1) AND ADDR_MASK) virt = Some (r, s2)"
      "vm_step s1 root s2" "leaf_result s2 root virt r" by auto
    have "leaf_for s root virt = Some (r, s2)"
      using s1(1) r(1) c nh by (simp add: leaf_for_def Let_def PRESENT_iff HUGE_iff split: if_splits)
    then show ?thesis using vm_step_trans [OF d(6) r(2)] r(3) by blast
  qed
qed

lemma leaf_write:
  assumes ok: "vm_ok s root" and r: "leaf_result s root virt (Some leaf)" and s': "s' = s\<lparr>mem := (mem s)(leaf := e)\<rparr>"
  shows "vm_ok s' root" "mem_only s s'"
    "walk s' root v = (if vpath v = vpath virt then if bit e 0 then Some ((e AND ADDR_MASK) + (v AND (PAGE_SIZE - 1))) else None
                       else walk s root v)"
    "walk s root virt = Some ((mem s leaf AND ADDR_MASK) + (virt AND (PAGE_SIZE - 1)))"
proof -
  obtain t where t: "tbl_at (mem s) root [index virt 0, index virt 1, index virt 2] = Some t"
    "leaf = entry_addr t (index virt 3)" "bit (mem s leaf) 0"
    using r by (auto simp: leaf_result_def)
  have s'': "s' = write_entry s t (index virt 3) e" by (simp add: s' write_entry_def t(2))
  show "vm_ok s' root" "mem_only s s'"
    "walk s' root v = (if vpath v = vpath virt then if bit e 0 then Some ((e AND ADDR_MASK) + (v AND (PAGE_SIZE - 1))) else None
                       else walk s root v)"
    using write_leaf_step [OF ok t(1) s''] by auto
  have "look (mem s) root (vpath virt) = Some (0, mem s leaf)"
    using look_append [OF t(1), of "[index virt 3]"] t(2,3) by (simp add: vpath_def Let_def)
  then show "walk s root virt = Some ((mem s leaf AND ADDR_MASK) + (virt AND (PAGE_SIZE - 1)))"
    using ok walk_look [of s root "kernel_free s" virt] by (simp add: vm_ok_def leaf_addr_def)
qed

section \<open>Lemmas: merging ranges\<close>

text \<open>The inner loop of the sort, as an insertion into the reversed sorted prefix.\<close>

fun insert_desc :: "u64 \<times> u64 \<Rightarrow> (u64 \<times> u64) list \<Rightarrow> (u64 \<times> u64) list" where
  "insert_desc y [] = [y]"
| "insert_desc y (x # xs) = (if fst x > fst y then x # insert_desc y xs else y # x # xs)"

lemma sift_down_insert: "sift_down (rev xs @ y # zs) (length xs) = rev (insert_desc y xs) @ zs"
proof (induction xs arbitrary: zs)
  case (Cons x xs)
  have "(rev xs @ x # y # zs)[length xs := y, Suc (length xs) := x] = rev xs @ y # x # zs"
    by (simp add: list_update_append)
  then show ?case using Cons.IH [of "x # zs"] by (simp add: nth_append)
qed simp

lemma mset_insert_desc [simp]: "mset (insert_desc y xs) = add_mset y (mset xs)"
  by (induction xs) auto

lemma set_insert_desc [simp]: "set (insert_desc y xs) = insert y (set xs)"
  by (induction xs) auto

lemma insert_desc_sorted:
  "sorted_wrt (\<lambda>a b. fst a \<ge> fst b) xs \<Longrightarrow> sorted_wrt (\<lambda>a b. fst a \<ge> fst b) (insert_desc y xs)"
  by (induction xs) (fastforce simp: not_less)+

lemma sort_prefix:
  assumes "1 \<le> n" "n \<le> length r"
  shows "\<exists>xs. fold (\<lambda>i r. sift_down r i) [1..<n] r = rev xs @ drop n r \<and> mset xs = mset (take n r) \<and>
     sorted_wrt (\<lambda>a b. fst a \<ge> fst b) xs"
  using assms
proof (induction n)
  case (Suc n)
  show ?case
  proof (cases "n = 0")
    case True
    then have "r = rev [hd r] @ drop 1 r" using Suc.prems by (cases r) auto
    then show ?thesis using True Suc.prems by (intro exI [of _ "[hd r]"]) (cases r, auto)
  next
    case False
    then obtain xs where xs: "fold (\<lambda>i r. sift_down r i) [1..<n] r = rev xs @ drop n r" "mset xs = mset (take n r)"
      "sorted_wrt (\<lambda>a b. fst a \<ge> fst b) xs" using Suc by auto
    have len: "length xs = n" using mset_eq_length [OF xs(2)] Suc.prems by simp
    have "drop n r = r ! n # drop (Suc n) r" using Suc.prems by (simp add: Cons_nth_drop_Suc)
    then have "fold (\<lambda>i r. sift_down r i) [1..<Suc n] r = rev (insert_desc (r ! n) xs) @ drop (Suc n) r"
      using False xs(1) sift_down_insert [of xs "r ! n" "drop (Suc n) r"] len by simp
    moreover have "mset (insert_desc (r ! n) xs) = mset (take (Suc n) r)"
      using xs(2) Suc.prems by (simp add: take_Suc_conv_app_nth)
    ultimately show ?thesis using insert_desc_sorted [OF xs(3)] by blast
  qed
qed simp

text \<open>The compaction, as a fold over the sorted ranges that extends or appends to the result.\<close>

fun merge_list :: "(u64 \<times> u64) list \<Rightarrow> (u64 \<times> u64) list \<Rightarrow> (u64 \<times> u64) list" where
  "merge_list acc [] = acc"
| "merge_list acc (x # xs) =
     (if acc \<noteq> [] \<and> fst x \<le> snd (last acc)
      then merge_list (butlast acc @ [(fst (last acc), max (snd (last acc)) (snd x))]) xs
      else merge_list (acc @ [x]) xs)"

lemma merge_loop_list:
  "out \<le> i \<Longrightarrow> i \<le> length r \<Longrightarrow> merge_loop r [i..<length r] out = (r', n) \<Longrightarrow>
   length r' = length r \<and> n \<le> length r \<and> take n r' = merge_list (take out r) (drop i r)"
proof (induction "length r - i" arbitrary: r i out)
  case 0
  then show ?case by simp
next
  case (Suc d)
  then have i: "i < length r" by simp
  have dr: "drop i r = r ! i # drop (Suc i) r" using i by (simp add: Cons_nth_drop_Suc)
  have up: "[i..<length r] = i # [Suc i..<length r]" using i by (simp add: upt_conv_Cons)
  have last: "take out r \<noteq> [] \<Longrightarrow> last (take out r) = r ! (out - 1)" "take out r = [] \<longleftrightarrow> out = 0"
    using Suc.prems i by (auto simp: last_conv_nth)
  show ?case
  proof (cases "0 < out \<and> fst (r ! i) \<le> snd (r ! (out - 1))")
    case True
    let ?x = "(fst (r ! (out - 1)), max (snd (r ! (out - 1))) (snd (r ! i)))"
    have t: "take out (r[out - 1 := ?x]) = butlast (take out r) @ [?x]"
      using True Suc.prems i by (cases out) (auto simp: take_Suc_conv_app_nth butlast_append)
    have rec: "merge_loop (r[out - 1 := ?x]) [Suc i..<length r] out = (r', n)"
    proof (cases "snd (r ! i) > snd (r ! (out - 1))")
      case False
      then have "r[out - 1 := ?x] = r" using True i Suc.prems by (simp add: max_def)
      then show ?thesis using Suc.prems(3) True False by (simp add: up)
    qed (use Suc.prems(3) True in \<open>simp add: up max_absorb2 less_imp_le\<close>)
    have "length r' = length (r[out - 1 := ?x]) \<and> n \<le> length (r[out - 1 := ?x]) \<and>
        take n r' = merge_list (take out (r[out - 1 := ?x])) (drop (Suc i) (r[out - 1 := ?x]))"
      using Suc.hyps(2) Suc.prems i rec by (intro Suc.hyps(1)) auto
    moreover have "drop (Suc i) (r[out - 1 := ?x]) = drop (Suc i) r" using Suc.prems by simp
    ultimately show ?thesis using True last t by (simp add: dr)
  next
    case False
    let ?r = "r[out := r ! i]"
    have rec: "merge_loop ?r [Suc i..<length r] (Suc out) = (r', n)"
      using Suc.prems(3) False by (auto simp: up split: if_splits)
    have "length r' = length ?r \<and> n \<le> length ?r \<and> take n r' = merge_list (take (Suc out) ?r) (drop (Suc i) ?r)"
      using Suc.hyps(2) Suc.prems i rec by (intro Suc.hyps(1)) auto
    moreover have "take (Suc out) ?r = take out r @ [r ! i]" "drop (Suc i) ?r = drop (Suc i) r"
      using Suc.prems i by (auto simp: take_Suc_conv_app_nth)
    ultimately show ?thesis using False last by (auto simp: dr)
  qed
qed

definition covered :: "(u64 \<times> u64) list \<Rightarrow> u64 set" where
  "covered rs = (\<Union>(a, b) \<in> set rs. {a..<b})"

lemma covered_append [simp]: "covered (xs @ ys) = covered xs \<union> covered ys"
  by (simp add: covered_def)

lemma covered_Cons [simp]: "covered (x # xs) = {fst x..<snd x} \<union> covered xs"
  by (auto simp: covered_def split: prod.splits)

lemma covered_Nil [simp]: "covered [] = {}"
  by (simp add: covered_def)

lemma covered_mset: "mset xs = mset ys \<Longrightarrow> covered xs = covered ys"
  unfolding covered_def by (metis set_mset_mset)

lemma covered_merge:
  "fst l \<le> fst x \<Longrightarrow> fst x \<le> snd l \<Longrightarrow> {fst l..<max (snd l) (snd x)} = {fst l..<snd l} \<union> {fst x..<snd (x :: u64 \<times> u64)}"
  by (auto simp: less_max_iff_disj)

lemma merge_list_snoc:
  assumes "sorted_wrt (\<lambda>a b. fst a \<le> fst b) xs" "sorted_wrt (\<lambda>a b. snd a < fst b) (ys @ [l])"
    "\<forall>x\<in>set xs. fst l \<le> fst x"
  shows "sorted_wrt (\<lambda>a b. snd a < fst b) (merge_list (ys @ [l]) xs) \<and>
    covered (merge_list (ys @ [l]) xs) = covered (ys @ [l]) \<union> covered xs"
  using assms
proof (induction xs arbitrary: ys l)
  case (Cons x xs)
  show ?case
  proof (cases "fst x \<le> snd l")
    case True
    let ?l = "(fst l, max (snd l) (snd x))"
    have "sorted_wrt (\<lambda>a b. snd a < fst b) (ys @ [?l])" "\<forall>x\<in>set xs. fst ?l \<le> fst x"
      using Cons.prems by (auto simp: sorted_wrt_append)
    then show ?thesis
      using Cons.IH [of ys ?l] Cons.prems True covered_merge [of l x] by auto
  next
    case False
    have "sorted_wrt (\<lambda>a b. snd a < fst b) ((ys @ [l]) @ [x])" "\<forall>x'\<in>set xs. fst x \<le> fst x'"
      using Cons.prems False by (fastforce simp: sorted_wrt_append)+
    then show ?thesis
      using Cons.IH [of "ys @ [l]" x] Cons.prems False by auto
  qed
qed simp

lemma sorted_rev_desc: "sorted_wrt (\<lambda>a b. fst a \<ge> fst b) xs \<Longrightarrow> sorted_wrt (\<lambda>a b. fst a \<le> fst (b :: u64 \<times> u64)) (rev xs)"
  by (simp add: sorted_wrt_rev)

text \<open>\<open>merge_ranges\<close>: the ranges it leaves at the front of the slice are in order and pairwise
  separated (each ends before the next begins, so neighbours neither touch nor overlap), and together
  they cover exactly the addresses that the given ranges cover.\<close>

theorem merge_ranges_correct:
  "case merge_ranges r of (r', n) \<Rightarrow>
     n \<le> length r' \<and> sorted_wrt (\<lambda>a b. snd a < fst b) (take n r') \<and> covered (take n r') = covered r"
proof (cases r)
  case Nil
  then show ?thesis by (simp add: merge_ranges_def)
next
  case (Cons x0 r0)
  obtain xs where xs: "fold (\<lambda>i r. sift_down r i) [1..<length r] r = rev xs" "mset xs = mset r"
    "sorted_wrt (\<lambda>a b. fst a \<ge> fst b) xs"
    using sort_prefix [of "length r" r] Cons by auto
  obtain r' n where m: "merge_loop (rev xs) [0..<length (rev xs)] 0 = (r', n)" by fastforce
  have l: "n \<le> length r'" "take n r' = merge_list [] (rev xs)"
    using merge_loop_list [OF _ _ m] by auto
  have "rev xs \<noteq> []" using xs(2) Cons by auto
  then obtain y ys where y: "rev xs = y # ys" by (cases "rev xs") auto
  have "sorted_wrt (\<lambda>a b. snd a < fst b) (merge_list ([] @ [y]) ys) \<and>
      covered (merge_list ([] @ [y]) ys) = covered ([] @ [y]) \<union> covered ys"
    using sorted_rev_desc [OF xs(3)] by (intro merge_list_snoc) (auto simp: y)
  moreover have "covered (rev xs) = covered r" using xs(2) by (intro covered_mset) simp
  moreover have "merge_ranges r = (r', n)"
    unfolding merge_ranges_def Let_def xs(1) by (rule m)
  ultimately show ?thesis
    using l y by simp
qed

section \<open>Properties: the kernel's mappings\<close>

text \<open>Two addresses are in the same page if they agree in the bits that the walk uses for indices.\<close>

definition same_page :: "u64 \<Rightarrow> u64 \<Rightarrow> bool" where
  "same_page v w \<longleftrightarrow> v AND 0x0000FFFFFFFFF000 = w AND 0x0000FFFFFFFFF000"

lemma word_eq_bits: "a = b \<longleftrightarrow> (\<forall>n. bit a n = bit (b :: u64) n)"
  by (metis bit_word_eqI)

lemma same_page_bits: "same_page v w \<longleftrightarrow> (\<forall>n. 12 \<le> n \<and> n < 48 \<longrightarrow> bit v n = bit w n)"
proof -
  have m: "(0x0000FFFFFFFFF000 :: u64) = mask 48 AND NOT (mask 12)" by (simp add: mask_eq_exp_minus_1)
  have b: "bit (0x0000FFFFFFFFF000 :: u64) n \<longleftrightarrow> 12 \<le> n \<and> n < 48" for n
    unfolding m bit_mask_range by auto
  show ?thesis
    unfolding same_page_def word_eq_bits bit_and_iff b by blast
qed

lemma all_shift: "(\<forall>n<k. P (a + n)) \<longleftrightarrow> (\<forall>n. a \<le> n \<and> n < a + k \<longrightarrow> P (n::nat))"
  by (metis add_less_cancel_left le_add1 le_add_diff_inverse)

lemma index_eq_iff:
  "index v k = index w k \<longleftrightarrow> (\<forall>n. 39 - k * 9 \<le> n \<and> n < 39 - k * 9 + 9 \<longrightarrow> bit v n = bit w n)"
proof -
  have m: "(0x1FF :: u64) = mask 9" by (simp add: mask_eq_exp_minus_1)
  have "index v k = index w k \<longleftrightarrow> take_bit 9 (drop_bit (39 - k * 9) v) = take_bit 9 (drop_bit (39 - k * 9) w)"
    unfolding index_def m take_bit_eq_mask [symmetric] by (simp only: word_unat_eq_iff)
  also have "\<dots> \<longleftrightarrow> (\<forall>n<9. bit v (39 - k * 9 + n) = bit w (39 - k * 9 + n))"
    unfolding word_eq_bits by (auto simp: bit_take_bit_iff bit_drop_bit_eq)
  also have "\<dots> \<longleftrightarrow> (\<forall>n. 39 - k * 9 \<le> n \<and> n < 39 - k * 9 + 9 \<longrightarrow> bit v n = bit w n)"
    by (rule all_shift)
  finally show ?thesis .
qed

lemma vpath_eq_iff: "vpath v = vpath w \<longleftrightarrow> same_page v w"
proof -
  have "vpath v = vpath w \<longleftrightarrow> (\<forall>n. 39 \<le> n \<and> n < 48 \<longrightarrow> bit v n = bit w n) \<and> (\<forall>n. 30 \<le> n \<and> n < 39 \<longrightarrow> bit v n = bit w n) \<and>
      (\<forall>n. 21 \<le> n \<and> n < 30 \<longrightarrow> bit v n = bit w n) \<and> (\<forall>n. 12 \<le> n \<and> n < 21 \<longrightarrow> bit v n = bit w n)"
    by (simp add: vpath_def index_eq_iff)
  also have "\<dots> \<longleftrightarrow> same_page v w"
  proof
    assume a: "(\<forall>n. 39 \<le> n \<and> n < 48 \<longrightarrow> bit v n = bit w n) \<and> (\<forall>n. 30 \<le> n \<and> n < 39 \<longrightarrow> bit v n = bit w n) \<and>
      (\<forall>n. 21 \<le> n \<and> n < 30 \<longrightarrow> bit v n = bit w n) \<and> (\<forall>n. 12 \<le> n \<and> n < 21 \<longrightarrow> bit v n = bit w n)"
    have "bit v n = bit w n" if "12 \<le> n" "n < 48" for n
    proof -
      consider "n < 21" | "21 \<le> n" "n < 30" | "30 \<le> n" "n < 39" | "39 \<le> n" by linarith
      then show ?thesis using a that by cases auto
    qed
    then show "same_page v w" by (simp add: same_page_bits)
  qed (auto simp: same_page_bits)
  finally show ?thesis .
qed

lemma mem_only_vmm: "mem_only s s' \<Longrightarrow> vmm_lock s' = vmm_lock s \<and> cr3 s' = cr3 s \<and> KERNEL_CR3 s' = KERNEL_CR3 s"
  by (auto simp: mem_only_def)

lemma walk_None_page:
  assumes "vm_ok s root" "vpath v = vpath w" "walk s root w = None"
  shows "walk s root v = None"
  using assms walk_look [of s root "kernel_free s"] by (simp add: vm_ok_def)

lemma leaf_result_page:
  "vpath v = vpath w \<Longrightarrow> leaf_result s root w (Some leaf) \<Longrightarrow> leaf_result s root v (Some leaf)"
  by (simp add: leaf_result_def vpath_def)

lemma kernel_flags_mask:
  "flags \<in> {KERNEL_RX, KERNEL_RO, KERNEL_RW, KERNEL_WC, KERNEL_UC} \<Longrightarrow> flags AND ADDR_MASK = 0"
  by (auto simp: KERNEL_RX_def KERNEL_RO_def KERNEL_RW_def KERNEL_WC_def KERNEL_UC_def PRESENT_def WRITABLE_def
      NO_EXECUTE_def PWT_def PCD_def ADDR_MASK_def)

lemma leaf_entry_bits:
  assumes "flags AND ADDR_MASK = 0"
  shows "bit ((a AND ADDR_MASK) OR flags OR PRESENT) 0"
    "((a AND ADDR_MASK) OR flags OR PRESENT) AND ADDR_MASK = a AND ADDR_MASK"
proof -
  show "bit ((a AND ADDR_MASK) OR flags OR PRESENT) 0" by (simp add: bit_or_iff bit_flags)
  have "\<not> (bit flags n \<and> bit ADDR_MASK n)" for n
    using assms by (metis bit_0_eq bit_and_iff bot_apply bot_bool_def)
  then show "((a AND ADDR_MASK) OR flags OR PRESENT) AND ADDR_MASK = a AND ADDR_MASK"
    by (intro bit_word_eqI) (auto simp: bit_or_iff bit_and_iff bit_flags bit_masks)
qed

text \<open>A kernel whose first gigabyte is one huge page: the PML4 is frame 8 and its only PDPT frame 9.\<close>

definition huge_mem :: "u64 \<Rightarrow> u64" where
  "huge_mem a = (if a = entry_addr 0x8000 0 then 0x9007 else if a = entry_addr 0x9000 0 then 0x83 else 0)"

definition huge_kernel :: vkernel where
  "huge_kernel = \<lparr>hhdm_offset = 0xFFFF800000000000, pmm_lock = Some pmm_example, mem = huge_mem,
     vmm_lock = Some 0x8000, KERNEL_CR3 = 0x8000, cr3 = 0x8000\<rparr>"

lemma huge_mem_entries:
  assumes "i < 512"
  shows "huge_mem (entry_addr 0x8000 i) = (if i = 0 then 0x9007 else 0)"
    "huge_mem (entry_addr 0x9000 i) = (if i = 0 then 0x83 else 0)"
proof -
  have al: "page_aligned 0x8000" "page_aligned 0x9000" by (simp_all add: page_aligned_def)
  show "huge_mem (entry_addr 0x8000 i) = (if i = 0 then 0x9007 else 0)"
    "huge_mem (entry_addr 0x9000 i) = (if i = 0 then 0x83 else 0)"
    using assms entry_addr_eq_iff [OF al(1) al(1), of i 0] entry_addr_eq_iff [OF al(1) al(2), of i 0]
      entry_addr_eq_iff [OF al(2) al(1), of i 0] entry_addr_eq_iff [OF al(2) al(2), of i 0]
    by (auto simp: huge_mem_def)
qed

lemma huge_tbl_at:
  assumes "idx_path p"
  shows "tbl_at huge_mem 0x8000 p = (if p = [] then Some 0x8000 else if p = [0] then Some 0x9000 else None)"
proof -
  have inner: "tbl_at huge_mem 0x9000 q = (if q = [] then Some 0x9000 else None)" if "list_all (\<lambda>i. i < 512) q" for q
    using that by (cases q) (auto simp: huge_mem_entries Let_def)
  show ?thesis
    using assms by (cases p) (auto simp: huge_mem_entries Let_def idx_path_def inner ADDR_MASK_def)
qed

lemma huge_kernel_ok: "vm_ok huge_kernel 0x8000"
  by (auto simp: vm_ok_def huge_kernel_def kernel_ok_def kernel_limit_def kernel_free_def pmm_example_inv
      pmm_example_free pmm_example_total vm_inv_def huge_tbl_at huge_mem_entries page_aligned_def split: if_splits)

lemma huge_kernel_fields:
  "vmm_lock huge_kernel = Some 0x8000" "kernel_free huge_kernel = {4, 5, 6, 7, 10}"
  by (simp_all add: huge_kernel_def kernel_free_def pmm_example_free)

lemma huge_kernel_translate: "translate huge_kernel 0x5678 = Some 0x5678"
  by (simp add: translate_def huge_kernel_fields walk_def Let_def read_entry_def index_def huge_kernel_def
      huge_mem_entries PRESENT_def HUGE_def ADDR_MASK_def HUGE_1G_MASK_def HUGE_1G_def)



text \<open>Unmapping a page: \<open>unmap_page\<close> returns the frame that the page translated to, makes the page
  unmapped and changes the translation of no other page; for an unmapped page it returns nothing and
  changes no translation.\<close>

theorem unmap_page_correct:
  assumes "vmm_lock s = Some root" "vm_ok s root" "2 \<le> card (kernel_free s)"
  shows "\<exists>r s'. unmap_page s virt = Some (r, s') \<and> vmm_lock s' = Some root \<and> vm_ok s' root \<and>
    translate s virt = map_option (\<lambda>phys. phys + (virt AND 0xFFF)) r \<and>
    (\<forall>v. translate s' v = (if same_page v virt then None else translate s v))"
proof -
  obtain r s1 where lf: "leaf_for s root virt = Some (r, s1)" "vm_step s root s1" "leaf_result s1 root virt r"
    using leaf_for_spec [OF assms(2,3)] by blast
  note d = vm_stepD [OF lf(2)]
  show ?thesis
  proof (cases r)
    case None
    then have "walk s root virt = None" using lf(3) d(2) by (simp add: leaf_result_def)
    then have "walk s root v = None" if "same_page v virt" for v
      using walk_None_page [OF assms(2)] that by (simp add: vpath_eq_iff)
    moreover note \<open>walk s root virt = None\<close>
    ultimately show ?thesis
      using None lf(1) assms(1) d mem_only_vmm [OF d(4)] by (auto simp: unmap_page_def translate_def)
  next
    case (Some leaf)
    note w = leaf_write [where e = 0, OF d(1) lf(3) [unfolded Some] refl]
    show ?thesis
      using Some lf(1) assms(1) w(1,3,4) d(2) mem_only_vmm [OF d(4)] mem_only_vmm [OF w(2)]
      by (simp add: unmap_page_def translate_def vpath_eq_iff)
  qed
qed

theorem unmap_page_correct_witness:
  "\<exists>s'. unmap_page huge_kernel 0x5678 = Some (Some 0x5000, s') \<and> vm_ok s' 0x8000 \<and>
     translate s' 0x5000 = None \<and> translate s' 0x6678 = translate huge_kernel 0x6678"
proof -
  have c: "2 \<le> card (kernel_free huge_kernel)" by (simp add: huge_kernel_fields)
  obtain r s' where r: "unmap_page huge_kernel 0x5678 = Some (r, s')" "vm_ok s' 0x8000"
    "translate huge_kernel 0x5678 = map_option (\<lambda>phys. phys + (0x5678 AND 0xFFF)) r"
    "\<forall>v. translate s' v = (if same_page v 0x5678 then None else translate huge_kernel v)"
    using unmap_page_correct [OF huge_kernel_fields(1) huge_kernel_ok c, of "0x5678"] by blast
  have "r = Some 0x5000"
    using r(3) huge_kernel_translate by (cases r) auto
  then show ?thesis using r by (auto simp: same_page_def)
qed

text \<open>Changing a page's protection with \<open>protect_page\<close> changes no translation, in the page or
  elsewhere, and reports success exactly when the page is mapped and the flags are supported.\<close>

theorem protect_page_correct:
  assumes "vmm_lock s = Some root" "vm_ok s root" "2 \<le> card (kernel_free s)"
  shows "\<exists>b s'. protect_page s virt flags = Some (b, s') \<and> vmm_lock s' = Some root \<and> vm_ok s' root \<and>
    (b \<longleftrightarrow> translate s virt \<noteq> None \<and> flags \<in> {KERNEL_RX, KERNEL_RO, KERNEL_RW, KERNEL_WC, KERNEL_UC}) \<and>
    (\<forall>v. translate s' v = translate s v)"
proof -
  let ?F = "{KERNEL_RX, KERNEL_RO, KERNEL_RW, KERNEL_WC, KERNEL_UC}"
  obtain r s1 where lf: "leaf_for s root virt = Some (r, s1)" "vm_step s root s1" "leaf_result s1 root virt r"
    using leaf_for_spec [OF assms(2,3)] by blast
  note d = vm_stepD [OF lf(2)]
  consider (bad) "flags \<notin> ?F" | (absent) "flags \<in> ?F" "r = None" | (leaf) leaf where "flags \<in> ?F" "r = Some leaf" by blast
  then show ?thesis
  proof cases
    case bad
    then show ?thesis using assms(1,2) by (intro exI [of _ False] exI [of _ s]) (simp add: protect_page_def)
  next
    case absent
    then have "walk s root virt = None" using lf(3) d(2) by (simp add: leaf_result_def)
    then show ?thesis
      using absent lf(1) assms(1) d mem_only_vmm [OF d(4)]
      by (intro exI [of _ False] exI [of _ s1]) (simp add: protect_page_def translate_def)
  next
    case leaf
    let ?e = "(mem s1 leaf AND ADDR_MASK) OR flags OR PRESENT"
    let ?s = "s1\<lparr>mem := (mem s1)(leaf := ?e)\<rparr>"
    note lr = lf(3) [unfolded leaf(2)]
    note w = leaf_write [where e = ?e, OF d(1) lr refl] and e = leaf_entry_bits [OF kernel_flags_mask [OF leaf(1)]]
    have "walk ?s root v = walk s1 root v" for v
    proof (cases "vpath v = vpath virt")
      case True
      then show ?thesis
        using w(3) e leaf_write(4) [where e = 0, OF d(1) leaf_result_page [OF True lr] refl] by simp
    qed (use w(3) in simp)
    moreover have "walk s root virt \<noteq> None" using w(4) d(2) by simp
    moreover have "protect_page s virt flags = Some (True, ?s)"
      using leaf lf(1) assms(1) by (simp add: protect_page_def)
    ultimately show ?thesis
      using leaf(1) assms(1) w(1) d(2) mem_only_vmm [OF d(4)]
      by (intro exI [of _ True] exI [of _ ?s]) (simp add: translate_def)
  qed
qed

theorem protect_page_correct_witness:
  "\<exists>s'. protect_page huge_kernel 0x5678 KERNEL_RO = Some (True, s') \<and> vm_ok s' 0x8000 \<and>
     (\<forall>v. translate s' v = translate huge_kernel v)"
proof -
  have c: "2 \<le> card (kernel_free huge_kernel)" by (simp add: huge_kernel_fields)
  show ?thesis
    using protect_page_correct [OF huge_kernel_fields(1) huge_kernel_ok c, of "0x5678" KERNEL_RO] huge_kernel_translate
    by auto
qed

section \<open>Lemmas: user memory\<close>

definition user_walk :: "'a kernel_scheme \<Rightarrow> u64 \<Rightarrow> bool \<Rightarrow> u64 \<Rightarrow> u64 option" where
  "user_walk s root wr v = (if wr then walk_user_write s root v else walk_user s root v)"

text \<open>The walk of an address is the walk of its page and the offset in the page.\<close>

lemma index_page: "index (v AND NOT 4095) 0 = index v 0" "index (v AND NOT 4095) 1 = index v 1"
  "index (v AND NOT 4095) 2 = index v 2" "index (v AND NOT 4095) 3 = index v 3"
  unfolding index_eq_iff by (auto simp: bit_and_iff bit_not_iff page_mask bit_mask_iff)

lemma user_walk_page:
  "user_walk s root wr v = map_option (\<lambda>b. b + (v AND 4095)) (user_walk s root wr (v AND NOT 4095))"
proof -
  define w where "w = v AND NOT 4095"
  have z: "w AND 4095 = 0"
    unfolding w_def page_mask by (rule bit_word_eqI) (auto simp: bit_and_iff bit_not_iff)
  note i = index_page [of v, folded w_def]
  show ?thesis
    unfolding w_def [symmetric] by (simp add: user_walk_def walk_user_def walk_user_write_def Let_def i z del: One_nat_def)
qed

lemma page_start_eq: "unat (v :: u64) div 4096 = unat w div 4096 \<Longrightarrow> v AND NOT 4095 = w AND NOT 4095"
  using unat_align_down_page [of v] unat_align_down_page [of w]
  by (simp add: word_unat_eq_iff align_down_def)

lemma user_walk_same_page:
  assumes "unat v div 4096 = unat w div 4096"
  shows "user_walk s root wr v = None \<longleftrightarrow> user_walk s root wr w = None"
    and "user_walk s root wr v = Some a \<Longrightarrow> user_walk s root wr w = Some (a - (v AND 4095) + (w AND 4095))"
  using user_walk_page [of s root wr v] user_walk_page [of s root wr w] page_start_eq [OF assms] by auto

lemma small_add:
  assumes "m mod 4096 + k < (4096 :: nat)"
  shows "(m + k) div 4096 = m div 4096" "(m + k) mod 4096 = m mod 4096 + k"
proof -
  define q r where "q = m div 4096" and "r = m mod 4096"
  have m: "m = q * 4096 + r" by (simp add: q_def r_def)
  have "r + k < 4096" using assms by (simp add: r_def)
  then have f: "(q * 4096 + (r + k)) div 4096 = q" by simp
  have e: "m + k = q * 4096 + (r + k)" using m by linarith
  show "(m + k) div 4096 = m div 4096" by (simp add: e f flip: q_def)
  show "(m + k) mod 4096 = m mod 4096 + k" using \<open>r + k < 4096\<close> by (simp add: e flip: r_def)
qed

lemma unat_and_page: "unat ((v :: u64) AND 4095) = unat v mod 4096"
  using unat_and_page_mask [of v] by simp

lemma user_walk_offset:
  assumes "user_walk s root wr v = Some a" "unat v mod 4096 + k < 4096"
  shows "user_walk s root wr (v + of_nat k) = Some (a + of_nat k)"
proof -
  have lim: "unat v + k < 18446744073709551616"
  proof -
    have "unat v = unat v div 4096 * 4096 + unat v mod 4096" by simp
    moreover have "unat v div 4096 < 4503599627370496" using unat_u64_less [of v] by linarith
    ultimately show ?thesis using assms(2) by linarith
  qed
  then have u: "unat (v + of_nat k) = unat v + k"
    using unat_of_nat_u64 [of k] by (simp add: unat_add_u64)
  have "unat v div 4096 = (unat v + k) div 4096"
    using small_add(1) [OF assms(2)] by simp
  then have "user_walk s root wr (v + of_nat k) = Some (a - (v AND 4095) + ((v + of_nat k) AND 4095))"
    using user_walk_same_page(2) [OF _ assms(1), of "v + of_nat k"] u by simp
  moreover have "(v + of_nat k) AND 4095 = (v AND 4095) + of_nat k"
  proof -
    have "unat ((v + of_nat k) AND 4095) = unat v mod 4096 + k"
      using small_add(2) [OF assms(2)] u by (simp add: unat_and_page)
    moreover have "unat ((v AND 4095) + of_nat k) = unat v mod 4096 + k"
      using assms(2) unat_of_nat_u64 [of k] by (subst unat_add_u64) (simp_all add: unat_and_page)
    ultimately show ?thesis by (simp add: word_unat_eq_iff)
  qed
  ultimately show ?thesis by simp
qed

text \<open>The validation loop checks one address per page, which decides every address.\<close>

lemma next_page_unat:
  assumes "unat va < 140737488355328"
  shows "unat (saturating_add (va AND NOT 4095) 4096) = (unat va div 4096 + 1) * 4096"
proof -
  have a: "unat (va AND NOT 4095) = unat va div 4096 * 4096"
    using unat_align_down_page [of va] by (simp add: align_down_def)
  then have "unat (va AND NOT 4095) + unat (4096 :: u64) < 18446744073709551616" using assms by simp
  then show ?thesis
    using a by (auto simp: saturating_add_def checked_add_def unat_add_u64 split: option.splits)
qed

lemma validate_loop_iff:
  assumes "unat end \<le> 140737488355328"
  shows "validate_loop s root va end wr \<longleftrightarrow>
    (\<forall>a. unat va \<le> a \<and> a < unat end \<longrightarrow> user_walk s root wr (of_nat a) \<noteq> None)"
  using assms
proof (induction s root va "end" wr rule: validate_loop.induct)
  case (1 s root va "end" wr)
  show ?case
  proof (cases "va < end")
    case False
    then show ?thesis by (subst validate_loop.simps) (auto simp: word_less_nat_alt)
  next
    case True
    let ?n = "saturating_add (va AND NOT 4095) 4096"
    have lt: "unat va < unat end" using True by (simp add: word_less_nat_alt)
    have n: "unat ?n = (unat va div 4096 + 1) * 4096" using next_page_unat [of va] lt 1(2) by simp
    have gt: "unat va < unat ?n" unfolding n by (simp add: dividend_less_div_times)
    have first: "user_walk s root wr (of_nat a) = None \<longleftrightarrow> user_walk s root wr va = None"
      if "unat va \<le> a" "a < unat (min ?n end)" for a
    proof (rule user_walk_same_page(1))
      have "a < unat end" "a < unat ?n" using that(2) by (auto simp: min_def word_le_nat_alt split: if_splits)
      then have "unat (of_nat a :: u64) = a" using 1(2) by (intro unat_of_nat_u64) linarith
      moreover have "a div 4096 = unat va div 4096"
      proof (rule antisym)
        show "unat va div 4096 \<le> a div 4096" using that(1) by (rule div_le_mono)
        show "a div 4096 \<le> unat va div 4096" using \<open>a < unat ?n\<close> unfolding n by (metis less_mult_imp_div_less less_Suc_eq_le Suc_eq_plus1)
      qed
      ultimately show "unat (of_nat a :: u64) div 4096 = unat va div 4096" by simp
    qed
    have step: "validate_loop s root va end wr \<longleftrightarrow> user_walk s root wr va \<noteq> None \<and> validate_loop s root (min ?n end) end wr"
      using True gt by (subst validate_loop.simps) (auto simp: user_walk_def word_le_nat_alt Let_def)
    have IH: "user_walk s root wr va \<noteq> None \<Longrightarrow> validate_loop s root (min ?n end) end wr \<longleftrightarrow>
      (\<forall>a. unat (min ?n end) \<le> a \<and> a < unat end \<longrightarrow> user_walk s root wr (of_nat a) \<noteq> None)"
      using 1(1) [OF True _ refl] 1(2) gt by (simp add: user_walk_def word_le_nat_alt)
    show ?thesis
    proof (cases "user_walk s root wr va = None")
      case True
      moreover have "unat va < unat (min ?n end)" using gt lt by (simp add: min_def)
      ultimately show ?thesis using step first [of "unat va"] lt by auto
    next
      case False
      have "(\<forall>a. unat va \<le> a \<and> a < unat end \<longrightarrow> user_walk s root wr (of_nat a) \<noteq> None) \<longleftrightarrow>
          (\<forall>a. unat (min ?n end) \<le> a \<and> a < unat end \<longrightarrow> user_walk s root wr (of_nat a) \<noteq> None)"
      proof (intro iffI allI impI)
        fix a assume all: "\<forall>a. unat va \<le> a \<and> a < unat end \<longrightarrow> user_walk s root wr (of_nat a) \<noteq> None"
          and a: "unat (min ?n end) \<le> a \<and> a < unat end"
        have "unat va \<le> unat (min ?n end)" using gt lt by (simp add: min_def)
        then show "user_walk s root wr (of_nat a) \<noteq> None" using all a by simp
      next
        fix a assume all: "\<forall>a. unat (min ?n end) \<le> a \<and> a < unat end \<longrightarrow> user_walk s root wr (of_nat a) \<noteq> None"
          and a: "unat va \<le> a \<and> a < unat end"
        show "user_walk s root wr (of_nat a) \<noteq> None"
          using all a first [of a] False by (cases "a < unat (min ?n end)") (simp_all only: not_less simp_thms)
      qed
      then show ?thesis using step IH [OF False] False by simp
    qed
  qed
qed

text \<open>The bytes that a user range holds, by the walk of each address.\<close>

definition user_byte :: "'a kernel_scheme \<Rightarrow> u64 \<Rightarrow> u64 \<Rightarrow> u8" where
  "user_byte s root v = mem_byte (mem s) (the (walk_user s root v))"

definition user_range :: "'a vkernel_scheme \<Rightarrow> u64 \<Rightarrow> nat \<Rightarrow> bool \<Rightarrow> bool" where
  "user_range s addr len wr \<longleftrightarrow> len = 0 \<or>
     (unat addr + len \<le> 140737488355328 \<and>
      (\<forall>i<len. user_walk s (current_cr3 s) wr (addr + of_nat i) \<noteq> None))"

lemma validate_user_range_iff:
  assumes "len < 18446744073709551616"
  shows "validate_user_range s addr len wr \<longleftrightarrow> user_range s addr len wr"
proof (cases "len = 0 \<or> 140737488355328 < unat addr + len")
  case True
  have len: "unat (of_nat len :: u64) = len" using assms by (rule unat_of_nat_u64)
  show ?thesis
    using True len
    by (auto simp: validate_user_range_def user_range_def USER_SPACE_END_def checked_add_def word_le_nat_alt
        word_less_nat_alt unat_add_u64 split: option.splits if_splits)
next
  case False
  have len: "unat (of_nat len :: u64) = len" using assms by (rule unat_of_nat_u64)
  have sum: "unat (addr + of_nat len) = unat addr + len" using False len by (subst unat_add_u64) auto
  have "(\<forall>a. unat addr \<le> a \<and> a < unat addr + len \<longrightarrow> user_walk s (current_cr3 s) wr (of_nat a) \<noteq> None) \<longleftrightarrow>
      (\<forall>i<len. user_walk s (current_cr3 s) wr (addr + of_nat i) \<noteq> None)"
    using all_shift [of len "\<lambda>a. user_walk s (current_cr3 s) wr (of_nat a) \<noteq> None" "unat addr"]
    by simp
  then show ?thesis
    using False len sum
    by (auto simp: validate_user_range_def user_range_def USER_SPACE_END_def checked_add_def word_le_nat_alt
        word_less_nat_alt validate_loop_iff split: option.splits)
qed

lemma page_off_mod: "page_off va = unat va mod 4096"
  by (simp add: page_off_def unat_and_page)

lemma mem_bytes_user:
  assumes "walk_user s root va = Some phys" "unat va mod 4096 + n \<le> 4096" "k < n"
  shows "mem_bytes (mem s) phys n ! k = user_byte s root (va + of_nat k)"
  using user_walk_offset [of s root False va phys k] assms by (simp add: user_walk_def user_byte_def mem_bytes_def)

lemma copy_from_loop_spec:
  assumes "d \<le> length dst" "\<forall>i<length dst. walk_user s root (src + of_nat i) \<noteq> None"
  shows "\<exists>dst'. copy_from_loop s root src dst d = (True, dst') \<and> length dst' = length dst \<and>
    (\<forall>i<length dst. dst' ! i = (if i < d then dst ! i else user_byte s root (src + of_nat i)))"
  using assms
proof (induction s root src dst d rule: copy_from_loop.induct)
  case (1 s root src dst d)
  show ?case
  proof (cases "d < length dst")
    case False
    then show ?thesis using 1(2) by (subst copy_from_loop.simps) auto
  next
    case True
    let ?va = "src + of_nat d"
    define n where "n = min (length dst - d) (4096 - page_off ?va)"
    have n: "n \<le> length dst - d" "page_off ?va + n \<le> 4096" using page_off_less [of ?va] by (auto simp: n_def)
    obtain phys where phys: "walk_user s root ?va = Some phys" using 1(3) True by blast
    define dst1 where "dst1 = copy_at dst d (mem_bytes (mem s) phys n)"
    have len: "length (mem_bytes (mem s) phys n) = n" by (simp add: mem_bytes_def)
    then have fit: "d + length (mem_bytes (mem s) phys n) \<le> length dst" using True n by simp
    have len1: "length dst1 = length dst" unfolding dst1_def using fit by (rule length_copy_at)
    have eq: "copy_from_loop s root src dst d = copy_from_loop s root src dst1 (d + n)"
      using True phys by (subst copy_from_loop.simps) (simp add: dst1_def n_def Let_def)
    obtain dst' where dst': "copy_from_loop s root src dst1 (d + n) = (True, dst')" "length dst' = length dst1"
      "\<forall>i<length dst1. dst' ! i = (if i < d + n then dst1 ! i else user_byte s root (src + of_nat i))"
      using 1(1) [OF True refl refl phys, folded n_def, folded dst1_def] 1(3) fit len1 len by auto
    have "dst' ! i = (if i < d then dst ! i else user_byte s root (src + of_nat i))" if "i < length dst" for i
    proof (cases "i < d + n")
      case True
      have "dst1 ! i = (if d \<le> i \<and> i < d + n then mem_bytes (mem s) phys n ! (i - d) else dst ! i)"
        unfolding dst1_def using nth_copy_at [OF fit that] len by simp
      moreover have "mem_bytes (mem s) phys n ! (i - d) = user_byte s root (?va + of_nat (i - d))" if "d \<le> i"
        using True that n(2) by (intro mem_bytes_user [OF phys]) (auto simp: page_off_mod)
      ultimately show ?thesis using True dst'(3) len1 \<open>i < length dst\<close> by (auto simp: add.assoc simp flip: of_nat_add)
    next
      case False
      then show ?thesis using dst'(3) len1 that by simp
    qed
    then show ?thesis using eq dst'(1,2) len1 by auto
  qed
qed

text \<open>An address space with one user page: virtual page 0 is frame 3, user-accessible and writable.\<close>

definition user_mem :: "u64 \<Rightarrow> u64" where
  "user_mem a = (if a = 0x8000 then 0x9007 else if a = 0x9000 then 0x1007 else if a = 0x1000 then 0x2007
     else if a = 0x2000 then 0x3007 else if a = 0x3010 then 0x0102030405060708 else 0)"

definition user_kernel :: vkernel where
  "user_kernel = \<lparr>hhdm_offset = 0xFFFF800000000000, pmm_lock = Some pmm_example, mem = user_mem,
     vmm_lock = Some 0x8000, KERNEL_CR3 = 0x8000, cr3 = 0x8000\<rparr>"

lemma user_kernel_simps:
  "mem user_kernel = user_mem" "current_cr3 user_kernel = 0x8000"
  by (simp_all add: user_kernel_def current_cr3_def ADDR_MASK_def)

lemma user_mem_entry:
  assumes "i < 512" "t \<in> {0x8000, 0x9000, 0x1000}"
  shows "user_mem (entry_addr t i) = (if i = 0 then user_mem t else 0)"
proof (cases "i = 0")
  case False
  have "page_aligned t" using assms(2) by (auto simp: page_aligned_def)
  then have u: "unat (entry_addr t i) = unat t + 8 * i" using assms(1) by (rule unat_entry_addr)
  have "unat (entry_addr t i) \<notin> {0x8000, 0x9000, 0x1000, 0x2000, 0x3010}"
    unfolding u using assms False by auto
  then have "entry_addr t i \<notin> {0x8000, 0x9000, 0x1000, 0x2000, 0x3010}" by auto
  then show ?thesis using False by (simp add: user_mem_def)
qed (simp add: entry_addr_def)

lemma user_mem_entries:
  assumes "i < 512"
  shows "user_mem (entry_addr 0x8000 i) = (if i = 0 then 0x9007 else 0)"
    "user_mem (entry_addr 0x9000 i) = (if i = 0 then 0x1007 else 0)"
    "user_mem (entry_addr 0x1000 i) = (if i = 0 then 0x2007 else 0)"
  using user_mem_entry [OF assms, of "0x8000"] user_mem_entry [OF assms, of "0x9000"] user_mem_entry [OF assms, of "0x1000"]
  by (simp_all add: user_mem_def [of "0x8000"] user_mem_def [of "0x9000"] user_mem_def [of "0x1000"])

lemma user_tbl_at:
  assumes "idx_path p"
  shows "tbl_at user_mem 0x8000 p = (if p = [] then Some 0x8000 else if p = [0] then Some 0x9000
     else if p = [0, 0] then Some 0x1000 else if p = [0, 0, 0] then Some 0x2000 else None)"
proof -
  have 1: "tbl_at user_mem 0x1000 q = (if q = [] then Some 0x1000 else if q = [0] then Some 0x2000 else None)"
    if "length q \<le> 1" "list_all (\<lambda>i. i < 512) q" for q
    using that by (cases q) (auto simp: user_mem_entries Let_def ADDR_MASK_def)
  have 9: "tbl_at user_mem 0x9000 q = (if q = [] then Some 0x9000 else if q = [0] then Some 0x1000
      else if q = [0, 0] then Some 0x2000 else None)" if "length q \<le> 2" "list_all (\<lambda>i. i < 512) q" for q
    using that by (cases q) (auto simp: user_mem_entries Let_def ADDR_MASK_def 1)
  show ?thesis
    using assms by (cases p) (auto simp: user_mem_entries Let_def ADDR_MASK_def 9 idx_path_def)
qed

lemma user_kernel_walk:
  "walk_user_write user_kernel 0x8000 0x10 = Some 0x3010" "walk_user_write user_kernel 0x8000 0x11 = Some 0x3011"
  "walk_user user_kernel 0x8000 0x10 = Some 0x3010" "walk_user user_kernel 0x8000 0x11 = Some 0x3011"
  by (simp_all add: walk_user_write_def walk_user_def Let_def read_entry_def user_kernel_simps index_def entry_addr_def
      user_mem_def PRESENT_def USER_def WRITABLE_def HUGE_def ADDR_MASK_def)

lemma user_kernel_range: "user_range user_kernel 0x10 (Suc (Suc 0)) wr"
  by (auto simp: user_range_def user_walk_def user_kernel_simps user_kernel_walk less_Suc_eq)



text \<open>Writing bytes outside the page tables does not change the walks.\<close>

lemma set_byte_other:
  assumes "unat x div 4096 \<noteq> unat a div 4096"
  shows "set_byte a b m x = m x"
proof -
  have "(7 :: u64) = mask 3" by (simp add: mask_eq_exp_minus_1)
  then have "unat (a AND NOT 7) = unat a div 8 * 8" using unat_and_not_mask [of a 3] by simp
  moreover have "unat a div 8 * 8 div 4096 = unat a div 4096"
    using div_mult_mult2 [of 8 "unat a div 8" 512] div_mult2_eq [of "unat a" 8 512] by simp
  ultimately have "unat (a AND NOT 7) div 4096 = unat a div 4096" by simp
  then have "x \<noteq> a AND NOT 7" using assms by auto
  then show ?thesis by (simp add: set_byte_def Let_def)
qed

lemma user_flags_present: "e AND (PRESENT OR USER) = PRESENT OR USER \<Longrightarrow> bit e 0"
  by (metis bit_and_iff bit_flags(1) bit_or_iff)

lemma vm_inv_mono: "vm_inv m root F \<Longrightarrow> P \<subseteq> F \<Longrightarrow> vm_inv m root P"
  unfolding vm_inv_def by blast

lemma user_walk_mem_cong:
  assumes inv: "vm_inv (mem s) root P" and m: "\<forall>a. unat a div 4096 \<notin> P \<longrightarrow> m a = mem s a"
  shows "user_walk (s\<lparr>mem := m\<rparr>) root wr v = user_walk s root wr v"
proof -
  have rd: "read_entry (s\<lparr>mem := m\<rparr>) t i = read_entry s t i" if "tbl_at (mem s) root p = Some t" "idx_path p" "i < 512" for p t i
    using m vm_invD(1,2) [OF inv that(2,1)] that(3) by (simp add: read_entry_def entry_addr_frame)
  let ?e0 = "read_entry s root (index v 0)"
  let ?e1 = "read_entry s (?e0 AND ADDR_MASK) (index v 1)"
  let ?e2 = "read_entry s (?e1 AND ADDR_MASK) (index v 2)"
  let ?pu = "PRESENT OR USER"
  have r0: "read_entry (s\<lparr>mem := m\<rparr>) root (index v 0) = ?e0" using rd [of "[]" root] by simp
  have t0: "tbl_at (mem s) root [index v 0] = Some (?e0 AND ADDR_MASK)" if "?e0 AND ?pu = ?pu"
    using user_flags_present [OF that] inv tbl_at_entry [of s root "[]" root "index v 0"]
    by (auto simp: vm_inv_def read_entry_def)
  have r1: "read_entry (s\<lparr>mem := m\<rparr>) (?e0 AND ADDR_MASK) (index v 1) = ?e1" if "?e0 AND ?pu = ?pu"
    using rd [OF t0 [OF that] idx_path_index(1)] by simp
  have t1: "tbl_at (mem s) root [index v 0, index v 1] = Some (?e1 AND ADDR_MASK)"
    if "?e0 AND ?pu = ?pu" "?e1 AND ?pu = ?pu" "?e1 AND HUGE = 0"
    using tbl_at_entry [OF t0 [OF that(1)], of "index v 1"] user_flags_present [OF that(2)] that(3) by (simp add: HUGE_iff)
  have r2: "read_entry (s\<lparr>mem := m\<rparr>) (?e1 AND ADDR_MASK) (index v 2) = ?e2"
    if "?e0 AND ?pu = ?pu" "?e1 AND ?pu = ?pu" "?e1 AND HUGE = 0"
    using rd [OF t1 [OF that] idx_path_index(2)] by simp
  have t2: "tbl_at (mem s) root [index v 0, index v 1, index v 2] = Some (?e2 AND ADDR_MASK)"
    if "?e0 AND ?pu = ?pu" "?e1 AND ?pu = ?pu" "?e1 AND HUGE = 0" "?e2 AND ?pu = ?pu" "?e2 AND HUGE = 0"
    using tbl_at_entry [OF t1 [OF that(1-3)], of "index v 2"] user_flags_present [OF that(4)] that(5) by (simp add: HUGE_iff)
  have r3: "read_entry (s\<lparr>mem := m\<rparr>) (?e2 AND ADDR_MASK) (index v 3) = read_entry s (?e2 AND ADDR_MASK) (index v 3)"
    if "?e0 AND ?pu = ?pu" "?e1 AND ?pu = ?pu" "?e1 AND HUGE = 0" "?e2 AND ?pu = ?pu" "?e2 AND HUGE = 0"
    using rd [OF t2 [OF that] idx_path_index(3)] by simp
  show ?thesis
    unfolding user_walk_def walk_user_def walk_user_write_def Let_def r0
    by (simp add: r1 r2 r3 cong: if_cong del: One_nat_def)
qed

definition user_store :: "'a kernel_scheme \<Rightarrow> u64 \<Rightarrow> u64 \<Rightarrow> u8 list \<Rightarrow> nat list \<Rightarrow> (u64 \<Rightarrow> u64) \<Rightarrow> u64 \<Rightarrow> u64" where
  "user_store s root dst src is m =
     fold (\<lambda>i. set_byte (the (walk_user_write s root (dst + of_nat i))) (src ! i)) is m"

lemma user_store_other:
  assumes "\<forall>i\<in>set is. unat (the (walk_user_write s root (dst + of_nat i))) div 4096 \<in> P" "unat x div 4096 \<notin> P"
  shows "user_store s root dst src is m x = m x"
  using assms(1)
proof (induction "is" arbitrary: m)
  case (Cons i "is")
  then have "unat x div 4096 \<noteq> unat (the (walk_user_write s root (dst + of_nat i))) div 4096" using assms(2) by auto
  then show ?case using Cons by (simp add: user_store_def set_byte_other)
qed (simp add: user_store_def)

lemma set_bytes_chunk:
  assumes "walk_user_write s root (dst + of_nat d) = Some phys" "unat (dst + of_nat d) mod 4096 + n \<le> 4096"
    "d + n \<le> length src"
  shows "set_bytes m phys (take n (drop d src)) = user_store s root dst src [d..<d + n] m"
proof -
  have upt: "[d..<d + n] = map (\<lambda>k. d + k) [0..<n]" by (rule nth_equalityI) auto
  have "the (walk_user_write s root (dst + of_nat (d + k))) = phys + of_nat k" if "k < n" for k
    using user_walk_offset [of s root True "dst + of_nat d" phys k] assms(1,2) that
    by (simp add: user_walk_def add.assoc)
  moreover have "take n (drop d src) ! k = src ! (d + k)" if "k < n" for k using that assms(3) by simp
  ultimately show ?thesis
    unfolding set_bytes_def user_store_def upt fold_map
    using assms(3) by (intro fold_cong) auto
qed

lemma copy_to_loop_spec:
  assumes inv: "vm_inv (mem s) root P"
    and mapped: "\<forall>i<length src. \<exists>a. walk_user_write s root (dst + of_nat i) = Some a \<and> unat a div 4096 \<in> P"
  shows "d \<le> length src \<Longrightarrow> \<forall>a. unat a div 4096 \<notin> P \<longrightarrow> m a = mem s a \<Longrightarrow>
    copy_to_loop (s\<lparr>mem := m\<rparr>) root dst src d = (True, s\<lparr>mem := user_store s root dst src [d..<length src] m\<rparr>)"
proof (induction "length src - d" arbitrary: d m rule: less_induct)
  case less
  show ?case
  proof (cases "d < length src")
    case False
    then show ?thesis using less.prems by (subst copy_to_loop.simps) (simp add: user_store_def)
  next
    case True
    let ?va = "dst + of_nat d"
    define n where "n = min (length src - d) (4096 - page_off ?va)"
    have n: "0 < n" "d + n \<le> length src" "unat ?va mod 4096 + n \<le> 4096"
      using page_off_less [of ?va] True by (auto simp: n_def page_off_mod)
    obtain phys where phys: "walk_user_write s root ?va = Some phys" using mapped True by blast
    have phys': "walk_user_write (s\<lparr>mem := m\<rparr>) root ?va = Some phys"
      using user_walk_mem_cong [OF inv less.prems(2), of True ?va] phys by (simp add: user_walk_def)
    have chunk: "set_bytes m phys (take n (drop d src)) = user_store s root dst src [d..<d + n] m"
      by (rule set_bytes_chunk [OF phys n(3,2)])
    have "\<forall>i\<in>set [d..<d + n]. unat (the (walk_user_write s root (dst + of_nat i))) div 4096 \<in> P"
    proof
      fix i assume "i \<in> set [d..<d + n]"
      then have "i < length src" using n(2) by simp
      then show "unat (the (walk_user_write s root (dst + of_nat i))) div 4096 \<in> P" using mapped by fastforce
    qed
    from user_store_other [OF this] have agree: "\<forall>a. unat a div 4096 \<notin> P \<longrightarrow> user_store s root dst src [d..<d + n] m a = mem s a"
      using less.prems(2) by simp
    have "copy_to_loop (s\<lparr>mem := m\<rparr>) root dst src d =
        copy_to_loop (s\<lparr>mem := user_store s root dst src [d..<d + n] m\<rparr>) root dst src (d + n)"
      using True phys' chunk by (subst copy_to_loop.simps) (simp add: Let_def n_def)
    also have "\<dots> = (True, s\<lparr>mem := user_store s root dst src [d + n..<length src] (user_store s root dst src [d..<d + n] m)\<rparr>)"
      using n True agree by (intro less.hyps) auto
    also have "user_store s root dst src [d + n..<length src] (user_store s root dst src [d..<d + n] m) =
        user_store s root dst src [d..<length src] m"
      using upt_add_eq_append [of d "d + n" "length src - (d + n)"] n(2) by (simp add: user_store_def)
    finally show ?thesis .
  qed
qed



section \<open>Lemmas: what these operations leave alone\<close>

lemma mem_only_child: "child_table s t i = Some (r, s') \<Longrightarrow> mem_only s s'"
  by (auto simp: child_table_def Let_def split: if_splits prod.splits option.splits
      intro: mem_only_trans [OF mem_only_alloc mem_only_write(1)])

lemma mem_only_fold: "mem_only s (fold (\<lambda>i st. write_entry st t i (g i)) is s)"
proof (induction "is" arbitrary: s)
  case (Cons i "is")
  show ?case using mem_only_trans [OF mem_only_write(1) Cons] by simp
qed simp

lemma mem_only_split:
  "split_huge s t i = Some s' \<Longrightarrow> mem_only s s'" "split_1g_huge s t i = Some s' \<Longrightarrow> mem_only s s'"
proof -
  have w: "alloc_frame_zeroed s = (r, s1) \<Longrightarrow>
      mem_only s (write_entry (fold (\<lambda>i st. write_entry st p i (g i)) is s1) t i e)" for r s1 p g "is" e
    by (blast intro: mem_only_trans mem_only_alloc mem_only_fold mem_only_write(1))
  show "split_huge s t i = Some s' \<Longrightarrow> mem_only s s'" "split_1g_huge s t i = Some s' \<Longrightarrow> mem_only s s'"
    by (auto simp: split_huge_def split_1g_huge_def Let_def split: prod.splits option.splits intro!: w)
qed

lemma mem_only_pd_pt:
  "pd_for s t virt = Some (r, s') \<Longrightarrow> mem_only s s'" "pt_for s t virt = Some (r, s') \<Longrightarrow> mem_only s s'"
  by (auto simp: pd_for_def pt_for_def Let_def split: bind_splits if_splits
      intro: mem_only_trans mem_only_child mem_only_split)

lemma mem_only_map4k:
  assumes "map4k s root virt phys flags = Some s'"
  shows "mem_only s s'"
proof -
  obtain a s1 b s2 c s3 where "child_table s root (index virt 0) = Some (a, s1)" "pd_for s1 a virt = Some (b, s2)"
    "pt_for s2 b virt = Some (c, s3)" "s' = write_entry s3 c (index virt 3) ((phys AND ADDR_MASK) OR flags OR PRESENT)"
    using assms by (auto simp: map4k_def split: bind_splits)
  then show ?thesis by (blast intro: mem_only_trans mem_only_child mem_only_pd_pt mem_only_write(1))
qed

lemma mem_only_frames:
  "alloc_frame s = (r, s') \<Longrightarrow> mem_only s s'" "mem_only s (free_frame s phys)"
  by (auto simp: alloc_frame_def free_frame_def free_frames_at_def Let_def split: option.splits prod.splits
      intro: mem_onlyI [where m = "mem s"])

lemma mem_only_map_page: "map_page s virt phys flags = Some s' \<Longrightarrow> mem_only s s'"
  by (auto simp: map_page_def split: option.splits dest: mem_only_map4k)

lemma mem_only_leaf:
  "leaf_from_pd s t virt = Some (r, s') \<Longrightarrow> mem_only s s'" "leaf_for s t virt = Some (r, s') \<Longrightarrow> mem_only s s'"
proof -
  show 1: "leaf_from_pd s t virt = Some (r, s') \<Longrightarrow> mem_only s s'" for s t r
    by (auto simp: leaf_from_pd_def Let_def split: bind_splits if_splits intro: mem_only_split)
  show "leaf_for s t virt = Some (r, s') \<Longrightarrow> mem_only s s'"
    by (auto simp: leaf_for_def Let_def split: bind_splits if_splits intro: 1 mem_only_trans mem_only_split)
qed

lemma mem_only_unmap_page: "unmap_page s virt = Some (r, s') \<Longrightarrow> mem_only s s'"
  by (auto simp: unmap_page_def split: option.splits
      intro: mem_only_trans [OF mem_only_leaf(2) mem_only_write(2)] mem_only_leaf(2))

lemma mem_only_fold_step: "(\<And>i s. mem_only s (f i s)) \<Longrightarrow> mem_only s (fold f is s)"
proof (induction "is" arbitrary: s)
  case (Cons i "is")
  then show ?case using mem_only_trans [of s "f i s"] by simp
qed simp

lemma mem_only_free_user_half: "mem_only s (free_user_half pml4 s)"
proof -
  have pt: "mem_only s (free_pt t s)" for s :: "'a kernel_scheme" and t
    unfolding free_pt_def by (intro mem_only_trans [OF mem_only_fold_step mem_only_frames(2)]) (simp add: Let_def mem_only_frames)
  have pd: "mem_only s (free_pd t s)" for s :: "'a kernel_scheme" and t
    unfolding free_pd_def by (intro mem_only_trans [OF mem_only_fold_step mem_only_frames(2)]) (simp add: Let_def mem_only_frames pt)
  have pdpt: "mem_only s (free_pdpt t s)" for s :: "'a kernel_scheme" and t
    unfolding free_pdpt_def by (intro mem_only_trans [OF mem_only_fold_step mem_only_frames(2)]) (simp add: Let_def mem_only_frames pd)
  show ?thesis
    unfolding free_user_half_def by (intro mem_only_trans [OF mem_only_fold_step mem_only_frames(2)]) (simp add: Let_def pdpt)
qed

end
