(* ===== verification/Heap.thy ===== *)
theory Heap
  imports Vmm
begin

unbundle bit_operations_syntax

text \<open>
  The kernel heap, \<open>src/heap.rs\<close>: an address-ordered, coalescing, first-fit free list whose nodes live
  in the free blocks themselves, grown page by page from the frame allocator.

  \<open>usize\<close> values are natural numbers. A \<open>FreeBlock\<close> at address \<open>a\<close> is the pair of machine words at \<open>a\<close>
  (its size) and at \<open>a + 8\<close> (its \<open>next\<close> pointer, 0 for null); \<open>hmem\<close> holds the words of the heap's
  virtual range. The walks over the list are partial functions, since nothing but the invariant
  makes them end; \<open>None\<close> stands for a panic or for a walk that never ends.
\<close>

section \<open>The free list\<close>

definition HEAP_START :: nat where "HEAP_START = 0xFFFFFFFF90000000"
definition HEAP_MAX_SIZE :: nat where "HEAP_MAX_SIZE = 64 * 1024 * 1024"
definition HEAP_GROW_STEP :: nat where "HEAP_GROW_STEP = 64 * 1024"

text \<open>An addition that overflows panics.\<close>

definition usize_align_up :: "nat \<Rightarrow> nat \<Rightarrow> nat option" where
  "usize_align_up addr align =
     (if addr + align < 2 ^ 64 then Some (unat (align_up (of_nat addr) (of_nat align))) else None)"

definition usize_align_down :: "nat \<Rightarrow> nat \<Rightarrow> nat" where
  "usize_align_down v a = unat (align_down (of_nat v) (of_nat a))"

record heap =
  head :: nat
  mapped_end :: nat
  allocated :: nat
  heap_total :: nat
  hmem :: "nat \<Rightarrow> nat"

definition heap_new :: heap where
  "heap_new = \<lparr>head = 0, mapped_end = 0, allocated = 0, heap_total = 0, hmem = (\<lambda>a. 0)\<rparr>"

text \<open>Fields of the block at \<open>a\<close>.\<close>

definition block_size :: "heap \<Rightarrow> nat \<Rightarrow> nat" where
  "block_size h a = hmem h a"

definition block_next :: "heap \<Rightarrow> nat \<Rightarrow> nat" where
  "block_next h a = hmem h (a + 8)"

definition set_size :: "heap \<Rightarrow> nat \<Rightarrow> nat \<Rightarrow> heap" where
  "set_size h a n = h\<lparr>hmem := (hmem h)(a := n)\<rparr>"

definition set_next :: "heap \<Rightarrow> nat \<Rightarrow> nat \<Rightarrow> heap" where
  "set_next h a n = h\<lparr>hmem := (hmem h)(a + 8 := n)\<rparr>"

text \<open>The search loop of \<open>insert\<close>: the last block below \<open>addr\<close> and the first one not below it.\<close>

partial_function (option) heap_seek :: "heap \<Rightarrow> nat \<Rightarrow> nat \<Rightarrow> nat \<Rightarrow> (nat \<times> nat) option" where
  "heap_seek h addr prev cur =
     (if cur \<noteq> 0 \<and> cur < addr then heap_seek h addr cur (block_next h cur) else Some (prev, cur))"

text \<open>The rest of \<open>insert\<close>, after the search: merging and linking.\<close>

definition heap_link :: "heap \<Rightarrow> nat \<Rightarrow> nat \<Rightarrow> nat \<Rightarrow> nat \<Rightarrow> heap" where
  "heap_link h addr sz prev cur =
     (let (sz, next) =
            (if cur \<noteq> 0 \<and> addr + sz = cur then (sz + block_size h cur, block_next h cur) else (sz, cur))
      in if prev \<noteq> 0 \<and> prev + block_size h prev = addr
         then set_next (set_size h prev (block_size h prev + sz)) prev next
         else
           let h1 = set_next (set_size h addr sz) addr next in
           if prev = 0 then h1\<lparr>head := addr\<rparr> else set_next h1 prev addr)"

definition heap_insert :: "heap \<Rightarrow> nat \<Rightarrow> nat \<Rightarrow> heap option" where
  "heap_insert h addr sz =
     (if addr mod 8 \<noteq> 0 \<or> sz < 16 then None
      else case heap_seek h addr 0 (head h) of
        None \<Rightarrow> None
      | Some (prev, cur) \<Rightarrow> Some (heap_link h addr sz prev cur))"

text \<open>Taking \<open>size\<close> bytes at \<open>alloc_start\<close> out of the block \<open>cur\<close>, whose predecessor is \<open>prev\<close>.\<close>

definition heap_carve :: "heap \<Rightarrow> nat \<Rightarrow> nat \<Rightarrow> nat \<Rightarrow> nat \<Rightarrow> heap option" where
  "heap_carve h sz alloc_start prev cur =
     (let block_len = block_size h cur;
          padding = alloc_start - cur;
          next = block_next h cur;
          h1 = (if prev = 0 then h\<lparr>head := next\<rparr> else set_next h prev next);
          after_size = block_len - padding - sz
      in do {
        h2 \<leftarrow> (if padding \<ge> 16 then heap_insert h1 cur padding else Some h1);
        (if after_size \<ge> 16 then heap_insert h2 (alloc_start + sz) after_size else Some h2)
      })"

partial_function (option) heap_find_from ::
  "heap \<Rightarrow> nat \<Rightarrow> nat \<Rightarrow> nat \<Rightarrow> nat \<Rightarrow> (nat option \<times> heap) option" where
  "heap_find_from h sz align prev cur =
     (if cur = 0 then Some (None, h)
      else
        case usize_align_up cur align of
          None \<Rightarrow> None
        | Some alloc_start \<Rightarrow>
            if alloc_start - cur + sz \<le> block_size h cur
            then map_option (Pair (Some alloc_start)) (heap_carve h sz alloc_start prev cur)
            else heap_find_from h sz align cur (block_next h cur))"

definition heap_find_and_remove :: "heap \<Rightarrow> nat \<Rightarrow> nat \<Rightarrow> (nat option \<times> heap) option" where
  "heap_find_and_remove h sz align = heap_find_from h sz align 0 (head h)"

section \<open>Growing, allocating, releasing\<close>

record hkernel = vkernel +
  the_heap :: heap

text \<open>The mapping loop of \<open>grow\<close>; it stops early when no frame is left.\<close>

function heap_map_pages :: "'a hkernel_scheme \<Rightarrow> nat \<Rightarrow> nat \<Rightarrow> nat \<Rightarrow> (nat \<times> 'a hkernel_scheme) option" where
  "heap_map_pages s start grow_by mapped =
     (if mapped < grow_by then
        case alloc_frame s of
          (None, s1) \<Rightarrow> Some (mapped, s1)
        | (Some phys, s1) \<Rightarrow>
            (case map_page s1 (of_nat (start + mapped)) phys KERNEL_RW of
               None \<Rightarrow> None
             | Some s2 \<Rightarrow> heap_map_pages s2 start grow_by (mapped + 4096))
      else Some (mapped, s))"
  by pat_completeness auto
termination
  by (relation "measure (\<lambda>(s, start, grow_by, mapped). grow_by - mapped)") auto

declare heap_map_pages.simps [simp del]

definition heap_grow_by :: "nat \<Rightarrow> nat \<Rightarrow> nat option" where
  "heap_grow_by min_extra remaining_va = do {
     extra \<leftarrow> usize_align_up min_extra 4096;
     grow_by \<leftarrow> usize_align_up (min (max HEAP_GROW_STEP extra) remaining_va) 4096;
     Some (min grow_by (usize_align_down remaining_va 4096))
   }"

definition heap_grow :: "'a hkernel_scheme \<Rightarrow> nat \<Rightarrow> (bool \<times> 'a hkernel_scheme) option" where
  "heap_grow s min_extra =
     (let h = (if mapped_end (the_heap s) = 0 then (the_heap s)\<lparr>mapped_end := HEAP_START\<rparr> else the_heap s);
          s1 = s\<lparr>the_heap := h\<rparr>;
          remaining_va = HEAP_START + HEAP_MAX_SIZE - mapped_end h
      in if remaining_va = 0 then Some (False, s1)
         else do {
           grow_by \<leftarrow> heap_grow_by min_extra remaining_va;
           (if grow_by = 0 then Some (False, s1)
            else do {
              let start = mapped_end h;
              (mapped, s2) \<leftarrow> heap_map_pages s1 start grow_by 0;
              (if mapped = 0 then Some (False, s2)
               else do {
                 let h2 = (the_heap s2)\<lparr>mapped_end := start + mapped, heap_total := heap_total h + mapped\<rparr>;
                 h3 \<leftarrow> heap_insert h2 start mapped;
                 Some (True, s2\<lparr>the_heap := h3\<rparr>)
               })
            })
         })"

record layout =
  layout_size :: nat
  layout_align :: nat

definition adjust :: "layout \<Rightarrow> (nat \<times> nat) option" where
  "adjust layout = do {
     let align = max (layout_align layout) 8;
     sz \<leftarrow> usize_align_up (max (layout_size layout) 16) 8;
     Some (sz, align)
   }"

text \<open>\<open>GlobalAlloc::alloc\<close>, with address 0 for the null pointer.\<close>

definition heap_alloc :: "'a hkernel_scheme \<Rightarrow> layout \<Rightarrow> (nat \<times> 'a hkernel_scheme) option" where
  "heap_alloc s layout = do {
     (sz, align) \<leftarrow> adjust layout;
     (found, h) \<leftarrow> heap_find_and_remove (the_heap s) sz align;
     (case found of
        Some addr \<Rightarrow> Some (addr, s\<lparr>the_heap := h\<lparr>allocated := allocated h + sz\<rparr>\<rparr>)
      | None \<Rightarrow> do {
          (ok, s1) \<leftarrow> heap_grow (s\<lparr>the_heap := h\<rparr>) (sz + align);
          (if \<not> ok then Some (0, s1)
           else do {
             (found, h1) \<leftarrow> heap_find_and_remove (the_heap s1) sz align;
             Some (case found of
                 Some addr \<Rightarrow> (addr, s1\<lparr>the_heap := h1\<lparr>allocated := allocated h1 + sz\<rparr>\<rparr>)
               | None \<Rightarrow> (0, s1\<lparr>the_heap := h1\<rparr>))
           })
        })
   }"

text \<open>\<open>GlobalAlloc::dealloc\<close>; natural-number subtraction is \<open>saturating_sub\<close>.\<close>

definition heap_dealloc :: "'a hkernel_scheme \<Rightarrow> nat \<Rightarrow> layout \<Rightarrow> 'a hkernel_scheme option" where
  "heap_dealloc s ptr layout = do {
     (sz, align) \<leftarrow> adjust layout;
     let h = (the_heap s)\<lparr>allocated := allocated (the_heap s) - sz\<rparr>;
     h' \<leftarrow> heap_insert h ptr sz;
     Some (s\<lparr>the_heap := h'\<rparr>)
   }"

definition heap_init :: "'a hkernel_scheme \<Rightarrow> 'a hkernel_scheme option" where
  "heap_init s = (case heap_grow s HEAP_GROW_STEP of None \<Rightarrow> None | Some (ok, s') \<Rightarrow> Some s')"

definition allocated_bytes :: "'a hkernel_scheme \<Rightarrow> nat" where
  "allocated_bytes s = allocated (the_heap s)"

definition heap_size :: "'a hkernel_scheme \<Rightarrow> nat" where
  "heap_size s = heap_total (the_heap s)"

section \<open>Lemmas: the list in memory\<close>

fun bseg :: "(nat \<Rightarrow> nat) \<Rightarrow> nat \<Rightarrow> (nat \<times> nat) list \<Rightarrow> nat \<Rightarrow> bool" where
  "bseg m p [] q \<longleftrightarrow> p = q"
| "bseg m p (x # bs) q \<longleftrightarrow> p = fst x \<and> fst x \<noteq> 0 \<and> m (fst x) = snd x \<and> bseg m (m (fst x + 8)) bs q"

definition block_ok :: "nat \<times> nat \<Rightarrow> bool" where
  "block_ok x \<longleftrightarrow> 0 < fst x \<and> fst x mod 8 = 0 \<and> snd x mod 8 = 0 \<and> 16 \<le> snd x"

definition blocks_ok :: "(nat \<times> nat) list \<Rightarrow> bool" where
  "blocks_ok bs \<longleftrightarrow> sorted_wrt (\<lambda>x y. fst x + snd x < fst y) bs \<and>
     list_all block_ok bs"

definition free_bytes :: "(nat \<times> nat) list \<Rightarrow> nat set" where
  "free_bytes bs = (\<Union>x\<in>set bs. {fst x..<fst x + snd x})"

lemma free_bytes_simps [simp]:
  "free_bytes [] = {}" "free_bytes (x # bs) = {fst x..<fst x + snd x} \<union> free_bytes bs"
  "free_bytes (bs @ cs) = free_bytes bs \<union> free_bytes cs"
  by (simp_all add: free_bytes_def)

lemma bseg_append: "bseg m p (bs @ cs) q \<longleftrightarrow> (\<exists>r. bseg m p bs r \<and> bseg m r cs q)"
  by (induction bs arbitrary: p) auto

lemma bseg_frame:
  "\<forall>b\<in>set bs. x \<noteq> fst b \<and> x \<noteq> fst b + 8 \<Longrightarrow> bseg (m(x := v)) p bs q \<longleftrightarrow> bseg m p bs q"
  by (induction bs arbitrary: p) auto

lemma bseg_head: "bseg m p bs q \<Longrightarrow> bs \<noteq> [] \<Longrightarrow> p = fst (List.hd bs)"
  by (cases bs) auto

lemma blocks_ok_Cons:
  "blocks_ok (y # bs) \<longleftrightarrow> block_ok y \<and> (\<forall>x\<in>set bs. fst y + snd y < fst x) \<and> blocks_ok bs"
  by (auto simp: blocks_ok_def)

lemma blocks_ok_append:
  "blocks_ok (xs @ ys) \<longleftrightarrow> blocks_ok xs \<and> blocks_ok ys \<and> (\<forall>x\<in>set xs. \<forall>y\<in>set ys. fst x + snd x < fst y)"
  by (auto simp: blocks_ok_def sorted_wrt_append)

lemma blocks_okD: "blocks_ok bs \<Longrightarrow> x \<in> set bs \<Longrightarrow> block_ok x"
  by (simp add: blocks_ok_def list_all_iff)

lemma block_okD: "block_ok x \<Longrightarrow> 0 < fst x" "block_ok x \<Longrightarrow> 16 \<le> snd x" "block_ok x \<Longrightarrow> fst x mod 8 = 0"
  "block_ok x \<Longrightarrow> snd x mod 8 = 0"
  by (simp_all add: block_ok_def)

lemma blocks_ok_Nil [simp]: "blocks_ok []"
  by (simp add: blocks_ok_def)

text \<open>The pointer to a list's last block, or \<open>prev\<close> if it is empty.\<close>

definition last_ptr :: "nat \<Rightarrow> (nat \<times> nat) list \<Rightarrow> nat" where
  "last_ptr prev xs = (if xs = [] then prev else fst (last xs))"

lemma heap_seek_spec:
  assumes "bseg (hmem h) cur xs q" "\<forall>x\<in>set xs. fst x < addr" "q = 0 \<or> addr \<le> q"
  shows "heap_seek h addr prev cur = Some (last_ptr prev xs, q)"
  using assms(1,2)
proof (induction xs arbitrary: prev cur)
  case Nil
  then show ?case using assms(3) by (subst heap_seek.simps) (auto simp: last_ptr_def)
next
  case (Cons x xs)
  then have "heap_seek h addr prev cur = heap_seek h addr cur (block_next h cur)"
    by (subst heap_seek.simps) auto
  also have "\<dots> = Some (last_ptr cur xs, q)"
    using Cons by (auto simp: block_next_def)
  also have "last_ptr cur xs = last_ptr prev (x # xs)" using Cons.prems by (auto simp: last_ptr_def)
  finally show ?case .
qed

text \<open>A region that is disjoint from the free blocks splits them into those before and those after.\<close>

lemma split_blocks:
  assumes "blocks_ok bs" "{addr..<addr + sz} \<inter> free_bytes bs = {}" "0 < sz"
  obtains xs ys where "bs = xs @ ys" "\<forall>x\<in>set xs. fst x + snd x \<le> addr" "\<forall>y\<in>set ys. addr + sz \<le> fst y"
proof -
  have dis: "fst x + snd x \<le> addr \<or> addr + sz \<le> fst x" if "x \<in> set bs" for x
  proof (rule ccontr)
    assume "\<not> ?thesis"
    then have "max addr (fst x) \<in> {addr..<addr + sz}" "max addr (fst x) \<in> {fst x..<fst x + snd x}"
      using block_okD(2) [OF blocks_okD [OF assms(1) that]] assms(3) by (auto simp: max_def)
    moreover have "{fst x..<fst x + snd x} \<subseteq> free_bytes bs" using that by (force simp: free_bytes_def)
    ultimately show False using assms(2) by blast
  qed
  define xs where "xs = takeWhile (\<lambda>x. fst x < addr) bs"
  define ys where "ys = dropWhile (\<lambda>x. fst x < addr) bs"
  have bs: "bs = xs @ ys" by (simp add: xs_def ys_def)
  have "fst x + snd x \<le> addr" if "x \<in> set xs" for x
    using set_takeWhileD [OF that [unfolded xs_def]] dis [of x] by auto
  moreover have "addr + sz \<le> fst y" if y: "y \<in> set ys" for y
  proof -
    obtain z zs where z: "ys = z # zs" using y by (cases ys) auto
    then have "\<not> fst z < addr" by (metis dropWhile_eq_Cons_conv ys_def)
    moreover have "fst z \<le> fst y" using assms(1) y z by (fastforce simp: bs blocks_ok_append blocks_ok_Cons)
    moreover have "0 < snd y" using block_okD(2) [OF blocks_okD [OF assms(1), of y]] y by (simp add: bs)
    ultimately show ?thesis using dis [of y] y by (auto simp: bs)
  qed
  ultimately show ?thesis using that [OF bs] by blast
qed

text \<open>Insertion at the level of lists.\<close>

definition list_insert :: "nat \<Rightarrow> nat \<Rightarrow> (nat \<times> nat) list \<Rightarrow> (nat \<times> nat) list \<Rightarrow> (nat \<times> nat) list" where
  "list_insert addr sz xs ys =
     (let (sz, ys) = (if ys \<noteq> [] \<and> addr + sz = fst (List.hd ys) then (sz + snd (List.hd ys), tl ys) else (sz, ys))
      in if xs \<noteq> [] \<and> fst (last xs) + snd (last xs) = addr
         then butlast xs @ (fst (last xs), snd (last xs) + sz) # ys
         else xs @ (addr, sz) # ys)"

lemma list_insert_free:
  assumes "blocks_ok (xs @ ys)" "\<forall>x\<in>set xs. fst x + snd x \<le> addr" "\<forall>y\<in>set ys. addr + sz \<le> fst y"
  shows "free_bytes (list_insert addr sz xs ys) = free_bytes (xs @ ys) \<union> {addr..<addr + sz}"
proof -
  define sz' where "sz' = (if ys \<noteq> [] \<and> addr + sz = fst (List.hd ys) then sz + snd (List.hd ys) else sz)"
  define ys' where "ys' = (if ys \<noteq> [] \<and> addr + sz = fst (List.hd ys) then tl ys else ys)"
  have y: "{addr..<addr + sz'} \<union> free_bytes ys' = {addr..<addr + sz} \<union> free_bytes ys"
    by (cases ys) (auto simp: sz'_def ys'_def)
  have li: "list_insert addr sz xs ys = (if xs \<noteq> [] \<and> fst (last xs) + snd (last xs) = addr
      then butlast xs @ (fst (last xs), snd (last xs) + sz') # ys' else xs @ (addr, sz') # ys')"
    by (simp add: list_insert_def sz'_def ys'_def)
  show ?thesis
  proof (cases "xs \<noteq> [] \<and> fst (last xs) + snd (last xs) = addr")
    case True
    then have "xs = butlast xs @ [last xs]" by simp
    then have "free_bytes xs = free_bytes (butlast xs) \<union> {fst (last xs)..<addr}"
      using True free_bytes_simps(3) [of "butlast xs" "[last xs]"] by simp
    moreover have "{fst (last xs)..<fst (last xs) + (snd (last xs) + sz')} = {fst (last xs)..<addr} \<union> {addr..<addr + sz'}"
      using True by auto
    ultimately show ?thesis using True y by (auto simp: li)
  next
    case False
    then show ?thesis using y by (auto simp: li)
  qed
qed

lemma blocks_ok_join:
  assumes "blocks_ok (us @ [l])" "fst l + snd l = addr" "blocks_ok ((addr, k) # ys)"
  shows "blocks_ok (us @ (fst l, snd l + k) # ys)"
proof -
  have l: "block_ok l" "blocks_ok us" "\<forall>x\<in>set us. fst x + snd x < fst l"
    using assms(1) by (auto simp: blocks_ok_append blocks_ok_Cons)
  have ys: "k mod 8 = 0" "blocks_ok ys" "\<forall>y\<in>set ys. addr + k < fst y"
    using assms(3) by (auto simp: blocks_ok_Cons block_ok_def)
  have "block_ok (fst l, snd l + k)" using l(1) ys(1) by (simp add: block_ok_def mod_add_eq [symmetric])
  moreover have "fst x + snd x < fst y" if "x \<in> set us" "y \<in> set ys" for x y
    using bspec [OF l(3) that(1)] bspec [OF ys(3) that(2)] assms(2) by linarith
  moreover have "fst l + (snd l + k) < fst y" if "y \<in> set ys" for y
    using bspec [OF ys(3) that] assms(2) by linarith
  ultimately show ?thesis using l ys by (auto simp: blocks_ok_append blocks_ok_Cons)
qed

lemma blocks_ok_put:
  assumes "blocks_ok (us @ [l])" "fst l + snd l < addr" "blocks_ok ((addr, k) # ys)"
  shows "blocks_ok ((us @ [l]) @ (addr, k) # ys)"
proof -
  have l: "\<forall>x\<in>set us. fst x + snd x < fst l" using assms(1) by (auto simp: blocks_ok_append)
  have ys: "\<forall>y\<in>set ys. addr + k < fst y" using assms(3) by (auto simp: blocks_ok_Cons)
  have "fst x + snd x < addr" if "x \<in> set (us @ [l])" for x
  proof (cases "x = l")
    case False
    then have "fst x + snd x < fst l" using that l by auto
    then show ?thesis using assms(2) by linarith
  qed (use assms(2) in simp)
  moreover have "addr \<le> fst y" if "y \<in> set ((addr, k) # ys)" for y using that ys by force
  ultimately show ?thesis unfolding blocks_ok_append [of "us @ [l]"] using assms(1,3) by fastforce
qed

lemma list_insert_ok:
  assumes "blocks_ok (xs @ ys)" "\<forall>x\<in>set xs. fst x + snd x \<le> addr" "\<forall>y\<in>set ys. addr + sz \<le> fst y"
    and "block_ok (addr, sz)"
  shows "blocks_ok (list_insert addr sz xs ys)"
proof -
  define sz' where "sz' = (if ys \<noteq> [] \<and> addr + sz = fst (List.hd ys) then sz + snd (List.hd ys) else sz)"
  define ys' where "ys' = (if ys \<noteq> [] \<and> addr + sz = fst (List.hd ys) then tl ys else ys)"
  have li: "list_insert addr sz xs ys = (if xs \<noteq> [] \<and> fst (last xs) + snd (last xs) = addr
      then butlast xs @ (fst (last xs), snd (last xs) + sz') # ys' else xs @ (addr, sz') # ys')"
    by (simp add: list_insert_def sz'_def ys'_def)
  have y: "blocks_ok ((addr, sz') # ys')"
  proof (cases ys)
    case (Cons y zs)
    have y: "block_ok y" "\<forall>z\<in>set zs. fst y + snd y < fst z" "blocks_ok zs"
      using assms(1) Cons by (auto simp: blocks_ok_append blocks_ok_Cons)
    show ?thesis
    proof (cases "addr + sz = fst y")
      case True
      have "block_ok (addr, sz + snd y)" using assms(4) y(1) by (simp add: block_ok_def mod_add_eq [symmetric])
      then show ?thesis using True y Cons by (auto simp: sz'_def ys'_def blocks_ok_Cons)
    next
      case False
      then have "addr + sz < fst y" using assms(3) Cons by auto
      then have "\<forall>z\<in>set ys. addr + sz < fst z" using y Cons by fastforce
      then show ?thesis using False assms(1,4) Cons by (auto simp: sz'_def ys'_def blocks_ok_Cons blocks_ok_append)
    qed
  qed (use assms(4) in \<open>simp add: sz'_def ys'_def blocks_ok_Cons\<close>)
  show ?thesis
  proof (cases xs rule: rev_cases)
    case Nil
    then show ?thesis using y unfolding li by simp
  next
    case (snoc us l)
    have ok: "blocks_ok (us @ [l])" using assms(1) snoc by (simp add: blocks_ok_append blocks_ok_Cons)
    show ?thesis
    proof (cases "fst l + snd l = addr")
      case True
      then show ?thesis using blocks_ok_join [OF ok True y] snoc unfolding li by simp
    next
      case False
      then have "fst l + snd l < addr" using assms(2) snoc by auto
      from blocks_ok_put [OF ok this y] show ?thesis using snoc False unfolding li by simp
    qed
  qed
qed

text \<open>Words that only the free blocks and the region hold are all the link step writes.\<close>

lemma bseg_below:
  assumes "blocks_ok bs" "\<forall>b\<in>set bs. fst b + snd b \<le> x"
  shows "bseg (m(x := v)) p bs q \<longleftrightarrow> bseg m p bs q"
proof (rule bseg_frame, intro ballI)
  fix b assume b: "b \<in> set bs"
  show "x \<noteq> fst b \<and> x \<noteq> fst b + 8" using block_okD(2) [OF blocks_okD [OF assms(1) b]] bspec [OF assms(2) b] by auto
qed

lemma bseg_above:
  assumes "\<forall>b\<in>set bs. x < fst b"
  shows "bseg (m(x := v)) p bs q \<longleftrightarrow> bseg m p bs q"
  using assms by (intro bseg_frame) auto

lemma heap_link_first:
  assumes "blocks_ok ((addr, k) # ys)" "bseg m nxt ys 0"
  shows "bseg (m(addr := k, addr + 8 := nxt)) addr ((addr, k) # ys) 0"
proof -
  have "0 < addr" "16 \<le> k" "\<forall>y\<in>set ys. addr + k < fst y"
    using assms(1) by (auto simp: blocks_ok_Cons block_ok_def)
  then have "\<forall>y\<in>set ys. addr < fst y" "\<forall>y\<in>set ys. addr + 8 < fst y" by force+
  then show ?thesis using \<open>0 < addr\<close> assms(2) by (simp add: bseg_above)
qed

lemma heap_link_join:
  assumes "blocks_ok (us @ [l])" "fst l + snd l = addr" "blocks_ok ((addr, k) # ys)"
    and "bseg m p us (fst l)" "bseg m nxt ys 0"
  shows "bseg (m(fst l := snd l + k, fst l + 8 := nxt)) p (us @ (fst l, snd l + k) # ys) 0"
proof -
  have l: "block_ok l" "blocks_ok us" "\<forall>x\<in>set us. fst x + snd x < fst l"
    using assms(1) by (auto simp: blocks_ok_append blocks_ok_Cons)
  have j: "blocks_ok ((fst l, snd l + k) # ys)"
    using blocks_ok_join [OF assms(1-3)] by (simp add: blocks_ok_append)
  have "bseg (m(fst l := snd l + k, fst l + 8 := nxt)) (fst l) ((fst l, snd l + k) # ys) 0"
    by (rule heap_link_first [OF j assms(5)])
  moreover have "\<forall>x\<in>set us. fst x + snd x \<le> fst l" "\<forall>x\<in>set us. fst x + snd x \<le> fst l + 8" using l(3) by force+
  then have "bseg (m(fst l := snd l + k, fst l + 8 := nxt)) p us (fst l)"
    using assms(4) l(2) by (simp add: bseg_below)
  ultimately show ?thesis unfolding bseg_append by blast
qed

lemma heap_link_put:
  assumes "blocks_ok (us @ [l])" "fst l + snd l < addr" "blocks_ok ((addr, k) # ys)"
    and "bseg m p us (fst l)" "m (fst l) = snd l" "bseg m nxt ys 0"
  shows "bseg (m(addr := k, addr + 8 := nxt, fst l + 8 := addr)) p ((us @ [l]) @ (addr, k) # ys) 0"
proof -
  have l: "block_ok l" "blocks_ok us" "\<forall>x\<in>set us. fst x + snd x < fst l"
    using assms(1) by (auto simp: blocks_ok_append blocks_ok_Cons)
  have l16: "16 \<le> snd l" "0 < fst l" using l(1) by (simp_all add: block_ok_def)
  let ?m = "m(addr := k, addr + 8 := nxt)"
  have "\<forall>y\<in>set ((addr, k) # ys). fst l + 8 < fst y"
    using assms(2,3) l16 by (fastforce simp: blocks_ok_Cons)
  then have "bseg (?m(fst l + 8 := addr)) addr ((addr, k) # ys) 0"
    using heap_link_first [OF assms(3,6)] by (subst bseg_above) auto
  moreover have "\<forall>x\<in>set us. fst x + snd x \<le> fst l + 8" "\<forall>x\<in>set us. fst x + snd x \<le> addr"
    "\<forall>x\<in>set us. fst x + snd x \<le> addr + 8" using l(3) assms(2) by force+
  then have "bseg (?m(fst l + 8 := addr)) p us (fst l)" using assms(4) l(2) by (simp add: bseg_below)
  moreover have "(?m(fst l + 8 := addr)) (fst l) = snd l" using assms(2,5) by auto
  ultimately show ?thesis using l16 by (auto simp: bseg_append)
qed

lemma heap_link_ok:
  assumes "bseg (hmem h) (head h) xs q" "bseg (hmem h) q ys 0" "blocks_ok (xs @ ys)"
    and "\<forall>x\<in>set xs. fst x + snd x \<le> addr" "\<forall>y\<in>set ys. addr + sz \<le> fst y" "block_ok (addr, sz)"
  shows "\<exists>m p. heap_link h addr sz (last_ptr 0 xs) q = h\<lparr>hmem := m, head := p\<rparr> \<and>
    bseg m p (list_insert addr sz xs ys) 0 \<and>
    (\<forall>a. a \<notin> free_bytes (xs @ ys) \<longrightarrow> a \<notin> {addr..<addr + sz} \<longrightarrow> m a = hmem h a)"
proof -
  define j where "j \<longleftrightarrow> ys \<noteq> [] \<and> addr + sz = fst (List.hd ys)"
  define k where "k = (if j then sz + snd (List.hd ys) else sz)"
  define ys' where "ys' = (if j then tl ys else ys)"
  define nxt where "nxt = (if j then hmem h (q + 8) else q)"
  have li: "list_insert addr sz xs ys = (if xs \<noteq> [] \<and> fst (last xs) + snd (last xs) = addr
      then butlast xs @ (fst (last xs), snd (last xs) + k) # ys' else xs @ (addr, k) # ys')"
    by (simp add: list_insert_def k_def ys'_def j_def)
  have q: "ys = [] \<and> q = 0 \<or> ys \<noteq> [] \<and> q \<noteq> 0 \<and> q = fst (List.hd ys) \<and> hmem h q = snd (List.hd ys) \<and>
      bseg (hmem h) (hmem h (q + 8)) (tl ys) 0"
    using assms(2) by (cases ys) auto
  have link: "heap_link h addr sz prev q = (if prev \<noteq> 0 \<and> prev + block_size h prev = addr
      then set_next (set_size h prev (block_size h prev + k)) prev nxt
      else let h1 = set_next (set_size h addr k) addr nxt in
        if prev = 0 then h1\<lparr>head := addr\<rparr> else set_next h1 prev addr)" for prev
    using q by (auto simp: heap_link_def k_def nxt_def j_def block_size_def block_next_def)
  have nx: "bseg (hmem h) nxt ys' 0" using assms(2) q by (auto simp: nxt_def ys'_def j_def)
  have y: "blocks_ok ((addr, k) # ys')"
    using list_insert_ok [of "[]" ys addr sz] assms(3,5,6)
    by (auto simp: list_insert_def k_def ys'_def j_def blocks_ok_append split: if_splits)
  have sz: "16 \<le> sz" "0 < addr" using assms(6) by (auto simp: block_ok_def)
  show ?thesis
  proof (cases xs rule: rev_cases)
    case Nil
    then show ?thesis using heap_link_first [OF y nx] sz unfolding li link
      by (intro exI [of _ "(hmem h)(addr := k, addr + 8 := nxt)"] exI [of _ addr])
        (auto simp: last_ptr_def set_next_def set_size_def)
  next
    case (snoc us l)
    have ok: "blocks_ok (us @ [l])" using assms(3) snoc by (simp add: blocks_ok_append blocks_ok_Cons)
    then have l: "fst l \<noteq> 0" "16 \<le> snd l" by (auto simp: blocks_ok_append blocks_ok_Cons block_ok_def)
    have us: "bseg (hmem h) (head h) us (fst l)" "hmem h (fst l) = snd l"
      using assms(1) snoc by (auto simp: bseg_append)
    show ?thesis
    proof (cases "fst l + snd l = addr")
      case True
      show ?thesis using heap_link_join [OF ok True y us(1) nx] snoc True l us(2) unfolding li link
        by (intro exI [of _ "(hmem h)(fst l := snd l + k, fst l + 8 := nxt)"] exI [of _ "head h"])
          (auto simp: last_ptr_def set_next_def set_size_def block_size_def)
    next
      case False
      then have lt: "fst l + snd l < addr" using assms(4) snoc by auto
      show ?thesis using heap_link_put [OF ok lt y us nx] snoc False l us(2) sz unfolding li link
        by (intro exI [of _ "(hmem h)(addr := k, addr + 8 := nxt, fst l + 8 := addr)"] exI [of _ "head h"])
          (auto simp: last_ptr_def set_next_def set_size_def block_size_def)
    qed
  qed
qed

text \<open>\<open>insert\<close> of a well-formed region outside the free blocks ends, keeps the list well formed and adds
  exactly the region to it.\<close>

definition list_ok :: "heap \<Rightarrow> (nat \<times> nat) list \<Rightarrow> bool" where
  "list_ok h bs \<longleftrightarrow> bseg (hmem h) (head h) bs 0 \<and> blocks_ok bs"

lemma heap_insert_ok:
  assumes "list_ok h bs" "block_ok (addr, sz)" "{addr..<addr + sz} \<inter> free_bytes bs = {}"
  shows "\<exists>m p bs'. heap_insert h addr sz = Some (h\<lparr>hmem := m, head := p\<rparr>) \<and>
    list_ok (h\<lparr>hmem := m, head := p\<rparr>) bs' \<and> free_bytes bs' = free_bytes bs \<union> {addr..<addr + sz} \<and>
    (\<forall>a. a \<notin> free_bytes bs' \<longrightarrow> m a = hmem h a)"
proof -
  have ok: "blocks_ok bs" and seg: "bseg (hmem h) (head h) bs 0" using assms(1) by (auto simp: list_ok_def)
  have sz: "addr mod 8 = 0" "16 \<le> sz" using assms(2) by (auto simp: block_ok_def)
  obtain xs ys where s: "bs = xs @ ys" "\<forall>x\<in>set xs. fst x + snd x \<le> addr" "\<forall>y\<in>set ys. addr + sz \<le> fst y"
    using split_blocks [OF ok assms(3)] sz by auto
  obtain q where q: "bseg (hmem h) (head h) xs q" "bseg (hmem h) q ys 0" using seg s(1) by (auto simp: bseg_append)
  have "\<forall>x\<in>set xs. fst x < addr"
    using s(2) block_okD(2) [OF blocks_okD [OF ok]] by (fastforce simp: s(1))
  moreover have "q = 0 \<or> addr \<le> q" using q(2) s(3) by (cases ys) auto
  ultimately have seek: "heap_seek h addr 0 (head h) = Some (last_ptr 0 xs, q)"
    by (rule heap_seek_spec [OF q(1)])
  obtain m p where m: "heap_link h addr sz (last_ptr 0 xs) q = h\<lparr>hmem := m, head := p\<rparr>"
    "bseg m p (list_insert addr sz xs ys) 0"
    "\<forall>a. a \<notin> free_bytes (xs @ ys) \<longrightarrow> a \<notin> {addr..<addr + sz} \<longrightarrow> m a = hmem h a"
    using heap_link_ok [OF q ok [unfolded s(1)] s(2,3) assms(2)] by auto
  note f = list_insert_free [OF ok [unfolded s(1)] s(2,3)] list_insert_ok [OF ok [unfolded s(1)] s(2,3) assms(2)]
  have ins: "heap_insert h addr sz = Some (h\<lparr>hmem := m, head := p\<rparr>)"
    using seek sz by (simp add: heap_insert_def m(1))
  show ?thesis
    using m(2,3) f unfolding ins s(1) list_ok_def
    by (intro exI [of _ m] exI [of _ p] exI [of _ "list_insert addr sz xs ys"]) auto
qed

section \<open>Lemmas: searching\<close>

definition up_to :: "nat \<Rightarrow> nat \<Rightarrow> nat" where
  "up_to align a = (a + align - 1) div align * align"

lemma up_to_bounds:
  assumes "0 < align"
  shows "a \<le> up_to align a" "up_to align a < a + align" "align dvd up_to align a"
proof -
  have "up_to align a + (a + align - 1) mod align = a + align - 1" by (simp add: up_to_def)
  moreover have "(a + align - 1) mod align < align" using assms by simp
  ultimately show "a \<le> up_to align a" "up_to align a < a + align" using assms by linarith+
qed (simp add: up_to_def)

lemma usize_align_up_pow2:
  assumes "align = 2 ^ n" "addr + align < 2 ^ 64"
  shows "usize_align_up addr align = Some (up_to align addr)"
proof -
  have n: "(of_nat align :: u64) - 1 = mask n" by (simp add: assms(1) mask_eq_exp_minus_1)
  have a: "(1::nat) \<le> align" by (simp add: assms(1))
  have e: "(of_nat addr + of_nat align :: u64) - 1 = of_nat (addr + align - 1)"
    using a by (simp add: of_nat_diff)
  have "unat (of_nat (addr + align - 1) :: u64) = addr + align - 1"
    using assms(2) by (intro unat_of_nat_u64) simp
  then show ?thesis
    using assms unfolding usize_align_up_def align_up_def e n up_to_def by (simp add: unat_and_not_mask)
qed

lemma blocks_ok_middle:
  assumes "blocks_ok (xs @ b # ys)"
  shows "blocks_ok (xs @ ys)" "{fst b..<fst b + snd b} \<inter> free_bytes (xs @ ys) = {}" "block_ok b"
proof -
  show "blocks_ok (xs @ ys)" "block_ok b" using assms by (auto simp: blocks_ok_append blocks_ok_Cons)
  have "\<forall>x\<in>set xs. fst x + snd x < fst b" "\<forall>x\<in>set ys. fst b + snd b < fst x"
    using assms by (auto simp: blocks_ok_append blocks_ok_Cons)
  then show "{fst b..<fst b + snd b} \<inter> free_bytes (xs @ ys) = {}" by (fastforce simp: free_bytes_def)
qed

text \<open>Taking a block out of the list.\<close>

lemma heap_unlink_ok:
  assumes "list_ok h (xs @ b # ys)" "nxt = block_next h (fst b)" "prev = last_ptr 0 xs"
  shows "\<exists>m p. (if prev = 0 then h\<lparr>head := nxt\<rparr> else set_next h prev nxt) = h\<lparr>hmem := m, head := p\<rparr> \<and>
    list_ok (h\<lparr>hmem := m, head := p\<rparr>) (xs @ ys) \<and> (\<forall>a. a \<notin> free_bytes xs \<longrightarrow> m a = hmem h a)"
proof -
  have ok: "blocks_ok (xs @ b # ys)" and seg: "bseg (hmem h) (head h) (xs @ b # ys) 0"
    using assms(1) by (auto simp: list_ok_def)
  have nx: "bseg (hmem h) nxt ys 0" using seg by (auto simp: assms(2) bseg_append block_next_def)
  show ?thesis
  proof (cases xs rule: rev_cases)
    case Nil
    then show ?thesis using nx blocks_ok_middle(1) [OF ok] assms(3)
      by (intro exI [of _ "hmem h"] exI [of _ nxt]) (simp add: list_ok_def last_ptr_def)
  next
    case (snoc us l)
    have l: "fst l \<noteq> 0" "16 \<le> snd l" using ok by (auto simp: snoc blocks_ok_append blocks_ok_Cons block_ok_def)
    have us: "bseg (hmem h) (head h) us (fst l)" "hmem h (fst l) = snd l"
      using seg snoc by (auto simp: bseg_append)
    let ?m = "(hmem h)(fst l + 8 := nxt)"
    have "\<forall>x\<in>set us. fst x + snd x \<le> fst l + 8" "blocks_ok us"
      using ok by (force simp: snoc blocks_ok_append blocks_ok_Cons)+
    then have "bseg ?m (head h) us (fst l)" using us(1) by (simp add: bseg_below)
    moreover have "\<forall>y\<in>set ys. fst l + snd l < fst y" using ok by (auto simp: snoc blocks_ok_append blocks_ok_Cons)
    then have "\<forall>y\<in>set ys. fst l + 8 < fst y" using l by fastforce
    then have "bseg ?m nxt ys 0" using nx by (simp add: bseg_above)
    ultimately have "bseg ?m (head h) (xs @ ys) 0" using us(2) l by (auto simp: snoc bseg_append)
    then show ?thesis using blocks_ok_middle(1) [OF ok] l snoc assms(3)
      by (intro exI [of _ ?m] exI [of _ "head h"]) (auto simp: list_ok_def last_ptr_def set_next_def)
  qed
qed

text \<open>Returning a leftover of at least a block header to the list; a smaller one is dropped.\<close>

lemma heap_leftover_ok:
  assumes "list_ok h bs" "16 \<le> sz \<longrightarrow> block_ok (addr, sz)" "{addr..<addr + sz} \<inter> free_bytes bs = {}"
  shows "\<exists>m p bs'. (if 16 \<le> sz then heap_insert h addr sz else Some h) = Some (h\<lparr>hmem := m, head := p\<rparr>) \<and>
    list_ok (h\<lparr>hmem := m, head := p\<rparr>) bs' \<and>
    free_bytes bs' = free_bytes bs \<union> (if 16 \<le> sz then {addr..<addr + sz} else {}) \<and>
    (\<forall>a. a \<notin> free_bytes bs' \<longrightarrow> m a = hmem h a)"
proof (cases "16 \<le> sz")
  case True
  with assms heap_insert_ok [of h bs addr sz] show ?thesis by auto
next
  case False
  with assms(1) show ?thesis by (intro exI [of _ "hmem h"] exI [of _ "head h"] exI [of _ bs]) auto
qed

lemma heap_carve_ok:
  assumes ok: "list_ok h (xs @ b # ys)" and st: "fst b \<le> st" "st mod 8 = 0" "sz mod 8 = 0" "st - fst b + sz \<le> snd b"
  shows "\<exists>m p bs' l r. heap_carve h sz st (last_ptr 0 xs) (fst b) = Some (h\<lparr>hmem := m, head := p\<rparr>) \<and>
    list_ok (h\<lparr>hmem := m, head := p\<rparr>) bs' \<and> l < 16 \<and> r < 16 \<and> fst b + l \<le> st \<and>
    {st - l..<st + sz + r} \<subseteq> {fst b..<fst b + snd b} \<and>
    free_bytes bs' = free_bytes (xs @ b # ys) - {st - l..<st + sz + r} \<and>
    (\<forall>a. a \<notin> free_bytes (xs @ b # ys) \<longrightarrow> m a = hmem h a)"
proof -
  let ?pad = "st - fst b" and ?aft = "snd b - (st - fst b) - sz"
  have bs: "blocks_ok (xs @ b # ys)" and sz: "hmem h (fst b) = snd b"
    using ok by (auto simp: list_ok_def bseg_append)
  note mid = blocks_ok_middle [OF bs]
  have b8: "0 < fst b" "fst b mod 8 = 0" "snd b mod 8 = 0" using mid(3) by (auto simp: block_ok_def)
  have pad8: "?pad mod 8 = 0" using b8(2) st(2) by (auto intro: dvd_diff_nat simp flip: dvd_eq_mod_eq_0)
  have aft8: "?aft mod 8 = 0" "(st + sz) mod 8 = 0"
    using b8 pad8 st by (auto intro: dvd_diff_nat simp flip: dvd_eq_mod_eq_0)
  obtain m1 p1 where h1: "(if last_ptr 0 xs = 0 then h\<lparr>head := block_next h (fst b)\<rparr>
        else set_next h (last_ptr 0 xs) (block_next h (fst b))) = h\<lparr>hmem := m1, head := p1\<rparr>"
      "list_ok (h\<lparr>hmem := m1, head := p1\<rparr>) (xs @ ys)" "\<forall>a. a \<notin> free_bytes xs \<longrightarrow> m1 a = hmem h a"
    using heap_unlink_ok [OF ok refl refl] by blast
  have d: "{fst b..<fst b + ?pad} \<inter> free_bytes (xs @ ys) = {}"
    "{st + sz..<st + sz + ?aft} \<inter> (free_bytes (xs @ ys) \<union> {fst b..<fst b + ?pad}) = {}"
  proof -
    have "{fst b..<fst b + ?pad} \<subseteq> {fst b..<fst b + snd b}" "{st + sz..<st + sz + ?aft} \<subseteq> {fst b..<fst b + snd b}"
      "{st + sz..<st + sz + ?aft} \<inter> {fst b..<fst b + ?pad} = {}" using st(1,4) by auto
    then show "{fst b..<fst b + ?pad} \<inter> free_bytes (xs @ ys) = {}"
      "{st + sz..<st + sz + ?aft} \<inter> (free_bytes (xs @ ys) \<union> {fst b..<fst b + ?pad}) = {}"
      using mid(2) by blast+
  qed
  have "16 \<le> ?pad \<longrightarrow> block_ok (fst b, ?pad)" using b8 pad8 by (simp add: block_ok_def)
  from heap_leftover_ok [OF h1(2) this d(1)] obtain m2 p2 bs2 where
    h2: "(if 16 \<le> ?pad then heap_insert (h\<lparr>hmem := m1, head := p1\<rparr>) (fst b) ?pad else Some (h\<lparr>hmem := m1, head := p1\<rparr>)) =
        Some (h\<lparr>hmem := m2, head := p2\<rparr>)" "list_ok (h\<lparr>hmem := m2, head := p2\<rparr>) bs2"
      "free_bytes bs2 = free_bytes (xs @ ys) \<union> (if 16 \<le> ?pad then {fst b..<fst b + ?pad} else {})"
      "\<forall>a. a \<notin> free_bytes bs2 \<longrightarrow> m2 a = m1 a" by auto
  have b3: "16 \<le> ?aft \<longrightarrow> block_ok (st + sz, ?aft)" using aft8 b8 st(1) by (simp add: block_ok_def)
  have d3: "{st + sz..<st + sz + ?aft} \<inter> free_bytes bs2 = {}" using d(2) h2(3) by auto
  from heap_leftover_ok [OF h2(2) b3 d3] obtain m3 p3 bs3 where
    h3: "(if 16 \<le> ?aft then heap_insert (h\<lparr>hmem := m2, head := p2\<rparr>) (st + sz) ?aft else Some (h\<lparr>hmem := m2, head := p2\<rparr>)) =
        Some (h\<lparr>hmem := m3, head := p3\<rparr>)" "list_ok (h\<lparr>hmem := m3, head := p3\<rparr>) bs3"
      "free_bytes bs3 = free_bytes bs2 \<union> (if 16 \<le> ?aft then {st + sz..<st + sz + ?aft} else {})"
      "\<forall>a. a \<notin> free_bytes bs3 \<longrightarrow> m3 a = m2 a" by auto
  have c: "heap_carve h sz st (last_ptr 0 xs) (fst b) = Some (h\<lparr>hmem := m3, head := p3\<rparr>)"
    unfolding heap_carve_def Let_def h1(1) block_size_def sz h2(1) Option.bind.bind_lunit h3(1) by (rule refl)
  define l where "l = (if 16 \<le> ?pad then 0 else ?pad)"
  define r where "r = (if 16 \<le> ?aft then 0 else ?aft)"
  let ?B = "{fst b..<fst b + snd b}"
  have lr: "l < 16" "r < 16" "fst b + l \<le> st" "{st - l..<st + sz + r} \<subseteq> ?B"
    unfolding l_def r_def using st(1,4) by auto
  have f: "free_bytes bs3 = free_bytes (xs @ b # ys) - {st - l..<st + sz + r}"
  proof -
    have "?B - {st - l..<st + sz + r} = (if 16 \<le> ?pad then {fst b..<fst b + ?pad} else {}) \<union>
        (if 16 \<le> ?aft then {st + sz..<st + sz + ?aft} else {})"
      unfolding l_def r_def using st(1,4) by (intro set_eqI) (simp, linarith)
    moreover have "free_bytes (xs @ b # ys) = free_bytes (xs @ ys) \<union> ?B" by auto
    ultimately show ?thesis using mid(2) lr(4) unfolding h3(3) h2(3) by blast
  qed
  have "m3 a = hmem h a" if "a \<notin> free_bytes (xs @ b # ys)" for a
  proof -
    have "a \<notin> free_bytes xs" "a \<notin> free_bytes bs2" "a \<notin> free_bytes bs3"
      using that st unfolding h3(3) h2(3) by (auto split: if_splits)
    then show ?thesis using h1(3) h2(4) h3(4) by simp
  qed
  then show ?thesis
    by (intro exI [of _ m3] exI [of _ p3] exI [of _ bs3] exI [of _ l] exI [of _ r] conjI c h3(2) lr f) blast
qed

text \<open>The first-fit search: the block it takes is the first one with enough room.\<close>

definition fits :: "nat \<Rightarrow> nat \<Rightarrow> nat \<times> nat \<Rightarrow> bool" where
  "fits sz align b \<longleftrightarrow> up_to align (fst b) - fst b + sz \<le> snd b"

definition taken :: "heap \<Rightarrow> (nat \<times> nat) list \<Rightarrow> nat \<Rightarrow> nat \<Rightarrow> heap \<Rightarrow> bool" where
  "taken h bs sz addr h' \<longleftrightarrow> (\<exists>m p bs' l r. h' = h\<lparr>hmem := m, head := p\<rparr> \<and> list_ok h' bs' \<and> l < 16 \<and> r < 16 \<and>
     l \<le> addr \<and> {addr - l..<addr + sz + r} \<subseteq> free_bytes bs \<and>
     free_bytes bs' = free_bytes bs - {addr - l..<addr + sz + r} \<and>
     (\<forall>a. a \<notin> free_bytes bs \<longrightarrow> m a = hmem h a))"

lemma heap_find_from_ok:
  assumes "list_ok h (xs @ ys)" "\<forall>b\<in>set ys. fst b + align < 2 ^ 64" "align = 2 ^ n" "3 \<le> n" "sz mod 8 = 0"
    and "bseg (hmem h) cur ys 0"
  shows "case find (fits sz align) ys of
      None \<Rightarrow> heap_find_from h sz align (last_ptr 0 xs) cur = Some (None, h)
    | Some b \<Rightarrow> \<exists>h'. heap_find_from h sz align (last_ptr 0 xs) cur = Some (Some (up_to align (fst b)), h') \<and>
        taken h (xs @ ys) sz (up_to align (fst b)) h'"
  using assms(1,2,6)
proof (induction ys arbitrary: xs cur)
  case Nil
  then show ?case by (subst heap_find_from.simps) simp
next
  case (Cons b ys)
  have cur: "cur = fst b" "fst b \<noteq> 0" "hmem h (fst b) = snd b" "bseg (hmem h) (hmem h (fst b + 8)) ys 0"
    using Cons.prems by auto
  have up: "usize_align_up cur align = Some (up_to align (fst b))"
    using usize_align_up_pow2 [OF assms(3)] Cons.prems(2) cur(1) by simp
  have "(8::nat) = 2 ^ 3" by simp
  then have "8 dvd align" using assms(3,4) le_imp_power_dvd by metis
  moreover have a0: "0 < align" by (simp add: assms(3))
  ultimately have up8: "up_to align (fst b) mod 8 = 0"
    using up_to_bounds(3) [OF a0] by (metis dvd_imp_mod_0 dvd_trans)
  show ?case
  proof (cases "fits sz align b")
    case True
    from heap_carve_ok [OF Cons.prems(1) up_to_bounds(1) [OF a0] up8 assms(5)] True
    obtain m p bs' l r where c: "heap_carve h sz (up_to align (fst b)) (last_ptr 0 xs) (fst b) = Some (h\<lparr>hmem := m, head := p\<rparr>)"
      "list_ok (h\<lparr>hmem := m, head := p\<rparr>) bs'" "l < 16" "r < 16" "fst b + l \<le> up_to align (fst b)"
      "{up_to align (fst b) - l..<up_to align (fst b) + sz + r} \<subseteq> {fst b..<fst b + snd b}"
      "free_bytes bs' = free_bytes (xs @ b # ys) - {up_to align (fst b) - l..<up_to align (fst b) + sz + r}"
      "\<forall>a. a \<notin> free_bytes (xs @ b # ys) \<longrightarrow> m a = hmem h a"
      by (auto simp: fits_def)
    have "l \<le> up_to align (fst b)" using c(5) by linarith
    moreover have "{up_to align (fst b) - l..<up_to align (fst b) + sz + r} \<subseteq> free_bytes (xs @ b # ys)"
      using c(6) by (auto simp only: free_bytes_simps)
    ultimately have "taken h (xs @ b # ys) sz (up_to align (fst b)) (h\<lparr>hmem := m, head := p\<rparr>)"
      unfolding taken_def
      by (intro exI [of _ m] exI [of _ p] exI [of _ bs'] exI [of _ l] exI [of _ r] conjI refl c(2,3,4,7,8))
    moreover have "heap_find_from h sz align (last_ptr 0 xs) cur =
        Some (Some (up_to align (fst b)), h\<lparr>hmem := m, head := p\<rparr>)" using True c(1) cur(2,3)
      by (subst heap_find_from.simps) (simp add: up [unfolded cur(1)] cur(1) block_size_def fits_def)
    ultimately show ?thesis using True by auto
  next
    case False
    have "heap_find_from h sz align (last_ptr 0 xs) cur = heap_find_from h sz align cur (block_next h cur)"
      using False cur(2,3)
      by (subst heap_find_from.simps) (simp add: up [unfolded cur(1)] cur(1) block_size_def fits_def)
    moreover have "last_ptr 0 (xs @ [b]) = cur" by (simp add: last_ptr_def cur(1))
    ultimately show ?thesis using False Cons.IH [of "xs @ [b]" "block_next h cur"] Cons.prems(1,2) cur(4)
      by (auto simp: block_next_def cur(1) split: option.splits)
  qed
qed

lemma heap_find_and_remove_ok:
  assumes "list_ok h bs" "\<forall>b\<in>set bs. fst b + align < 2 ^ 64" "align = 2 ^ n" "3 \<le> n" "sz mod 8 = 0"
  shows "case find (fits sz align) bs of
      None \<Rightarrow> heap_find_and_remove h sz align = Some (None, h)
    | Some b \<Rightarrow> \<exists>h'. heap_find_and_remove h sz align = Some (Some (up_to align (fst b)), h') \<and>
        taken h bs sz (up_to align (fst b)) h'"
proof -
  have "list_ok h ([] @ bs)" "bseg (hmem h) (head h) bs 0" "last_ptr 0 [] = 0"
    using assms(1) by (simp_all add: list_ok_def last_ptr_def)
  then show ?thesis using heap_find_from_ok [OF _ assms(2-5), of h "[]" "head h"]
    unfolding heap_find_and_remove_def by (simp only: append_Nil)
qed

section \<open>Lemmas: growing\<close>

lemma the_heap_map_page: "map_page s virt phys flags = Some s' \<Longrightarrow> the_heap s' = the_heap s"
  by (auto simp: map_page_def mem_only_def split: option.splits dest!: mem_only_map4k)

lemma the_heap_alloc_frame: "alloc_frame s = (r, s') \<Longrightarrow> the_heap s' = the_heap s"
  by (auto simp: alloc_frame_def Let_def split: option.splits prod.splits)

lemma heap_map_pages_ok:
  assumes "heap_map_pages s start grow_by mapped = Some (n, s')" "mapped mod 4096 = 0" "grow_by mod 4096 = 0" "mapped \<le> grow_by"
  shows "the_heap s' = the_heap s" "n mod 4096 = 0" "n \<le> grow_by"
proof -
  have "the_heap s' = the_heap s \<and> n mod 4096 = 0 \<and> n \<le> grow_by"
    using assms
  proof (induction s start grow_by mapped rule: heap_map_pages.induct)
    case (1 s start grow_by mapped)
    show ?case
    proof (cases "mapped < grow_by")
      case True
      have "grow_by - mapped \<ge> 4096"
        using True "1.prems"(2,3) by (metis dvd_diff_nat dvd_imp_le mod_eq_0_iff_dvd zero_less_diff)
      then have "mapped + 4096 \<le> grow_by" using True by linarith
      moreover have "map_page s1 v p f = Some s2 \<Longrightarrow> alloc_frame s = (r, s1) \<Longrightarrow> the_heap s2 = the_heap s" for s1 s2 p v f r
        using the_heap_map_page [of s1] the_heap_alloc_frame [of s] by metis
      ultimately show ?thesis using True "1.prems" "1.IH"
        by (subst (asm) heap_map_pages.simps)
          (auto split: prod.splits option.splits dest: the_heap_alloc_frame)
    next
      case False
      then show ?thesis using "1.prems" by (subst (asm) heap_map_pages.simps) auto
    qed
  qed
  then show "the_heap s' = the_heap s" "n mod 4096 = 0" "n \<le> grow_by" by auto
qed

text \<open>The well-formed heap: the list, inside the mapped part of the reserved range.\<close>

definition heap_ok :: "heap \<Rightarrow> (nat \<times> nat) list \<Rightarrow> bool" where
  "heap_ok h bs \<longleftrightarrow> list_ok h bs \<and> (mapped_end h = 0 \<or> HEAP_START \<le> mapped_end h) \<and>
     mapped_end h \<le> HEAP_START + HEAP_MAX_SIZE \<and> mapped_end h mod 4096 = 0 \<and>
     free_bytes bs \<subseteq> {HEAP_START..<mapped_end h} \<and> heap_total h = mapped_end h - HEAP_START"

lemmas heap_consts = HEAP_START_def HEAP_MAX_SIZE_def HEAP_GROW_STEP_def

lemma usize_align_down_page: "v < 2 ^ 64 \<Longrightarrow> usize_align_down v 4096 = v div 4096 * 4096"
  using unat_align_down_page [of "of_nat v"] by (simp add: usize_align_down_def unat_of_nat_u64)

lemma usize_align_up_Some: "usize_align_up a (2 ^ n) = Some v \<Longrightarrow> v = up_to (2 ^ n) a"
  using usize_align_up_pow2 [of "2 ^ n" n a] by (auto simp: usize_align_up_def split: if_splits)

lemma heap_grow_by_ok:
  assumes "heap_grow_by min_extra rem = Some g" "rem mod 4096 = 0" "rem < 2 ^ 64"
  shows "g \<le> rem" "g mod 4096 = 0"
proof -
  obtain e g1 where g: "usize_align_up e (2 ^ 12) = Some g1" "g = min g1 (usize_align_down rem 4096)"
    using assms(1) by (auto simp: heap_grow_by_def split: bind_splits)
  have r: "usize_align_down rem 4096 = rem" using usize_align_down_page [OF assms(3)] assms(2) by auto
  have "g1 mod 4096 = 0" using usize_align_up_Some [OF g(1)] by (simp add: up_to_def)
  then show "g \<le> rem" "g mod 4096 = 0" using g(2) r assms(2) by (auto simp: min_def)
qed

text \<open>What an operation that may grow the heap leaves behind: \<open>G\<close> is the memory it had at its disposal.\<close>

definition grown :: "heap \<Rightarrow> (nat \<times> nat) list \<Rightarrow> heap \<Rightarrow> nat set" where
  "grown h bs h' = free_bytes bs \<union> {max HEAP_START (mapped_end h)..<mapped_end h'}"

lemma heap_grow_ok:
  assumes "heap_ok (the_heap s) bs" "heap_grow s min_extra = Some (ok, s')"
  shows "\<exists>bs'. heap_ok (the_heap s') bs' \<and> mapped_end (the_heap s) \<le> mapped_end (the_heap s') \<and>
    free_bytes bs' = grown (the_heap s) bs (the_heap s') \<and> allocated (the_heap s') = allocated (the_heap s) \<and>
    (\<forall>a. a \<notin> free_bytes bs' \<longrightarrow> hmem (the_heap s') a = hmem (the_heap s) a)"
proof -
  define h where "h = (if mapped_end (the_heap s) = 0 then (the_heap s)\<lparr>mapped_end := HEAP_START\<rparr> else the_heap s)"
  have h: "heap_ok h bs" "HEAP_START \<le> mapped_end h" "hmem h = hmem (the_heap s)" "allocated h = allocated (the_heap s)"
    "max HEAP_START (mapped_end (the_heap s)) = mapped_end h" "mapped_end (the_heap s) \<le> mapped_end h"
    using assms(1) by (auto simp: h_def heap_ok_def list_ok_def heap_consts)
  have stay: ?thesis if "the_heap s' = h"
    using h that by (intro exI [of _ bs]) (auto simp: grown_def)
  define rem where "rem = HEAP_START + HEAP_MAX_SIZE - mapped_end h"
  have rem: "rem mod 4096 = 0" "rem < 2 ^ 64" "mapped_end h + rem = HEAP_START + HEAP_MAX_SIZE"
  proof -
    have "(4096::nat) dvd HEAP_START + HEAP_MAX_SIZE" by (simp add: heap_consts)
    then show "rem mod 4096 = 0" using h(1) unfolding rem_def heap_ok_def by (auto intro!: dvd_imp_mod_0 dvd_diff_nat)
  qed (use h(1,2) in \<open>auto simp: rem_def heap_ok_def heap_consts\<close>)
  consider "the_heap s' = h" | g n s2 h3 where "heap_grow_by min_extra rem = Some g"
      "heap_map_pages (s\<lparr>the_heap := h\<rparr>) (mapped_end h) g 0 = Some (n, s2)" "n \<noteq> 0"
      "heap_insert (h\<lparr>mapped_end := mapped_end h + n, heap_total := heap_total h + n\<rparr>) (mapped_end h) n = Some h3"
      "the_heap s' = h3"
    using assms(2) heap_grow_by_ok [OF _ rem(1,2)] heap_map_pages_ok(1)
    unfolding heap_grow_def h_def [symmetric] rem_def [symmetric] Let_def
    by (fastforce split: bind_splits if_splits)
  then show ?thesis
  proof cases
    case 1
    then show ?thesis by (rule stay)
  next
    case 2
    have n: "n \<le> rem" "n mod 4096 = 0"
      using heap_map_pages_ok(2,3) [OF 2(2)] heap_grow_by_ok [OF 2(1) rem(1,2)] by auto
    let ?h2 = "h\<lparr>mapped_end := mapped_end h + n, heap_total := heap_total h + n\<rparr>"
    have "list_ok ?h2 bs" using h(1) by (auto simp: heap_ok_def list_ok_def)
    moreover have n16: "16 \<le> n" "n mod 8 = 0" "mapped_end h mod 8 = 0"
    proof -
      have "(8::nat) dvd 4096" "4096 dvd n" "4096 dvd mapped_end h" using n h(1) by (auto simp: heap_ok_def)
      then show "n mod 8 = 0" "mapped_end h mod 8 = 0" by (meson dvd_imp_mod_0 dvd_trans)+
      show "16 \<le> n" using dvd_imp_le [OF \<open>4096 dvd n\<close>] 2(3) by simp
    qed
    then have "block_ok (mapped_end h, n)" using h(2) by (auto simp: block_ok_def heap_consts)
    moreover have fr: "free_bytes bs \<subseteq> {HEAP_START..<mapped_end h}" using h(1) by (simp add: heap_ok_def)
    then have "{mapped_end h..<mapped_end h + n} \<inter> free_bytes bs = {}" by auto
    ultimately obtain m p bs' where i: "heap_insert ?h2 (mapped_end h) n = Some (?h2\<lparr>hmem := m, head := p\<rparr>)"
      "list_ok (?h2\<lparr>hmem := m, head := p\<rparr>) bs'" "free_bytes bs' = free_bytes bs \<union> {mapped_end h..<mapped_end h + n}"
      "\<forall>a. a \<notin> free_bytes bs' \<longrightarrow> m a = hmem ?h2 a"
      using heap_insert_ok by blast
    have "heap_ok (?h2\<lparr>hmem := m, head := p\<rparr>) bs'"
      using h(1,2) i(2,3) n rem(3) fr by (auto simp: heap_ok_def mod_add_eq [symmetric])
    then show ?thesis using h i 2(4,5) by (intro exI [of _ bs']) (auto simp: grown_def)
  qed
qed

section \<open>Lemmas: allocating and releasing\<close>

text \<open>The layouts \<open>core::alloc::Layout\<close> can hold, with alignments up to 1 GiB: above that, rounding an
  address of the heap up overflows.\<close>

definition valid_layout :: "layout \<Rightarrow> bool" where
  "valid_layout l \<longleftrightarrow> layout_size l < 2 ^ 63 \<and> (\<exists>n\<le>30. layout_align l = 2 ^ n)"

definition layout_len :: "layout \<Rightarrow> nat" where
  "layout_len l = up_to 8 (max (layout_size l) 16)"

lemma layout_len_bounds: "16 \<le> layout_len l" "layout_size l \<le> layout_len l" "layout_len l mod 8 = 0"
proof -
  have "max (layout_size l) 16 \<le> layout_len l" unfolding layout_len_def by (intro up_to_bounds(1)) simp
  then show "16 \<le> layout_len l" "layout_size l \<le> layout_len l" by auto
  show "layout_len l mod 8 = 0" by (simp add: layout_len_def up_to_def)
qed

lemma valid_layoutE:
  assumes "valid_layout l"
  obtains n where "max (layout_align l) 8 = 2 ^ n" "3 \<le> n" "n \<le> 30"
    "adjust l = Some (layout_len l, 2 ^ n)" "layout_align l dvd 2 ^ n"
proof -
  obtain k where k: "k \<le> 30" "layout_align l = 2 ^ k" and sz: "layout_size l < 2 ^ 63"
    using assms by (auto simp: valid_layout_def)
  have m: "max (layout_align l) 8 = 2 ^ max k 3"
    using power_increasing_iff [of "2::nat" 3 k] power_increasing_iff [of "2::nat" k 3] k(2) by (auto simp: max_def)
  have "usize_align_up (max (layout_size l) 16) 8 = Some (layout_len l)"
    using usize_align_up_pow2 [of 8 3 "max (layout_size l) 16"] sz by (simp add: layout_len_def)
  then show ?thesis using that [of "max k 3"] m k by (auto simp: adjust_def le_imp_power_dvd)
qed

lemma heap_ok_block: "heap_ok h bs \<Longrightarrow> b \<in> set bs \<Longrightarrow> block_ok b"
  unfolding heap_ok_def list_ok_def by (blast intro: blocks_okD)

lemma heap_block_small:
  assumes "heap_ok h bs" "b \<in> set bs" "n \<le> 30"
  shows "fst b + 2 ^ n < 2 ^ 64"
proof -
  have "16 \<le> snd b" using heap_ok_block [OF assms(1,2)] by (rule block_okD)
  then have "fst b \<in> free_bytes bs" using assms(2) by (force simp: free_bytes_def)
  then have "fst b < HEAP_START + HEAP_MAX_SIZE" using assms(1) by (fastforce simp: heap_ok_def)
  moreover have "(2::nat) ^ n \<le> 2 ^ 30" using assms(3) by (intro power_increasing) simp_all
  ultimately show ?thesis by (simp add: heap_consts)
qed

lemma heap_find_ok:
  assumes "heap_ok h bs" "valid_layout l" "adjust l = Some (sz, align)"
  shows "case find (fits sz align) bs of
      None \<Rightarrow> heap_find_and_remove h sz align = Some (None, h)
    | Some b \<Rightarrow> \<exists>h'. heap_find_and_remove h sz align = Some (Some (up_to align (fst b)), h') \<and>
        taken h bs sz (up_to align (fst b)) h' \<and> align dvd up_to align (fst b)"
proof -
  obtain n where n: "3 \<le> n" "n \<le> 30" "sz = layout_len l" "align = 2 ^ n"
    using valid_layoutE [OF assms(2)] assms(3) by (metis option.inject prod.inject)
  have "list_ok h bs" using assms(1) by (simp add: heap_ok_def)
  moreover have "\<forall>b\<in>set bs. fst b + align < 2 ^ 64" using heap_block_small [OF assms(1) _ n(2)] n(4) by simp
  moreover have "sz mod 8 = 0" by (simp add: n(3) layout_len_bounds)
  moreover have "align dvd up_to align a" for a by (simp add: up_to_def)
  ultimately show ?thesis using heap_find_and_remove_ok [OF _ _ n(4,1), of h bs sz] by (auto split: option.splits)
qed

lemma heap_ok_taken:
  assumes "heap_ok h bs" "taken h bs sz addr h'"
  shows "\<exists>bs'. heap_ok (h'\<lparr>allocated := k\<rparr>) bs' \<and> mapped_end h' = mapped_end h \<and> allocated h' = allocated h \<and>
    free_bytes bs' \<subseteq> free_bytes bs \<and> {addr..<addr + sz} \<subseteq> free_bytes bs \<and>
    {addr..<addr + sz} \<inter> free_bytes bs' = {} \<and> (\<forall>a. a \<notin> free_bytes bs \<longrightarrow> hmem h' a = hmem h a)"
proof -
  obtain m p bs' l r where t: "h' = h\<lparr>hmem := m, head := p\<rparr>" "list_ok h' bs'" "l \<le> addr"
    "{addr - l..<addr + sz + r} \<subseteq> free_bytes bs" "free_bytes bs' = free_bytes bs - {addr - l..<addr + sz + r}"
    "\<forall>a. a \<notin> free_bytes bs \<longrightarrow> m a = hmem h a"
    using assms(2) unfolding taken_def by blast
  have "{addr..<addr + sz} \<subseteq> {addr - l..<addr + sz + r}" by auto
  then have "{addr..<addr + sz} \<subseteq> free_bytes bs" "{addr..<addr + sz} \<inter> free_bytes bs' = {}" using t(4,5) by blast+
  moreover have "heap_ok (h'\<lparr>allocated := k\<rparr>) bs'"
    using assms(1) t(1,2,5) by (auto simp: heap_ok_def list_ok_def)
  ultimately show ?thesis using t(1,5,6) by (intro exI [of _ bs']) auto
qed

text \<open>A successful search, as \<open>alloc\<close> uses it.\<close>

lemma heap_found_ok:
  assumes "heap_ok h bs" "valid_layout l" "adjust l = Some (sz, align)" "find (fits sz align) bs = Some b"
  defines "addr \<equiv> up_to align (fst b)"
  shows "\<exists>h' bs'. heap_find_and_remove h sz align = Some (Some addr, h') \<and> addr \<noteq> 0 \<and>
    layout_align l dvd addr \<and> 8 dvd addr \<and> heap_ok (h'\<lparr>allocated := allocated h' + sz\<rparr>) bs' \<and>
    mapped_end h' = mapped_end h \<and> allocated h' = allocated h \<and> free_bytes bs' \<subseteq> free_bytes bs \<and>
    {addr..<addr + sz} \<subseteq> free_bytes bs - free_bytes bs' \<and> (\<forall>a. a \<notin> free_bytes bs \<longrightarrow> hmem h' a = hmem h a)"
proof -
  obtain n where n: "3 \<le> n" "align = 2 ^ n" "layout_align l dvd 2 ^ n"
    using valid_layoutE [OF assms(2)] assms(3) by (metis option.inject prod.inject)
  obtain h' where h: "heap_find_and_remove h sz align = Some (Some addr, h')" "taken h bs sz addr h'" "align dvd addr"
    using heap_find_ok [OF assms(1-3)] assms(4) by (auto simp: addr_def)
  have "(2::nat) ^ 3 dvd 2 ^ n" using n(1) by (rule le_imp_power_dvd)
  then have "layout_align l dvd addr" "8 dvd addr" using n(2,3) h(3) by (auto intro: dvd_trans)
  moreover have "b \<in> set bs" using assms(4) by (auto simp: find_Some_iff)
  then have "0 < fst b" using heap_ok_block [OF assms(1)] by (blast intro: block_okD)
  then have "addr \<noteq> 0" using up_to_bounds(1) [of align "fst b"] n(2) by (simp add: addr_def)
  ultimately show ?thesis using h(1) heap_ok_taken [OF assms(1) h(2), of "allocated h' + sz"] by blast
qed

lemma heap_alloc_ok:
  assumes "heap_ok (the_heap s) bs" "valid_layout l" "heap_alloc s l = Some (addr, s')"
  defines "G \<equiv> grown (the_heap s) bs (the_heap s')"
  shows "\<exists>bs'. heap_ok (the_heap s') bs' \<and> mapped_end (the_heap s) \<le> mapped_end (the_heap s') \<and>
    free_bytes bs' \<subseteq> G \<and> (\<forall>a. a \<notin> G \<longrightarrow> hmem (the_heap s') a = hmem (the_heap s) a) \<and>
    (if addr = 0 then allocated (the_heap s') = allocated (the_heap s)
     else {addr..<addr + layout_len l} \<subseteq> G - free_bytes bs' \<and> layout_align l dvd addr \<and> 8 dvd addr \<and>
       allocated (the_heap s') = allocated (the_heap s) + layout_len l)"
proof -
  obtain n where adj: "adjust l = Some (layout_len l, 2 ^ n)" using valid_layoutE [OF assms(2)] by metis
  note found = heap_found_ok [OF _ assms(2) adj] and find = heap_find_ok [OF _ assms(2) adj]
  show ?thesis
  proof (cases "find (fits (layout_len l) (2 ^ n)) bs")
    case (Some b)
    from found [OF assms(1) Some] obtain h' bs' where h: "heap_ok (h'\<lparr>allocated := allocated h' + layout_len l\<rparr>) bs'"
      "heap_find_and_remove (the_heap s) (layout_len l) (2 ^ n) = Some (Some (up_to (2 ^ n) (fst b)), h')"
      and t: "mapped_end h' = mapped_end (the_heap s)" "allocated h' = allocated (the_heap s)"
        "free_bytes bs' \<subseteq> free_bytes bs" "\<forall>a. a \<notin> free_bytes bs \<longrightarrow> hmem h' a = hmem (the_heap s) a"
        "up_to (2 ^ n) (fst b) \<noteq> 0" "layout_align l dvd up_to (2 ^ n) (fst b)" "8 dvd up_to (2 ^ n) (fst b)"
        "{up_to (2 ^ n) (fst b)..<up_to (2 ^ n) (fst b) + layout_len l} \<subseteq> free_bytes bs - free_bytes bs'" by blast
    have s': "addr = up_to (2 ^ n) (fst b)" "the_heap s' = h'\<lparr>allocated := allocated h' + layout_len l\<rparr>"
      using assms(3) adj h(2) by (auto simp: heap_alloc_def)
    have G: "G = free_bytes bs \<union> {max HEAP_START (mapped_end (the_heap s))..<mapped_end (the_heap s)}"
      using t(1) s'(2) by (simp add: G_def grown_def)
    then show ?thesis using h(1) t s' by (intro exI [of _ bs']) auto
  next
    case None
    then have f0: "heap_find_and_remove (the_heap s) (layout_len l) (2 ^ n) = Some (None, the_heap s)"
      using find [OF assms(1)] by simp
    obtain ok s1 where g: "heap_grow s (layout_len l + 2 ^ n) = Some (ok, s1)"
      using assms(3) adj f0 by (auto simp: heap_alloc_def split: bind_splits)
    obtain bs1 where b1: "heap_ok (the_heap s1) bs1" "mapped_end (the_heap s) \<le> mapped_end (the_heap s1)"
      "free_bytes bs1 = grown (the_heap s) bs (the_heap s1)" "allocated (the_heap s1) = allocated (the_heap s)"
      "\<forall>a. a \<notin> free_bytes bs1 \<longrightarrow> hmem (the_heap s1) a = hmem (the_heap s) a"
      using heap_grow_ok [OF assms(1) g] by blast
    show ?thesis
    proof (cases "ok \<and> find (fits (layout_len l) (2 ^ n)) bs1 \<noteq> None")
      case False
      then have "the_heap s' = the_heap s1 \<and> addr = 0"
        using assms(3) adj f0 find [OF b1(1)] g
        by (cases "find (fits (layout_len l) (2 ^ n)) bs1") (auto simp: heap_alloc_def split: if_splits)
      then show ?thesis using b1 by (intro exI [of _ bs1]) (auto simp: G_def)
    next
      case True
      then obtain b where b: "ok" "find (fits (layout_len l) (2 ^ n)) bs1 = Some b" by auto
      from found [OF b1(1) b(2)] obtain h' bs' where h: "heap_ok (h'\<lparr>allocated := allocated h' + layout_len l\<rparr>) bs'"
        "heap_find_and_remove (the_heap s1) (layout_len l) (2 ^ n) = Some (Some (up_to (2 ^ n) (fst b)), h')"
        and t: "mapped_end h' = mapped_end (the_heap s1)" "allocated h' = allocated (the_heap s1)"
          "free_bytes bs' \<subseteq> free_bytes bs1" "\<forall>a. a \<notin> free_bytes bs1 \<longrightarrow> hmem h' a = hmem (the_heap s1) a"
          "up_to (2 ^ n) (fst b) \<noteq> 0" "layout_align l dvd up_to (2 ^ n) (fst b)" "8 dvd up_to (2 ^ n) (fst b)"
          "{up_to (2 ^ n) (fst b)..<up_to (2 ^ n) (fst b) + layout_len l} \<subseteq> free_bytes bs1 - free_bytes bs'" by blast
      have s': "addr = up_to (2 ^ n) (fst b)" "the_heap s' = h'\<lparr>allocated := allocated h' + layout_len l\<rparr>"
        using assms(3) adj f0 g h(2) b(1) by (auto simp: heap_alloc_def)
      have "free_bytes bs1 = G" using b1(3) t(1) s'(2) by (simp add: G_def grown_def)
      then show ?thesis using h(1) t b1(2,4,5) s' by (intro exI [of _ bs']) auto
    qed
  qed
qed

lemma heap_dealloc_ok:
  assumes "heap_ok (the_heap s) bs" "valid_layout l" "8 dvd addr" "{addr..<addr + layout_len l} \<inter> free_bytes bs = {}"
    and "{addr..<addr + layout_len l} \<subseteq> {HEAP_START..<mapped_end (the_heap s)}"
  shows "\<exists>s' bs'. heap_dealloc s addr l = Some s' \<and> heap_ok (the_heap s') bs' \<and>
    mapped_end (the_heap s') = mapped_end (the_heap s) \<and>
    free_bytes bs' = free_bytes bs \<union> {addr..<addr + layout_len l} \<and>
    allocated (the_heap s') = allocated (the_heap s) - layout_len l \<and>
    (\<forall>a. a \<notin> free_bytes bs' \<longrightarrow> hmem (the_heap s') a = hmem (the_heap s) a)"
proof -
  obtain n where adj: "adjust l = Some (layout_len l, 2 ^ n)" using valid_layoutE [OF assms(2)] by metis
  let ?h = "(the_heap s)\<lparr>allocated := allocated (the_heap s) - layout_len l\<rparr>"
  have "addr \<in> {HEAP_START..<mapped_end (the_heap s)}" using assms(5) layout_len_bounds(1) [of l] by auto
  then have "block_ok (addr, layout_len l)"
    using assms(3) layout_len_bounds [of l] by (auto simp: block_ok_def heap_consts)
  moreover have "list_ok ?h bs" using assms(1) by (auto simp: heap_ok_def list_ok_def)
  ultimately obtain m p bs' where i: "heap_insert ?h addr (layout_len l) = Some (?h\<lparr>hmem := m, head := p\<rparr>)"
    "list_ok (?h\<lparr>hmem := m, head := p\<rparr>) bs'" "free_bytes bs' = free_bytes bs \<union> {addr..<addr + layout_len l}"
    "\<forall>a. a \<notin> free_bytes bs' \<longrightarrow> m a = hmem ?h a"
    using heap_insert_ok [OF _ _ assms(4)] by blast
  have "heap_ok (?h\<lparr>hmem := m, head := p\<rparr>) bs'"
    using assms(1,5) i(2,3) by (auto simp: heap_ok_def)
  then show ?thesis using i adj by (auto simp: heap_dealloc_def)
qed

section \<open>The heap and its clients\<close>

text \<open>
  The heap as its clients drive it. A state is the kernel and the live allocations, by address.
  A client allocates, releases what it holds with the layout it asked for, or writes inside an
  allocation it holds; \<open>elsewhere\<close> is any kernel step that leaves the allocator alone.
\<close>

inductive heap_step :: "'a hkernel_scheme \<times> (nat \<Rightarrow> layout option) \<Rightarrow> 'a hkernel_scheme \<times> (nat \<Rightarrow> layout option) \<Rightarrow> bool" where
  allocate: "heap_step (s, live) (s', live(addr \<mapsto> l))"
    if "valid_layout l" "heap_alloc s l = Some (addr, s')" "addr \<noteq> 0"
| out_of_memory: "heap_step (s, live) (s', live)"
    if "valid_layout l" "heap_alloc s l = Some (0, s')"
| release: "heap_step (s, live) (s', live(addr := None))"
    if "live addr = Some l" "heap_dealloc s addr l = Some s'"
| use: "heap_step (s, live) (s\<lparr>the_heap := (the_heap s)\<lparr>hmem := (hmem (the_heap s))(a := v)\<rparr>\<rparr>, live)"
    if "live addr = Some l" "a \<in> {addr..<addr + layout_len l}"
| elsewhere: "heap_step (s, live) (s', live)"
    if "the_heap s' = the_heap s"

inductive heap_reachable :: "'a hkernel_scheme \<times> (nat \<Rightarrow> layout option) \<Rightarrow> bool" where
  boot: "the_heap s = heap_new \<Longrightarrow> heap_reachable (s, Map.empty)"
| step: "heap_reachable x \<Longrightarrow> heap_step x y \<Longrightarrow> heap_reachable y"

definition held :: "nat \<Rightarrow> layout \<Rightarrow> nat set" where
  "held addr l = {addr..<addr + layout_len l}"

definition clients_ok :: "heap \<Rightarrow> (nat \<times> nat) list \<Rightarrow> (nat \<Rightarrow> layout option) \<Rightarrow> bool" where
  "clients_ok h bs live \<longleftrightarrow> heap_ok h bs \<and> finite (dom live) \<and>
     (\<forall>p l. live p = Some l \<longrightarrow> valid_layout l \<and> layout_align l dvd p \<and> 8 dvd p \<and>
        held p l \<subseteq> {HEAP_START..<mapped_end h} \<and> held p l \<inter> free_bytes bs = {}) \<and>
     (\<forall>p q l k. live p = Some l \<longrightarrow> live q = Some k \<longrightarrow> p \<noteq> q \<longrightarrow> held p l \<inter> held q k = {}) \<and>
     allocated h = (\<Sum>p\<in>dom live. layout_len (the (live p)))"

lemma clients_allocate:
  assumes "clients_ok (the_heap s) bs live" "valid_layout l" "heap_alloc s l = Some (addr, s')" "addr \<noteq> 0"
  shows "\<exists>bs'. clients_ok (the_heap s') bs' (live(addr \<mapsto> l))"
proof -
  have ok: "heap_ok (the_heap s) bs" using assms(1) by (simp add: clients_ok_def)
  let ?G = "grown (the_heap s) bs (the_heap s')"
  obtain bs' where b: "heap_ok (the_heap s') bs'" "mapped_end (the_heap s) \<le> mapped_end (the_heap s')"
    "free_bytes bs' \<subseteq> ?G" "held addr l \<subseteq> ?G - free_bytes bs'" "layout_align l dvd addr" "8 dvd addr"
    "allocated (the_heap s') = allocated (the_heap s) + layout_len l"
    using heap_alloc_ok [OF ok assms(2,3)] assms(4) by (auto simp: held_def)
  have live: "held p k \<subseteq> {HEAP_START..<mapped_end (the_heap s)}" "held p k \<inter> ?G = {}" if "live p = Some k" for p k
  proof -
    show h: "held p k \<subseteq> {HEAP_START..<mapped_end (the_heap s)}" using assms(1) that by (auto simp: clients_ok_def)
    moreover have "held p k \<inter> free_bytes bs = {}" using assms(1) that by (auto simp: clients_ok_def)
    ultimately show "held p k \<inter> ?G = {}" by (auto simp: grown_def)
  qed
  have G: "?G \<subseteq> {HEAP_START..<mapped_end (the_heap s')}" using ok b(2) by (auto simp: grown_def heap_ok_def)
  have "addr \<in> held addr l" using layout_len_bounds(1) [of l] by (simp add: held_def)
  then have new: "live addr = None"
  proof (cases "live addr")
    case (Some k)
    have "addr \<in> held addr k" using layout_len_bounds(1) [of k] by (simp add: held_def)
    then show ?thesis using live(2) [OF Some] b(4) \<open>addr \<in> held addr l\<close> by blast
  qed simp
  have old: "held p k \<subseteq> {HEAP_START..<mapped_end (the_heap s')}" "held p k \<inter> free_bytes bs' = {}"
    "held p k \<inter> held addr l = {}" if "live p = Some k" for p k
    using live [OF that] b(2,3,4) by (auto 0 3)
  have "(\<Sum>p\<in>dom (live(addr \<mapsto> l)). layout_len (the ((live(addr \<mapsto> l)) p))) =
      (\<Sum>p\<in>dom live. layout_len (the (live p))) + layout_len l"
  proof -
    have d: "addr \<notin> dom live" "finite (dom live)" using new assms(1) by (auto simp: clients_ok_def)
    then have "(\<Sum>p\<in>dom live. layout_len (the ((live(addr \<mapsto> l)) p))) = (\<Sum>p\<in>dom live. layout_len (the (live p)))"
      by (intro sum.cong) auto
    then show ?thesis using d by simp
  qed
  moreover have "held addr l \<subseteq> {HEAP_START..<mapped_end (the_heap s')}" "held addr l \<inter> free_bytes bs' = {}"
    using b(4) G by blast+
  ultimately have "clients_ok (the_heap s') bs' (live(addr \<mapsto> l))"
    using assms(1,2) b(1,5,6,7) old unfolding clients_ok_def
    by (auto simp: Int_commute [of "held addr l"] split: if_splits)
  then show ?thesis by blast
qed

lemma clients_release:
  assumes "clients_ok (the_heap s) bs live" "live addr = Some l"
  shows "\<exists>s' bs'. heap_dealloc s addr l = Some s' \<and> clients_ok (the_heap s') bs' (live(addr := None)) \<and>
    allocated (the_heap s') = allocated (the_heap s) - layout_len l \<and>
    (\<forall>p k. live p = Some k \<longrightarrow> p \<noteq> addr \<longrightarrow> (\<forall>a\<in>held p k. hmem (the_heap s') a = hmem (the_heap s) a))"
proof -
  have ok: "heap_ok (the_heap s) bs" and l: "valid_layout l" "8 dvd addr" "held addr l \<inter> free_bytes bs = {}"
    "held addr l \<subseteq> {HEAP_START..<mapped_end (the_heap s)}" and fin: "finite (dom live)"
    and al: "allocated (the_heap s) = (\<Sum>p\<in>dom live. layout_len (the (live p)))"
    using assms by (auto simp: clients_ok_def)
  obtain s' bs' where d: "heap_dealloc s addr l = Some s'" "heap_ok (the_heap s') bs'"
    "mapped_end (the_heap s') = mapped_end (the_heap s)" "free_bytes bs' = free_bytes bs \<union> held addr l"
    "allocated (the_heap s') = allocated (the_heap s) - layout_len l"
    "\<forall>a. a \<notin> free_bytes bs' \<longrightarrow> hmem (the_heap s') a = hmem (the_heap s) a"
    using heap_dealloc_ok [OF ok l(1,2) l(3,4) [unfolded held_def]] unfolding held_def by blast
  have other: "held p k \<inter> free_bytes bs' = {}" if "live p = Some k" "p \<noteq> addr" for p k
    using assms that d(4) by (auto simp: clients_ok_def Int_Un_distrib)
  have "(\<Sum>p\<in>dom live. layout_len (the (live p))) =
      layout_len l + (\<Sum>p\<in>dom live - {addr}. layout_len (the (live p)))"
    using sum.remove [OF fin, of addr "\<lambda>p. layout_len (the (live p))"] assms(2) by (simp add: domI)
  moreover have "(\<Sum>p\<in>dom live - {addr}. layout_len (the ((live(addr := None)) p))) =
      (\<Sum>p\<in>dom live - {addr}. layout_len (the (live p)))" by (intro sum.cong) auto
  ultimately have "allocated (the_heap s') = (\<Sum>p\<in>dom (live(addr := None)). layout_len (the ((live(addr := None)) p)))"
    using d(5) al by simp
  moreover have "finite (dom (live(addr := None)))" using fin by simp
  moreover have "\<forall>p k. (live(addr := None)) p = Some k \<longrightarrow> valid_layout k \<and> layout_align k dvd p \<and> 8 dvd p \<and>
      held p k \<subseteq> {HEAP_START..<mapped_end (the_heap s')} \<and> held p k \<inter> free_bytes bs' = {}"
    using assms(1) other d(3) by (auto simp: clients_ok_def)
  ultimately have "clients_ok (the_heap s') bs' (live(addr := None))"
    using assms(1) d(2) unfolding clients_ok_def by (auto split: if_splits)
  then show ?thesis using d(1,5,6) other by blast
qed

lemma clients_out_of_memory:
  assumes "clients_ok (the_heap s) bs live" "valid_layout l" "heap_alloc s l = Some (0, s')"
  shows "\<exists>bs'. clients_ok (the_heap s') bs' live"
proof -
  have ok: "heap_ok (the_heap s) bs" using assms(1) by (simp add: clients_ok_def)
  obtain bs' where b: "heap_ok (the_heap s') bs'" "mapped_end (the_heap s) \<le> mapped_end (the_heap s')"
    "free_bytes bs' \<subseteq> grown (the_heap s) bs (the_heap s')" "allocated (the_heap s') = allocated (the_heap s)"
    using heap_alloc_ok [OF ok assms(2,3)] by auto
  have "held p k \<inter> free_bytes bs' = {}" "held p k \<subseteq> {HEAP_START..<mapped_end (the_heap s')}" if "live p = Some k" for p k
  proof -
    have h: "held p k \<subseteq> {HEAP_START..<mapped_end (the_heap s)}" "held p k \<inter> free_bytes bs = {}"
      using assms(1) that by (auto simp: clients_ok_def)
    then show "held p k \<inter> free_bytes bs' = {}" using b(3) unfolding grown_def by fastforce
    show "held p k \<subseteq> {HEAP_START..<mapped_end (the_heap s')}" using h(1) b(2) by fastforce
  qed
  then have "clients_ok (the_heap s') bs' live" using assms(1) b(1,4) unfolding clients_ok_def by auto
  then show ?thesis by blast
qed

lemma bseg_cong: "\<forall>b\<in>set bs. m (fst b) = m' (fst b) \<and> m (fst b + 8) = m' (fst b + 8) \<Longrightarrow> bseg m p bs q = bseg m' p bs q"
  by (induction bs arbitrary: p) auto

lemma clients_use:
  assumes "clients_ok h bs live" "live addr = Some l" "a \<in> held addr l"
  shows "clients_ok (h\<lparr>hmem := (hmem h)(a := v)\<rparr>) bs live"
proof -
  have "a \<notin> free_bytes bs" using assms by (auto simp: clients_ok_def)
  moreover have "fst b \<in> free_bytes bs \<and> fst b + 8 \<in> free_bytes bs" if "b \<in> set bs" for b
  proof -
    have "16 \<le> snd b" using assms(1) that heap_ok_block block_okD(2) unfolding clients_ok_def by blast
    then show ?thesis using that by (force simp: free_bytes_def)
  qed
  ultimately have "bseg ((hmem h)(a := v)) (head h) bs 0 = bseg (hmem h) (head h) bs 0"
    by (intro bseg_cong) (metis fun_upd_other)
  then show ?thesis using assms(1) by (simp add: clients_ok_def heap_ok_def list_ok_def)
qed

lemma clients_reachable:
  assumes "heap_reachable x"
  shows "\<exists>bs. clients_ok (the_heap (fst x)) bs (snd x)"
  using assms
proof induction
  case (boot s)
  have "clients_ok heap_new [] Map.empty"
    by (simp add: clients_ok_def heap_ok_def list_ok_def heap_new_def)
  then show ?case using boot by auto
next
  case (step x y)
  then obtain bs where bs: "clients_ok (the_heap (fst x)) bs (snd x)" by blast
  from step(2) show ?case
  proof cases
    case (allocate l s addr s' live)
    then show ?thesis using clients_allocate [of s bs live l addr s'] bs by (auto simp del: fun_upd_apply)
  next
    case (out_of_memory l s s' live)
    then show ?thesis using clients_out_of_memory [of s bs live l s'] bs by auto
  next
    case (release live addr l s s')
    then show ?thesis using clients_release [of s bs live addr l] bs by (auto simp del: fun_upd_apply)
  next
    case (use live addr l a s v)
    then show ?thesis using clients_use [of "the_heap s" bs live addr l a v] bs by (auto simp: held_def)
  next
    case (elsewhere s' s live)
    then show ?thesis using bs by auto
  qed
qed

section \<open>Properties\<close>

text \<open>A kernel with one frame left and an empty heap, and an allocation from it.\<close>

definition pmm_last_frame :: pmm where
  "pmm_last_frame = \<lparr>bitmap = [0xFFFFFFFFFFFFFFEF], bitmap_words = 1, total_frames = 16, free_frames = 1,
     usable_frames = 1, next_hint = 0, regions = [], region_count = 0\<rparr>"

definition heap_kernel :: hkernel where
  "heap_kernel = \<lparr>hhdm_offset = 0, pmm_lock = Some pmm_last_frame, mem = (\<lambda>_. 0), vmm_lock = None,
     KERNEL_CR3 = 0, cr3 = 0, the_heap = heap_new\<rparr>"

definition layout_example :: layout where
  "layout_example = \<lparr>layout_size = 40, layout_align = 16\<rparr>"

lemma layout_example_ok: "valid_layout layout_example" "layout_len layout_example = 40" "adjust layout_example = Some (40, 16)"
proof -
  show "valid_layout layout_example"
    unfolding valid_layout_def layout_example_def by (simp, rule exI [of _ 4]) simp
  show "layout_len layout_example = 40" by (simp add: layout_len_def layout_example_def up_to_def)
  show "adjust layout_example = Some (40, 16)"
    using usize_align_up_pow2 [of 8 3 40] by (simp add: adjust_def layout_example_def up_to_def)
qed

lemma heap_kernel_pages:
  "\<exists>s. heap_map_pages (heap_kernel\<lparr>the_heap := h\<rparr>) HEAP_START 65536 0 = Some (4096, s)"
  by (simp add: heap_map_pages.simps heap_kernel_def alloc_frame_def pmm_last_frame_def alloc_one_def Let_def map_page_def)

lemma heap_kernel_grow_by: "heap_grow_by 56 HEAP_MAX_SIZE = Some 65536"
  using usize_align_up_pow2 [of 4096 12 56] usize_align_up_pow2 [of 4096 12 65536] usize_align_down_page [of HEAP_MAX_SIZE]
  by (simp add: heap_grow_by_def up_to_def heap_consts)

lemma heap_kernel_grow:
  "\<exists>s m. heap_grow heap_kernel 56 = Some (True, s) \<and> the_heap s =
     \<lparr>head = HEAP_START, mapped_end = HEAP_START + 4096, allocated = 0, heap_total = 4096, hmem = m\<rparr> \<and>
     m HEAP_START = 4096 \<and> m (HEAP_START + 8) = 0"
proof -
  let ?h = "heap_new\<lparr>mapped_end := HEAP_START\<rparr>"
  obtain s where s: "heap_map_pages (heap_kernel\<lparr>the_heap := ?h\<rparr>) HEAP_START 65536 0 = Some (4096, s)"
    using heap_kernel_pages by blast
  have h: "the_heap s = ?h" using heap_map_pages_ok(1) [OF s] by simp
  have "the_heap heap_kernel = heap_new" by (simp add: heap_kernel_def)
  then show ?thesis
    using s h heap_kernel_grow_by
    by (simp add: heap_grow_def heap_new_def Let_def heap_insert_def heap_seek.simps heap_link_def
        set_next_def set_size_def) (simp add: heap_consts)
qed

lemma heap_kernel_alloc:
  "\<exists>s. heap_alloc heap_kernel layout_example = Some (HEAP_START, s)"
proof -
  obtain s m where s: "heap_grow heap_kernel 56 = Some (True, s)" "the_heap s =
     \<lparr>head = HEAP_START, mapped_end = HEAP_START + 4096, allocated = 0, heap_total = 4096, hmem = m\<rparr>"
     "m HEAP_START = 4096" "m (HEAP_START + 8) = 0" using heap_kernel_grow by blast
  have "heap_ok (the_heap s) [(HEAP_START, 4096)]"
    using s by (simp add: heap_ok_def list_ok_def blocks_ok_Cons block_ok_def heap_consts)
  moreover have "find (fits 40 16) [(HEAP_START, 4096)] = Some (HEAP_START, 4096)"
    by (simp add: fits_def up_to_def heap_consts)
  moreover have "up_to 16 HEAP_START = HEAP_START" by (simp add: up_to_def heap_consts)
  ultimately obtain h' where "heap_find_and_remove (the_heap s) 40 16 = Some (Some HEAP_START, h')"
    using heap_found_ok [OF _ layout_example_ok(1,3), of "the_heap s"] by fastforce
  moreover have "heap_find_and_remove (the_heap heap_kernel) 40 16 = Some (None, heap_new)"
    by (simp add: heap_find_and_remove_def heap_find_from.simps heap_kernel_def heap_new_def)
  moreover have "heap_kernel\<lparr>the_heap := heap_new\<rparr> = heap_kernel" by (simp add: heap_kernel_def)
  ultimately show ?thesis using s(1) by (simp add: heap_alloc_def layout_example_ok)
qed

lemma clients_total:
  assumes "clients_ok h bs live"
  shows "allocated h \<le> heap_total h"
proof -
  have fin: "finite (dom live)" and al: "allocated h = (\<Sum>p\<in>dom live. layout_len (the (live p)))"
    and tot: "heap_total h = mapped_end h - HEAP_START" using assms by (auto simp: clients_ok_def heap_ok_def)
  have "\<forall>i\<in>dom live. \<forall>j\<in>dom live. i \<noteq> j \<longrightarrow> held i (the (live i)) \<inter> held j (the (live j)) = {}"
    using assms unfolding clients_ok_def by (metis domD option.sel)
  then have "(\<Sum>p\<in>dom live. card (held p (the (live p)))) = card (\<Union>p\<in>dom live. held p (the (live p)))"
    by (intro card_UN_disjoint [symmetric] fin) (simp_all add: held_def)
  also have "\<dots> \<le> card {HEAP_START..<mapped_end h}"
    using assms by (intro card_mono UN_least) (simp, metis (no_types, lifting) clients_ok_def domD option.sel)
  finally show ?thesis using al tot by (simp add: held_def)
qed

text \<open>C7. In every state that clients can bring the heap to, the live allocations are pairwise disjoint,
  aligned as asked, inside the mapped part of the heap's range, and at least as long as asked;
  \<open>allocated_bytes\<close> is their total length and never exceeds \<open>heap_size\<close>.\<close>

theorem heap_safe:
  assumes "heap_reachable (s, live)"
  shows "(\<forall>p l. live p = Some l \<longrightarrow> layout_align l dvd p \<and> layout_size l \<le> layout_len l \<and>
        held p l \<subseteq> {HEAP_START..<HEAP_START + heap_size s}) \<and>
      (\<forall>p q l k. live p = Some l \<longrightarrow> live q = Some k \<longrightarrow> p \<noteq> q \<longrightarrow> held p l \<inter> held q k = {}) \<and>
      allocated_bytes s = (\<Sum>p\<in>dom live. layout_len (the (live p))) \<and> allocated_bytes s \<le> heap_size s"
proof -
  obtain bs where bs: "clients_ok (the_heap s) bs live" using clients_reachable [OF assms] by auto
  have "held p l \<subseteq> {HEAP_START..<HEAP_START + heap_size s}" if "live p = Some l" for p l
    using bs that by (fastforce simp: clients_ok_def heap_ok_def heap_size_def)
  then show ?thesis
    using bs clients_total [OF bs] layout_len_bounds
    by (auto simp: clients_ok_def allocated_bytes_def heap_size_def)
qed

theorem heap_safe_witness:
  "\<exists>s :: hkernel. heap_reachable (s, [HEAP_START \<mapsto> layout_example]) \<and> allocated_bytes s = 40 \<and> 40 \<le> heap_size s"
proof -
  obtain s where s: "heap_alloc heap_kernel layout_example = Some (HEAP_START, s)" using heap_kernel_alloc by blast
  have "heap_reachable (heap_kernel, Map.empty)" by (rule boot) (simp add: heap_kernel_def)
  moreover have "HEAP_START \<noteq> 0" by (simp add: heap_consts)
  ultimately have "heap_reachable (s, [HEAP_START \<mapsto> layout_example])"
    using step allocate [OF layout_example_ok(1) s] by blast
  then show ?thesis using heap_safe [of s "[HEAP_START \<mapsto> layout_example]"] layout_example_ok(2) by auto
qed

text \<open>C8. Releasing a live allocation with its layout always returns (the walk over the free list ends),
  and leaves the memory of every other live allocation as it was.\<close>

theorem heap_dealloc_returns:
  assumes "heap_reachable (s, live)" "live addr = Some l"
  shows "\<exists>s'. heap_dealloc s addr l = Some s' \<and> allocated_bytes s' = allocated_bytes s - layout_len l \<and>
    (\<forall>p k. live p = Some k \<longrightarrow> p \<noteq> addr \<longrightarrow> (\<forall>a\<in>held p k. hmem (the_heap s') a = hmem (the_heap s) a))"
proof -
  obtain bs where bs: "clients_ok (the_heap s) bs live" using clients_reachable [OF assms(1)] by auto
  obtain s' bs' where "heap_dealloc s addr l = Some s'"
    "allocated (the_heap s') = allocated (the_heap s) - layout_len l"
    "\<forall>p k. live p = Some k \<longrightarrow> p \<noteq> addr \<longrightarrow> (\<forall>a\<in>held p k. hmem (the_heap s') a = hmem (the_heap s) a)"
    using clients_release [OF bs assms(2)] by blast
  then show ?thesis unfolding allocated_bytes_def by blast
qed

theorem heap_dealloc_returns_witness:
  "\<exists>s s'. heap_alloc heap_kernel layout_example = Some (HEAP_START, s) \<and> allocated_bytes s = 40 \<and>
     heap_dealloc s HEAP_START layout_example = Some s' \<and> allocated_bytes s' = 0"
proof -
  obtain s where s: "heap_alloc heap_kernel layout_example = Some (HEAP_START, s)" using heap_kernel_alloc by blast
  have "heap_reachable (heap_kernel, Map.empty)" by (rule boot) (simp add: heap_kernel_def)
  moreover have "HEAP_START \<noteq> 0" by (simp add: heap_consts)
  ultimately have r: "heap_reachable (s, [HEAP_START \<mapsto> layout_example])"
    using step allocate [OF layout_example_ok(1) s] by blast
  have "allocated_bytes s = 40"
    using clients_reachable [OF r] layout_example_ok(2) by (auto simp: clients_ok_def allocated_bytes_def)
  then show ?thesis using s heap_dealloc_returns [OF r, of HEAP_START layout_example] layout_example_ok(2) by auto
qed

text \<open>When a free block has room for a request, \<open>alloc\<close> takes the first such block in address order: it
  returns that block's address rounded up to the alignment, maps no memory, keeps the list well formed
  and coalesced, gives the caller only bytes that were free, and changes no memory outside the list.\<close>

theorem heap_alloc_first_fit:
  assumes "heap_ok (the_heap s) bs" "valid_layout l" "adjust l = Some (sz, align)" "find (fits sz align) bs = Some b"
  defines "addr \<equiv> up_to align (fst b)"
  shows "\<exists>s' bs'. heap_alloc s l = Some (addr, s') \<and> heap_ok (the_heap s') bs' \<and> addr \<noteq> 0 \<and> layout_align l dvd addr \<and>
    mapped_end (the_heap s') = mapped_end (the_heap s) \<and> allocated_bytes s' = allocated_bytes s + sz \<and>
    {addr..<addr + sz} \<subseteq> free_bytes bs - free_bytes bs' \<and> free_bytes bs' \<subseteq> free_bytes bs \<and>
    (\<forall>a. a \<notin> free_bytes bs \<longrightarrow> hmem (the_heap s') a = hmem (the_heap s) a)"
proof -
  obtain h' bs' where h: "heap_find_and_remove (the_heap s) sz align = Some (Some addr, h')" "addr \<noteq> 0"
    "layout_align l dvd addr" "heap_ok (h'\<lparr>allocated := allocated h' + sz\<rparr>) bs'"
    "mapped_end h' = mapped_end (the_heap s)" "allocated h' = allocated (the_heap s)" "free_bytes bs' \<subseteq> free_bytes bs"
    "{addr..<addr + sz} \<subseteq> free_bytes bs - free_bytes bs'" "\<forall>a. a \<notin> free_bytes bs \<longrightarrow> hmem h' a = hmem (the_heap s) a"
    using heap_found_ok [OF assms(1-4)] by (auto simp: addr_def)
  have "heap_alloc s l = Some (addr, s\<lparr>the_heap := h'\<lparr>allocated := allocated h' + sz\<rparr>\<rparr>)"
    using h(1) assms(3) by (simp add: heap_alloc_def)
  then show ?thesis using h
    by (intro exI [of _ "s\<lparr>the_heap := h'\<lparr>allocated := allocated h' + sz\<rparr>\<rparr>"] exI [of _ bs'] conjI)
      (auto simp: allocated_bytes_def)
qed

text \<open>Two free blocks, of 24 and of 128 bytes.\<close>

definition two_blocks :: heap where
  "two_blocks = \<lparr>head = HEAP_START, mapped_end = HEAP_START + 4096, allocated = 0, heap_total = 4096,
     hmem = (\<lambda>a. 0)(HEAP_START := 24, HEAP_START + 8 := HEAP_START + 64, HEAP_START + 64 := 128)\<rparr>"

lemma two_blocks_ok: "heap_ok two_blocks [(HEAP_START, 24), (HEAP_START + 64, 128)]"
  by (simp add: heap_ok_def list_ok_def blocks_ok_Cons block_ok_def two_blocks_def heap_consts)

theorem heap_alloc_first_fit_witness:
  "\<exists>s'. heap_alloc (heap_kernel\<lparr>the_heap := two_blocks\<rparr>) layout_example = Some (HEAP_START + 64, s') \<and> allocated_bytes s' = 40"
proof -
  have "find (fits 40 16) [(HEAP_START, 24), (HEAP_START + 64, 128)] = Some (HEAP_START + 64, 128)"
    by (simp add: fits_def up_to_def heap_consts)
  moreover have "up_to 16 (HEAP_START + 64) = HEAP_START + 64" by (simp add: up_to_def heap_consts)
  moreover have "allocated_bytes (heap_kernel\<lparr>the_heap := two_blocks\<rparr>) = 0"
    by (simp add: allocated_bytes_def two_blocks_def)
  ultimately show ?thesis
    using heap_alloc_first_fit [of "heap_kernel\<lparr>the_heap := two_blocks\<rparr>", OF _ layout_example_ok(1,3)] two_blocks_ok
    by fastforce
qed

text \<open>The leftover of a block that is too small for a block header is lost: allocating 16 bytes from a
  free block of 24 and releasing them leaves a free block of 16 (the free list no longer holds the other 8 bytes).\<close>

theorem heap_sliver_lost:
  "\<exists>s1 s2. heap_alloc (heap_kernel\<lparr>the_heap := two_blocks\<rparr>) \<lparr>layout_size = 16, layout_align = 8\<rparr> = Some (HEAP_START, s1) \<and>
     heap_dealloc s1 HEAP_START \<lparr>layout_size = 16, layout_align = 8\<rparr> = Some s2 \<and>
     heap_ok two_blocks [(HEAP_START, 24), (HEAP_START + 64, 128)] \<and>
     heap_ok (the_heap s2) [(HEAP_START, 16), (HEAP_START + 64, 128)]"
proof -
  let ?l = "\<lparr>layout_size = 16, layout_align = 8\<rparr>"
  have adj: "adjust ?l = Some (16, 8)" using usize_align_up_pow2 [of 8 3 16] by (simp add: adjust_def up_to_def)
  have up: "usize_align_up HEAP_START 8 = Some HEAP_START"
    using usize_align_up_pow2 [of 8 3 HEAP_START] by (simp add: up_to_def heap_consts)
  let ?h1 = "two_blocks\<lparr>head := HEAP_START + 64\<rparr>"
  have f: "heap_find_and_remove two_blocks 16 8 = Some (Some HEAP_START, ?h1)"
    unfolding heap_find_and_remove_def
    by (subst heap_find_from.simps) (simp add: two_blocks_def up heap_carve_def block_size_def block_next_def, simp add: heap_consts)
  let ?h2 = "?h1\<lparr>allocated := 0, hmem := (hmem ?h1)(HEAP_START := 16, HEAP_START + 8 := HEAP_START + 64), head := HEAP_START\<rparr>"
  have i: "heap_insert (?h1\<lparr>allocated := 0\<rparr>) HEAP_START 16 = Some ?h2"
    unfolding heap_insert_def
    by (subst heap_seek.simps) (simp add: two_blocks_def heap_link_def set_next_def set_size_def, simp add: heap_consts)
  have ok: "heap_ok ?h2 [(HEAP_START, 16), (HEAP_START + 64, 128)]"
    by (simp add: heap_ok_def list_ok_def blocks_ok_Cons block_ok_def two_blocks_def heap_consts)
  have a: "allocated two_blocks = 0" by (simp add: two_blocks_def)
  show ?thesis using f i ok two_blocks_ok by (simp add: heap_alloc_def heap_dealloc_def adj a)
qed

end
