(* ===== verification/Scheduler.thy ===== *)
theory Scheduler
  imports Vmm
begin

unbundle bit_operations_syntax

text \<open>
  The thread scheduler, \<open>src/scheduler.rs\<close>, with the clock it reads (\<open>src/pit.rs\<close>) and the timer interrupt that
  preempts (\<open>irq_dispatch\<close> of \<open>src/idt.rs\<close>).

  \<open>skernel\<close> extends the kernel's memory state with \<open>SCHED\<close>, the scheduler's atomics, the wait queues, the CPU and the
  words of the kernel stacks. Every function runs with interrupts off where it touches the scheduler, so it is a
  function of the state. \<open>reschedule\<close> is the transition of the CPU: what it returns is the state in which the thread
  that runs next has finished the switch, since the first thing any thread does after a switch is \<open>finish_switch\<close>.
  A failed \<open>expect\<close> is \<open>None\<close>. Arithmetic on times wraps, as in the release build.
\<close>

section \<open>State\<close>

definition STACK_REGION :: u64 where "STACK_REGION = 0xFFFFFFFFA0000000"
definition SLOT_SIZE :: u64 where "SLOT_SIZE = 0x20000"
definition MAX_SLOTS :: nat where "MAX_SLOTS = 512"
definition STACK_PAGES :: nat where "STACK_PAGES = 16"
definition TIME_SLICE_MS :: u64 where "TIME_SLICE_MS = 10"

record thread =
  tid :: nat
  tname :: string
  rsp :: u64
  stack_slot :: "nat option"
  wake_at :: u64
  is_idle :: bool
  aspace :: "address_space option"
  user_entry :: u64
  user_rsp :: u64

record scheduler =
  current :: "thread option"
  ready :: "thread list"
  sleeping :: "thread list"
  idle :: "thread option"
  zombies :: "thread list"
  free_slots :: "nat list"
  next_slot :: nat
  next_id :: nat

definition scheduler_new :: scheduler where
  "scheduler_new =
     \<lparr>current = None, ready = [], sleeping = [], idle = None, zombies = [], free_slots = [], next_slot = 0, next_id = 1\<rparr>"

text \<open>\<open>Block\<close> names a wait queue by its number.\<close>

datatype next_op = Yield | Sleep u64 | Exit | Block nat

text \<open>The registers a switch saves; \<open>rip\<close> is the return address.\<close>

record cpu =
  cpu_rsp :: u64
  rbp :: u64
  rbx :: u64
  r12 :: u64
  r13 :: u64
  r14 :: u64
  r15 :: u64
  rip :: u64

text \<open>Addresses of code that threads start in.\<close>

record symbols =
  thread_trampoline :: u64
  idle_main :: u64
  user_thread_main :: u64

record skernel = vkernel +
  sched :: scheduler
  waiters :: "thread list list"
  READY :: bool
  SLICE_TICKS :: u64
  NEED_RESCHED :: bool
  PREEMPTIONS :: u64
  TICKS :: u64
  HZ :: u64
  rsp0 :: u64
  the_cpu :: cpu
  stack_mem :: "u64 \<Rightarrow> u64"
  syms :: symbols

section \<open>The clock\<close>

definition frequency_hz :: "'a skernel_scheme \<Rightarrow> u64" where
  "frequency_hz s = HZ s"

definition uptime_ms :: "'a skernel_scheme \<Rightarrow> u64" where
  "uptime_ms s = (let hz = frequency_hz s in if hz = 0 then 0 else TICKS s * 1000 div hz)"

section \<open>Kernel stacks\<close>

definition slot_base :: "nat \<Rightarrow> u64" where
  "slot_base slot = STACK_REGION + of_nat slot * SLOT_SIZE"

fun unmap_stack_loop :: "'a vkernel_scheme \<Rightarrow> u64 \<Rightarrow> nat list \<Rightarrow> 'a vkernel_scheme option" where
  "unmap_stack_loop s base [] = Some s"
| "unmap_stack_loop s base (i # is) =
     (case unmap_page s (base + (1 + of_nat i) * PAGE_SIZE) of
        None \<Rightarrow> None
      | Some (None, s1) \<Rightarrow> unmap_stack_loop s1 base is
      | Some (Some phys, s1) \<Rightarrow> unmap_stack_loop (free_frame s1 phys) base is)"

definition unmap_stack :: "'a vkernel_scheme \<Rightarrow> u64 \<Rightarrow> nat \<Rightarrow> 'a vkernel_scheme option" where
  "unmap_stack s base pages = unmap_stack_loop s base [0..<pages]"

text \<open>The result is false when the frames ran out, and then nothing is left mapped.\<close>

fun map_stack :: "'a vkernel_scheme \<Rightarrow> u64 \<Rightarrow> nat list \<Rightarrow> (bool \<times> 'a vkernel_scheme) option" where
  "map_stack s base [] = Some (True, s)"
| "map_stack s base (i # is) =
     (case alloc_frame s of
        (None, s1) \<Rightarrow> map_option (Pair False) (unmap_stack s1 base i)
      | (Some phys, s1) \<Rightarrow>
          (case map_page s1 (base + (1 + of_nat i) * PAGE_SIZE) phys KERNEL_RW of
             None \<Rightarrow> None
           | Some s2 \<Rightarrow> map_stack s2 base is))"

definition stack_top :: "nat \<Rightarrow> u64" where
  "stack_top slot = slot_base slot + (1 + of_nat STACK_PAGES) * PAGE_SIZE"

section \<open>Threads\<close>

definition claim_slot :: "scheduler \<Rightarrow> (nat \<times> scheduler) option" where
  "claim_slot s =
     (if free_slots s \<noteq> [] then Some (last (free_slots s), s\<lparr>free_slots := butlast (free_slots s)\<rparr>)
      else if next_slot s < MAX_SLOTS then Some (next_slot s, s\<lparr>next_slot := next_slot s + 1\<rparr>)
      else None)"

definition push_slot :: "nat \<Rightarrow> 'a skernel_scheme \<Rightarrow> 'a skernel_scheme" where
  "push_slot slot s = s\<lparr>sched := (sched s)\<lparr>free_slots := free_slots (sched s) @ [slot]\<rparr>\<rparr>"

text \<open>The words at \<open>rsp\<close>: r15, r14, r13, r12, rbx, rbp and the return address.\<close>

definition initial_frame :: "(u64 \<Rightarrow> u64) \<Rightarrow> u64 \<Rightarrow> u64 \<Rightarrow> u64 \<Rightarrow> u64 \<Rightarrow> u64" where
  "initial_frame m sp entry trampoline =
     (fold (\<lambda>k m. m(sp + of_nat k * 8 := 0)) [0..<7] m)(sp + 3 * 8 := entry, sp + 6 * 8 := trampoline)"

definition create_thread :: "'a skernel_scheme \<Rightarrow> string \<Rightarrow> u64 \<Rightarrow> bool \<Rightarrow> (thread option \<times> 'a skernel_scheme) option" where
  "create_thread s nm entry idl =
     (case claim_slot (sched s) of
        None \<Rightarrow> Some (None, s)
      | Some (slot, sc) \<Rightarrow>
          let n = next_id sc; s = s\<lparr>sched := sc\<lparr>next_id := next_id sc + 1\<rparr>\<rparr> in
          (case map_stack s (slot_base slot) [0..<STACK_PAGES] of
             None \<Rightarrow> None
           | Some (False, s) \<Rightarrow> Some (None, push_slot slot s)
           | Some (True, s) \<Rightarrow>
               let sp = stack_top slot - 7 * 8 in
               Some
                 (Some \<lparr>tid = n, tname = nm, rsp = sp, stack_slot = Some slot, wake_at = 0, is_idle = idl, aspace = None,
                        user_entry = 0, user_rsp = 0\<rparr>,
                  s\<lparr>stack_mem := initial_frame (stack_mem s) sp entry (thread_trampoline (syms s))\<rparr>)))"

definition free_thread :: "'a skernel_scheme \<Rightarrow> thread \<Rightarrow> 'a skernel_scheme option" where
  "free_thread s t = do {
     s \<leftarrow> (case stack_slot t of
            None \<Rightarrow> Some s
          | Some slot \<Rightarrow> map_option (push_slot slot) (unmap_stack s (slot_base slot) STACK_PAGES));
     Some (case aspace t of None \<Rightarrow> s | Some a \<Rightarrow> free_user_half (pml4_phys a) s)
   }"

fun free_threads :: "'a skernel_scheme \<Rightarrow> thread list \<Rightarrow> 'a skernel_scheme option" where
  "free_threads s [] = Some s"
| "free_threads s (t # ts) = (case free_thread s t of None \<Rightarrow> None | Some s \<Rightarrow> free_threads s ts)"

definition finish_switch :: "'a skernel_scheme \<Rightarrow> 'a skernel_scheme option" where
  "finish_switch s = free_threads (s\<lparr>sched := (sched s)\<lparr>zombies := []\<rparr>\<rparr>) (zombies (sched s))"

section \<open>Switching\<close>

function wake_loop :: "u64 \<Rightarrow> thread list \<Rightarrow> thread list \<Rightarrow> nat \<Rightarrow> thread list \<times> thread list" where
  "wake_loop now slp rdy i =
     (if i < length slp then
        if wake_at (slp ! i) \<le> now then wake_loop now (swap_remove slp i) (rdy @ [slp ! i]) i
        else wake_loop now slp rdy (i + 1)
      else (slp, rdy))"
  by pat_completeness auto
termination
  by (relation "measure (\<lambda>(now, slp, rdy, i). length slp - i)") auto

declare wake_loop.simps [simp del]

definition wake_sleepers :: "u64 \<Rightarrow> scheduler \<Rightarrow> scheduler" where
  "wake_sleepers now s =
     (if sleeping s = [] then s
      else case wake_loop now (sleeping s) (ready s) 0 of (slp, rdy) \<Rightarrow> s\<lparr>sleeping := slp, ready := rdy\<rparr>)"

text \<open>\<open>switch_context\<close>: the call pushes the return address, the routine the six registers; the stack pointer reached
  is stored for the old thread, and the new thread's registers and return address are popped.\<close>

definition push_word :: "u64 \<Rightarrow> (u64 \<Rightarrow> u64) \<times> u64 \<Rightarrow> (u64 \<Rightarrow> u64) \<times> u64" where
  "push_word v ms = (case ms of (m, sp) \<Rightarrow> (m(sp - 8 := v), sp - 8))"

definition saved_regs :: "(u64 \<Rightarrow> u64) \<Rightarrow> u64 \<Rightarrow> cpu" where
  "saved_regs m sp =
     \<lparr>cpu_rsp = sp + 56, rbp = m (sp + 40), rbx = m (sp + 32), r12 = m (sp + 24), r13 = m (sp + 16), r14 = m (sp + 8),
      r15 = m sp, rip = m (sp + 48)\<rparr>"

definition switch_context :: "cpu \<Rightarrow> (u64 \<Rightarrow> u64) \<Rightarrow> u64 \<Rightarrow> u64 \<times> cpu \<times> (u64 \<Rightarrow> u64)" where
  "switch_context c m new_rsp =
     (case fold push_word [rip c, rbp c, rbx c, r12 c, r13 c, r14 c, r15 c] (m, cpu_rsp c) of
        (m, sp) \<Rightarrow> (sp, saved_regs m new_rsp, m))"

text \<open>The store through \<open>old_rsp\<close>, a pointer to the thread wherever it was put.\<close>

definition set_rsp :: "nat \<Rightarrow> u64 \<Rightarrow> thread \<Rightarrow> thread" where
  "set_rsp n r t = (if tid t = n then t\<lparr>rsp := r\<rparr> else t)"

definition store_rsp :: "nat \<Rightarrow> u64 \<Rightarrow> 'a skernel_scheme \<Rightarrow> 'a skernel_scheme" where
  "store_rsp n r s =
     s\<lparr>sched := (sched s)
         \<lparr>ready := map (set_rsp n r) (ready (sched s)), sleeping := map (set_rsp n r) (sleeping (sched s)),
          idle := map_option (set_rsp n r) (idle (sched s)), zombies := map (set_rsp n r) (zombies (sched s))\<rparr>,
       waiters := map (map (set_rsp n r)) (waiters s)\<rparr>"

definition put_away :: "'a skernel_scheme \<Rightarrow> thread \<Rightarrow> next_op \<Rightarrow> 'a skernel_scheme" where
  "put_away s cur how =
     (let sc = sched s in
      case how of
        Yield \<Rightarrow> if is_idle cur then s\<lparr>sched := sc\<lparr>idle := Some cur\<rparr>\<rparr> else s\<lparr>sched := sc\<lparr>ready := ready sc @ [cur]\<rparr>\<rparr>
      | Sleep at \<Rightarrow> s\<lparr>sched := sc\<lparr>sleeping := sleeping sc @ [cur\<lparr>wake_at := at\<rparr>]\<rparr>\<rparr>
      | Exit \<Rightarrow> s\<lparr>sched := sc\<lparr>zombies := zombies sc @ [cur]\<rparr>\<rparr>
      | Block q \<Rightarrow> s\<lparr>waiters := (waiters s)[q := waiters s ! q @ [cur]]\<rparr>)"

definition take_next :: "scheduler \<Rightarrow> (thread \<times> scheduler) option" where
  "take_next s =
     (case ready s of
        t # ts \<Rightarrow> Some (t, s\<lparr>ready := ts\<rparr>)
      | [] \<Rightarrow> (case idle s of None \<Rightarrow> None | Some t \<Rightarrow> Some (t, s\<lparr>idle := None\<rparr>)))"

text \<open>The kernel stack and the page tables of the thread that runs next.\<close>

definition set_kernel_stack :: "'a skernel_scheme \<Rightarrow> u64 \<Rightarrow> 'a skernel_scheme" where
  "set_kernel_stack s sp = s\<lparr>rsp0 := sp\<rparr>"

definition load_thread :: "'a skernel_scheme \<Rightarrow> thread \<Rightarrow> 'a skernel_scheme" where
  "load_thread s t =
     (let s = (case stack_slot t of None \<Rightarrow> s | Some slot \<Rightarrow> set_kernel_stack s (stack_top slot));
          want = (case aspace t of Some a \<Rightarrow> pml4_phys a | None \<Rightarrow> KERNEL_CR3 s)
      in if want \<noteq> 0 \<and> want \<noteq> current_cr3 s then s\<lparr>cr3 := want\<rparr> else s)"

text \<open>The critical section of \<open>reschedule\<close>: the thread leaving and the one taking the CPU.\<close>

definition switch_threads :: "'a skernel_scheme \<Rightarrow> next_op \<Rightarrow> (thread \<times> thread \<times> 'a skernel_scheme) option" where
  "switch_threads s how = do {
     let sc = wake_sleepers (uptime_ms s) (sched s);
     cur \<leftarrow> current sc;
     let s = put_away (s\<lparr>sched := sc\<lparr>current := None\<rparr>\<rparr>) cur how;
     (t, sc) \<leftarrow> take_next (sched s);
     let s = load_thread (s\<lparr>sched := sc\<rparr>) t;
     Some (cur, t, s\<lparr>sched := (sched s)\<lparr>current := Some t\<rparr>\<rparr>)
   }"

definition reschedule :: "'a skernel_scheme \<Rightarrow> next_op \<Rightarrow> 'a skernel_scheme option" where
  "reschedule s how = do {
     (cur, t, s) \<leftarrow> switch_threads (s\<lparr>SLICE_TICKS := 0, NEED_RESCHED := False\<rparr>) how;
     (if tid cur = tid t then Some s
      else case switch_context (the_cpu s) (stack_mem s) (rsp t) of
        (old, c, m) \<Rightarrow> finish_switch (store_rsp (tid cur) old (s\<lparr>the_cpu := c, stack_mem := m\<rparr>)))
   }"

section \<open>Interface\<close>

definition sched_init :: "'a skernel_scheme \<Rightarrow> 'a skernel_scheme option" where
  "sched_init s =
     (case create_thread s ''idle'' (idle_main (syms s)) True of
        None \<Rightarrow> None
      | Some (None, s) \<Rightarrow> Some s
      | Some (Some idl, s) \<Rightarrow>
          Some (s\<lparr>sched := (sched s)
                     \<lparr>current := Some \<lparr>tid = 0, tname = ''boot'', rsp = 0, stack_slot = None, wake_at = 0, is_idle = False,
                                      aspace = None, user_entry = 0, user_rsp = 0\<rparr>,
                      idle := Some idl\<rparr>,
                  READY := True\<rparr>))"

definition push_ready :: "thread \<Rightarrow> 'a skernel_scheme \<Rightarrow> 'a skernel_scheme" where
  "push_ready t s = s\<lparr>sched := (sched s)\<lparr>ready := ready (sched s) @ [t]\<rparr>\<rparr>"

definition spawn :: "'a skernel_scheme \<Rightarrow> string \<Rightarrow> u64 \<Rightarrow> (nat option \<times> 'a skernel_scheme) option" where
  "spawn s nm entry =
     (case create_thread s nm entry False of
        None \<Rightarrow> None
      | Some (None, s) \<Rightarrow> Some (None, s)
      | Some (Some t, s) \<Rightarrow> Some (Some (tid t), push_ready t s))"

text \<open>On failure the address space is dropped, which frees it.\<close>

definition spawn_user :: "'a skernel_scheme \<Rightarrow> string \<Rightarrow> address_space \<Rightarrow> u64 \<Rightarrow> u64 \<Rightarrow> (nat option \<times> 'a skernel_scheme) option" where
  "spawn_user s nm asp entry usp =
     (case create_thread s nm (user_thread_main (syms s)) False of
        None \<Rightarrow> None
      | Some (None, s) \<Rightarrow> Some (None, free_user_half (pml4_phys asp) s)
      | Some (Some t, s) \<Rightarrow>
          Some (Some (tid t), push_ready (t\<lparr>aspace := Some asp, user_entry := entry, user_rsp := usp\<rparr>) s))"

definition user_start :: "'a skernel_scheme \<Rightarrow> (u64 \<times> u64) option" where
  "user_start s = map_option (\<lambda>t. (user_entry t, user_rsp t)) (current (sched s))"

definition yield_now :: "'a skernel_scheme \<Rightarrow> 'a skernel_scheme option" where
  "yield_now s = (if READY s then reschedule s Yield else Some s)"

definition sleep_ms :: "'a skernel_scheme \<Rightarrow> u64 \<Rightarrow> 'a skernel_scheme option" where
  "sleep_ms s ms = (if READY s then reschedule s (Sleep (uptime_ms s + ms)) else Some s)"

text \<open>Without a scheduler \<open>exit\<close> halts for good: there is no next state.\<close>

definition sched_exit :: "'a skernel_scheme \<Rightarrow> 'a skernel_scheme option" where
  "sched_exit s = (if READY s then reschedule s Exit else None)"

definition sched_tick :: "'a skernel_scheme \<Rightarrow> 'a skernel_scheme" where
  "sched_tick s =
     (if \<not> READY s then s
      else
        let used = SLICE_TICKS s + 1;
            slice_ticks = max (frequency_hz s * TIME_SLICE_MS div 1000) 1;
            now = uptime_ms s;
            sleeper_due = list_ex (\<lambda>t. wake_at t \<le> now) (sleeping (sched s));
            slice_over = (used \<ge> slice_ticks \<and> ready (sched s) \<noteq> []);
            s = s\<lparr>SLICE_TICKS := used\<rparr>
        in if sleeper_due \<or> slice_over then s\<lparr>NEED_RESCHED := True\<rparr> else s)"

definition preempt_if_needed :: "'a skernel_scheme \<Rightarrow> 'a skernel_scheme option" where
  "preempt_if_needed s =
     (if NEED_RESCHED s then reschedule (s\<lparr>NEED_RESCHED := False, PREEMPTIONS := PREEMPTIONS s + 1\<rparr>) Yield else Some s)"

definition on_tick :: "'a skernel_scheme \<Rightarrow> 'a skernel_scheme" where
  "on_tick s = sched_tick (s\<lparr>TICKS := TICKS s + 1\<rparr>)"

text \<open>\<open>irq_dispatch\<close> for the timer.\<close>

definition timer_irq :: "'a skernel_scheme \<Rightarrow> 'a skernel_scheme option" where
  "timer_irq s = preempt_if_needed (on_tick s)"

definition preemption_count :: "'a skernel_scheme \<Rightarrow> u64" where
  "preemption_count s = PREEMPTIONS s"

definition current_id :: "'a skernel_scheme \<Rightarrow> nat" where
  "current_id s = (case current (sched s) of None \<Rightarrow> 0 | Some t \<Rightarrow> tid t)"

definition current_name :: "'a skernel_scheme \<Rightarrow> string" where
  "current_name s = (case current (sched s) of None \<Rightarrow> ''?'' | Some t \<Rightarrow> tname t)"

definition stack_slots_in_use :: "'a skernel_scheme \<Rightarrow> nat" where
  "stack_slots_in_use s = next_slot (sched s) - length (free_slots (sched s))"

section \<open>Wait queues\<close>

text \<open>One round of the loop of \<open>wait_until\<close>: the condition holds and the wait is over (true), or the thread is
  parked and will run another round when it is woken (false).\<close>

definition wait_round ::
  "'a skernel_scheme \<Rightarrow> nat \<Rightarrow> ('a skernel_scheme \<Rightarrow> bool \<times> 'a skernel_scheme) \<Rightarrow> (bool \<times> 'a skernel_scheme) option" where
  "wait_round s q cond =
     (case cond s of
        (True, s) \<Rightarrow> Some (True, s)
      | (False, s) \<Rightarrow> if \<not> READY s then Some (True, s) else map_option (Pair False) (reschedule s (Block q)))"

definition wq_wait :: "'a skernel_scheme \<Rightarrow> nat \<Rightarrow> 'a skernel_scheme option" where
  "wq_wait s q = (if \<not> READY s then Some s else reschedule s (Block q))"

definition wake_one :: "'a skernel_scheme \<Rightarrow> nat \<Rightarrow> bool \<times> 'a skernel_scheme" where
  "wake_one s q =
     (case waiters s ! q of
        [] \<Rightarrow> (False, s)
      | t # ts \<Rightarrow> (True, push_ready t (s\<lparr>waiters := (waiters s)[q := ts]\<rparr>)))"

definition wake_all :: "'a skernel_scheme \<Rightarrow> nat \<Rightarrow> 'a skernel_scheme" where
  "wake_all s q = fold push_ready (waiters s ! q) (s\<lparr>waiters := (waiters s)[q := []]\<rparr>)"

definition wq_len :: "'a skernel_scheme \<Rightarrow> nat \<Rightarrow> nat" where
  "wq_len s q = length (waiters s ! q)"

section \<open>Lemmas: memory operations leave the scheduler alone\<close>

definition same_sched :: "'a skernel_scheme \<Rightarrow> 'a skernel_scheme \<Rightarrow> bool" where
  "same_sched s s' \<longleftrightarrow> sched s' = sched s \<and> waiters s' = waiters s \<and> READY s' = READY s \<and> the_cpu s' = the_cpu s \<and>
     stack_mem s' = stack_mem s \<and> syms s' = syms s \<and> TICKS s' = TICKS s \<and> HZ s' = HZ s \<and> NEED_RESCHED s' = NEED_RESCHED s \<and>
     SLICE_TICKS s' = SLICE_TICKS s \<and> skernel.more s' = skernel.more s"

lemma same_sched_refl [simp]: "same_sched s s"
  by (simp add: same_sched_def)

lemma same_sched_trans: "same_sched s s1 \<Longrightarrow> same_sched s1 s2 \<Longrightarrow> same_sched s s2"
  by (simp add: same_sched_def)

lemma mem_only_sched: "mem_only s s' \<Longrightarrow> same_sched s s'"
  by (auto simp: mem_only_def same_sched_def)

lemma unmap_page_sched:
  assumes "unmap_page s virt = Some (r, s1)"
  shows "same_sched s s1" "same_sched s (free_frame s1 phys)"
  using mem_only_sched [OF mem_only_unmap_page [OF assms]]
    mem_only_sched [OF mem_only_trans [OF mem_only_unmap_page [OF assms] mem_only_frames(2)]] by blast+

lemma unmap_stack_loop_sched: "unmap_stack_loop s base is = Some s' \<Longrightarrow> same_sched s s'"
proof (induction "is" arbitrary: s)
  case (Cons i "is")
  obtain r s1 where u: "unmap_page s (base + (1 + of_nat i) * PAGE_SIZE) = Some (r, s1)"
    using Cons.prems by (auto split: option.splits)
  show ?case
  proof (cases r)
    case None
    then show ?thesis using same_sched_trans [OF unmap_page_sched(1) [OF u] Cons.IH] Cons.prems u by simp
  next
    case (Some phys)
    then show ?thesis using same_sched_trans [OF unmap_page_sched(2) [OF u] Cons.IH] Cons.prems u by simp
  qed
qed simp

lemma map_stack_sched: "map_stack s base is = Some (r, s') \<Longrightarrow> same_sched s s'"
proof (induction "is" arbitrary: s)
  case (Cons i "is")
  obtain ph s1 where a: "alloc_frame s = (ph, s1)" by force
  then have 1: "same_sched s s1" by (intro mem_only_sched mem_only_frames)
  show ?case
  proof (cases ph)
    case None
    then have "unmap_stack_loop s1 base [0..<i] = Some s'" using Cons.prems a by (auto simp: unmap_stack_def)
    then show ?thesis by (rule same_sched_trans [OF 1 unmap_stack_loop_sched])
  next
    case (Some phys)
    then obtain s2 where 2: "map_page s1 (base + (1 + of_nat i) * PAGE_SIZE) phys KERNEL_RW = Some s2"
      "map_stack s2 base is = Some (r, s')" using Cons.prems a by (auto split: option.splits)
    show ?thesis
      using same_sched_trans [OF 1 same_sched_trans [OF mem_only_sched [OF mem_only_map_page [OF 2(1)]] Cons.IH [OF 2(2)]]] .
  qed
qed simp

section \<open>Lemmas: the threads of a state\<close>

text \<open>What stays of a thread: its number, its stack and whether it is the idle thread.\<close>

definition key :: "thread \<Rightarrow> nat \<times> nat option \<times> bool" where
  "key t = (tid t, stack_slot t, is_idle t)"

definition opt_list :: "'a option \<Rightarrow> 'a list" where
  "opt_list x = (case x of None \<Rightarrow> [] | Some a \<Rightarrow> [a])"

lemma opt_list_simps [simp]: "opt_list None = []" "opt_list (Some a) = [a]"
  by (simp_all add: opt_list_def)

definition live :: "'a skernel_scheme \<Rightarrow> thread list" where
  "live s = opt_list (current (sched s)) @ opt_list (idle (sched s)) @ ready (sched s) @ sleeping (sched s) @
     concat (waiters s) @ zombies (sched s)"

definition keys :: "'a skernel_scheme \<Rightarrow> (nat \<times> nat option \<times> bool) multiset" where
  "keys s = image_mset key (mset (live s))"

definition slots_of :: "(nat \<times> nat option \<times> bool) multiset \<Rightarrow> nat multiset" where
  "slots_of K = \<Sum>\<^sub># (image_mset (\<lambda>k. mset (opt_list (fst (snd k)))) K)"

lemma slots_of_simps [simp]:
  "slots_of {#} = {#}" "slots_of (add_mset k K) = mset (opt_list (fst (snd k))) + slots_of K" "slots_of (K + L) = slots_of K + slots_of L"
  by (simp_all add: slots_of_def)

text \<open>The idle thread waits in its own place or runs; nobody else is idle.\<close>

definition idle_ok :: "'a skernel_scheme \<Rightarrow> bool" where
  "idle_ok s \<longleftrightarrow> (\<exists>c. current (sched s) = Some c \<and> (if is_idle c then idle (sched s) = None
       else \<exists>i. idle (sched s) = Some i \<and> is_idle i)) \<and>
     (\<forall>t\<in>set (ready (sched s) @ sleeping (sched s) @ concat (waiters s) @ zombies (sched s)). \<not> is_idle t)"

text \<open>Thread numbers are distinct and below the next one; the stack slots given out so far are exactly those of the
  threads and those on the free list, each once.\<close>

definition keys_ok :: "scheduler \<Rightarrow> (nat \<times> nat option \<times> bool) multiset \<Rightarrow> bool" where
  "keys_ok sc K \<longleftrightarrow> (\<forall>n. count (image_mset fst K) n \<le> 1) \<and> (\<forall>k\<in>#K. fst k < next_id sc) \<and>
     slots_of K + mset (free_slots sc) = mset [0..<next_slot sc] \<and> next_slot sc \<le> MAX_SLOTS"

definition sched_ok :: "'a skernel_scheme \<Rightarrow> bool" where
  "sched_ok s \<longleftrightarrow> READY s \<and> idle_ok s \<and> keys_ok (sched s) (keys s)"

lemma wake_loop_mset: "wake_loop now slp rdy i = (slp', rdy') \<Longrightarrow> mset slp' + mset rdy' = mset slp + mset rdy"
proof (induction now slp rdy i rule: wake_loop.induct)
  case (1 now slp rdy i)
  then show ?case using mset_swap_remove [of i slp] by (auto simp: wake_loop.simps [of now slp rdy i] split: if_splits)
qed

lemma wake_loop_split:
  "wake_loop now slp rdy i = (slp', rdy') \<Longrightarrow> \<exists>woken. rdy' = rdy @ woken \<and> (\<forall>t\<in>set woken. wake_at t \<le> now)"
proof (induction now slp rdy i rule: wake_loop.induct)
  case (1 now slp rdy i)
  then show ?case by (fastforce simp: wake_loop.simps [of now slp rdy i] split: if_splits)
qed

lemma swap_remove_prefix: "i < length xs \<Longrightarrow> j < i \<Longrightarrow> swap_remove xs i ! j = xs ! j"
  by (simp add: swap_remove_def nth_butlast)

lemma wake_loop_due:
  "wake_loop now slp rdy i = (slp', rdy') \<Longrightarrow> \<forall>j<i. j < length slp \<longrightarrow> now < wake_at (slp ! j) \<Longrightarrow>
     \<forall>t\<in>set slp'. now < wake_at t"
proof (induction now slp rdy i rule: wake_loop.induct)
  case (1 now slp rdy i)
  show ?case
  proof (cases "i < length slp")
    case False
    then show ?thesis using 1 by (auto simp: wake_loop.simps [of now slp rdy i] in_set_conv_nth)
  next
    case True
    show ?thesis
    proof (cases "wake_at (slp ! i) \<le> now")
      case t: True
      have "\<forall>j<i. j < length (swap_remove slp i) \<longrightarrow> now < wake_at (swap_remove slp i ! j)"
        using "1.prems"(2) True by (auto simp: swap_remove_prefix)
      then show ?thesis using "1.IH"(1) [OF True t] "1.prems"(1) True t by (simp add: wake_loop.simps [of now slp rdy i])
    next
      case f: False
      have "\<forall>j<i + 1. j < length slp \<longrightarrow> now < wake_at (slp ! j)"
        using "1.prems"(2) f by (auto simp: less_Suc_eq)
      then show ?thesis using "1.IH"(2) [OF True f] "1.prems"(1) True f by (simp add: wake_loop.simps [of now slp rdy i])
    qed
  qed
qed

lemma wake_sleepers_spec:
  assumes "wake_sleepers now sc = sc'"
  obtains slp woken where "sc' = sc\<lparr>sleeping := slp, ready := ready sc @ woken\<rparr>" "mset slp + mset woken = mset (sleeping sc)"
    "\<forall>t\<in>set woken. wake_at t \<le> now" "\<forall>t\<in>set slp. now < wake_at t"
proof (cases "sleeping sc = []")
  case True
  then show ?thesis using that [of "[]" "[]"] assms by (simp add: wake_sleepers_def)
next
  case False
  obtain slp rdy where w: "wake_loop now (sleeping sc) (ready sc) 0 = (slp, rdy)" by force
  obtain woken where "rdy = ready sc @ woken" "\<forall>t\<in>set woken. wake_at t \<le> now" using wake_loop_split [OF w] by blast
  then show ?thesis using that [of woken slp] wake_loop_mset [OF w] wake_loop_due [OF w] assms w False
    by (simp add: wake_sleepers_def)
qed

section \<open>Lemmas: switching keeps every thread\<close>

lemma concat_update:
  "q < length xss \<Longrightarrow> mset (concat (xss[q := xss ! q @ [x]])) = add_mset x (mset (concat xss))"
proof (induction xss arbitrary: q)
  case (Cons xs xss)
  then show ?case by (cases q) auto
qed simp

lemma set_concat_update: "q < length xss \<Longrightarrow> set (concat (xss[q := xss ! q @ [x]])) = insert x (set (concat xss))"
  using concat_update [of q xss x] by (metis set_mset_add_mset_insert set_mset_mset)

text \<open>What a thread may ask for: the idle thread only yields, and a wait queue exists.\<close>

definition may_do :: "'a skernel_scheme \<Rightarrow> next_op \<Rightarrow> bool" where
  "may_do s how \<longleftrightarrow> (\<forall>c. current (sched s) = Some c \<longrightarrow> is_idle c \<longrightarrow> how = Yield) \<and>
     (\<forall>q. how = Block q \<longrightarrow> q < length (waiters s))"

lemma sched_cong:
  assumes "sched s' = sched s" "waiters s' = waiters s"
  shows "idle_ok s' = idle_ok s" "keys s' = keys s" "live s' = live s" "may_do s' how = may_do s how"
  using assms by (simp_all add: idle_ok_def keys_def live_def may_do_def)

lemma load_thread_sched:
  "sched (load_thread s t) = sched s" "waiters (load_thread s t) = waiters s" "READY (load_thread s t) = READY s"
  "the_cpu (load_thread s t) = the_cpu s" "stack_mem (load_thread s t) = stack_mem s" "syms (load_thread s t) = syms s"
  "TICKS (load_thread s t) = TICKS s" "HZ (load_thread s t) = HZ s"
  "SLICE_TICKS (load_thread s t) = SLICE_TICKS s" "NEED_RESCHED (load_thread s t) = NEED_RESCHED s"
  "skernel.more (load_thread s t) = skernel.more s"
  by (simp_all add: load_thread_def set_kernel_stack_def Let_def split: option.splits)

text \<open>The four places a thread can go to, as one description of the state after \<open>put_away\<close>.\<close>

lemma put_away_keys:
  assumes "current (sched s) = None" "idle (sched s) = None \<or> \<not> is_idle cur" "may_do (s\<lparr>sched := (sched s)\<lparr>current := Some cur\<rparr>\<rparr>) how"
  shows "keys (put_away s cur how) = add_mset (key cur) (keys s)"
    "next_id (sched (put_away s cur how)) = next_id (sched s)" "next_slot (sched (put_away s cur how)) = next_slot (sched s)"
    "free_slots (sched (put_away s cur how)) = free_slots (sched s)" "current (sched (put_away s cur how)) = None"
    "READY (put_away s cur how) = READY s" "length (waiters (put_away s cur how)) = length (waiters s)"
proof -
  show "keys (put_away s cur how) = add_mset (key cur) (keys s)"
    using assms concat_update [of _ "waiters s" cur]
    by (cases how) (auto simp: put_away_def keys_def live_def may_do_def Let_def key_def)
qed (auto simp: put_away_def Let_def assms(1) split: next_op.splits)

lemma put_away_fields:
  "SLICE_TICKS (put_away s c h) = SLICE_TICKS s" "HZ (put_away s c h) = HZ s" "TICKS (put_away s c h) = TICKS s"
  "READY (put_away s c h) = READY s" "the_cpu (put_away s c h) = the_cpu s" "stack_mem (put_away s c h) = stack_mem s"
  "syms (put_away s c h) = syms s" "NEED_RESCHED (put_away s c h) = NEED_RESCHED s" "skernel.more (put_away s c h) = skernel.more s"
  "ready (sched (put_away s c h)) = ready (sched s) @ (if h = Yield \<and> \<not> is_idle c then [c] else [])"
  by (auto simp: put_away_def Let_def split: next_op.splits)

lemma wake_sleepers_current: "current (wake_sleepers now sc) = current sc"
  by (auto simp: wake_sleepers_def split: prod.splits)

lemma switch_threads_current: "switch_threads s how = Some (cur, t, s1) \<Longrightarrow> current (sched s) = Some cur"
  by (auto simp: switch_threads_def Let_def wake_sleepers_current split: bind_splits)

text \<open>The state in which the next thread is chosen.\<close>

definition parked :: "'a skernel_scheme \<Rightarrow> thread \<Rightarrow> next_op \<Rightarrow> thread list \<Rightarrow> thread list \<Rightarrow> 'a skernel_scheme" where
  "parked s cur how slp woken =
     put_away (s\<lparr>sched := (sched s)\<lparr>sleeping := slp, ready := ready (sched s) @ woken, current := None\<rparr>\<rparr>) cur how"

lemma switch_threads_cases:
  assumes cur: "current (sched s) = Some cur"
  obtains slp woken where "mset slp + mset woken = mset (sleeping (sched s))" "\<forall>t\<in>set woken. wake_at t \<le> uptime_ms s"
    "\<forall>t\<in>set slp. uptime_ms s < wake_at t"
    "switch_threads s how = (case take_next (sched (parked s cur how slp woken)) of
       None \<Rightarrow> None
     | Some (t, sc) \<Rightarrow> Some (cur, t, (load_thread ((parked s cur how slp woken)\<lparr>sched := sc\<rparr>) t)\<lparr>sched := sc\<lparr>current := Some t\<rparr>\<rparr>))"
proof -
  obtain slp woken where w: "wake_sleepers (uptime_ms s) (sched s) = (sched s)\<lparr>sleeping := slp, ready := ready (sched s) @ woken\<rparr>"
    "mset slp + mset woken = mset (sleeping (sched s))" "\<forall>t\<in>set woken. wake_at t \<le> uptime_ms s"
    "\<forall>t\<in>set slp. uptime_ms s < wake_at t"
    by (rule wake_sleepers_spec [OF refl])
  then show thesis
    using that [OF w(2-4)] cur by (simp add: switch_threads_def parked_def load_thread_sched split: option.splits)
qed

lemma switch_threads_spec:
  assumes ok: "idle_ok s" and may: "may_do s how"
  obtains cur t s' where "switch_threads s how = Some (cur, t, s')" "current (sched s) = Some cur" "current (sched s') = Some t"
    "keys s' = keys s" "idle_ok s'" "next_id (sched s') = next_id (sched s)" "next_slot (sched s') = next_slot (sched s)"
    "free_slots (sched s') = free_slots (sched s)" "READY s' = READY s" "the_cpu s' = the_cpu s" "stack_mem s' = stack_mem s"
    "length (waiters s') = length (waiters s)"
proof -
  obtain cur where cur: "current (sched s) = Some cur" using ok by (auto simp: idle_ok_def)
  obtain slp woken where w: "mset slp + mset woken = mset (sleeping (sched s))"
    "switch_threads s how = (case take_next (sched (parked s cur how slp woken)) of
       None \<Rightarrow> None
     | Some (t, sc) \<Rightarrow> Some (cur, t, (load_thread ((parked s cur how slp woken)\<lparr>sched := sc\<rparr>) t)\<lparr>sched := sc\<lparr>current := Some t\<rparr>\<rparr>))"
    by (rule switch_threads_cases [OF cur])
  define s1 where "s1 = s\<lparr>sched := (sched s)\<lparr>sleeping := slp, ready := ready (sched s) @ woken, current := None\<rparr>\<rparr>"
  have cond: "current (sched s1) = None" "idle (sched s1) = None \<or> \<not> is_idle cur"
    "may_do (s1\<lparr>sched := (sched s1)\<lparr>current := Some cur\<rparr>\<rparr>) how"
    using ok cur may by (auto simp: s1_def idle_ok_def may_do_def)
  note p = put_away_keys [OF cond]
  define s2 where "s2 = put_away s1 cur how"
  have s2_parked: "parked s cur how slp woken = s2" by (simp add: s2_def s1_def parked_def)
  have set_slp: "set slp \<union> set woken = set (sleeping (sched s))"
    using w(1) by (metis set_mset_mset set_mset_union)
  have k1: "add_mset (key cur) (keys s1) = keys s"
  proof -
    have "image_mset key (mset (sleeping (sched s))) = image_mset key (mset slp) + image_mset key (mset woken)"
      using w(1) image_mset_union by metis
    then show ?thesis using cur by (simp add: keys_def live_def s1_def ac_simps)
  qed
  have idle2: "if ready (sched s2) = [] then \<exists>i. idle (sched s2) = Some i \<and> is_idle i
      else \<exists>i. idle (sched s2) = Some i \<and> is_idle i"
    using ok cur may by (cases how) (auto simp: s2_def put_away_def s1_def idle_ok_def may_do_def Let_def)
  have busy2: "\<forall>t\<in>set (ready (sched s2) @ sleeping (sched s2) @ concat (waiters s2) @ zombies (sched s2)). \<not> is_idle t"
    using ok cur may set_slp set_concat_update [of _ "waiters s" cur]
    by (cases how) (auto simp: s2_def put_away_def s1_def idle_ok_def may_do_def Let_def)
  obtain t sc where t: "take_next (sched s2) = Some (t, sc)"
    "sc = (if ready (sched s2) = [] then (sched s2)\<lparr>idle := None\<rparr> else (sched s2)\<lparr>ready := tl (ready (sched s2))\<rparr>)"
    "if ready (sched s2) = [] then idle (sched s2) = Some t else ready (sched s2) = t # tl (ready (sched s2))"
    using idle2 by (cases "ready (sched s2)") (auto simp: take_next_def)
  define s3 where "s3 = (load_thread (s2\<lparr>sched := sc\<rparr>) t)\<lparr>sched := sc\<lparr>current := Some t\<rparr>\<rparr>"
  have sw: "switch_threads s how = Some (cur, t, s3)"
    using t(1) w(2) by (simp add: s2_parked s3_def)
  show thesis
  proof (rule that [OF sw cur])
    show "current (sched s3) = Some t" by (simp add: s3_def)
    have "current (sched s2) = None" unfolding s2_def by (rule p(5))
    then have "keys s3 = keys s2" using t(2,3)
      by (cases "ready (sched s2)") (simp_all add: keys_def live_def s3_def load_thread_sched)
    then show "keys s3 = keys s" using p(1) k1 by (simp add: s2_def)
    show "idle_ok s3" using idle2 busy2 t(2,3)
      by (cases "ready (sched s2)") (auto simp: idle_ok_def s3_def load_thread_sched)
  qed (use t(2) p in \<open>auto simp: s3_def load_thread_sched s2_def s1_def put_away_def Let_def split: next_op.splits\<close>)
qed
lemma switch_threads_keeps:
  assumes "idle_ok s" "may_do s how" "switch_threads s how = Some (cur, t, s')"
  shows "current (sched s') = Some t" "keys s' = keys s" "idle_ok s'" "next_id (sched s') = next_id (sched s)"
    "next_slot (sched s') = next_slot (sched s)" "free_slots (sched s') = free_slots (sched s)" "READY s' = READY s"
    "length (waiters s') = length (waiters s)"
  by (rule switch_threads_spec [OF assms(1,2)], use assms(3) in auto)+

section \<open>Lemmas: reaping\<close>

lemma free_thread_spec:
  assumes "free_thread s t = Some s'"
  shows "same_sched (s\<lparr>sched := (sched s)\<lparr>free_slots := free_slots (sched s) @ opt_list (stack_slot t)\<rparr>\<rparr>) s'"
proof -
  obtain s1 where s1: "(case stack_slot t of None \<Rightarrow> Some s
      | Some slot \<Rightarrow> map_option (push_slot slot) (unmap_stack s (slot_base slot) STACK_PAGES)) = Some s1"
    and s': "s' = (case aspace t of None \<Rightarrow> s1 | Some a \<Rightarrow> free_user_half (pml4_phys a) s1)"
    using assms by (auto simp: free_thread_def split: bind_splits)
  have "same_sched s1 s'" unfolding s' by (auto split: option.splits intro: mem_only_sched mem_only_free_user_half)
  moreover have "same_sched (s\<lparr>sched := (sched s)\<lparr>free_slots := free_slots (sched s) @ opt_list (stack_slot t)\<rparr>\<rparr>) s1"
  proof (cases "stack_slot t")
    case (Some slot)
    then obtain s0 where "unmap_stack s (slot_base slot) STACK_PAGES = Some s0" "s1 = push_slot slot s0"
      using s1 by (auto split: option.splits)
    then show ?thesis using unmap_stack_loop_sched [of s "slot_base slot" _ s0] Some
      by (auto simp: same_sched_def push_slot_def unmap_stack_def)
  qed (use s1 in simp)
  ultimately show ?thesis using same_sched_trans by blast
qed

definition freed_slots :: "thread list \<Rightarrow> nat list" where
  "freed_slots ts = concat (map (opt_list \<circ> stack_slot) ts)"

lemma free_threads_spec:
  "free_threads s ts = Some s' \<Longrightarrow> same_sched (s\<lparr>sched := (sched s)\<lparr>free_slots := free_slots (sched s) @ freed_slots ts\<rparr>\<rparr>) s'"
proof (induction ts arbitrary: s)
  case Nil
  then show ?case by (simp add: freed_slots_def same_sched_def)
next
  case (Cons t ts)
  then obtain s1 where "free_thread s t = Some s1" "free_threads s1 ts = Some s'" by (auto split: option.splits)
  then show ?case using free_thread_spec [of s t s1] Cons.IH [of s1] by (simp add: same_sched_def freed_slots_def)
qed

lemma finish_switch_spec:
  assumes "finish_switch s = Some s'"
  shows "same_sched (s\<lparr>sched := (sched s)\<lparr>zombies := [], free_slots := free_slots (sched s) @ freed_slots (zombies (sched s))\<rparr>\<rparr>) s'"
  using free_threads_spec [OF assms [unfolded finish_switch_def]] by simp

lemma slots_freed: "slots_of (image_mset key (mset ts)) = mset (freed_slots ts)"
  by (induction ts) (simp_all add: freed_slots_def key_def)

section \<open>Lemmas: one switch\<close>

lemma key_set_rsp [simp]: "key (set_rsp n r t) = key t" "tid (set_rsp n r t) = tid t" "is_idle (set_rsp n r t) = is_idle t"
  "stack_slot (set_rsp n r t) = stack_slot t" "wake_at (set_rsp n r t) = wake_at t"
  by (simp_all add: set_rsp_def key_def)

lemma map_concat_rsp: "concat (map (map f) xss) = map f (concat xss)"
  by (simp add: map_concat)

lemma keys_store_rsp: "keys (store_rsp n r s) = keys s"
proof -
  have "image_mset key (mset (opt_list (map_option (set_rsp n r) x))) = image_mset key (mset (opt_list x))" for x
    by (cases x) simp_all
  then show ?thesis
    by (simp add: keys_def live_def store_rsp_def map_concat_rsp multiset.map_comp comp_def flip: mset_map)
qed

lemma reschedule_cases:
  assumes "reschedule s how = Some s'"
  obtains cur t s1 where "switch_threads (s\<lparr>SLICE_TICKS := 0, NEED_RESCHED := False\<rparr>) how = Some (cur, t, s1)"
    "if tid cur = tid t then s' = s1
     else \<exists>old c m. switch_context (the_cpu s1) (stack_mem s1) (rsp t) = (old, c, m) \<and>
       same_sched ((store_rsp (tid cur) old (s1\<lparr>the_cpu := c, stack_mem := m\<rparr>))
         \<lparr>sched := (sched (store_rsp (tid cur) old s1))\<lparr>zombies := [],
            free_slots := free_slots (sched s1) @ freed_slots (zombies (sched s1))\<rparr>\<rparr>) s'"
proof -
  obtain cur t s1 where sw: "switch_threads (s\<lparr>SLICE_TICKS := 0, NEED_RESCHED := False\<rparr>) how = Some (cur, t, s1)"
    and r: "(if tid cur = tid t then Some s1
       else case switch_context (the_cpu s1) (stack_mem s1) (rsp t) of
        (old, c, m) \<Rightarrow> finish_switch (store_rsp (tid cur) old (s1\<lparr>the_cpu := c, stack_mem := m\<rparr>))) = Some s'"
    using assms by (auto simp: reschedule_def split: bind_splits)
  have f: "freed_slots (map (set_rsp n old) zs) = freed_slots zs" for n old zs
    by (simp add: freed_slots_def comp_def)
  have "if tid cur = tid t then s' = s1
     else \<exists>old c m. switch_context (the_cpu s1) (stack_mem s1) (rsp t) = (old, c, m) \<and>
       same_sched ((store_rsp (tid cur) old (s1\<lparr>the_cpu := c, stack_mem := m\<rparr>))
         \<lparr>sched := (sched (store_rsp (tid cur) old s1))\<lparr>zombies := [],
            free_slots := free_slots (sched s1) @ freed_slots (zombies (sched s1))\<rparr>\<rparr>) s'"
  proof (cases "tid cur = tid t")
    case False
    obtain old c m where "switch_context (the_cpu s1) (stack_mem s1) (rsp t) = (old, c, m)" by (metis prod_cases3)
    then show ?thesis using False r finish_switch_spec [of "store_rsp (tid cur) old (s1\<lparr>the_cpu := c, stack_mem := m\<rparr>)" s']
      by (simp add: store_rsp_def f)
  qed (use r in simp)
  then show thesis using that sw by blast
qed

lemma reschedule_fields:
  assumes "reschedule s how = Some s'"
  shows "SLICE_TICKS s' = 0" "HZ s' = HZ s" "READY s' = READY s" "TICKS s' = TICKS s" "skernel.more s' = skernel.more s"
proof -
  let ?s0 = "s\<lparr>SLICE_TICKS := 0, NEED_RESCHED := False\<rparr>"
  obtain cur t s1 where sw: "switch_threads ?s0 how = Some (cur, t, s1)"
    and r: "if tid cur = tid t then s' = s1
     else \<exists>old c m. switch_context (the_cpu s1) (stack_mem s1) (rsp t) = (old, c, m) \<and>
       same_sched ((store_rsp (tid cur) old (s1\<lparr>the_cpu := c, stack_mem := m\<rparr>))
         \<lparr>sched := (sched (store_rsp (tid cur) old s1))\<lparr>zombies := [],
            free_slots := free_slots (sched s1) @ freed_slots (zombies (sched s1))\<rparr>\<rparr>) s'"
    using reschedule_cases [OF assms] by blast
  obtain slp woken where st: "switch_threads ?s0 how = (case take_next (sched (parked ?s0 cur how slp woken)) of
       None \<Rightarrow> None
     | Some (t, sc) \<Rightarrow> Some (cur, t, (load_thread ((parked ?s0 cur how slp woken)\<lparr>sched := sc\<rparr>) t)\<lparr>sched := sc\<lparr>current := Some t\<rparr>\<rparr>))"
    by (rule switch_threads_cases [OF switch_threads_current [OF sw]])
  have "SLICE_TICKS s1 = 0" "HZ s1 = HZ s" "READY s1 = READY s" "TICKS s1 = TICKS s" "skernel.more s1 = skernel.more s"
    using sw st by (auto simp: load_thread_sched parked_def put_away_fields split: option.splits)
  then show "SLICE_TICKS s' = 0" "HZ s' = HZ s" "READY s' = READY s" "TICKS s' = TICKS s" "skernel.more s' = skernel.more s"
    using r by (auto simp: same_sched_def store_rsp_def split: if_splits)
qed

text \<open>Whatever a switch is for, the thread at the head of the ready queue runs next, the rest of the queue keeps its
  order, and everything else joins at the back.\<close>

lemma reschedule_head:
  assumes "reschedule s how = Some s'" "ready (sched s) = t # ts"
  shows "map_option tid (current (sched s')) = Some (tid t)" "\<exists>extra. map tid (ready (sched s')) = map tid ts @ extra"
proof -
  let ?s0 = "s\<lparr>SLICE_TICKS := 0, NEED_RESCHED := False\<rparr>"
  obtain cur t' s1 where sw: "switch_threads ?s0 how = Some (cur, t', s1)"
    and r: "if tid cur = tid t' then s' = s1
     else \<exists>old c m. switch_context (the_cpu s1) (stack_mem s1) (rsp t') = (old, c, m) \<and>
       same_sched ((store_rsp (tid cur) old (s1\<lparr>the_cpu := c, stack_mem := m\<rparr>))
         \<lparr>sched := (sched (store_rsp (tid cur) old s1))\<lparr>zombies := [],
            free_slots := free_slots (sched s1) @ freed_slots (zombies (sched s1))\<rparr>\<rparr>) s'"
    using reschedule_cases [OF assms(1)] by blast
  note c = switch_threads_current [OF sw]
  obtain slp woken where st: "switch_threads ?s0 how = (case take_next (sched (parked ?s0 cur how slp woken)) of
       None \<Rightarrow> None
     | Some (t, sc) \<Rightarrow> Some (cur, t, (load_thread ((parked ?s0 cur how slp woken)\<lparr>sched := sc\<rparr>) t)\<lparr>sched := sc\<lparr>current := Some t\<rparr>\<rparr>))"
    by (rule switch_threads_cases [OF c])
  have rd: "\<exists>extra. ready (sched (parked ?s0 cur how slp woken)) = t # ts @ extra"
    using assms(2) by (auto simp: parked_def put_away_fields)
  then have s1: "t' = t" "current (sched s1) = Some t" "\<exists>extra. ready (sched s1) = ts @ extra"
    using sw st by (auto simp: take_next_def load_thread_sched)
  show "map_option tid (current (sched s')) = Some (tid t)" "\<exists>extra. map tid (ready (sched s')) = map tid ts @ extra"
    using r s1 by (auto simp: same_sched_def store_rsp_def comp_def split: if_splits)
qed

lemma reschedule_ok:
  assumes ok: "sched_ok s" and may: "may_do s how" and r: "reschedule s how = Some s'"
  shows "sched_ok s'" "length (waiters s') = length (waiters s)" "keys s' \<subseteq># keys s"
    "next_id (sched s') = next_id (sched s)"
proof -
  let ?s0 = "s\<lparr>SLICE_TICKS := 0, NEED_RESCHED := False\<rparr>"
  have ok0: "idle_ok ?s0" "may_do ?s0 how" "keys ?s0 = keys s" using ok may sched_cong [of ?s0 s]
    by (simp_all add: sched_ok_def)
  obtain cur t s1 where sw: "switch_threads ?s0 how = Some (cur, t, s1)"
    and c: "if tid cur = tid t then s' = s1
     else \<exists>old c m. switch_context (the_cpu s1) (stack_mem s1) (rsp t) = (old, c, m) \<and>
       same_sched ((store_rsp (tid cur) old (s1\<lparr>the_cpu := c, stack_mem := m\<rparr>))
         \<lparr>sched := (sched (store_rsp (tid cur) old s1))\<lparr>zombies := [],
            free_slots := free_slots (sched s1) @ freed_slots (zombies (sched s1))\<rparr>\<rparr>) s'"
    using reschedule_cases [OF r] by blast
  note f = switch_threads_keeps [OF ok0(1,2) sw, unfolded ok0(3)]
  show "length (waiters s') = length (waiters s)"
    using c f by (auto simp: same_sched_def store_rsp_def split: if_splits)
  show "next_id (sched s') = next_id (sched s)"
    using c f by (auto simp: same_sched_def store_rsp_def split: if_splits)
  have "sched_ok s' \<and> keys s' \<subseteq># keys s"
  proof (cases "tid cur = tid t")
    case True
    then show ?thesis using ok c f by (simp add: sched_ok_def keys_ok_def)
  next
    case False
    then obtain old c m where same: "same_sched ((store_rsp (tid cur) old (s1\<lparr>the_cpu := c, stack_mem := m\<rparr>))
       \<lparr>sched := (sched (store_rsp (tid cur) old s1))\<lparr>zombies := [],
          free_slots := free_slots (sched s1) @ freed_slots (zombies (sched s1))\<rparr>\<rparr>) s'"
      using c by auto
    have img: "image_mset key (mset (map (set_rsp n r) xs)) = image_mset key (mset xs)" for n r xs
      by (simp add: multiset.map_comp comp_def)
    have "keys s' + image_mset key (mset (zombies (sched s1))) = keys (store_rsp (tid cur) old s1)"
      using same img by (simp add: keys_def live_def same_sched_def store_rsp_def del: mset_map)
    then have k': "keys s' + image_mset key (mset (zombies (sched s1))) = keys s"
      using f(2) by (simp add: keys_store_rsp)
    have parts: "current (sched s') = current (sched s1)" "idle (sched s') = map_option (set_rsp (tid cur) old) (idle (sched s1))"
      "ready (sched s') = map (set_rsp (tid cur) old) (ready (sched s1))"
      "sleeping (sched s') = map (set_rsp (tid cur) old) (sleeping (sched s1))"
      "concat (waiters s') = map (set_rsp (tid cur) old) (concat (waiters s1))" "zombies (sched s') = []"
      using same by (simp_all add: same_sched_def store_rsp_def map_concat_rsp)
    have i': "idle_ok s'" using f(1,3) unfolding idle_ok_def parts by (auto split: if_splits)
    have sc: "next_id (sched s') = next_id (sched s)" "next_slot (sched s') = next_slot (sched s)" "READY s' = READY s"
      "free_slots (sched s') = free_slots (sched s) @ freed_slots (zombies (sched s1))"
      using same f by (simp_all add: same_sched_def store_rsp_def)
    have "sched_ok s'" using ok k' [symmetric] i' sc slots_freed [of "zombies (sched s1)"]
      by (auto simp: sched_ok_def keys_ok_def ac_simps dest: add_leE)
    then show ?thesis using k' by (metis mset_subset_eq_add_left)
  qed
  then show "sched_ok s'" "keys s' \<subseteq># keys s" by simp_all
qed

section \<open>Lemmas: new threads and wake-ups\<close>

text \<open>Nothing but the slot and number counters changes.\<close>

definition same_threads :: "'a skernel_scheme \<Rightarrow> 'a skernel_scheme \<Rightarrow> bool" where
  "same_threads s s' \<longleftrightarrow> current (sched s') = current (sched s) \<and> ready (sched s') = ready (sched s) \<and>
     sleeping (sched s') = sleeping (sched s) \<and> idle (sched s') = idle (sched s) \<and> zombies (sched s') = zombies (sched s) \<and>
     waiters s' = waiters s \<and> READY s' = READY s \<and> SLICE_TICKS s' = SLICE_TICKS s \<and> HZ s' = HZ s \<and> TICKS s' = TICKS s \<and>
     the_cpu s' = the_cpu s \<and> skernel.more s' = skernel.more s"

lemma same_threads_refl [simp]: "same_threads s s"
  by (simp add: same_threads_def)

lemma same_threads_keys:
  assumes "same_threads s s'"
  shows "keys s' = keys s" "live s' = live s" "idle_ok s' = idle_ok s"
  using assms by (simp_all add: same_threads_def keys_def live_def idle_ok_def)

lemma claim_slot_keys:
  assumes "claim_slot sc = Some (slot, sc')" "keys_ok sc K"
  shows "keys_ok (sc'\<lparr>next_id := next_id sc' + 1\<rparr>) (add_mset (next_id sc', Some slot, b) K)"
    "keys_ok (sc'\<lparr>next_id := next_id sc' + 1, free_slots := free_slots sc' @ [slot]\<rparr>) K"
proof -
  have n: "next_id sc \<notin># image_mset fst K" using assms(2) by (auto simp: keys_ok_def)
  then have c: "count (image_mset fst K) (next_id sc) = 0" by (simp add: count_eq_zero_iff)
  consider "free_slots sc \<noteq> []" "slot = last (free_slots sc)" "sc' = sc\<lparr>free_slots := butlast (free_slots sc)\<rparr>"
    | "free_slots sc = []" "next_slot sc < MAX_SLOTS" "slot = next_slot sc" "sc' = sc\<lparr>next_slot := next_slot sc + 1\<rparr>"
    using assms(1) by (auto simp: claim_slot_def split: if_splits)
  note cases = this
  have "slots_of K + add_mset slot (mset (free_slots sc')) = mset [0..<next_slot sc'] \<and> next_slot sc' \<le> MAX_SLOTS"
  proof (cases rule: cases)
    case 1
    then have "mset (free_slots sc) = add_mset slot (mset (free_slots sc'))"
      using append_butlast_last_id [of "free_slots sc"] mset_append [of "butlast (free_slots sc)" "[last (free_slots sc)]"] by simp
    then show ?thesis using assms(2) 1 by (simp add: keys_ok_def)
  next
    case 2
    then show ?thesis using assms(2) by (simp add: keys_ok_def)
  qed
  note slots = this
  have id: "next_id sc' = next_id sc" by (cases rule: cases) auto
  show "keys_ok (sc'\<lparr>next_id := next_id sc' + 1\<rparr>) (add_mset (next_id sc', Some slot, b) K)"
    using assms(2) slots c by (auto simp: keys_ok_def id less_Suc_eq)
  show "keys_ok (sc'\<lparr>next_id := next_id sc' + 1, free_slots := free_slots sc' @ [slot]\<rparr>) K"
    using assms(2) slots by (auto simp: keys_ok_def id less_Suc_eq)
qed

lemma claim_slot_same:
  assumes "claim_slot sc = Some (slot, sc')"
  shows "current sc' = current sc" "ready sc' = ready sc" "sleeping sc' = sleeping sc" "idle sc' = idle sc" "zombies sc' = zombies sc"
    "next_id sc' = next_id sc"
  using assms by (auto simp: claim_slot_def split: if_splits)

text \<open>The three outcomes: no slot, no memory, a thread.\<close>

lemma create_thread_cases:
  assumes "create_thread s nm entry idl = Some (r, s')"
  obtains "r = None" "s' = s"
  | slot sc where "claim_slot (sched s) = Some (slot, sc)" "r = None" "same_threads s s'"
      "sched s' = sc\<lparr>next_id := next_id sc + 1, free_slots := free_slots sc @ [slot]\<rparr>"
  | slot sc t where "claim_slot (sched s) = Some (slot, sc)" "r = Some t" "same_threads s s'" "sched s' = sc\<lparr>next_id := next_id sc + 1\<rparr>"
      "key t = (next_id sc, Some slot, idl)" "aspace t = None" "rsp t = stack_top slot - 56"
      "stack_mem s' = initial_frame (stack_mem s) (rsp t) entry (thread_trampoline (syms s))"
proof (cases "claim_slot (sched s)")
  case None
  then show ?thesis using assms that(1) by (auto simp: create_thread_def)
next
  case (Some x)
  obtain slot sc where x: "x = (slot, sc)" by force
  note k = claim_slot_same [OF Some [unfolded x]]
  define s1 where "s1 = s\<lparr>sched := sc\<lparr>next_id := next_id sc + 1\<rparr>\<rparr>"
  obtain ok s2 where m: "map_stack s1 (slot_base slot) [0..<STACK_PAGES] = Some (ok, s2)"
    using assms Some by (auto simp: create_thread_def x s1_def Let_def split: option.splits)
  have same: "same_sched s1 s2" using map_stack_sched [OF m] .
  show ?thesis
  proof (cases ok)
    case False
    then have r: "r = None" "s' = push_slot slot s2"
      using assms Some m by (auto simp: create_thread_def x s1_def Let_def)
    have "same_threads s s'" using same k by (simp add: r same_threads_def same_sched_def push_slot_def s1_def)
    then show ?thesis using that(2) [of slot sc] Some r same by (simp add: x same_sched_def push_slot_def s1_def)
  next
    case True
    then have r: "r = Some \<lparr>tid = next_id sc, tname = nm, rsp = stack_top slot - 7 * 8, stack_slot = Some slot, wake_at = 0,
          is_idle = idl, aspace = None, user_entry = 0, user_rsp = 0\<rparr>"
      "s' = s2\<lparr>stack_mem := initial_frame (stack_mem s2) (stack_top slot - 7 * 8) entry (thread_trampoline (syms s2))\<rparr>"
      using assms Some m by (auto simp: create_thread_def x s1_def Let_def)
    have "same_threads s s'" using same k by (simp add: r same_threads_def same_sched_def s1_def)
    then show ?thesis using that(3) [of slot sc] Some r same by (simp add: x same_sched_def s1_def key_def)
  qed
qed

lemma create_thread_keys:
  assumes "create_thread s nm entry idl = Some (r, s')"
  shows "same_threads s s'" "keys_ok (sched s) (keys s) \<Longrightarrow> keys_ok (sched s') (keys s + mset (map key (opt_list r)))"
    "r = Some t \<Longrightarrow> is_idle t = idl \<and> tid t = next_id (sched s) \<and> aspace t = None"
proof -
  show "same_threads s s'" by (rule create_thread_cases [OF assms]) simp_all
  show "keys_ok (sched s) (keys s) \<Longrightarrow> keys_ok (sched s') (keys s + mset (map key (opt_list r)))"
    by (rule create_thread_cases [OF assms]) (simp_all add: claim_slot_keys [simplified])
  show "r = Some t \<Longrightarrow> is_idle t = idl \<and> tid t = next_id (sched s) \<and> aspace t = None"
    by (rule create_thread_cases [OF assms]) (auto simp: key_def claim_slot_same)
qed

lemma push_ready_ok:
  assumes "idle_ok s" "\<not> is_idle t" "keys_ok (sched s) (add_mset (key t) (keys s))" "READY s"
  shows "sched_ok (push_ready t s)"
proof -
  have "keys (push_ready t s) = add_mset (key t) (keys s)" by (simp add: keys_def live_def push_ready_def)
  moreover have "idle_ok (push_ready t s)" using assms(1,2) by (auto simp: idle_ok_def push_ready_def)
  ultimately show ?thesis using assms(3,4) by (simp add: sched_ok_def push_ready_def keys_ok_def)
qed

lemma spawn_ok:
  assumes "sched_ok s"
  shows "spawn s nm entry = Some (r, s') \<Longrightarrow> sched_ok s' \<and> waiters s' = waiters s"
    "spawn_user s nm asp entry usp = Some (r, s') \<Longrightarrow> sched_ok s' \<and> waiters s' = waiters s"
proof -
  have ok: "idle_ok s" "keys_ok (sched s) (keys s)" "READY s" using assms by (simp_all add: sched_ok_def)
  have keep: "sched_ok s1 \<and> waiters s1 = waiters s" if "create_thread s nm e False = Some (None, s1)" for e s1
    using create_thread_keys(1) [OF that] create_thread_keys(2) [OF that ok(2)] same_threads_keys [of s s1] ok
    by (auto simp: sched_ok_def same_threads_def)
  have new: "sched_ok (push_ready t' s1) \<and> waiters (push_ready t' s1) = waiters s"
    if "create_thread s nm e False = Some (Some t, s1)" "key t' = key t" for e t t' s1
  proof -
    note c = create_thread_keys(1) [OF that(1)] create_thread_keys(2) [OF that(1) ok(2)] create_thread_keys(3) [OF that(1)]
    have "\<not> is_idle t'" "keys_ok (sched s1) (add_mset (key t') (keys s1))"
      using c(2,3) that(2) same_threads_keys(1) [OF c(1)] by (auto simp: key_def)
    then show ?thesis
      using push_ready_ok [of s1 t'] c(1) ok same_threads_keys(3) [OF c(1)] by (auto simp: same_threads_def push_ready_def)
  qed
  show "spawn s nm entry = Some (r, s') \<Longrightarrow> sched_ok s' \<and> waiters s' = waiters s"
    using keep new by (auto simp: spawn_def split: option.splits)
  have half: "sched_ok (free_user_half p s1) \<and> waiters (free_user_half p s1) = waiters s"
    if "sched_ok s1 \<and> waiters s1 = waiters s" for p and s1 :: "'a skernel_scheme"
    using mem_only_sched [OF mem_only_free_user_half [of s1 p]] that sched_cong(1,2) [of "free_user_half p s1" s1]
    by (auto simp: same_sched_def sched_ok_def)
  show "spawn_user s nm asp entry usp = Some (r, s') \<Longrightarrow> sched_ok s' \<and> waiters s' = waiters s"
    using keep half new by (auto simp: spawn_user_def key_def split: option.splits)
qed

lemma concat_replace:
  "q < length xss \<Longrightarrow> mset (concat (xss[q := ys])) + mset (xss ! q) = mset (concat xss) + mset ys"
proof (induction xss arbitrary: q)
  case (Cons xs xss)
  then show ?case by (cases q) (auto simp: ac_simps)
qed simp

lemma push_all_ready: "fold push_ready ts s = s\<lparr>sched := (sched s)\<lparr>ready := ready (sched s) @ ts\<rparr>\<rparr>"
  by (induction ts arbitrary: s) (simp_all add: push_ready_def)

text \<open>Both wake-ups move a prefix of the queue to the back of the ready queue.\<close>

lemma move_ready_ok:
  assumes "sched_ok s" "q < length (waiters s)" "waiters s ! q = ts @ rest"
  shows "sched_ok (s\<lparr>waiters := (waiters s)[q := rest], sched := (sched s)\<lparr>ready := ready (sched s) @ ts\<rparr>\<rparr>)"
proof -
  let ?s' = "s\<lparr>waiters := (waiters s)[q := rest], sched := (sched s)\<lparr>ready := ready (sched s) @ ts\<rparr>\<rparr>"
  have m: "mset (concat ((waiters s)[q := rest])) + mset ts = mset (concat (waiters s))"
    using concat_replace [OF assms(2), of rest] assms(3) by (simp add: ac_simps)
  have "keys ?s' = keys s"
    using arg_cong [OF m, where f = "image_mset key"] by (simp add: keys_def live_def ac_simps)
  moreover have "set (concat ((waiters s)[q := rest])) \<union> set ts = set (concat (waiters s))"
    using arg_cong [OF m, where f = set_mset] by simp
  then have "idle_ok ?s'" using assms(1) by (auto simp: sched_ok_def idle_ok_def)
  ultimately show ?thesis using assms(1) by (simp add: sched_ok_def keys_ok_def)
qed

lemma wake_ok:
  assumes "sched_ok s" "q < length (waiters s)"
  shows "wake_one s q = (b, s') \<Longrightarrow> sched_ok s' \<and> length (waiters s') = length (waiters s)"
    "sched_ok (wake_all s q) \<and> length (waiters (wake_all s q)) = length (waiters s)"
proof -
  show "wake_one s q = (b, s') \<Longrightarrow> sched_ok s' \<and> length (waiters s') = length (waiters s)"
    using assms(1) move_ready_ok [OF assms, of "[_]"]
    by (auto simp: wake_one_def push_ready_def split: list.splits)
  show "sched_ok (wake_all s q) \<and> length (waiters (wake_all s q)) = length (waiters s)"
    using move_ready_ok [OF assms, of "waiters s ! q" "[]"] by (simp add: wake_all_def push_all_ready)
qed

section \<open>The system\<close>

text \<open>What can happen: the running thread calls the scheduler, the timer interrupts, or the running thread computes,
  which changes its registers and its stack but not the words other threads have saved.\<close>

datatype sched_op =
  DoYield | DoSleep u64 | DoExit | DoWait nat | DoTick | DoSpawn string u64 | DoSpawnUser string address_space u64 u64 |
  DoWakeOne nat | DoWakeAll nat | DoRun cpu "u64 \<Rightarrow> u64"

definition perform :: "'a skernel_scheme \<Rightarrow> sched_op \<Rightarrow> 'a skernel_scheme option" where
  "perform s f =
     (case f of
        DoYield \<Rightarrow> yield_now s
      | DoSleep ms \<Rightarrow> sleep_ms s ms
      | DoExit \<Rightarrow> sched_exit s
      | DoWait q \<Rightarrow> wq_wait s q
      | DoTick \<Rightarrow> timer_irq s
      | DoSpawn nm entry \<Rightarrow> map_option snd (spawn s nm entry)
      | DoSpawnUser nm asp entry usp \<Rightarrow> map_option snd (spawn_user s nm asp entry usp)
      | DoWakeOne q \<Rightarrow> Some (snd (wake_one s q))
      | DoWakeAll q \<Rightarrow> Some (wake_all s q)
      | DoRun c m \<Rightarrow> Some (s\<lparr>the_cpu := c, stack_mem := m\<rparr>))"

definition frame_words :: "u64 \<Rightarrow> u64 set" where
  "frame_words sp = (\<lambda>k. sp + of_nat k * 8) ` {..<7}"

text \<open>The idle thread only ever yields, wait queues exist, and saved frames are left alone.\<close>

definition allowed :: "'a skernel_scheme \<Rightarrow> sched_op \<Rightarrow> bool" where
  "allowed s f \<longleftrightarrow>
     (\<forall>c. current (sched s) = Some c \<longrightarrow> is_idle c \<longrightarrow> f \<noteq> DoExit \<and> (\<forall>ms. f \<noteq> DoSleep ms) \<and> (\<forall>q. f \<noteq> DoWait q)) \<and>
     (\<forall>q. f = DoWait q \<or> f = DoWakeOne q \<or> f = DoWakeAll q \<longrightarrow> q < length (waiters s)) \<and>
     (\<forall>c m. f = DoRun c m \<longrightarrow> (\<forall>t\<in>set (live s). current (sched s) \<noteq> Some t \<longrightarrow>
        (\<forall>a\<in>frame_words (rsp t). m a = stack_mem s a)))"

lemma on_tick_sched:
  "sched (on_tick s) = sched s" "waiters (on_tick s) = waiters s" "READY (on_tick s) = READY s" "HZ (on_tick s) = HZ s"
  "the_cpu (on_tick s) = the_cpu s" "stack_mem (on_tick s) = stack_mem s"
  by (simp_all add: on_tick_def sched_tick_def Let_def)

lemma sched_ok_cong: "sched s' = sched s \<Longrightarrow> waiters s' = waiters s \<Longrightarrow> READY s' = READY s \<Longrightarrow> sched_ok s' = sched_ok s"
  using sched_cong [of s' s] by (simp add: sched_ok_def)

lemma perform_reschedules:
  assumes "perform s f = Some s'" "READY s"
  shows "f = DoYield \<Longrightarrow> reschedule s Yield = Some s'" "f = DoSleep ms \<Longrightarrow> reschedule s (Sleep (uptime_ms s + ms)) = Some s'"
    "f = DoExit \<Longrightarrow> reschedule s Exit = Some s'" "f = DoWait q \<Longrightarrow> reschedule s (Block q) = Some s'"
    "f = DoTick \<Longrightarrow> if NEED_RESCHED (on_tick s)
       then reschedule ((on_tick s)\<lparr>NEED_RESCHED := False, PREEMPTIONS := PREEMPTIONS (on_tick s) + 1\<rparr>) Yield = Some s'
       else s' = on_tick s"
  using assms
  by (simp_all add: perform_def yield_now_def sleep_ms_def sched_exit_def wq_wait_def timer_irq_def preempt_if_needed_def split: if_splits)

lemma perform_ok:
  assumes ok: "sched_ok s" and al: "allowed s f" and p: "perform s f = Some s'"
  shows "sched_ok s' \<and> length (waiters s') = length (waiters s)"
proof -
  have rd: "READY s" using ok by (simp add: sched_ok_def)
  note r = perform_reschedules [OF p rd]
  show ?thesis
  proof (cases f)
    case DoYield
    show ?thesis using reschedule_ok [OF ok _ r(1) [OF DoYield]] by (simp add: may_do_def)
  next
    case (DoSleep ms)
    show ?thesis using reschedule_ok [OF ok _ r(2) [OF DoSleep]] al DoSleep by (simp add: may_do_def allowed_def)
  next
    case DoExit
    show ?thesis using reschedule_ok [OF ok _ r(3) [OF DoExit]] al DoExit by (simp add: may_do_def allowed_def)
  next
    case (DoWait q)
    show ?thesis using reschedule_ok [OF ok _ r(4) [OF DoWait]] al DoWait by (simp add: may_do_def allowed_def)
  next
    case DoTick
    let ?s1 = "(on_tick s)\<lparr>NEED_RESCHED := False, PREEMPTIONS := PREEMPTIONS (on_tick s) + 1\<rparr>"
    have 1: "sched_ok (on_tick s)" "sched_ok ?s1" "may_do ?s1 Yield"
      using sched_ok_cong [of "on_tick s" s] sched_ok_cong [of ?s1 s] ok by (simp_all add: on_tick_sched may_do_def)
    show ?thesis using r(5) [OF DoTick] reschedule_ok [OF 1(2,3)] 1(1) by (cases "NEED_RESCHED (on_tick s)") (simp_all add: on_tick_sched)
  next
    case (DoSpawn nm entry)
    then show ?thesis using p spawn_ok(1) [OF ok] by (auto simp: perform_def)
  next
    case (DoSpawnUser nm asp entry usp)
    then show ?thesis using p spawn_ok(2) [OF ok] by (auto simp: perform_def)
  next
    case (DoWakeOne q)
    then have "wake_one s q = (fst (wake_one s q), s')" using p by (auto simp: perform_def)
    then show ?thesis using wake_ok(1) [OF ok, of q "fst (wake_one s q)" s'] al DoWakeOne by (simp add: allowed_def)
  next
    case (DoWakeAll q)
    then show ?thesis using wake_ok(2) [OF ok] p al by (auto simp: perform_def allowed_def)
  next
    case (DoRun c m)
    then show ?thesis using p ok sched_ok_cong [of s' s] by (auto simp: perform_def)
  qed
qed

inductive sched_reachable :: "'a skernel_scheme \<Rightarrow> bool" where
  started: "sched s0 = scheduler_new \<Longrightarrow> waiters s0 = replicate n [] \<Longrightarrow> sched_init s0 = Some s \<Longrightarrow> READY s \<Longrightarrow> \<not> READY s0 \<Longrightarrow>
    sched_reachable s"
| performed: "sched_reachable s \<Longrightarrow> allowed s f \<Longrightarrow> perform s f = Some s' \<Longrightarrow> sched_reachable s'"

lemma started_ok:
  assumes "sched s0 = scheduler_new" "waiters s0 = replicate n []" "sched_init s0 = Some s" "READY s" "\<not> READY s0"
  shows "sched_ok s"
proof -
  have k0: "keys s0 = {#}" "keys_ok (sched s0) (keys s0)"
    using assms(1,2) by (simp_all add: keys_def live_def scheduler_new_def keys_ok_def)
  obtain r s1 where c: "create_thread s0 ''idle'' (idle_main (syms s0)) True = Some (r, s1)"
    using assms(3) by (auto simp: sched_init_def split: option.splits)
  note k = create_thread_keys(1) [OF c] create_thread_keys(2) [OF c k0(2)] create_thread_keys(3) [OF c]
  obtain t where r: "r = Some t"
    using assms(3,4,5) c k(1) by (cases r) (auto simp: sched_init_def same_threads_def)
  have i: "is_idle t" "tid t = 1" using k(3) [OF r] assms(1) by (simp_all add: scheduler_new_def)
  have "keys_ok (sched s1) {#key t#}" using k(2) k0(1) r by simp
  then have k1: "1 < next_id (sched s1)" "slots_of {#key t#} + mset (free_slots (sched s1)) = mset [0..<next_slot (sched s1)]"
    "next_slot (sched s1) \<le> MAX_SLOTS" using i by (simp_all add: keys_ok_def key_def)
  have s1: "ready (sched s1) = []" "sleeping (sched s1) = []" "zombies (sched s1) = []" "waiters s1 = replicate n []"
    using k(1) assms(1,2) by (simp_all add: same_threads_def scheduler_new_def)
  define boot where "boot = \<lparr>tid = 0, tname = ''boot'', rsp = 0, stack_slot = None, wake_at = 0, is_idle = False,
     aspace = None, user_entry = 0, user_rsp = 0\<rparr>"
  have s: "s = s1\<lparr>sched := (sched s1)\<lparr>current := Some boot, idle := Some t\<rparr>, READY := True\<rparr>"
    using assms(3) c r by (simp add: sched_init_def boot_def)
  have "keys s = {#key boot, key t#}" using s1 by (simp add: keys_def live_def s)
  moreover have "idle_ok s" using s1 i(1) by (simp add: idle_ok_def s boot_def)
  ultimately show ?thesis using k1 i by (auto simp: sched_ok_def keys_ok_def s key_def boot_def)
qed

lemma sched_reachable_ok: "sched_reachable s \<Longrightarrow> sched_ok s"
proof (induction rule: sched_reachable.induct)
  case (started s0 s)
  then show ?case by (rule started_ok)
next
  case (performed s f s')
  then show ?case using perform_ok by blast
qed

section \<open>Lemmas: progress\<close>

fun run_ops :: "'a skernel_scheme \<Rightarrow> sched_op list \<Rightarrow> 'a skernel_scheme option" where
  "run_ops s [] = Some s"
| "run_ops s (f # fs) = (case perform s f of None \<Rightarrow> None | Some s' \<Rightarrow> run_ops s' fs)"

definition slice_len :: "'a skernel_scheme \<Rightarrow> nat" where
  "slice_len s = unat (max (frequency_hz s * TIME_SLICE_MS div 1000) 1)"

lemma slice_len_pos: "0 < slice_len s"
proof -
  have "1 \<le> max (frequency_hz s * TIME_SLICE_MS div 1000) (1 :: u64)" by simp
  then have "unat (1 :: u64) \<le> slice_len s" unfolding slice_len_def by (rule word_le_nat_alt [THEN iffD1])
  then show ?thesis by simp
qed

text \<open>How many timer interrupts may pass before the thread at place \<open>k\<close> of the ready queue runs.\<close>

definition wait_bound :: "'a skernel_scheme \<Rightarrow> nat \<Rightarrow> nat" where
  "wait_bound s k = k * slice_len s + max 1 (slice_len s - unat (SLICE_TICKS s))"

definition waits_at :: "'a skernel_scheme \<Rightarrow> nat \<Rightarrow> nat \<Rightarrow> bool" where
  "waits_at s k n \<longleftrightarrow> k < length (ready (sched s)) \<and> tid (ready (sched s) ! k) = n"

lemma switch_progress:
  assumes "waits_at s k n" "reschedule s how = Some s'"
  shows "current_id s' = n \<or> (\<exists>j. k = Suc j \<and> waits_at s' j n)" "slice_len s' = slice_len s" "SLICE_TICKS s' = 0" "READY s' = READY s"
proof -
  obtain t ts where r: "ready (sched s) = t # ts" using assms(1) by (cases "ready (sched s)") (auto simp: waits_at_def)
  note h = reschedule_head [OF assms(2) r]
  show "slice_len s' = slice_len s" "SLICE_TICKS s' = 0" "READY s' = READY s"
    using reschedule_fields [OF assms(2)] by (simp_all add: slice_len_def frequency_hz_def)
  obtain extra where e: "map tid (ready (sched s')) = map tid ts @ extra" using h(2) by blast
  show "current_id s' = n \<or> (\<exists>j. k = Suc j \<and> waits_at s' j n)"
  proof (cases k)
    case 0
    then show ?thesis using assms(1) r h(1) by (auto simp: waits_at_def current_id_def)
  next
    case (Suc j)
    then have j: "j < length ts" "tid (ts ! j) = n" using assms(1) r by (auto simp: waits_at_def)
    have "j < length (map tid (ready (sched s')))" using j(1) unfolding e by simp
    moreover have "map tid (ready (sched s')) ! j = n" using j unfolding e by (simp add: nth_append)
    ultimately show ?thesis using Suc by (simp add: waits_at_def)
  qed
qed

lemma reschedule_bound:
  assumes "waits_at s k n" "reschedule s how = Some s'"
  shows "current_id s' = n \<or> (\<exists>j. waits_at s' j n \<and> wait_bound s' j < wait_bound s k)"
proof -
  note p = switch_progress [OF assms]
  from p(1) show ?thesis
  proof
    assume "\<exists>j. k = Suc j \<and> waits_at s' j n"
    then obtain j where j: "k = Suc j" "waits_at s' j n" by blast
    have "wait_bound s' j < wait_bound s k"
      using j(1) p(2,3) slice_len_pos [of s] by (simp add: wait_bound_def)
    then show ?thesis using j(2) by blast
  qed simp
qed

text \<open>Operations that do not switch only add to the back of the queue.\<close>

definition appends :: "'a skernel_scheme \<Rightarrow> 'a skernel_scheme \<Rightarrow> bool" where
  "appends s s' \<longleftrightarrow> (\<exists>extra. ready (sched s') = ready (sched s) @ extra) \<and> HZ s' = HZ s \<and> SLICE_TICKS s' = SLICE_TICKS s \<and>
     READY s' = READY s"

lemma waits_appended:
  assumes "waits_at s k n" "appends s s'"
  shows "waits_at s' k n" "wait_bound s' k = wait_bound s k"
  using assms by (auto simp: appends_def waits_at_def nth_append wait_bound_def slice_len_def frequency_hz_def)

lemma appends_step:
  "create_thread s nm e b = Some (x, s1) \<Longrightarrow> appends s s1" "appends s s1 \<Longrightarrow> appends s (push_ready t s1)"
  "appends s s1 \<Longrightarrow> appends s (free_user_half p s1)"
proof -
  show "create_thread s nm e b = Some (x, s1) \<Longrightarrow> appends s s1"
    by (frule create_thread_keys(1)) (simp add: same_threads_def appends_def)
  show "appends s s1 \<Longrightarrow> appends s (push_ready t s1)" by (auto simp: appends_def push_ready_def)
  show "appends s s1 \<Longrightarrow> appends s (free_user_half p s1)"
    using mem_only_sched [OF mem_only_free_user_half [of s1 p]] by (auto simp: appends_def same_sched_def)
qed

lemma spawn_appends:
  "spawn s nm entry = Some (r, s') \<Longrightarrow> appends s s'" "spawn_user s nm asp entry usp = Some (r, s') \<Longrightarrow> appends s s'"
proof -
  assume a: "spawn s nm entry = Some (r, s')"
  then obtain x s1 where c: "create_thread s nm entry False = Some (x, s1)" by (auto simp: spawn_def split: option.splits)
  show "appends s s'" using a c appends_step(1) [OF c] appends_step(2) [OF appends_step(1) [OF c]]
    by (cases x) (auto simp: spawn_def)
next
  assume a: "spawn_user s nm asp entry usp = Some (r, s')"
  then obtain x s1 where c: "create_thread s nm (user_thread_main (syms s)) False = Some (x, s1)"
    by (auto simp: spawn_user_def split: option.splits)
  show "appends s s'" using a c appends_step(2,3) [OF appends_step(1) [OF c]]
    by (cases x) (auto simp: spawn_user_def)
qed

lemma tick_progress:
  assumes w: "waits_at s k n" and rd: "READY s" and p: "timer_irq s = Some s'" and small: "unat (SLICE_TICKS s) + 1 < 2 ^ 64"
  shows "current_id s' = n \<or> (\<exists>j. waits_at s' j n \<and> READY s' \<and> wait_bound s' j < wait_bound s k)"
proof -
  let ?u = "SLICE_TICKS s + 1"
  have u: "unat ?u = unat (SLICE_TICKS s) + 1" using small by (simp add: unat_add_u64)
  have ne: "ready (sched s) \<noteq> []" using w by (auto simp: waits_at_def)
  have t: "SLICE_TICKS (on_tick s) = ?u" "frequency_hz (on_tick s) = frequency_hz s"
    using rd by (simp_all add: on_tick_def sched_tick_def Let_def frequency_hz_def)
  have len: "slice_len (on_tick s) = slice_len s" by (simp add: slice_len_def t)
  show ?thesis
  proof (cases "NEED_RESCHED (on_tick s)")
    case True
    let ?s1 = "(on_tick s)\<lparr>NEED_RESCHED := False, PREEMPTIONS := PREEMPTIONS (on_tick s) + 1\<rparr>"
    have r: "reschedule ?s1 Yield = Some s'" using p True by (simp add: timer_irq_def preempt_if_needed_def)
    have w1: "waits_at ?s1 k n" using w by (simp add: waits_at_def on_tick_sched)
    have "slice_len ?s1 = slice_len s" using len by (simp add: slice_len_def frequency_hz_def)
    then have "wait_bound ?s1 k \<le> wait_bound s k" using u by (simp add: wait_bound_def t(1))
    then show ?thesis using reschedule_bound [OF w1 r] switch_progress(4) [OF w1 r] rd
      by (fastforce simp: on_tick_sched)
  next
    case False
    then have s': "s' = on_tick s" using p by (simp add: timer_irq_def preempt_if_needed_def)
    have "\<not> max (frequency_hz s * TIME_SLICE_MS div 1000) 1 \<le> ?u"
      using False rd ne by (auto simp: on_tick_def sched_tick_def Let_def frequency_hz_def split: if_splits)
    then have "unat ?u < slice_len s" unfolding slice_len_def by (simp add: word_le_nat_alt)
    then have "wait_bound s' k < wait_bound s k" using u by (simp add: wait_bound_def s' t(1) len)
    moreover have "waits_at s' k n" "READY s'" using w rd by (simp_all add: s' waits_at_def on_tick_sched)
    ultimately show ?thesis by blast
  qed
qed

text \<open>Every operation keeps or shortens the wait, and a timer interrupt shortens it.\<close>

lemma perform_progress:
  assumes w: "waits_at s k n" and rd: "READY s" and p: "perform s f = Some s'" and small: "unat (SLICE_TICKS s) + 1 < 2 ^ 64"
  shows "current_id s' = n \<or> (\<exists>j. waits_at s' j n \<and> READY s' \<and> wait_bound s' j + (if f = DoTick then 1 else 0) \<le> wait_bound s k)"
proof -
  note r = perform_reschedules [OF p rd]
  have sw: ?thesis if "reschedule s how = Some s'" "f \<noteq> DoTick" for how
    using reschedule_bound [OF w that(1)] switch_progress(4) [OF w that(1)] rd that(2) by fastforce
  have ap: ?thesis if "appends s s'" "f \<noteq> DoTick"
    using waits_appended [OF w that(1)] that rd by (auto simp: appends_def)
  show ?thesis
  proof (cases f)
    case DoYield
    then show ?thesis using sw r(1) by simp
  next
    case (DoSleep ms)
    then show ?thesis using sw r(2) [OF DoSleep] by simp
  next
    case DoExit
    then show ?thesis using sw r(3) by simp
  next
    case (DoWait q)
    then show ?thesis using sw r(4) [OF DoWait] by simp
  next
    case DoTick
    then show ?thesis using tick_progress [OF w rd _ small] p by (fastforce simp: perform_def)
  next
    case (DoSpawn nm entry)
    then show ?thesis using p by (intro ap) (auto simp: perform_def intro: spawn_appends)
  next
    case (DoSpawnUser nm asp entry usp)
    then show ?thesis using p by (intro ap) (auto simp: perform_def intro: spawn_appends)
  next
    case (DoWakeOne q)
    then show ?thesis using p
      by (intro ap) (auto simp: perform_def wake_one_def push_ready_def appends_def split: list.splits)
  next
    case (DoWakeAll q)
    then show ?thesis using p by (intro ap) (auto simp: perform_def wake_all_def push_all_ready appends_def)
  next
    case (DoRun c m)
    then show ?thesis using p by (intro ap) (auto simp: perform_def appends_def)
  qed
qed

lemma slice_ticks_grow:
  assumes "READY s" "perform s f = Some s'" "unat (SLICE_TICKS s) + 1 < 2 ^ 64"
  shows "unat (SLICE_TICKS s') \<le> unat (SLICE_TICKS s) + 1"
proof -
  note r = perform_reschedules [OF assms(2,1)]
  have tick: "SLICE_TICKS (on_tick s) = SLICE_TICKS s + 1" using assms(1) by (simp add: on_tick_def sched_tick_def Let_def)
  then have tick': "unat (SLICE_TICKS (on_tick s)) = unat (SLICE_TICKS s) + 1" using assms(3) by (simp add: unat_add_u64)
  have sw: ?thesis if "reschedule x how = Some s'" for x how using reschedule_fields(1) [OF that] by simp
  have ap: ?thesis if "appends s s'" using that by (simp add: appends_def)
  show ?thesis
  proof (cases f)
    case DoTick
    then show ?thesis using r(5) sw tick' by (cases "NEED_RESCHED (on_tick s)") auto
  next
    case (DoSpawn nm entry)
    then show ?thesis using assms(2) by (intro ap) (auto simp: perform_def intro: spawn_appends)
  next
    case (DoSpawnUser nm asp entry usp)
    then show ?thesis using assms(2) by (intro ap) (auto simp: perform_def intro: spawn_appends)
  next
    case (DoWakeOne q)
    then show ?thesis using assms(2) by (auto simp: perform_def wake_one_def push_ready_def split: list.splits)
  next
    case (DoWakeAll q)
    then show ?thesis using assms(2) by (auto simp: perform_def wake_all_def push_all_ready)
  next
    case (DoRun c m)
    then show ?thesis using assms(2) by (auto simp: perform_def)
  qed (use r sw in blast)+
qed

lemma run_progress:
  assumes "waits_at s k n" "READY s" "run_ops s fs = Some s'" "unat (SLICE_TICKS s) + length fs < 2 ^ 64"
    "wait_bound s k \<le> length (filter (\<lambda>f. f = DoTick) fs)"
  shows "\<exists>j\<le>length fs. \<exists>s1. run_ops s (take j fs) = Some s1 \<and> current_id s1 = n"
  using assms
proof (induction fs arbitrary: s k)
  case Nil
  then show ?case by (simp add: wait_bound_def)
next
  case (Cons f fs)
  obtain s1 where p: "perform s f = Some s1" "run_ops s1 fs = Some s'" using Cons.prems(3) by (auto split: option.splits)
  have small: "unat (SLICE_TICKS s) + 1 < 2 ^ 64" using Cons.prems(4) by simp
  from perform_progress [OF Cons.prems(1,2) p(1) small] show ?case
  proof
    assume "current_id s1 = n"
    then show ?thesis using p(1) by (intro exI [of _ 1]) simp
  next
    assume "\<exists>j. waits_at s1 j n \<and> READY s1 \<and> wait_bound s1 j + (if f = DoTick then 1 else 0) \<le> wait_bound s k"
    then obtain j where j: "waits_at s1 j n" "READY s1" "wait_bound s1 j + (if f = DoTick then 1 else 0) \<le> wait_bound s k" by blast
    have "wait_bound s1 j \<le> length (filter (\<lambda>f. f = DoTick) fs)" using j(3) Cons.prems(5) by (auto split: if_splits)
    moreover have "unat (SLICE_TICKS s1) + length fs < 2 ^ 64"
      using slice_ticks_grow [OF Cons.prems(2) p(1) small] Cons.prems(4) by simp
    ultimately obtain i s2 where "i \<le> length fs" "run_ops s1 (take i fs) = Some s2" "current_id s2 = n"
      using Cons.IH [OF j(1,2) p(2)] by blast
    then show ?thesis using p(1) by (intro exI [of _ "Suc i"]) simp
  qed
qed

section \<open>Properties\<close>

text \<open>C13. A thread in the ready queue gets the CPU after a bounded number of timer interrupts, whatever the other threads
  do and even if none of them ever gives it up: with \<open>k\<close> threads before it, at most \<open>k + 1\<close> time slices pass.\<close>

theorem ready_thread_runs:
  assumes "READY s" "k < length (ready (sched s))" "run_ops s fs = Some s'"
    "unat (SLICE_TICKS s) + length fs < 2 ^ 64" "(k + 1) * slice_len s \<le> length (filter (\<lambda>f. f = DoTick) fs)"
  shows "\<exists>j\<le>length fs. \<exists>s1. run_ops s (take j fs) = Some s1 \<and> current_id s1 = tid (ready (sched s) ! k)"
proof (rule run_progress [OF _ assms(1,3,4)])
  show "waits_at s k (tid (ready (sched s) ! k))" using assms(2) by (simp add: waits_at_def)
  show "wait_bound s k \<le> length (filter (\<lambda>f. f = DoTick) fs)"
    using assms(5) slice_len_pos [of s] by (simp add: wait_bound_def)
qed

section \<open>Lemmas: a stack is mapped\<close>

lemma alloc_frame_vm:
  assumes "vm_ok s root" "alloc_frame s = (r, s1)" "kernel_free s \<noteq> {}"
  shows "vm_ok s1 root" "\<exists>f. r = Some (of_nat f * PAGE_SIZE) \<and> f < 1099511627776" "card (kernel_free s) = Suc (card (kernel_free s1))"
    "mem s1 = mem s"
proof -
  have ok: "kernel_ok s" "kernel_limit s \<le> 1099511627776" "vm_inv (mem s) root (kernel_free s)" using assms(1) by (auto simp: vm_ok_def)
  obtain f where f: "r = Some (of_nat f * PAGE_SIZE)" "f \<in> kernel_free s" "kernel_free s1 = kernel_free s - {f}"
    "kernel_ok s1" "kernel_limit s1 = kernel_limit s"
    using alloc_frame_law [OF ok(1)] assms(2,3) by auto
  show m: "mem s1 = mem s" using assms(2) by (auto simp: alloc_frame_def Let_def split: option.splits prod.splits)
  show "vm_ok s1 root" using ok f m vm_inv_mono [OF ok(3), of "kernel_free s - {f}"] by (auto simp: vm_ok_def)
  have "f < kernel_limit s" using frames.frees_limit [OF ok(1)] f(2) by auto
  then show "\<exists>f. r = Some (of_nat f * PAGE_SIZE) \<and> f < 1099511627776" using f(1) ok(2) by auto
  have "finite (kernel_free s)" using frames.frees_limit [OF ok(1)] finite_subset by blast
  then show "card (kernel_free s) = Suc (card (kernel_free s1))" using f(2,3) by (metis card_Suc_Diff1)
qed

lemma walk_mem: "mem s' = mem s \<Longrightarrow> walk s' root v = walk s root v"
proof -
  assume "mem s' = mem s"
  then have "read_entry s' = read_entry s" by (simp add: read_entry_def fun_eq_iff)
  then show ?thesis unfolding walk_def by (simp only:)
qed

lemma map_stack_spec:
  assumes "vmm_lock s = Some root" "vm_ok s root" "4 * length is \<le> card (kernel_free s)"
  shows "\<exists>s'. map_stack s base is = Some (True, s') \<and> vmm_lock s' = Some root \<and> vm_ok s' root \<and>
    card (kernel_free s) \<le> card (kernel_free s') + 4 * length is \<and>
    (\<forall>v. (\<exists>i\<in>set is. same_page v (base + (1 + of_nat i) * PAGE_SIZE)) \<longrightarrow> translate s' v \<noteq> None) \<and>
    (\<forall>v. (\<forall>i\<in>set is. \<not> same_page v (base + (1 + of_nat i) * PAGE_SIZE)) \<longrightarrow> translate s' v = translate s v)"
  using assms
proof (induction "is" arbitrary: s)
  case (Cons i "is")
  obtain r s1 where a: "alloc_frame s = (r, s1)" by force
  have ne: "kernel_free s \<noteq> {}" using Cons.prems(3) by auto
  note v = alloc_frame_vm [OF Cons.prems(2) a ne]
  obtain phys where r: "r = Some phys" using v(2) by auto
  have l1: "vmm_lock s1 = Some root" using mem_only_vmm [OF mem_only_frames(1) [OF a]] Cons.prems(1) by simp
  let ?p = "base + (1 + of_nat i) * PAGE_SIZE"
  have "KERNEL_RW AND ADDR_MASK = 0" by (rule kernel_flags_mask) simp
  then obtain s2 where m: "map4k s1 root ?p phys KERNEL_RW = Some s2" "vm_ok s2 root" "mem_only s1 s2"
    "card (kernel_free s1) \<le> card (kernel_free s2) + 3"
    "\<forall>v. walk s2 root v = (if vpath v = vpath ?p then Some ((phys AND ADDR_MASK) + (v AND (PAGE_SIZE - 1))) else walk s1 root v)"
    using map4k_spec [OF v(1), of KERNEL_RW ?p phys] Cons.prems(3) v(3) by auto
  have l2: "vmm_lock s2 = Some root" using mem_only_vmm [OF m(3)] l1 by simp
  have tr: "translate s2 v = (if same_page v ?p then Some ((phys AND ADDR_MASK) + (v AND (PAGE_SIZE - 1))) else translate s v)" for v
    using m(5) l2 Cons.prems(1) walk_mem [OF v(4), of root] by (simp add: translate_def vpath_eq_iff)
  have "4 * length is \<le> card (kernel_free s2)" using Cons.prems(3) v(3) m(4) by simp
  from Cons.IH [OF l2 m(2) this] obtain s' where s': "map_stack s2 base is = Some (True, s')" "vmm_lock s' = Some root" "vm_ok s' root"
    "card (kernel_free s2) \<le> card (kernel_free s') + 4 * length is"
    "\<forall>v. (\<exists>i\<in>set is. same_page v (base + (1 + of_nat i) * PAGE_SIZE)) \<longrightarrow> translate s' v \<noteq> None"
    "\<forall>v. (\<forall>i\<in>set is. \<not> same_page v (base + (1 + of_nat i) * PAGE_SIZE)) \<longrightarrow> translate s' v = translate s2 v"
    by blast
  have mp: "map_page s1 ?p phys KERNEL_RW = Some s2" using m(1) l1 by (simp add: map_page_def)
  have "map_stack s base (i # is) = Some (True, s')" using a r mp s'(1) by simp
  moreover have "card (kernel_free s) \<le> card (kernel_free s') + 4 * length (i # is)" using s'(4) v(3) m(4) by simp
  moreover have "translate s' v \<noteq> None" if "\<exists>j\<in>set (i # is). same_page v (base + (1 + of_nat j) * PAGE_SIZE)" for v
    using that s'(5,6) tr by (metis option.distinct(1) set_ConsD)
  moreover have "translate s' v = translate s v" if "\<forall>j\<in>set (i # is). \<not> same_page v (base + (1 + of_nat j) * PAGE_SIZE)" for v
    using that s'(6) tr by simp
  ultimately show ?case using s'(2,3) by blast
qed simp

section \<open>A running scheduler\<close>

definition sched_pmm :: pmm where
  "sched_pmm = \<lparr>bitmap = [0xFFFF, 0], bitmap_words = 2, total_frames = 128, free_frames = 112, usable_frames = 112,
     next_hint = 0, regions = [], region_count = 0\<rparr>"

definition cpu_zero :: cpu where
  "cpu_zero = \<lparr>cpu_rsp = 0x9000, rbp = 0, rbx = 0, r12 = 0, r13 = 0, r14 = 0, r15 = 0, rip = 0\<rparr>"

definition sched_kernel :: skernel where
  "sched_kernel = \<lparr>hhdm_offset = 0, pmm_lock = Some sched_pmm, mem = (\<lambda>_. 0), vmm_lock = Some 0x1000, KERNEL_CR3 = 0x1000, cr3 = 0x1000,
     sched = scheduler_new, waiters = [[]], READY = False, SLICE_TICKS = 0, NEED_RESCHED = False, PREEMPTIONS = 0, TICKS = 0, HZ = 100,
     rsp0 = 0, the_cpu = cpu_zero, stack_mem = (\<lambda>_. 0), syms = \<lparr>thread_trampoline = 1, idle_main = 2, user_thread_main = 3\<rparr>\<rparr>"

lemma sched_pmm_free: "filter (\<lambda>i. \<not> bm_test_bit [0xFFFF, 0] i) [0..<128] = [16..<128]"
proof -
  have b: "bm_test_bit [0xFFFF, 0] i = (i < 16)" if "i < 128" for i
  proof (cases "i < 64")
    case True
    have "(0xFFFF :: u64) = mask 16" by (simp add: mask_eq_exp_minus_1)
    moreover have "bit (mask 16 :: u64) i = (i < 16)" using True by (auto simp only: bit_mask_iff) simp
    moreover have "bm_test_bit [0xFFFF, 0] i = bit (0xFFFF :: u64) i" using True by (simp add: bm_test_bit_iff)
    ultimately show ?thesis by (simp only:)
  next
    case False
    then have "i div 64 = 1" using that by simp
    then show ?thesis using False by (simp add: bm_test_bit_iff)
  qed
  have "[0..<128] = [0..<16] @ [16..<128]" using upt_add_eq_append [of 0 16 112] by (simp del: upt_rec_numeral)
  moreover have "filter (\<lambda>i. \<not> bm_test_bit [0xFFFF, 0] i) [0..<16] = []" using b by (simp add: filter_empty_conv del: upt_rec_numeral)
  moreover have "filter (\<lambda>i. \<not> bm_test_bit [0xFFFF, 0] i) [16..<128] = [16..<128]" using b by (simp add: filter_id_conv del: upt_rec_numeral)
  ultimately show ?thesis by (simp del: upt_rec_numeral)
qed

lemma sched_pmm_inv: "pmm_inv sched_pmm" "free_set sched_pmm = {16..<128}"
proof -
  have f: "filter (\<lambda>i. \<not> bm_test_bit (bitmap sched_pmm) i) [0..<64 * length (bitmap sched_pmm)] = [16..<128]"
    using sched_pmm_free by (simp add: sched_pmm_def)
  show "free_set sched_pmm = {16..<128}" unfolding free_set_list f by (rule set_upt)
  show "pmm_inv sched_pmm" unfolding pmm_inv_list f Let_def by (simp add: sched_pmm_def list_all_iff del: upt_rec_numeral)
qed

lemma empty_tables: "tbl_at (\<lambda>_. 0) root p = (if p = [] then Some root else None)"
  by (cases p) (auto simp: Let_def)

lemma sched_kernel_frames:
  "kernel_ok sched_kernel" "kernel_free sched_kernel = {16..<128}" "kernel_limit sched_kernel = 128" "mem sched_kernel = (\<lambda>_. 0)"
proof -
  have p: "pmm_lock sched_kernel = Some sched_pmm" by (simp add: sched_kernel_def)
  show "kernel_ok sched_kernel" "kernel_free sched_kernel = {16..<128}" "kernel_limit sched_kernel = 128"
    by (simp_all add: kernel_ok_def kernel_free_def kernel_limit_def p sched_pmm_inv) (simp add: sched_pmm_def)
qed (simp add: sched_kernel_def)

lemma sched_kernel_ok: "vm_ok sched_kernel 0x1000"
proof -
  have "vm_inv (\<lambda>_. 0) 0x1000 {16..<128}" by (auto simp: vm_inv_def empty_tables page_aligned_def split: if_splits)
  then show ?thesis by (simp add: vm_ok_def sched_kernel_frames)
qed

lemma sched_init_reaches:
  assumes new: "sched s0 = scheduler_new" "waiters s0 = replicate n []" "\<not> READY s0"
    and vm: "vmm_lock s0 = Some root" "vm_ok s0 root" "64 \<le> card (kernel_free s0)"
  shows "\<exists>s t. sched_init s0 = Some s \<and> READY s \<and> sched_reachable s \<and> ready (sched s) = [] \<and> idle (sched s) = Some t \<and> is_idle t \<and>
    tid t = 1 \<and> current_id s = 0 \<and> zombies (sched s) = [] \<and> waiters s = waiters s0 \<and> skernel.more s = skernel.more s0"
proof -
  define s1 where "s1 = s0\<lparr>sched := scheduler_new\<lparr>next_slot := 1, next_id := 2\<rparr>\<rparr>"
  have s1: "vmm_lock s1 = Some root" "vm_ok s1 root" "4 * length [0..<STACK_PAGES] \<le> card (kernel_free s1)"
    using vm by (simp_all add: s1_def vm_ok_def kernel_ok_def kernel_free_def kernel_limit_def STACK_PAGES_def)
  obtain s2 where s2: "map_stack s1 (slot_base 0) [0..<STACK_PAGES] = Some (True, s2)"
    using map_stack_spec [OF s1] by blast
  have c: "claim_slot (sched s0) = Some (0, scheduler_new\<lparr>next_slot := 1\<rparr>)"
    by (simp add: claim_slot_def new(1) scheduler_new_def MAX_SLOTS_def)
  obtain t s3 where t: "create_thread s0 ''idle'' (idle_main (syms s0)) True = Some (Some t, s3)"
    using s2 by (simp add: create_thread_def c s1_def Let_def numeral_2_eq_2 scheduler_new_def)
  define boot where "boot = \<lparr>tid = 0, tname = ''boot'', rsp = 0, stack_slot = None, wake_at = 0, is_idle = False,
     aspace = None, user_entry = 0, user_rsp = 0\<rparr>"
  define s where "s = s3\<lparr>sched := (sched s3)\<lparr>current := Some boot, idle := Some t\<rparr>, READY := True\<rparr>"
  have i: "sched_init s0 = Some s" using t by (simp add: sched_init_def s_def boot_def)
  have "sched_reachable s"
    by (rule sched_reachable.started [OF new(1,2) i]) (simp_all add: new(3) s_def)
  moreover have "ready (sched s) = []" "zombies (sched s) = []" "waiters s = waiters s0" "skernel.more s = skernel.more s0"
    using create_thread_keys(1) [OF t] by (simp_all add: s_def same_threads_def new(1) scheduler_new_def)
  ultimately show ?thesis using i create_thread_keys(3) [OF t, of t]
    by (auto simp: s_def current_id_def boot_def new(1) scheduler_new_def)
qed

lemma sched_kernel_init:
  "\<exists>s t. sched_init sched_kernel = Some s \<and> READY s \<and> sched_reachable s \<and> ready (sched s) = [] \<and> idle (sched s) = Some t \<and> is_idle t"
  using sched_init_reaches [of sched_kernel 1, OF _ _ _ _ sched_kernel_ok] sched_kernel_frames(2)
  by (fastforce simp: sched_kernel_def)

section \<open>Lemmas: sleepers\<close>

lemma reschedule_sleeper:
  assumes r: "reschedule s how = Some s'" and t: "t \<in> set (sleeping (sched s))"
  shows "if wake_at t \<le> uptime_ms s then current_id s' = tid t \<or> tid t \<in> tid ` set (ready (sched s'))
    else tid t \<in> tid ` set (sleeping (sched s'))"
proof -
  let ?s0 = "s\<lparr>SLICE_TICKS := 0, NEED_RESCHED := False\<rparr>"
  obtain cur n s1 where sw: "switch_threads ?s0 how = Some (cur, n, s1)"
    and c: "if tid cur = tid n then s' = s1
     else \<exists>old c m. switch_context (the_cpu s1) (stack_mem s1) (rsp n) = (old, c, m) \<and>
       same_sched ((store_rsp (tid cur) old (s1\<lparr>the_cpu := c, stack_mem := m\<rparr>))
         \<lparr>sched := (sched (store_rsp (tid cur) old s1))\<lparr>zombies := [],
            free_slots := free_slots (sched s1) @ freed_slots (zombies (sched s1))\<rparr>\<rparr>) s'"
    using reschedule_cases [OF r] by blast
  have up: "uptime_ms ?s0 = uptime_ms s" by (simp add: uptime_ms_def frequency_hz_def Let_def)
  obtain slp woken where w: "mset slp + mset woken = mset (sleeping (sched ?s0))" "\<forall>t\<in>set woken. wake_at t \<le> uptime_ms ?s0"
    "\<forall>t\<in>set slp. uptime_ms ?s0 < wake_at t"
    and st: "switch_threads ?s0 how = (case take_next (sched (parked ?s0 cur how slp woken)) of
       None \<Rightarrow> None
     | Some (t, sc) \<Rightarrow> Some (cur, t, (load_thread ((parked ?s0 cur how slp woken)\<lparr>sched := sc\<rparr>) t)\<lparr>sched := sc\<lparr>current := Some t\<rparr>\<rparr>))"
    by (rule switch_threads_cases [OF switch_threads_current [OF sw]])
  have mem: "t \<in> set slp \<or> t \<in> set woken" using arg_cong [OF w(1), of set_mset] t by auto
  have keep: "sleeping (sched s') = sleeping (sched s1) \<or> (\<exists>old. sleeping (sched s') = map (set_rsp (tid cur) old) (sleeping (sched s1)))"
    "ready (sched s') = ready (sched s1) \<or> (\<exists>old. ready (sched s') = map (set_rsp (tid cur) old) (ready (sched s1)))"
    "current (sched s') = current (sched s1)"
    using c by (auto simp: same_sched_def store_rsp_def split: if_splits)
  have slp: "tid ` set (sleeping (sched s')) = tid ` set (sleeping (sched s1))" using keep(1) by (auto simp: image_image)
  have rdy: "tid ` set (ready (sched s')) = tid ` set (ready (sched s1))" using keep(2) by (auto simp: image_image)
  have "set slp \<subseteq> set (sleeping (sched s1))"
    using sw st by (auto simp: take_next_def load_thread_sched parked_def put_away_def Let_def split: option.splits list.splits next_op.splits if_splits)
  moreover have "set woken \<subseteq> insert n (set (ready (sched s1)))"
  proof -
    have "set woken \<subseteq> set (ready (sched (parked ?s0 cur how slp woken)))" by (auto simp: parked_def put_away_fields)
    then show ?thesis using sw st by (auto simp: take_next_def load_thread_sched split: option.splits list.splits)
  qed
  moreover have "current (sched s1) = Some n" using sw st by (auto simp: load_thread_sched split: option.splits)
  ultimately show ?thesis using mem w(2,3) keep(3) slp rdy by (auto simp: up current_id_def)
qed

lemma reschedule_total:
  assumes "idle_ok s" "may_do s how" "how \<noteq> Exit" "zombies (sched s) = []"
  shows "\<exists>s'. reschedule s how = Some s'"
proof -
  let ?s0 = "s\<lparr>SLICE_TICKS := 0, NEED_RESCHED := False\<rparr>"
  have ok0: "idle_ok ?s0" "may_do ?s0 how" using assms(1,2) sched_cong [of ?s0 s] by simp_all
  obtain cur n s1 where sw: "switch_threads ?s0 how = Some (cur, n, s1)" by (rule switch_threads_spec [OF ok0]) blast
  obtain slp woken where st: "switch_threads ?s0 how = (case take_next (sched (parked ?s0 cur how slp woken)) of
       None \<Rightarrow> None
     | Some (t, sc) \<Rightarrow> Some (cur, t, (load_thread ((parked ?s0 cur how slp woken)\<lparr>sched := sc\<rparr>) t)\<lparr>sched := sc\<lparr>current := Some t\<rparr>\<rparr>))"
    by (rule switch_threads_cases [OF switch_threads_current [OF sw]])
  have "zombies (sched (parked ?s0 cur how slp woken)) = []"
    using assms(3,4) by (auto simp: parked_def put_away_def Let_def split: next_op.splits)
  then have "zombies (sched s1) = []"
    using sw st by (auto simp: take_next_def load_thread_sched split: option.splits list.splits)
  then show ?thesis using sw by (simp add: reschedule_def finish_switch_def store_rsp_def split: prod.splits)
qed

lemma timer_irq_total:
  assumes "idle_ok s" "zombies (sched s) = []"
  shows "\<exists>s'. timer_irq s = Some s' \<and> uptime_ms s' = uptime_ms (on_tick s)"
proof (cases "NEED_RESCHED (on_tick s)")
  case True
  let ?s1 = "(on_tick s)\<lparr>NEED_RESCHED := False, PREEMPTIONS := PREEMPTIONS (on_tick s) + 1\<rparr>"
  have "idle_ok ?s1" "may_do ?s1 Yield" using assms(1) sched_cong [of ?s1 s] by (simp_all add: on_tick_sched may_do_def)
  then obtain s' where "reschedule ?s1 Yield = Some s'" using reschedule_total assms(2) by (fastforce simp: on_tick_sched)
  then show ?thesis using True reschedule_fields(2,4) [of ?s1 Yield s']
    by (simp add: timer_irq_def preempt_if_needed_def uptime_ms_def frequency_hz_def Let_def)
qed (simp add: timer_irq_def preempt_if_needed_def)

section \<open>Properties\<close>

lemma distinct_count: "(\<forall>a. count (mset xs) a \<le> 1) \<Longrightarrow> distinct xs"
proof -
  assume le: "\<forall>a. count (mset xs) a \<le> 1"
  have "count (mset xs) a = (if a \<in> set xs then 1 else 0)" for a
    using le [rule_format, of a] count_greater_zero_iff [of "mset xs" a] by (cases "a \<in> set xs") (simp_all add: le_antisym Suc_leI)
  then show ?thesis by (simp add: distinct_count_atmost_1)
qed



text \<open>C15. A sleeping thread becomes ready, or runs, with the first timer interrupt at which its time has come, and stays
  asleep through every interrupt before that.\<close>

theorem sleeper_wakes_on_time:
  assumes "READY s" "t \<in> set (sleeping (sched s))" "timer_irq s = Some s'"
  shows "if wake_at t \<le> uptime_ms s' then current_id s' = tid t \<or> tid t \<in> tid ` set (ready (sched s'))
    else tid t \<in> tid ` set (sleeping (sched s'))"
proof (cases "NEED_RESCHED (on_tick s)")
  case True
  let ?s1 = "(on_tick s)\<lparr>NEED_RESCHED := False, PREEMPTIONS := PREEMPTIONS (on_tick s) + 1\<rparr>"
  have r: "reschedule ?s1 Yield = Some s'" using assms(3) True by (simp add: timer_irq_def preempt_if_needed_def)
  have "uptime_ms ?s1 = uptime_ms s'"
    using reschedule_fields(2,4) [OF r] by (simp add: uptime_ms_def frequency_hz_def Let_def)
  then show ?thesis using reschedule_sleeper [OF r, of t] assms(2) by (simp add: on_tick_sched)
next
  case False
  then have s': "s' = on_tick s" using assms(3) by (simp add: timer_irq_def preempt_if_needed_def)
  have "\<not> list_ex (\<lambda>t. wake_at t \<le> uptime_ms (on_tick s)) (sleeping (sched s))"
    using False assms(1) by (auto simp: on_tick_def sched_tick_def Let_def uptime_ms_def frequency_hz_def split: if_splits)
  then show ?thesis using assms(2) by (auto simp: s' on_tick_sched list_ex_iff)
qed

text \<open>Two threads and a sleeper.\<close>

definition plain_thread :: "nat \<Rightarrow> nat \<Rightarrow> u64 \<Rightarrow> bool \<Rightarrow> thread" where
  "plain_thread n slot at idl = \<lparr>tid = n, tname = ''t'', rsp = 0, stack_slot = Some slot, wake_at = at, is_idle = idl,
     aspace = None, user_entry = 0, user_rsp = 0\<rparr>"

definition busy_kernel :: skernel where
  "busy_kernel = sched_kernel\<lparr>sched := \<lparr>current = Some (plain_thread 2 1 0 False), ready = [plain_thread 3 2 0 False],
     sleeping = [plain_thread 4 3 10 False], idle = Some (plain_thread 1 0 0 True), zombies = [], free_slots = [],
     next_slot = 4, next_id = 5\<rparr>, READY := True\<rparr>"

lemma busy_tick: "\<exists>s'. timer_irq busy_kernel = Some s' \<and> uptime_ms s' = 10" "slice_len busy_kernel = 1"
proof -
  have "idle_ok busy_kernel" "zombies (sched busy_kernel) = []"
    by (simp_all add: busy_kernel_def idle_ok_def plain_thread_def sched_kernel_def)
  moreover have "uptime_ms (on_tick busy_kernel) = 10"
    by (simp add: on_tick_def sched_tick_def Let_def uptime_ms_def frequency_hz_def busy_kernel_def sched_kernel_def)
  ultimately show "\<exists>s'. timer_irq busy_kernel = Some s' \<and> uptime_ms s' = 10" using timer_irq_total by metis
  show "slice_len busy_kernel = 1"
    by (simp add: slice_len_def frequency_hz_def busy_kernel_def sched_kernel_def TIME_SLICE_MS_def)
qed

theorem sleeper_wakes_on_time_witness:
  "\<exists>s'. timer_irq busy_kernel = Some s' \<and> (current_id s' = 4 \<or> 4 \<in> tid ` set (ready (sched s')))"
proof -
  obtain s' where s': "timer_irq busy_kernel = Some s'" "uptime_ms s' = 10" using busy_tick by blast
  have t: "plain_thread 4 3 10 False \<in> set (sleeping (sched busy_kernel))" "READY busy_kernel"
    by (simp_all add: busy_kernel_def)
  show ?thesis using sleeper_wakes_on_time [OF t(2,1) s'(1)] s' by (simp add: plain_thread_def)
qed

lemma reschedule_sleeps:
  assumes r: "reschedule s (Sleep at) = Some s'" and c: "current (sched s) = Some c"
  shows "\<exists>t\<in>set (sleeping (sched s')). tid t = tid c \<and> wake_at t = at"
proof -
  let ?s0 = "s\<lparr>SLICE_TICKS := 0, NEED_RESCHED := False\<rparr>"
  obtain cur n s1 where sw: "switch_threads ?s0 (Sleep at) = Some (cur, n, s1)"
    and k: "if tid cur = tid n then s' = s1
     else \<exists>old c m. switch_context (the_cpu s1) (stack_mem s1) (rsp n) = (old, c, m) \<and>
       same_sched ((store_rsp (tid cur) old (s1\<lparr>the_cpu := c, stack_mem := m\<rparr>))
         \<lparr>sched := (sched (store_rsp (tid cur) old s1))\<lparr>zombies := [],
            free_slots := free_slots (sched s1) @ freed_slots (zombies (sched s1))\<rparr>\<rparr>) s'"
    using reschedule_cases [OF r] by blast
  have cur: "cur = c" using switch_threads_current [OF sw] c by simp
  obtain slp woken where st: "switch_threads ?s0 (Sleep at) = (case take_next (sched (parked ?s0 cur (Sleep at) slp woken)) of
       None \<Rightarrow> None
     | Some (t, sc) \<Rightarrow> Some (cur, t, (load_thread ((parked ?s0 cur (Sleep at) slp woken)\<lparr>sched := sc\<rparr>) t)\<lparr>sched := sc\<lparr>current := Some t\<rparr>\<rparr>))"
    by (rule switch_threads_cases [OF switch_threads_current [OF sw]])
  have "c\<lparr>wake_at := at\<rparr> \<in> set (sleeping (sched s1))"
    using sw st cur by (auto simp: take_next_def load_thread_sched parked_def put_away_def split: option.splits list.splits)
  moreover have "\<exists>f. sleeping (sched s') = map f (sleeping (sched s1)) \<and> (\<forall>t. tid (f t) = tid t \<and> wake_at (f t) = wake_at t)"
  proof (cases "tid cur = tid n")
    case True
    then show ?thesis using k by (intro exI [of _ "\<lambda>t. t"]) simp
  next
    case False
    then obtain old c m where "same_sched ((store_rsp (tid cur) old (s1\<lparr>the_cpu := c, stack_mem := m\<rparr>))
         \<lparr>sched := (sched (store_rsp (tid cur) old s1))\<lparr>zombies := [],
            free_slots := free_slots (sched s1) @ freed_slots (zombies (sched s1))\<rparr>\<rparr>) s'"
      using k by auto
    then have "sleeping (sched s') = map (set_rsp (tid cur) old) (sleeping (sched s1))"
      by (simp add: same_sched_def store_rsp_def)
    then show ?thesis by (intro exI [of _ "set_rsp (tid cur) old"]) simp
  qed
  ultimately obtain f where f: "sleeping (sched s') = map f (sleeping (sched s1))"
      "\<forall>t. tid (f t) = tid t \<and> wake_at (f t) = wake_at t" and c: "c\<lparr>wake_at := at\<rparr> \<in> set (sleeping (sched s1))"
    by blast
  have "f (c\<lparr>wake_at := at\<rparr>) \<in> set (sleeping (sched s'))" unfolding f(1) set_map by (rule imageI [OF c])
  with f(2) show ?thesis by (intro bexI [of _ "f (c\<lparr>wake_at := at\<rparr>)"]) simp_all
qed

text \<open>The kernel adds the time to sleep to the uptime without a check. A thread that asks for the longest possible sleep
  is put to sleep with a time that has already passed, so that the next timer interrupt wakes it.\<close>

theorem sleep_overflow:
  assumes "READY s" "0 < uptime_ms s" "current (sched s) = Some c" "sleep_ms s (- 1) = Some s'"
  shows "\<exists>t\<in>set (sleeping (sched s')). tid t = tid c \<and> wake_at t < uptime_ms s'"
proof -
  have r: "reschedule s (Sleep (uptime_ms s - 1)) = Some s'" using assms(1,4) by (simp add: sleep_ms_def)
  have "uptime_ms s' = uptime_ms s"
    using reschedule_fields(2,4) [OF r] by (simp add: uptime_ms_def frequency_hz_def Let_def)
  moreover have "uptime_ms s - 1 < uptime_ms s"
    using assms(2) unat_minus_one [of "uptime_ms s"] by (cases "uptime_ms s = 0") (simp_all add: word_less_nat_alt)
  ultimately show ?thesis using reschedule_sleeps [OF r assms(3)] by auto
qed

definition later_kernel :: skernel where
  "later_kernel = busy_kernel\<lparr>TICKS := 7\<rparr>"

theorem sleep_overflow_witness:
  "\<exists>s'. sleep_ms later_kernel (- 1) = Some s' \<and> (\<exists>t\<in>set (sleeping (sched s')). tid t = 2 \<and> wake_at t < uptime_ms s')"
proof -
  have l: "READY later_kernel" "uptime_ms later_kernel = 70" "current (sched later_kernel) = Some (plain_thread 2 1 0 False)"
    by (simp_all add: later_kernel_def busy_kernel_def sched_kernel_def uptime_ms_def frequency_hz_def Let_def)
  have "idle_ok later_kernel" "zombies (sched later_kernel) = []" "may_do later_kernel (Sleep w)" for w
    by (simp_all add: later_kernel_def busy_kernel_def idle_ok_def may_do_def plain_thread_def sched_kernel_def)
  then obtain s' where s': "sleep_ms later_kernel (- 1) = Some s'"
    using reschedule_total [of later_kernel "Sleep (uptime_ms later_kernel + - 1)"] l(1) by (auto simp: sleep_ms_def)
  show ?thesis using sleep_overflow [OF l(1) _ l(3) s'] s' l(2) by (simp add: plain_thread_def)
qed

theorem ready_thread_runs_witness:
  "\<exists>s'. run_ops busy_kernel [DoTick] = Some s' \<and>
     (\<exists>j\<le>1. \<exists>s1. run_ops busy_kernel (take j [DoTick]) = Some s1 \<and> current_id s1 = 3)"
proof -
  obtain s' where s': "run_ops busy_kernel [DoTick] = Some s'" using busy_tick(1) by (auto simp: perform_def)
  have "READY busy_kernel" "0 < length (ready (sched busy_kernel))" "unat (SLICE_TICKS busy_kernel) + length [DoTick] < 2 ^ 64"
    "(0 + 1) * slice_len busy_kernel \<le> length (filter (\<lambda>f. f = DoTick) [DoTick])" "tid (ready (sched busy_kernel) ! 0) = 3"
    using busy_tick(2) by (simp_all add: busy_kernel_def plain_thread_def sched_kernel_def)
  then show ?thesis using ready_thread_runs [of busy_kernel 0 "[DoTick]" s'] s' by fastforce
qed

section \<open>Lemmas: the pages of a slot\<close>

lemma same_page_number: "same_page v w \<longleftrightarrow> unat v div 4096 mod 2 ^ 36 = unat w div 4096 mod 2 ^ 36"
proof -
  have u: "unat (take_bit 36 (drop_bit 12 v)) = unat v div 4096 mod 2 ^ 36" for v :: u64
    by (simp add: take_bit_eq_mod drop_bit_eq_div unat_div_distrib unat_mod_distrib)
  have "same_page v w \<longleftrightarrow> take_bit 36 (drop_bit 12 v) = take_bit 36 (drop_bit 12 w)"
    unfolding same_page_bits word_eq_bits bit_take_bit_iff bit_drop_bit_eq comp_def
    using all_shift [of 36 "\<lambda>n. bit v n = bit w n" 12] by auto
  then show ?thesis by (simp add: word_unat_eq_iff u)
qed

lemma slot_page:
  assumes "slot < MAX_SLOTS" "k < 32" "n < 4096"
  shows "unat (slot_base slot + of_nat k * PAGE_SIZE + of_nat n) = 18446744072098938880 + slot * 131072 + k * 4096 + n"
proof -
  have 1: "unat (of_nat slot * SLOT_SIZE :: u64) = slot * 131072"
    using assms(1) by (simp add: SLOT_SIZE_def MAX_SLOTS_def unat_word_ariths unat_of_nat_u64)
  have 2: "unat (of_nat k * PAGE_SIZE :: u64) = k * 4096"
    using assms(2) by (simp add: unat_word_ariths unat_of_nat_u64)
  have 3: "unat (of_nat n :: u64) = n" using assms(3) by (simp add: unat_of_nat_u64)
  have b: "unat (slot_base slot) = 18446744072098938880 + slot * 131072"
    unfolding slot_base_def using assms(1) 1 by (subst unat_add_u64) (simp_all add: STACK_REGION_def MAX_SLOTS_def)
  have "unat (slot_base slot + of_nat k * PAGE_SIZE) = 18446744072098938880 + slot * 131072 + k * 4096"
    using assms b 2 by (subst unat_add_u64) (simp_all add: MAX_SLOTS_def)
  then show ?thesis using assms 3 by (subst unat_add_u64) (simp_all add: MAX_SLOTS_def)
qed

lemma slot_same_page:
  assumes "slot < MAX_SLOTS" "i < 32" "j < 32" "n < 4096"
  shows "same_page (slot_base slot + of_nat i * PAGE_SIZE + of_nat n) (slot_base slot + of_nat j * PAGE_SIZE) \<longleftrightarrow> i = j"
proof -
  have d: "(18446744072098938880 + slot * 131072 + k * 4096 + m) div 4096 = 4503599626977280 + slot * 32 + k" if "m < 4096" for k m
    using that by simp
  have "unat (slot_base slot + of_nat i * PAGE_SIZE + of_nat n) div 4096 = 4503599626977280 + slot * 32 + i"
    "unat (slot_base slot + of_nat j * PAGE_SIZE) div 4096 = 4503599626977280 + slot * 32 + j"
    using slot_page [OF assms(1,2,4)] slot_page [OF assms(1,3), of 0] d [of n i] d [of 0 j] assms(4) by simp_all
  moreover have "(4503599626977280 + slot * 32 + k) mod 2 ^ 36 = 68719083520 + slot * 32 + k" if "k < 32" for k
  proof -
    have "4503599626977280 + slot * 32 + k = 65535 * 2 ^ 36 + (68719083520 + slot * 32 + k)" by simp
    moreover have "68719083520 + slot * 32 + k < 2 ^ 36" using that assms(1) by (simp add: MAX_SLOTS_def)
    ultimately show ?thesis by (metis mod_less mod_mult_self3)
  qed
  ultimately show ?thesis using assms(2,3) by (simp add: same_page_number)
qed

lemma initial_frame_regs:
  "saved_regs (initial_frame m sp entry trampoline) sp =
     \<lparr>cpu_rsp = sp + 56, rbp = 0, rbx = 0, r12 = entry, r13 = 0, r14 = 0, r15 = 0, rip = trampoline\<rparr>"
  by (simp add: saved_regs_def initial_frame_def upt_conv_Cons)

text \<open>C14. With a slot and enough memory, creating a thread succeeds: every page of its stack is mapped, no other
  translation changes, so the guard page below the stack stays as it was, and the first switch to the thread starts
  \<open>thread_trampoline\<close> at the top of that stack with the entry point in \<open>r12\<close>.\<close>

theorem create_thread_correct:
  assumes "vmm_lock s = Some root" "vm_ok s root" "64 \<le> card (kernel_free s)"
    "claim_slot (sched s) = Some (slot, sc)" "slot < MAX_SLOTS"
  shows "\<exists>t s'. create_thread s nm entry idl = Some (Some t, s') \<and> stack_slot t = Some slot \<and> vm_ok s' root \<and>
    (\<forall>i n. 1 \<le> i \<and> i \<le> STACK_PAGES \<and> n < 4096 \<longrightarrow> translate s' (slot_base slot + of_nat i * PAGE_SIZE + of_nat n) \<noteq> None) \<and>
    (\<forall>n<4096. translate s' (slot_base slot + of_nat n) = translate s (slot_base slot + of_nat n)) \<and>
    (\<forall>v. (\<forall>i. 1 \<le> i \<and> i \<le> STACK_PAGES \<longrightarrow> \<not> same_page v (slot_base slot + of_nat i * PAGE_SIZE)) \<longrightarrow>
       translate s' v = translate s v) \<and>
    saved_regs (stack_mem s') (rsp t) =
      \<lparr>cpu_rsp = stack_top slot, rbp = 0, rbx = 0, r12 = entry, r13 = 0, r14 = 0, r15 = 0, rip = thread_trampoline (syms s)\<rparr>"
proof -
  define s1 where "s1 = s\<lparr>sched := sc\<lparr>next_id := next_id sc + 1\<rparr>\<rparr>"
  have 1: "vmm_lock s1 = Some root" "vm_ok s1 root" "4 * length [0..<STACK_PAGES] \<le> card (kernel_free s1)"
    "translate s1 = translate s"
    using assms(1-3) walk_mem [of s1 s]
    by (simp_all add: s1_def vm_ok_def kernel_ok_def kernel_free_def kernel_limit_def STACK_PAGES_def translate_def fun_eq_iff)
  obtain s2 where s2: "map_stack s1 (slot_base slot) [0..<STACK_PAGES] = Some (True, s2)" "vm_ok s2 root" "vmm_lock s2 = Some root"
    "\<forall>v. (\<exists>i\<in>set [0..<STACK_PAGES]. same_page v (slot_base slot + (1 + of_nat i) * PAGE_SIZE)) \<longrightarrow> translate s2 v \<noteq> None"
    "\<forall>v. (\<forall>i\<in>set [0..<STACK_PAGES]. \<not> same_page v (slot_base slot + (1 + of_nat i) * PAGE_SIZE)) \<longrightarrow> translate s2 v = translate s1 v"
    using map_stack_spec [OF 1(1-3), of "slot_base slot"] by blast
  define t where "t = \<lparr>tid = next_id sc, tname = nm, rsp = stack_top slot - 7 * 8, stack_slot = Some slot, wake_at = 0, is_idle = idl,
     aspace = None, user_entry = 0, user_rsp = 0\<rparr>"
  define s' where "s' = s2\<lparr>stack_mem := initial_frame (stack_mem s2) (rsp t) entry (thread_trampoline (syms s2))\<rparr>"
  have c: "create_thread s nm entry idl = Some (Some t, s')"
    using s2(1) [unfolded s1_def] assms(4) by (simp add: create_thread_def Let_def s'_def t_def)
  have tr: "translate s' v = translate s2 v" for v
    using walk_mem [of s' s2] s2(3) by (simp add: translate_def s'_def)
  have pg: "slot_base slot + (1 + of_nat i) * PAGE_SIZE = slot_base slot + of_nat (Suc i) * PAGE_SIZE" for i
    by (simp add: algebra_simps)
  have mapped: "translate s' (slot_base slot + of_nat i * PAGE_SIZE + of_nat n) \<noteq> None" if "1 \<le> i" "i \<le> STACK_PAGES" "n < 4096" for i n
  proof -
    define j where "j = i - 1"
    then have j: "i = Suc j" using that(1) by simp
    then have "same_page (slot_base slot + of_nat i * PAGE_SIZE + of_nat n) (slot_base slot + (1 + of_nat j) * PAGE_SIZE)"
      unfolding pg using slot_same_page [OF assms(5), of i "Suc j" n] that by (simp add: STACK_PAGES_def)
    then show ?thesis using s2(4) j that(2) unfolding tr by (metis Suc_le_lessD atLeast0LessThan lessThan_iff set_upt)
  qed
  have other: "translate s' v = translate s v"
    if "\<forall>i. 1 \<le> i \<and> i \<le> STACK_PAGES \<longrightarrow> \<not> same_page v (slot_base slot + of_nat i * PAGE_SIZE)" for v
    unfolding tr 1(4) [symmetric] using s2(5) that pg by (metis Suc_le_eq atLeast0LessThan le_add1 lessThan_iff plus_1_eq_Suc set_upt)
  have guard: "translate s' (slot_base slot + of_nat n) = translate s (slot_base slot + of_nat n)" if "n < 4096" for n
  proof (rule other, intro allI impI)
    fix i assume "1 \<le> i \<and> i \<le> STACK_PAGES"
    then show "\<not> same_page (slot_base slot + of_nat n) (slot_base slot + of_nat i * PAGE_SIZE)"
      using slot_same_page [OF assms(5), of 0 i n] that by (simp add: STACK_PAGES_def)
  qed
  have "syms s2 = syms s" using map_stack_sched [OF s2(1)] by (simp add: same_sched_def s1_def)
  then have regs: "saved_regs (stack_mem s') (rsp t) =
      \<lparr>cpu_rsp = stack_top slot, rbp = 0, rbx = 0, r12 = entry, r13 = 0, r14 = 0, r15 = 0, rip = thread_trampoline (syms s)\<rparr>"
    by (simp add: s'_def initial_frame_regs t_def)
  have "vm_ok s' root" using s2(2) by (simp add: s'_def vm_ok_def kernel_ok_def kernel_free_def kernel_limit_def)
  then show ?thesis using c mapped guard other regs by (intro exI [of _ t] exI [of _ s']) (auto simp: t_def)
qed

theorem create_thread_correct_witness:
  "\<exists>t s'. create_thread sched_kernel ''w'' 0x77 False = Some (Some t, s') \<and> stack_slot t = Some 0 \<and>
     translate s' (slot_base 0 + of_nat 16 * PAGE_SIZE + of_nat 8) \<noteq> None \<and> r12 (saved_regs (stack_mem s') (rsp t)) = 0x77"
proof -
  have k: "vmm_lock sched_kernel = Some 0x1000" "64 \<le> card (kernel_free sched_kernel)"
    "claim_slot (sched sched_kernel) = Some (0, scheduler_new\<lparr>next_slot := 1\<rparr>)" "0 < MAX_SLOTS"
    by (simp_all add: sched_kernel_frames) (simp_all add: sched_kernel_def claim_slot_def scheduler_new_def MAX_SLOTS_def)
  have b: "1 \<le> (16 :: nat) \<and> 16 \<le> STACK_PAGES \<and> (8 :: nat) < 4096" by (simp add: STACK_PAGES_def)
  note w = create_thread_correct [OF k(1) sched_kernel_ok k(2-4), of "''w''" "0x77" False]
  show ?thesis
  proof (rule exE [OF w], elim exE conjE)
    fix t s' assume "create_thread sched_kernel ''w'' 0x77 False = Some (Some t, s')" "stack_slot t = Some 0"
      and m: "\<forall>i n. 1 \<le> i \<and> i \<le> STACK_PAGES \<and> n < 4096 \<longrightarrow> translate s' (slot_base 0 + of_nat i * PAGE_SIZE + of_nat n) \<noteq> None"
      and r: "saved_regs (stack_mem s') (rsp t) = \<lparr>cpu_rsp = stack_top 0, rbp = 0, rbx = 0, r12 = 0x77, r13 = 0, r14 = 0, r15 = 0,
        rip = thread_trampoline (syms sched_kernel)\<rparr>"
    moreover have "translate s' (slot_base 0 + of_nat 16 * PAGE_SIZE + of_nat 8) \<noteq> None" using m b by blast
    ultimately show ?thesis by (intro exI [of _ t] exI [of _ s'] conjI) (simp_all add: r)
  qed
qed

end
