(* ===== verification/Blocking.thy ===== *)
theory Blocking
  imports Scheduler
begin

text \<open>
  The blocking mutex and semaphore, \<open>src/blocking.rs\<close>, on the wait queues of \<open>Scheduler\<close>: a thread that cannot proceed
  parks itself, and whoever releases the resource wakes one waiter.

  A wait queue is named by its number. Steps of different threads interleave: a call of \<open>lock\<close> or \<open>acquire\<close> is one step
  per round of its loop, which runs with interrupts off, and a release is two steps, the store and the wake-up, between
  which the timer may interrupt.
\<close>

section \<open>The primitives\<close>

record 'd mutex =
  locked :: bool
  mqueue :: nat
  mdata :: 'd

record semaphore =
  sem_count :: int
  squeue :: nat

record 'd bkernel = skernel +
  mutexes :: "'d mutex list"
  semaphores :: "semaphore list"

definition mutex_new :: "'d \<Rightarrow> nat \<Rightarrow> 'd mutex" where
  "mutex_new v q = \<lparr>locked = False, mqueue = q, mdata = v\<rparr>"

definition mutex_swap :: "'d mutex \<Rightarrow> bool \<times> 'd mutex" where
  "mutex_swap x = (\<not> locked x, x\<lparr>locked := True\<rparr>)"

definition mutex_clear :: "'d mutex \<Rightarrow> 'd mutex" where
  "mutex_clear x = x\<lparr>locked := False\<rparr>"

definition on_mutex :: "('d mutex \<Rightarrow> 'b \<times> 'd mutex) \<Rightarrow> nat \<Rightarrow> ('d, 'a) bkernel_scheme \<Rightarrow> 'b \<times> ('d, 'a) bkernel_scheme" where
  "on_mutex f m s = (case f (mutexes s ! m) of (r, x) \<Rightarrow> (r, s\<lparr>mutexes := (mutexes s)[m := x]\<rparr>))"

text \<open>One round of the loop of \<open>lock\<close>.\<close>

definition mutex_lock :: "nat \<Rightarrow> ('d, 'a) bkernel_scheme \<Rightarrow> (bool \<times> ('d, 'a) bkernel_scheme) option" where
  "mutex_lock m s = wait_round s (mqueue (mutexes s ! m)) (on_mutex mutex_swap m)"

definition try_lock :: "nat \<Rightarrow> ('d, 'a) bkernel_scheme \<Rightarrow> bool \<times> ('d, 'a) bkernel_scheme" where
  "try_lock m s = on_mutex mutex_swap m s"

definition guard_deref :: "nat \<Rightarrow> ('d, 'a) bkernel_scheme \<Rightarrow> 'd" where
  "guard_deref m s = mdata (mutexes s ! m)"

definition guard_deref_mut :: "nat \<Rightarrow> 'd \<Rightarrow> ('d, 'a) bkernel_scheme \<Rightarrow> ('d, 'a) bkernel_scheme" where
  "guard_deref_mut m v s = snd (on_mutex (\<lambda>x. ((), x\<lparr>mdata := v\<rparr>)) m s)"

text \<open>Dropping the guard: the store, then the wake-up.\<close>

definition guard_store :: "nat \<Rightarrow> ('d, 'a) bkernel_scheme \<Rightarrow> ('d, 'a) bkernel_scheme" where
  "guard_store m s = snd (on_mutex (\<lambda>x. ((), mutex_clear x)) m s)"

definition guard_drop :: "nat \<Rightarrow> ('d, 'a) bkernel_scheme \<Rightarrow> ('d, 'a) bkernel_scheme" where
  "guard_drop m s = snd (wake_one (guard_store m s) (mqueue (mutexes s ! m)))"

definition semaphore_new :: "int \<Rightarrow> nat \<Rightarrow> semaphore" where
  "semaphore_new n q = \<lparr>sem_count = n, squeue = q\<rparr>"

text \<open>The compare-and-swap loop: it ends with the first exchange that succeeds.\<close>

definition sem_take :: "semaphore \<Rightarrow> bool \<times> semaphore" where
  "sem_take x = (if sem_count x \<le> 0 then (False, x) else (True, x\<lparr>sem_count := sem_count x - 1\<rparr>))"

definition sem_give :: "semaphore \<Rightarrow> semaphore" where
  "sem_give x = x\<lparr>sem_count := sem_count x + 1\<rparr>"

definition on_sem :: "(semaphore \<Rightarrow> 'b \<times> semaphore) \<Rightarrow> nat \<Rightarrow> ('d, 'a) bkernel_scheme \<Rightarrow> 'b \<times> ('d, 'a) bkernel_scheme" where
  "on_sem f k s = (case f (semaphores s ! k) of (r, x) \<Rightarrow> (r, s\<lparr>semaphores := (semaphores s)[k := x]\<rparr>))"

definition acquire :: "nat \<Rightarrow> ('d, 'a) bkernel_scheme \<Rightarrow> (bool \<times> ('d, 'a) bkernel_scheme) option" where
  "acquire k s = wait_round s (squeue (semaphores s ! k)) (on_sem sem_take k)"

definition try_acquire :: "nat \<Rightarrow> ('d, 'a) bkernel_scheme \<Rightarrow> bool \<times> ('d, 'a) bkernel_scheme" where
  "try_acquire k s = on_sem sem_take k s"

definition sem_store :: "nat \<Rightarrow> ('d, 'a) bkernel_scheme \<Rightarrow> ('d, 'a) bkernel_scheme" where
  "sem_store k s = snd (on_sem (\<lambda>x. ((), sem_give x)) k s)"

definition sem_release :: "nat \<Rightarrow> ('d, 'a) bkernel_scheme \<Rightarrow> ('d, 'a) bkernel_scheme" where
  "sem_release k s = snd (wake_one (sem_store k s) (squeue (semaphores s ! k)))"

definition available :: "nat \<Rightarrow> ('d, 'a) bkernel_scheme \<Rightarrow> int" where
  "available k s = sem_count (semaphores s ! k)"

section \<open>The system\<close>

text \<open>Where a thread is: outside every call below, in the loop of a wait on a queue, or between the store and the wake-up
  of a release. \<open>owners\<close> are the threads that hold a guard of a mutex; \<open>taken\<close> and \<open>given\<close> count what was done with a
  semaphore, and \<open>initial\<close> is the count it was created with.\<close>

datatype phase = Outside | Waits nat | Wakes nat

record view =
  phase_of :: "nat \<Rightarrow> phase"
  owners :: "nat \<Rightarrow> nat set"
  initial :: "nat \<Rightarrow> int"
  taken :: "nat \<Rightarrow> nat"
  given :: "nat \<Rightarrow> nat"

datatype 'd bop =
  Sched sched_op | Lock nat | TryLock nat | Write nat 'd | Unlock nat | Acquire nat | TryAcquire nat | Release nat | Wake

definition set_phase :: "nat \<Rightarrow> phase \<Rightarrow> view \<Rightarrow> view" where
  "set_phase n p v = v\<lparr>phase_of := (phase_of v)(n := p)\<rparr>"

definition own :: "nat \<Rightarrow> nat \<Rightarrow> view \<Rightarrow> view" where
  "own m n v = v\<lparr>owners := (owners v)(m := insert n (owners v m))\<rparr>"

definition disown :: "nat \<Rightarrow> nat \<Rightarrow> view \<Rightarrow> view" where
  "disown m n v = v\<lparr>owners := (owners v)(m := owners v m - {n})\<rparr>"

definition count_taken :: "nat \<Rightarrow> view \<Rightarrow> view" where
  "count_taken k v = v\<lparr>taken := (taken v)(k := taken v k + 1)\<rparr>"

definition count_given :: "nat \<Rightarrow> view \<Rightarrow> view" where
  "count_given k v = v\<lparr>given := (given v)(k := given v k + 1)\<rparr>"

definition bperform ::
  "('d, 'a) bkernel_scheme \<Rightarrow> view \<Rightarrow> 'd bop \<Rightarrow> (('d, 'a) bkernel_scheme \<times> view) option" where
  "bperform s v f =
     (let n = current_id s in
      case f of
        Sched g \<Rightarrow> map_option (\<lambda>s. (s, v)) (perform s g)
      | Lock m \<Rightarrow>
          map_option (\<lambda>(ok, s'). (s', if ok then own m n (set_phase n Outside v) else set_phase n (Waits (mqueue (mutexes s ! m))) v))
            (mutex_lock m s)
      | TryLock m \<Rightarrow> (case try_lock m s of (ok, s) \<Rightarrow> Some (s, if ok then own m n v else v))
      | Write m d \<Rightarrow> Some (guard_deref_mut m d s, v)
      | Unlock m \<Rightarrow> Some (guard_store m s, disown m n (set_phase n (Wakes (mqueue (mutexes s ! m))) v))
      | Acquire k \<Rightarrow>
          map_option (\<lambda>(ok, s'). (s', if ok then count_taken k (set_phase n Outside v) else set_phase n (Waits (squeue (semaphores s ! k))) v))
            (acquire k s)
      | TryAcquire k \<Rightarrow> (case try_acquire k s of (ok, s) \<Rightarrow> Some (s, if ok then count_taken k v else v))
      | Release k \<Rightarrow> Some (sem_store k s, count_given k (set_phase n (Wakes (squeue (semaphores s ! k))) v))
      | Wake \<Rightarrow> (case phase_of v n of Wakes q \<Rightarrow> Some (snd (wake_one s q), set_phase n Outside v) | _ \<Rightarrow> None))"

definition queues :: "('d, 'a) bkernel_scheme \<Rightarrow> nat list" where
  "queues s = map mqueue (mutexes s) @ map squeue (semaphores s)"

text \<open>A thread inside one of the calls does nothing else, though it can be preempted; the guard of a mutex is dropped by
  the thread that holds it; the queues of the primitives are private to them; the idle thread does not wait.\<close>

definition ballowed :: "('d, 'a) bkernel_scheme \<Rightarrow> view \<Rightarrow> 'd bop \<Rightarrow> bool" where
  "ballowed s v f \<longleftrightarrow>
     (let n = current_id s; out = (phase_of v n = Outside); busy = (\<exists>c. current (sched s) = Some c \<and> \<not> is_idle c) in
      case f of
        Sched g \<Rightarrow> allowed s g \<and> (\<forall>q\<in>set (queues s). g \<noteq> DoWait q \<and> g \<noteq> DoWakeOne q \<and> g \<noteq> DoWakeAll q) \<and>
          (out \<or> g = DoTick \<or> (\<exists>c m. g = DoRun c m))
      | Lock m \<Rightarrow> m < length (mutexes s) \<and> busy \<and> (out \<or> phase_of v n = Waits (mqueue (mutexes s ! m)))
      | TryLock m \<Rightarrow> m < length (mutexes s) \<and> out
      | Write m d \<Rightarrow> m < length (mutexes s) \<and> out \<and> n \<in> owners v m
      | Unlock m \<Rightarrow> m < length (mutexes s) \<and> busy \<and> out \<and> n \<in> owners v m
      | Acquire k \<Rightarrow> k < length (semaphores s) \<and> busy \<and> (out \<or> phase_of v n = Waits (squeue (semaphores s ! k)))
      | TryAcquire k \<Rightarrow> k < length (semaphores s) \<and> out
      | Release k \<Rightarrow> k < length (semaphores s) \<and> busy \<and> out
      | Wake \<Rightarrow> True)"

inductive blocking_reachable :: "('d, 'a) bkernel_scheme \<Rightarrow> view \<Rightarrow> bool" where
  started: "sched_reachable s \<Longrightarrow> distinct (queues s) \<Longrightarrow> \<forall>q\<in>set (queues s). q < length (waiters s) \<and> waiters s ! q = [] \<Longrightarrow>
    \<forall>x\<in>set (mutexes s). \<not> locked x \<Longrightarrow> \<forall>k<length (semaphores s). c k = sem_count (semaphores s ! k) \<Longrightarrow>
    blocking_reachable s \<lparr>phase_of = (\<lambda>_. Outside), owners = (\<lambda>_. {}), initial = c, taken = (\<lambda>_. 0), given = (\<lambda>_. 0)\<rparr>"
| performed: "blocking_reachable s v \<Longrightarrow> ballowed s v f \<Longrightarrow> bperform s v f = Some (s', v') \<Longrightarrow> blocking_reachable s' v'"

section \<open>Lemmas: what the scheduler does to waiting and runnable threads\<close>

definition parked_on :: "'a skernel_scheme \<Rightarrow> nat \<Rightarrow> nat list" where
  "parked_on s q = map tid (waiters s ! q)"

definition runnable :: "'a skernel_scheme \<Rightarrow> nat set" where
  "runnable s = tid ` set (opt_list (current (sched s)) @ ready (sched s))"

definition idle_ids :: "'a skernel_scheme \<Rightarrow> nat set" where
  "idle_ids s = {n. \<exists>sl. (n, sl, True) \<in># keys s}"

lemma view_cong:
  assumes "sched s' = sched s" "waiters s' = waiters s"
  shows "parked_on s' q = parked_on s q" "runnable s' = runnable s" "idle_ids s' = idle_ids s" "current_id s' = current_id s"
  using assms sched_cong(2) [OF assms] by (simp_all add: parked_on_def runnable_def idle_ids_def current_id_def)

lemma reschedule_view:
  assumes r: "reschedule s how = Some s'"
  shows "q < length (waiters s) \<Longrightarrow> parked_on s' q = parked_on s q @ (if how = Block q then [current_id s] else [])"
    "n \<in> runnable s \<Longrightarrow> n \<noteq> current_id s \<or> (how = Yield \<and> (\<forall>c. current (sched s) = Some c \<longrightarrow> \<not> is_idle c)) \<Longrightarrow> n \<in> runnable s'"
proof -
  let ?s0 = "s\<lparr>SLICE_TICKS := 0, NEED_RESCHED := False\<rparr>"
  obtain cur t s1 where sw: "switch_threads ?s0 how = Some (cur, t, s1)"
    and c: "if tid cur = tid t then s' = s1
     else \<exists>old c m. switch_context (the_cpu s1) (stack_mem s1) (rsp t) = (old, c, m) \<and>
       same_sched ((store_rsp (tid cur) old (s1\<lparr>the_cpu := c, stack_mem := m\<rparr>))
         \<lparr>sched := (sched (store_rsp (tid cur) old s1))\<lparr>zombies := [],
            free_slots := free_slots (sched s1) @ freed_slots (zombies (sched s1))\<rparr>\<rparr>) s'"
    using reschedule_cases [OF r] by blast
  have cur: "current (sched s) = Some cur" using switch_threads_current [OF sw] by simp
  obtain slp woken where st: "switch_threads ?s0 how = (case take_next (sched (parked ?s0 cur how slp woken)) of
       None \<Rightarrow> None
     | Some (t, sc) \<Rightarrow> Some (cur, t, (load_thread ((parked ?s0 cur how slp woken)\<lparr>sched := sc\<rparr>) t)\<lparr>sched := sc\<lparr>current := Some t\<rparr>\<rparr>))"
    by (rule switch_threads_cases [OF switch_threads_current [OF sw]])
  let ?p = "parked ?s0 cur how slp woken"
  have w1: "waiters s1 = waiters ?p" using sw st by (auto simp: load_thread_sched split: option.splits)
  have w': "map tid (waiters s' ! q) = map tid (waiters s1 ! q)" if "q < length (waiters s1)"
    using c that by (auto simp: same_sched_def store_rsp_def comp_def split: if_splits)
  have wp: "waiters ?p = (case how of Block q \<Rightarrow> (waiters s)[q := waiters s ! q @ [cur]] | _ \<Rightarrow> waiters s)"
    by (auto simp: parked_def put_away_def Let_def split: next_op.splits)
  show "parked_on s' q = parked_on s q @ (if how = Block q then [current_id s] else [])" if "q < length (waiters s)"
  proof -
    have "q < length (waiters s1)" using that by (simp add: w1 wp split: next_op.splits)
    then show ?thesis using w' that cur
      by (auto simp: parked_on_def w1 wp current_id_def nth_list_update split: next_op.splits)
  qed
  show "n \<in> runnable s'" if n: "n \<in> runnable s" and k: "n \<noteq> current_id s \<or> (how = Yield \<and> (\<forall>c. current (sched s) = Some c \<longrightarrow> \<not> is_idle c))"
  proof -
    have rp: "ready (sched ?p) = ready (sched s) @ woken @ (if how = Yield \<and> \<not> is_idle cur then [cur] else [])"
      by (simp add: parked_def put_away_fields)
    have "n \<in> tid ` set (ready (sched ?p))" using n k cur by (auto simp: runnable_def rp current_id_def)
    moreover have "set (ready (sched ?p)) \<subseteq> insert t (set (ready (sched s1)))" "current (sched s1) = Some t"
      using sw st by (auto simp: take_next_def load_thread_sched split: option.splits list.splits)
    ultimately have "n = tid t \<or> n \<in> tid ` set (ready (sched s1))" by auto
    moreover have "current (sched s') = Some t" "tid ` set (ready (sched s')) = tid ` set (ready (sched s1))"
      using c \<open>current (sched s1) = Some t\<close> by (auto simp: same_sched_def store_rsp_def image_image split: if_splits)
    ultimately show ?thesis by (auto simp: runnable_def)
  qed
qed

lemma reschedule_idle: "sched_ok s \<Longrightarrow> may_do s how \<Longrightarrow> reschedule s how = Some s' \<Longrightarrow> idle_ids s' \<subseteq> idle_ids s"
  using reschedule_ok(3) by (fastforce simp: idle_ids_def dest: mset_subset_eqD)

lemma idle_ids_new: "keys s' = keys s + K \<Longrightarrow> (\<And>k. k \<in># K \<Longrightarrow> \<not> snd (snd k)) \<Longrightarrow> idle_ids s' = idle_ids s"
  by (force simp: idle_ids_def)

lemma current_idle:
  assumes "current (sched s) = Some c" "is_idle c"
  shows "current_id s \<in> idle_ids s"
  using assms by (auto simp: idle_ids_def keys_def live_def key_def current_id_def)

text \<open>What an operation that is not on queue \<open>q\<close> leaves as it was.\<close>

definition steady :: "'a skernel_scheme \<Rightarrow> 'a skernel_scheme \<Rightarrow> bool" where
  "steady s s' \<longleftrightarrow> waiters s' = waiters s \<and> runnable s \<subseteq> runnable s' \<and> idle_ids s' \<subseteq> idle_ids s"

lemma spawn_steady:
  assumes "sched_ok s"
  shows "spawn s nm entry = Some (r, s') \<Longrightarrow> steady s s'" "spawn_user s nm asp entry usp = Some (r, s') \<Longrightarrow> steady s s'"
proof -
  have keep: "steady s s1" if "create_thread s nm e False = Some (x, s1)" for e x s1
    using create_thread_keys(1) [OF that] same_threads_keys(1) [of s s1]
    by (auto simp: steady_def same_threads_def runnable_def idle_ids_def)
  have push: "steady s (push_ready t s1)" if "steady s s1" "\<not> is_idle t" for t s1
    using that idle_ids_new [of "push_ready t s1" s1 "{#key t#}"]
    by (auto simp: steady_def push_ready_def runnable_def keys_def live_def key_def)
  have half: "steady s (free_user_half p s1)" if "steady s s1" for p s1
    using that mem_only_sched [OF mem_only_free_user_half [of s1 p]] view_cong [of "free_user_half p s1" s1]
    by (auto simp: steady_def same_sched_def)
  have ni: "\<not> is_idle t" if "create_thread s nm e False = Some (Some t, s1)" for e t s1
    using create_thread_keys(3) [OF that] by simp
  show "spawn s nm entry = Some (r, s') \<Longrightarrow> steady s s'"
    using keep push ni by (auto simp: spawn_def split: option.splits)
  show "spawn_user s nm asp entry usp = Some (r, s') \<Longrightarrow> steady s s'"
    using keep push half ni by (auto simp: spawn_user_def split: option.splits)
qed

lemma move_ready_view:
  assumes "q < length (waiters s)" "waiters s ! q = ts @ rest"
    "s' = s\<lparr>waiters := (waiters s)[q := rest], sched := (sched s)\<lparr>ready := ready (sched s) @ ts\<rparr>\<rparr>"
  shows "parked_on s' q' = (if q' = q then map tid rest else parked_on s q')" "runnable s' = runnable s \<union> tid ` set ts"
    "idle_ids s' = idle_ids s"
proof -
  show "parked_on s' q' = (if q' = q then map tid rest else parked_on s q')" "runnable s' = runnable s \<union> tid ` set ts"
    using assms by (auto simp: parked_on_def runnable_def)
  have m: "mset (concat ((waiters s)[q := rest])) + mset ts = mset (concat (waiters s))"
    using concat_replace [OF assms(1), of rest] assms(2) by (simp add: ac_simps)
  have "keys s' = keys s"
    using arg_cong [OF m, where f = "image_mset key"] assms(3) by (simp add: keys_def live_def ac_simps)
  then show "idle_ids s' = idle_ids s" by (simp add: idle_ids_def)
qed

lemma wake_one_view:
  assumes "q < length (waiters s)"
  shows "parked_on (snd (wake_one s q)) q' = (if q' = q then tl (parked_on s q) else parked_on s q')"
    "runnable (snd (wake_one s q)) = runnable s \<union> set (take 1 (parked_on s q))"
    "idle_ids (snd (wake_one s q)) = idle_ids s"
proof -
  have "parked_on (snd (wake_one s q)) q' = (if q' = q then tl (parked_on s q) else parked_on s q') \<and>
    runnable (snd (wake_one s q)) = runnable s \<union> set (take 1 (parked_on s q)) \<and> idle_ids (snd (wake_one s q)) = idle_ids s"
  proof (cases "waiters s ! q")
    case Nil
    then show ?thesis by (simp add: wake_one_def parked_on_def)
  next
    case (Cons t ts)
    have "waiters s ! q = [t] @ ts" using Cons by simp
    from move_ready_view [OF assms this refl] Cons show ?thesis
      by (simp add: wake_one_def push_ready_def) (simp add: parked_on_def Cons)
  qed
  then show "parked_on (snd (wake_one s q)) q' = (if q' = q then tl (parked_on s q) else parked_on s q')"
    "runnable (snd (wake_one s q)) = runnable s \<union> set (take 1 (parked_on s q))"
    "idle_ids (snd (wake_one s q)) = idle_ids s" by simp_all
qed

lemma perform_view:
  assumes ok: "sched_ok s" and al: "allowed s f" and p: "perform s f = Some s'"
  shows "q < length (waiters s) \<Longrightarrow> f \<noteq> DoWait q \<and> f \<noteq> DoWakeOne q \<and> f \<noteq> DoWakeAll q \<Longrightarrow> parked_on s' q = parked_on s q"
    "n \<in> runnable s \<Longrightarrow> n \<noteq> current_id s \<or> (f = DoTick \<or> (\<exists>c m. f = DoRun c m)) \<and> n \<notin> idle_ids s \<Longrightarrow> n \<in> runnable s'"
    "idle_ids s' \<subseteq> idle_ids s"
proof -
  let ?Q = "\<lambda>q. q < length (waiters s) \<longrightarrow> f \<noteq> DoWait q \<and> f \<noteq> DoWakeOne q \<and> f \<noteq> DoWakeAll q \<longrightarrow> parked_on s' q = parked_on s q"
  let ?R = "\<lambda>n. n \<in> runnable s \<longrightarrow> n \<noteq> current_id s \<or> (f = DoTick \<or> (\<exists>c m. f = DoRun c m)) \<and> n \<notin> idle_ids s \<longrightarrow> n \<in> runnable s'"
  let ?T = "(\<forall>q. ?Q q) \<and> (\<forall>n. ?R n) \<and> idle_ids s' \<subseteq> idle_ids s"
  have rd: "READY s" using ok by (simp add: sched_ok_def)
  note r = perform_reschedules [OF p rd]
  have sw: ?T if "reschedule s how = Some s'" "f \<noteq> DoTick" "\<forall>c m. f \<noteq> DoRun c m" "may_do s how" "\<forall>q. how = Block q \<longrightarrow> f = DoWait q" for how
    using reschedule_view [OF that(1)] reschedule_idle [OF ok that(4,1)] that(2,3,5) by auto
  have st: ?T if "steady s s'" using that by (auto simp: steady_def parked_on_def)
  have ?T
  proof (cases f)
    case DoYield
    then show ?thesis using sw [OF r(1)] by (simp add: may_do_def)
  next
    case (DoSleep ms)
    then show ?thesis using sw [OF r(2) [OF DoSleep]] al by (simp add: may_do_def allowed_def)
  next
    case DoExit
    then show ?thesis using sw [OF r(3)] al by (simp add: may_do_def allowed_def)
  next
    case (DoWait q)
    then show ?thesis using sw [OF r(4) [OF DoWait]] al by (simp add: may_do_def allowed_def)
  next
    case DoTick
    let ?s1 = "(on_tick s)\<lparr>NEED_RESCHED := False, PREEMPTIONS := PREEMPTIONS (on_tick s) + 1\<rparr>"
    note v = view_cong [of ?s1 s, simplified on_tick_sched, simplified]
    have ok1: "sched_ok ?s1" "may_do ?s1 Yield"
      using sched_ok_cong [of ?s1 s] ok by (simp_all add: on_tick_sched may_do_def)
    show ?thesis
    proof (cases "NEED_RESCHED (on_tick s)")
      case True
      then have rs: "reschedule ?s1 Yield = Some s'" using r(5) [OF DoTick] by simp
      have ni: "\<not> is_idle c" if "current (sched s) = Some c" "current_id s \<notin> idle_ids s" for c
        using that current_idle by blast
      show ?thesis
        using reschedule_view [OF rs] reschedule_idle [OF ok1 rs] v ni
        by (auto simp: on_tick_sched)
    next
      case False
      then have "s' = on_tick s" using r(5) [OF DoTick] by simp
      then show ?thesis using view_cong [of s' s] by (simp add: on_tick_sched)
    qed
  next
    case (DoSpawn nm entry)
    then show ?thesis using p spawn_steady(1) [OF ok] by (intro st) (auto simp: perform_def)
  next
    case (DoSpawnUser nm asp entry usp)
    then show ?thesis using p spawn_steady(2) [OF ok] by (intro st) (auto simp: perform_def)
  next
    case (DoWakeOne k)
    then have "s' = snd (wake_one s k)" "k < length (waiters s)" using p al by (auto simp: perform_def allowed_def)
    then show ?thesis using wake_one_view [of k s] DoWakeOne by auto
  next
    case (DoWakeAll k)
    then have "s' = wake_all s k" "k < length (waiters s)" using p al by (auto simp: perform_def allowed_def)
    then show ?thesis using move_ready_view [of k s "waiters s ! k" "[]" s'] DoWakeAll by (auto simp: wake_all_def push_all_ready)
  next
    case (DoRun c m)
    then have "sched s' = sched s" "waiters s' = waiters s" using p by (auto simp: perform_def)
    then show ?thesis using view_cong [of s' s] by simp
  qed
  then show "q < length (waiters s) \<Longrightarrow> f \<noteq> DoWait q \<and> f \<noteq> DoWakeOne q \<and> f \<noteq> DoWakeAll q \<Longrightarrow> parked_on s' q = parked_on s q"
    "n \<in> runnable s \<Longrightarrow> n \<noteq> current_id s \<or> (f = DoTick \<or> (\<exists>c m. f = DoRun c m)) \<and> n \<notin> idle_ids s \<Longrightarrow> n \<in> runnable s'"
    "idle_ids s' \<subseteq> idle_ids s" by blast+
qed

lemma perform_more: "perform s f = Some s' \<Longrightarrow> READY s \<Longrightarrow> skernel.more s' = skernel.more s"
proof -
  assume p: "perform s f = Some s'" and rd: "READY s"
  note r = perform_reschedules [OF p rd]
  have mt: "skernel.more (on_tick s) = skernel.more s" by (simp add: on_tick_def sched_tick_def Let_def)
  have cr: "skernel.more s1 = skernel.more s" if "create_thread s nm e b = Some (x, s1)" for nm e b x s1
    using create_thread_keys(1) [OF that] by (simp add: same_threads_def)
  have half: "skernel.more (free_user_half a s1) = skernel.more s1" for a and s1 :: "'a skernel_scheme"
    using mem_only_sched [OF mem_only_free_user_half [of s1 a]] by (simp add: same_sched_def)
  show "skernel.more s' = skernel.more s"
  proof (cases f)
    case DoTick
    then show ?thesis using r(5) reschedule_fields(5) mt by (fastforce split: if_splits)
  next
    case (DoSpawn nm entry)
    then show ?thesis using p cr by (auto simp: perform_def spawn_def push_ready_def split: option.splits)
  next
    case (DoSpawnUser nm asp entry usp)
    then show ?thesis using p cr half by (auto simp: perform_def spawn_user_def push_ready_def split: option.splits)
  next
    case (DoWakeOne q)
    then show ?thesis using p by (auto simp: perform_def wake_one_def push_ready_def split: list.splits)
  next
    case (DoWakeAll q)
    then show ?thesis using p by (auto simp: perform_def wake_all_def push_all_ready)
  next
    case (DoRun c m)
    then show ?thesis using p by (auto simp: perform_def)
  qed (use r reschedule_fields(5) in blast)+
qed

section \<open>Wait objects\<close>

text \<open>The threads that will look at the object of queue \<open>q\<close> again, or wake a thread that does: those in the loop of a
  wait that are not parked, and those about to wake a waiter. \<open>w\<close> lists the threads parked.\<close>

definition pending :: "(nat \<Rightarrow> phase) \<Rightarrow> nat \<Rightarrow> nat list \<Rightarrow> nat set" where
  "pending ph q w = {n. ph n = Waits q \<and> n \<notin> set w} \<union> {n. ph n = Wakes q}"

text \<open>No wake-up is lost: while threads are parked, there are at least as many pending threads as units to take.\<close>

definition wq_ok :: "(nat \<Rightarrow> phase) \<Rightarrow> nat \<Rightarrow> nat list \<Rightarrow> int \<Rightarrow> bool" where
  "wq_ok ph q w a \<longleftrightarrow> (\<forall>n\<in>set w. ph n = Waits q) \<and> (w \<noteq> [] \<longrightarrow> a \<le> int (card (pending ph q w)))"

definition few_busy :: "(nat \<Rightarrow> phase) \<Rightarrow> bool" where
  "few_busy ph \<longleftrightarrow> finite {n. ph n \<noteq> Outside}"

lemma few_busy_pending: "few_busy ph \<Longrightarrow> finite (pending ph q w)"
  unfolding few_busy_def pending_def by (rule finite_subset [rotated]) auto

lemma few_busy_upd: "few_busy ph \<Longrightarrow> few_busy (ph(n := p))"
  unfolding few_busy_def by (rule finite_subset [where B = "insert n {n. ph n \<noteq> Outside}"]) auto

lemma wq_ok_other:
  assumes "wq_ok ph q w a" "ph n \<noteq> Waits q" "ph n \<noteq> Wakes q" "p \<noteq> Waits q" "p \<noteq> Wakes q"
  shows "wq_ok (ph(n := p)) q w a"
proof -
  have "pending (ph(n := p)) q w = pending ph q w" using assms(2-5) by (auto simp: pending_def)
  then show ?thesis using assms by (auto simp: wq_ok_def)
qed

text \<open>Waking moves the first parked thread to the pending ones, in the place of the one that wakes it.\<close>

lemma wq_ok_wake:
  assumes "wq_ok ph q w a" "ph n = Wakes q" "distinct w" "few_busy ph"
  shows "wq_ok (ph(n := Outside)) q (tl w) a"
proof (cases w)
  case Nil
  then show ?thesis by (simp add: wq_ok_def)
next
  case (Cons t ts)
  have w: "\<forall>m\<in>set w. ph m = Waits q" "a \<le> int (card (pending ph q w))" using assms(1) Cons by (simp_all add: wq_ok_def)
  have nw: "n \<notin> set w" using w(1) assms(2) by force
  have "pending (ph(n := Outside)) q ts = insert t (pending ph q w - {n})"
    using w(1) nw assms(2,3) Cons by (auto simp: pending_def)
  moreover have "t \<notin> pending ph q w" "n \<in> pending ph q w" using w(1) Cons assms(2) by (auto simp: pending_def)
  ultimately have "card (pending (ph(n := Outside)) q ts) = card (pending ph q w)"
    using few_busy_pending [OF assms(4)] card_Suc_Diff1 [of "pending ph q w" n] by simp
  then show ?thesis using w nw Cons by (auto simp: wq_ok_def)
qed

text \<open>What the mutex and the semaphore have in common: a number of units that threads take, one at a time, and give back.\<close>

locale wait_object =
  fixes take_unit :: "'o \<Rightarrow> bool \<times> 'o" and give_unit :: "'o \<Rightarrow> 'o" and units :: "'o \<Rightarrow> int"
  assumes take_iff: "fst (take_unit x) \<longleftrightarrow> 0 < units x"
    and take_units: "units (snd (take_unit x)) = (if 0 < units x then units x - 1 else units x)"
    and give_units: "units (give_unit x) \<le> units x + 1"
begin

lemma take_keeps:
  assumes "wq_ok ph q w (units x)" "take_unit x = (True, x')" "ph n = Outside \<or> ph n = Waits q" "n \<notin> set w" "few_busy ph"
  shows "wq_ok (ph(n := Outside)) q w (units x')"
proof -
  have a: "units x' = units x - 1" using take_iff [of x] take_units [of x] assms(2) by (simp split: if_splits)
  have "pending (ph(n := Outside)) q w = pending ph q w - {n}" using assms(3) by (auto simp: pending_def)
  then have "card (pending ph q w) \<le> card (pending (ph(n := Outside)) q w) + 1"
    using few_busy_pending [OF assms(5), of q w] card_Diff_singleton_if [of "pending ph q w" n] by (simp split: if_splits)
  moreover have "w \<noteq> [] \<longrightarrow> units x \<le> int (card (pending ph q w))" using assms(1) by (simp add: wq_ok_def)
  ultimately have "w \<noteq> [] \<longrightarrow> units x' \<le> int (card (pending (ph(n := Outside)) q w))" using a by linarith
  moreover have "\<forall>m\<in>set w. (ph(n := Outside)) m = Waits q" using assms(1,4) by (auto simp: wq_ok_def)
  ultimately show ?thesis unfolding wq_ok_def by blast
qed

lemma park_keeps:
  assumes "wq_ok ph q w (units x)" "take_unit x = (False, x')"
  shows "wq_ok (ph(n := Waits q)) q (w @ [n]) (units x')"
proof -
  have "units x' \<le> 0" using take_iff [of x] take_units [of x] assms(2) by (simp split: if_splits)
  then show ?thesis using assms(1) by (auto simp: wq_ok_def)
qed

lemma give_keeps:
  assumes "wq_ok ph q w (units x)" "ph n = Outside" "few_busy ph"
  shows "wq_ok (ph(n := Wakes q)) q w (units (give_unit x))"
proof -
  have n: "n \<notin> pending ph q w" using assms(2) by (simp add: pending_def)
  have "pending (ph(n := Wakes q)) q w = insert n (pending ph q w)" using assms(2) by (auto simp: pending_def)
  then have "card (pending (ph(n := Wakes q)) q w) = card (pending ph q w) + 1"
    using few_busy_pending [OF assms(3), of q w] n by simp
  then show ?thesis using assms(1,2) give_units [of x] by (fastforce simp: wq_ok_def)
qed

end

definition mutex_units :: "'d mutex \<Rightarrow> int" where
  "mutex_units x = (if locked x then 0 else 1)"

interpretation mutex_object: wait_object mutex_swap mutex_clear mutex_units
  by unfold_locales (simp_all add: mutex_swap_def mutex_clear_def mutex_units_def)

interpretation sem_object: wait_object sem_take sem_give sem_count
  by unfold_locales (simp_all add: sem_take_def sem_give_def)

section \<open>The invariant\<close>

text \<open>A thread inside a call is parked on its queue or can run, and is not the idle thread.\<close>

definition busy_ok :: "('d, 'a) bkernel_scheme \<Rightarrow> (nat \<Rightarrow> phase) \<Rightarrow> bool" where
  "busy_ok s ph \<longleftrightarrow> few_busy ph \<and> (\<forall>n\<in>idle_ids s. ph n = Outside) \<and>
     (\<forall>n q. ph n = Waits q \<longrightarrow> q \<in> set (queues s) \<and> (n \<in> set (parked_on s q) \<or> n \<in> runnable s)) \<and>
     (\<forall>n q. ph n = Wakes q \<longrightarrow> q \<in> set (queues s) \<and> n \<in> runnable s)"

definition mutex_ok :: "('d, 'a) bkernel_scheme \<Rightarrow> view \<Rightarrow> nat \<Rightarrow> bool" where
  "mutex_ok s v m \<longleftrightarrow> (let x = mutexes s ! m in
     wq_ok (phase_of v) (mqueue x) (parked_on s (mqueue x)) (mutex_units x) \<and>
     (if locked x then \<exists>n. owners v m = {n} else owners v m = {}))"

definition sem_ok :: "('d, 'a) bkernel_scheme \<Rightarrow> view \<Rightarrow> nat \<Rightarrow> bool" where
  "sem_ok s v k \<longleftrightarrow> (let x = semaphores s ! k in
     wq_ok (phase_of v) (squeue x) (parked_on s (squeue x)) (sem_count x) \<and>
     initial v k + int (given v k) = sem_count x + int (taken v k) \<and> min 0 (initial v k) \<le> sem_count x)"

definition blocking_ok :: "('d, 'a) bkernel_scheme \<Rightarrow> view \<Rightarrow> bool" where
  "blocking_ok s v \<longleftrightarrow> sched_ok s \<and> distinct (queues s) \<and> (\<forall>q\<in>set (queues s). q < length (waiters s)) \<and>
     busy_ok s (phase_of v) \<and> (\<forall>m<length (mutexes s). mutex_ok s v m) \<and> (\<forall>k<length (semaphores s). sem_ok s v k)"

section \<open>Lemmas: the steps keep the invariant\<close>

lemma live_distinct: "sched_ok s \<Longrightarrow> distinct (map tid (live s))"
  by (rule distinct_count) (simp add: sched_ok_def keys_ok_def keys_def multiset.map_comp comp_def key_def)

lemma parked_distinct:
  assumes "sched_ok s" "q < length (waiters s)"
  shows "distinct (parked_on s q)" "current_id s \<notin> set (parked_on s q)"
proof -
  have c: "concat (waiters s) = concat (take q (waiters s)) @ waiters s ! q @ concat (drop (Suc q) (waiters s))"
    using assms(2) by (metis concat.simps(2) concat_append id_take_nth_drop)
  obtain t where t: "current (sched s) = Some t" using assms(1) by (auto simp: sched_ok_def idle_ok_def)
  have "distinct (map tid (live s))" by (rule live_distinct [OF assms(1)])
  then show "distinct (parked_on s q)" "current_id s \<notin> set (parked_on s q)"
    unfolding live_def c t by (auto simp: parked_on_def current_id_def t)
qed

lemma current_not_idle:
  assumes "sched_ok s" "current (sched s) = Some c" "\<not> is_idle c"
  shows "current_id s \<notin> idle_ids s"
proof
  assume "current_id s \<in> idle_ids s"
  then obtain t where t: "t \<in> set (live s)" "tid t = tid c" "is_idle t"
    using assms(2) by (auto simp: idle_ids_def keys_def key_def current_id_def)
  have "c \<in> set (live s)" using assms(2) by (simp add: live_def)
  then have "t = c" using t live_distinct [OF assms(1)] by (auto simp: distinct_map dest: inj_onD)
  then show False using t(3) assms(3) by simp
qed

lemma current_runnable: "sched_ok s \<Longrightarrow> current_id s \<in> runnable s"
  by (auto simp: sched_ok_def idle_ok_def runnable_def current_id_def)

lemma busy_ok_set:
  assumes b: "busy_ok s ph" and same: "sched s' = sched s" "waiters s' = waiters s" "queues s' = queues s" and ok: "sched_ok s"
    and c: "current (sched s) = Some c" "\<not> is_idle c"
  shows "busy_ok s' (ph(current_id s := Outside))" "q \<in> set (queues s) \<Longrightarrow> busy_ok s' (ph(current_id s := Wakes q))"
  using b few_busy_upd [of ph "current_id s"] current_not_idle [OF ok c] current_runnable [OF ok]
  unfolding busy_ok_def same(3) view_cong [OF same(1,2)] by auto

lemma busy_ok_park:
  assumes b: "busy_ok s ph" and r: "reschedule s (Block q) = Some s'" and ok: "sched_ok s" and same: "queues s' = queues s"
    and c: "current (sched s) = Some c" "\<not> is_idle c" and q: "q \<in> set (queues s)" "\<forall>q\<in>set (queues s). q < length (waiters s)"
  shows "busy_ok s' (ph(current_id s := Waits q))"
proof -
  have "may_do s (Block q)" using c q by (simp add: may_do_def)
  then have i: "idle_ids s' \<subseteq> idle_ids s" by (rule reschedule_idle [OF ok _ r])
  have p: "parked_on s' q' = parked_on s q' @ (if q = q' then [current_id s] else [])" if "q' \<in> set (queues s)" for q'
    using reschedule_view(1) [OF r] q(2) that by auto
  have u: "n \<in> runnable s'" if "n \<in> runnable s" "n \<noteq> current_id s" for n using reschedule_view(2) [OF r that(1)] that(2) by simp
  have w: "n \<in> set (parked_on s' k) \<or> n \<in> runnable s'" if "ph n = Waits k" "n \<noteq> current_id s" for n k
  proof -
    have "k \<in> set (queues s)" "n \<in> set (parked_on s k) \<or> n \<in> runnable s" using b that(1) by (simp_all add: busy_ok_def)
    then show ?thesis using p [of k] u [of n] that(2) by auto
  qed
  show ?thesis
    using b few_busy_upd [of ph "current_id s"] current_not_idle [OF ok c] i p q u w
    unfolding busy_ok_def same by auto
qed

lemma busy_ok_perform:
  assumes b: "busy_ok s ph" and p: "perform s f = Some s'" and ok: "sched_ok s" and al: "allowed s f" and same: "queues s' = queues s"
    and q: "\<forall>q\<in>set (queues s). f \<noteq> DoWait q \<and> f \<noteq> DoWakeOne q \<and> f \<noteq> DoWakeAll q" "\<forall>q\<in>set (queues s). q < length (waiters s)"
    and out: "ph (current_id s) = Outside \<or> f = DoTick \<or> (\<exists>c m. f = DoRun c m)"
  shows "busy_ok s' ph"
proof -
  note v = perform_view [OF ok al p]
  have u: "n \<in> runnable s'" if "n \<in> runnable s" "ph n \<noteq> Outside" for n
  proof (rule v(2) [OF that(1)])
    have "n \<notin> idle_ids s" using b that(2) by (auto simp: busy_ok_def)
    then show "n \<noteq> current_id s \<or> (f = DoTick \<or> (\<exists>c m. f = DoRun c m)) \<and> n \<notin> idle_ids s" using out that(2) by auto
  qed
  have w: "parked_on s' q = parked_on s q" if "q \<in> set (queues s)" for q using v(1) q that by blast
  show ?thesis using b v(3) unfolding busy_ok_def same by (force simp: w u)
qed

lemma busy_ok_wake:
  assumes b: "busy_ok s ph" and n: "ph (current_id s) = Wakes q" and q: "\<forall>q\<in>set (queues s). q < length (waiters s)"
    and same: "queues s' = queues s" and s': "s' = snd (wake_one s q)"
  shows "busy_ok s' (ph(current_id s := Outside))"
proof -
  have "q \<in> set (queues s)" using b n by (auto simp: busy_ok_def)
  then have ql: "q < length (waiters s)" using q by simp
  note v = wake_one_view [OF ql, folded s']
  have sub: "set (parked_on s q) \<subseteq> set (tl (parked_on s q)) \<union> set (take 1 (parked_on s q))" by (cases "parked_on s q") auto
  have w: "n \<in> set (parked_on s' k) \<or> n \<in> runnable s'" if "ph n = Waits k" for n k
  proof -
    have "n \<in> set (parked_on s k) \<or> n \<in> runnable s" using b that by (simp add: busy_ok_def)
    then show ?thesis using sub v(1) [of k] v(2) by auto
  qed
  show ?thesis using b few_busy_upd [of ph "current_id s"] w unfolding busy_ok_def same by (auto simp: v(2,3))
qed

lemma on_mutex_simps:
  "on_mutex f m s = (r, s') \<Longrightarrow> sched s' = sched s \<and> waiters s' = waiters s \<and> READY s' = READY s \<and> semaphores s' = semaphores s \<and>
     mutexes s' = (mutexes s)[m := snd (f (mutexes s ! m))] \<and> r = fst (f (mutexes s ! m))"
  by (auto simp: on_mutex_def split: prod.splits)

lemma on_sem_simps:
  "on_sem f k s = (r, s') \<Longrightarrow> sched s' = sched s \<and> waiters s' = waiters s \<and> READY s' = READY s \<and> mutexes s' = mutexes s \<and>
     semaphores s' = (semaphores s)[k := snd (f (semaphores s ! k))] \<and> r = fst (f (semaphores s ! k))"
  by (auto simp: on_sem_def split: prod.splits)

lemma queues_update:
  "m < length xs \<Longrightarrow> f (y) = f (xs ! m) \<Longrightarrow> map f (xs[m := y]) = map f xs"
  by (metis list_update_id map_update)

lemma queue_index:
  assumes "distinct (queues s)"
  shows "m < length (mutexes s) \<Longrightarrow> j < length (mutexes s) \<Longrightarrow> mqueue (mutexes s ! m) = mqueue (mutexes s ! j) \<Longrightarrow> m = j"
    "k < length (semaphores s) \<Longrightarrow> j < length (semaphores s) \<Longrightarrow> squeue (semaphores s ! k) = squeue (semaphores s ! j) \<Longrightarrow> k = j"
    "m < length (mutexes s) \<Longrightarrow> k < length (semaphores s) \<Longrightarrow> mqueue (mutexes s ! m) \<noteq> squeue (semaphores s ! k)"
proof -
  have d: "distinct (map mqueue (mutexes s))" "distinct (map squeue (semaphores s))"
    "set (map mqueue (mutexes s)) \<inter> set (map squeue (semaphores s)) = {}"
    using assms by (simp_all add: queues_def)
  show "m < length (mutexes s) \<Longrightarrow> j < length (mutexes s) \<Longrightarrow> mqueue (mutexes s ! m) = mqueue (mutexes s ! j) \<Longrightarrow> m = j"
    using d(1) by (simp add: distinct_conv_nth) blast
  show "k < length (semaphores s) \<Longrightarrow> j < length (semaphores s) \<Longrightarrow> squeue (semaphores s ! k) = squeue (semaphores s ! j) \<Longrightarrow> k = j"
    using d(2) by (simp add: distinct_conv_nth) blast
  show "m < length (mutexes s) \<Longrightarrow> k < length (semaphores s) \<Longrightarrow> mqueue (mutexes s ! m) \<noteq> squeue (semaphores s ! k)"
    using d(3) nth_mem [of m "mutexes s"] nth_mem [of k "semaphores s"] by force
qed

text \<open>A step of the running thread on the object of queue \<open>q\<close> changes only its own phase, and that from and to values of
  that queue; the other objects keep their part of the invariant.\<close>

lemma mutex_ok_other:
  assumes "mutex_ok s v j" "mutexes s' ! j = mutexes s ! j" "parked_on s' (mqueue (mutexes s ! j)) = parked_on s (mqueue (mutexes s ! j))"
    "phase_of v' = (phase_of v)(n := p)" "owners v' j = owners v j" "mqueue (mutexes s ! j) \<noteq> q"
    "phase_of v n \<in> {Outside, Waits q, Wakes q}" "p \<in> {Outside, Waits q, Wakes q}"
  shows "mutex_ok s' v' j"
  using assms wq_ok_other [of "phase_of v" "mqueue (mutexes s ! j)" "parked_on s (mqueue (mutexes s ! j))" _ n p]
  by (auto simp: mutex_ok_def Let_def)

lemma sem_ok_other:
  assumes "sem_ok s v j" "semaphores s' ! j = semaphores s ! j" "parked_on s' (squeue (semaphores s ! j)) = parked_on s (squeue (semaphores s ! j))"
    "phase_of v' = (phase_of v)(n := p)" "initial v' j = initial v j" "taken v' j = taken v j" "given v' j = given v j"
    "squeue (semaphores s ! j) \<noteq> q" "phase_of v n \<in> {Outside, Waits q, Wakes q}" "p \<in> {Outside, Waits q, Wakes q}"
  shows "sem_ok s' v' j"
  using assms wq_ok_other [of "phase_of v" "squeue (semaphores s ! j)" "parked_on s (squeue (semaphores s ! j))" _ n p]
  by (auto simp: sem_ok_def Let_def)

lemmas view_defs = set_phase_def own_def disown_def count_taken_def count_given_def

lemma blocking_mutex_step:
  assumes ok: "blocking_ok s v" and m: "m < length (mutexes s)" and q: "q = mqueue (mutexes s ! m)"
    and s': "mutexes s' = (mutexes s)[m := x]" "mqueue x = q" "semaphores s' = semaphores s" "length (waiters s') = length (waiters s)"
      "sched_ok s'" "\<forall>j. j \<in> set (queues s) \<longrightarrow> j \<noteq> q \<longrightarrow> parked_on s' j = parked_on s j"
    and v': "phase_of v' = (phase_of v)(n := p)" "initial v' = initial v" "taken v' = taken v" "given v' = given v"
      "\<forall>j. j \<noteq> m \<longrightarrow> owners v' j = owners v j"
    and ph: "phase_of v n \<in> {Outside, Waits q, Wakes q}" "p \<in> {Outside, Waits q, Wakes q}"
    and b: "busy_ok s' (phase_of v')" and here: "mutex_ok s' v' m"
  shows "blocking_ok s' v'"
proof -
  have qs: "queues s' = queues s" using m q s'(1-3) by (simp add: queues_def queues_update)
  have d: "distinct (queues s)" using ok by (simp add: blocking_ok_def)
  have mo: "mutex_ok s' v' j" if "j < length (mutexes s)" for j
  proof (cases "j = m")
    case False
    show ?thesis
    proof (rule mutex_ok_other [OF _ _ _ v'(1) _ _ ph])
      show "mqueue (mutexes s ! j) \<noteq> q" using queue_index(1) [OF d that m] False q by blast
      then show "parked_on s' (mqueue (mutexes s ! j)) = parked_on s (mqueue (mutexes s ! j))"
        using s'(6) that by (simp add: queues_def)
    qed (use ok that False s'(1) v'(5) in \<open>auto simp: blocking_ok_def\<close>)
  qed (simp add: here)
  have so: "sem_ok s' v' j" if "j < length (semaphores s)" for j
  proof (rule sem_ok_other [OF _ _ _ v'(1) _ _ _ _ ph])
    show "squeue (semaphores s ! j) \<noteq> q" using queue_index(3) [OF d m that] q by simp
    then show "parked_on s' (squeue (semaphores s ! j)) = parked_on s (squeue (semaphores s ! j))"
      using s'(6) that by (simp add: queues_def)
  qed (use ok that s'(3) v'(2-4) in \<open>auto simp: blocking_ok_def\<close>)
  show ?thesis using ok s'(1,3-5) b qs mo so by (simp add: blocking_ok_def)
qed

lemma blocking_sem_step:
  assumes ok: "blocking_ok s v" and k: "k < length (semaphores s)" and q: "q = squeue (semaphores s ! k)"
    and s': "semaphores s' = (semaphores s)[k := x]" "squeue x = q" "mutexes s' = mutexes s" "length (waiters s') = length (waiters s)"
      "sched_ok s'" "\<forall>j. j \<in> set (queues s) \<longrightarrow> j \<noteq> q \<longrightarrow> parked_on s' j = parked_on s j"
    and v': "phase_of v' = (phase_of v)(n := p)" "owners v' = owners v"
      "\<forall>j. j \<noteq> k \<longrightarrow> initial v' j = initial v j \<and> taken v' j = taken v j \<and> given v' j = given v j"
    and ph: "phase_of v n \<in> {Outside, Waits q, Wakes q}" "p \<in> {Outside, Waits q, Wakes q}"
    and b: "busy_ok s' (phase_of v')" and here: "sem_ok s' v' k"
  shows "blocking_ok s' v'"
proof -
  have qs: "queues s' = queues s" using k q s'(1-3) by (simp add: queues_def queues_update)
  have d: "distinct (queues s)" using ok by (simp add: blocking_ok_def)
  have mo: "mutex_ok s' v' j" if "j < length (mutexes s)" for j
  proof (rule mutex_ok_other [OF _ _ _ v'(1) _ _ ph])
    show "mqueue (mutexes s ! j) \<noteq> q" using queue_index(3) [OF d that k] q by simp
    then show "parked_on s' (mqueue (mutexes s ! j)) = parked_on s (mqueue (mutexes s ! j))"
      using s'(6) that by (simp add: queues_def)
  qed (use ok that s'(3) v'(2) in \<open>auto simp: blocking_ok_def\<close>)
  have so: "sem_ok s' v' j" if "j < length (semaphores s)" for j
  proof (cases "j = k")
    case False
    show ?thesis
    proof (rule sem_ok_other [OF _ _ _ v'(1) _ _ _ _ ph])
      show "squeue (semaphores s ! j) \<noteq> q" using queue_index(2) [OF d that k] False q by blast
      then show "parked_on s' (squeue (semaphores s ! j)) = parked_on s (squeue (semaphores s ! j))"
        using s'(6) that by (simp add: queues_def)
    qed (use ok that False s'(1) v'(3) in \<open>auto simp: blocking_ok_def\<close>)
  qed (simp add: here)
  show ?thesis using ok s'(1,3-5) b qs mo so by (simp add: blocking_ok_def)
qed

lemma more_objects:
  assumes "skernel.more s' = skernel.more s"
  shows "mutexes s' = mutexes s" "semaphores s' = semaphores s" "queues s' = queues s"
proof -
  show "mutexes s' = mutexes s" "semaphores s' = semaphores s"
    using assms by (cases s; cases s'; simp)+
  then show "queues s' = queues s" by (simp add: queues_def)
qed

lemma wait_round_cases:
  assumes "wait_round s q cond = Some (b, s')" "\<And>r s1. cond s = (r, s1) \<Longrightarrow> READY s1"
  obtains "b" "cond s = (True, s')" | s1 where "\<not> b" "cond s = (False, s1)" "reschedule s1 (Block q) = Some s'"
  using assms by (auto simp: wait_round_def split: prod.splits bool.splits if_splits)

lemma blocking_ok_parts:
  assumes "blocking_ok s v"
  shows "sched_ok s" "distinct (queues s)" "\<forall>q\<in>set (queues s). q < length (waiters s)" "busy_ok s (phase_of v)" "few_busy (phase_of v)"
    "READY s"
  using assms by (simp_all add: blocking_ok_def busy_ok_def sched_ok_def)

lemma mutex_queue_in: "m < length (mutexes s) \<Longrightarrow> mqueue (mutexes s ! m) \<in> set (queues s)"
  by (simp add: queues_def)

lemma sem_queue_in: "k < length (semaphores s) \<Longrightarrow> squeue (semaphores s ! k) \<in> set (queues s)"
  by (simp add: queues_def)

lemma park_facts:
  assumes "reschedule s (Block q) = Some s'" "sched_ok s" "current (sched s) = Some c" "\<not> is_idle c" "q < length (waiters s)"
  shows "sched_ok s'" "length (waiters s') = length (waiters s)" "parked_on s' q = parked_on s q @ [current_id s]"
    "j < length (waiters s) \<Longrightarrow> j \<noteq> q \<Longrightarrow> parked_on s' j = parked_on s j" "mutexes s' = mutexes s" "semaphores s' = semaphores s"
    "queues s' = queues s"
proof -
  have may: "may_do s (Block q)" using assms(3-5) by (simp add: may_do_def)
  show "sched_ok s'" "length (waiters s') = length (waiters s)" using reschedule_ok [OF assms(2) may assms(1)] by simp_all
  show "parked_on s' q = parked_on s q @ [current_id s]" using reschedule_view(1) [OF assms(1,5)] by simp
  show "j < length (waiters s) \<Longrightarrow> j \<noteq> q \<Longrightarrow> parked_on s' j = parked_on s j" using reschedule_view(1) [OF assms(1)] by simp
  show "mutexes s' = mutexes s" "semaphores s' = semaphores s" "queues s' = queues s"
    using more_objects [OF reschedule_fields(5) [OF assms(1)]] by simp_all
qed

lemma mutex_facts: "mqueue (snd (mutex_swap x)) = mqueue x" "mqueue (mutex_clear x) = mqueue x" "locked (snd (mutex_swap x))"
  "fst (mutex_swap x) = (\<not> locked x)" "\<not> locked (mutex_clear x)"
  by (simp_all add: mutex_swap_def mutex_clear_def)

lemma sem_facts: "squeue (snd (sem_take x)) = squeue x" "squeue (sem_give x) = squeue x" "sem_count (sem_give x) = sem_count x + 1"
  by (simp_all add: sem_take_def sem_give_def)

text \<open>Taking the mutex, with or without waiting.\<close>

lemma mutex_taken:
  assumes ok: "blocking_ok s v" and m: "m < length (mutexes s)" and t: "on_mutex mutex_swap m s = (True, s')"
    and ph: "phase_of v (current_id s) \<in> {Outside, Waits (mqueue (mutexes s ! m))}"
  shows "blocking_ok s' (own m (current_id s) (set_phase (current_id s) Outside v))"
proof -
  let ?q = "mqueue (mutexes s ! m)" and ?n = "current_id s" and ?x = "snd (mutex_swap (mutexes s ! m))"
  note p = blocking_ok_parts [OF ok]
  note t' = on_mutex_simps [OF t]
  have free: "\<not> locked (mutexes s ! m)" using t' by (simp add: mutex_facts)
  have mo: "mutex_ok s v m" using ok m by (simp add: blocking_ok_def)
  have same: "sched s' = sched s" "waiters s' = waiters s" "queues s' = queues s" and xs: "mutexes s' ! m = ?x"
    using t' m by (simp_all add: queues_def queues_update mutex_facts)
  have ok': "sched_ok s'" using sched_ok_cong [of s' s] t' p(1) by simp
  have w: "wq_ok ((phase_of v)(?n := Outside)) ?q (parked_on s ?q) (mutex_units ?x)"
    using mo ph parked_distinct(2) [OF p(1)] p(3,5) mutex_queue_in [OF m] free
    by (intro mutex_object.take_keeps [where x = "mutexes s ! m"]) (auto simp: mutex_ok_def Let_def mutex_swap_def)
  have b: "busy_ok s' ((phase_of v)(?n := Outside))"
    using p(4,5) few_busy_upd [of "phase_of v" ?n] view_cong [OF same(1,2)] same(3) by (auto simp: busy_ok_def)
  show ?thesis
  proof (rule blocking_mutex_step [OF ok m refl, where x = ?x and n = ?n and p = Outside])
    show "mutex_ok s' (own m ?n (set_phase ?n Outside v)) m"
      using w mo free view_cong(1) [OF same(1,2)] by (simp add: mutex_ok_def Let_def view_defs xs mutex_facts)
  qed (use t' b ok' ph same view_cong(1) [OF same(1,2)] in \<open>auto simp: view_defs mutex_facts\<close>)
qed

lemma mutex_lock_ok:
  assumes ok: "blocking_ok s v" and al: "ballowed s v (Lock m)" and p: "bperform s v (Lock m) = Some (s', v')"
  shows "blocking_ok s' v'"
proof -
  let ?q = "mqueue (mutexes s ! m)" and ?n = "current_id s" and ?x = "snd (mutex_swap (mutexes s ! m))"
  obtain c where c: "current (sched s) = Some c" "\<not> is_idle c" using al by (auto simp: ballowed_def Let_def)
  have m: "m < length (mutexes s)" and ph: "phase_of v ?n \<in> {Outside, Waits ?q}" using al by (auto simp: ballowed_def Let_def)
  obtain b where l: "wait_round s ?q (on_mutex mutex_swap m) = Some (b, s')"
    and v': "v' = (if b then own m ?n (set_phase ?n Outside v) else set_phase ?n (Waits ?q) v)"
    using p by (auto simp: bperform_def Let_def mutex_lock_def)
  note pt = blocking_ok_parts [OF ok]
  have rd: "READY s1" if "on_mutex mutex_swap m s = (r, s1)" for r s1 using on_mutex_simps [OF that] pt(6) by simp
  consider "b" "on_mutex mutex_swap m s = (True, s')"
    | s1 where "\<not> b" "on_mutex mutex_swap m s = (False, s1)" "reschedule s1 (Block ?q) = Some s'"
    using wait_round_cases [OF l] rd by metis
  then show ?thesis
  proof cases
    case 1
    then show ?thesis using mutex_taken [OF ok m 1(2) ph] v' by simp
  next
    case (2 s1)
    note t = on_mutex_simps [OF 2(2)]
    have held: "locked (mutexes s ! m)" using t by (simp add: mutex_facts)
    have mo: "mutex_ok s v m" using ok m by (simp add: blocking_ok_def)
    have same: "sched s1 = sched s" "waiters s1 = waiters s" "queues s1 = queues s" and x1: "mutexes s1 ! m = ?x"
      using t m by (simp_all add: queues_def queues_update mutex_facts)
    note vw = view_cong [OF same(1,2)]
    have ok1: "sched_ok s1" using sched_ok_cong [of s1 s] t pt(1) by simp
    have ql: "?q < length (waiters s1)" using pt(3) mutex_queue_in [OF m] same(2) by simp
    note k = park_facts [OF 2(3) ok1 c [folded same(1)] ql]
    have w: "wq_ok ((phase_of v)(?n := Waits ?q)) ?q (parked_on s ?q @ [?n]) (mutex_units ?x)"
      using mo held by (intro mutex_object.park_keeps [where x = "mutexes s ! m"]) (auto simp: mutex_ok_def Let_def mutex_swap_def)
    have b: "busy_ok s' ((phase_of v)(?n := Waits ?q))"
    proof -
      have "busy_ok s1 (phase_of v)" using pt(4) by (simp add: busy_ok_def vw same)
      then show ?thesis using busy_ok_park [OF _ 2(3) ok1 k(7) c [folded same(1)]] mutex_queue_in [OF m] pt(3)
        by (simp add: same vw)
    qed
    show ?thesis
    proof (rule blocking_mutex_step [OF ok m refl, where x = ?x and n = ?n and p = "Waits ?q"])
      show "mutex_ok s' v' m" using w mo held 2(1) v' k(3) vw by (simp add: mutex_ok_def Let_def view_defs k(5) x1 mutex_facts)
      show "\<forall>j. j \<in> set (queues s) \<longrightarrow> j \<noteq> ?q \<longrightarrow> parked_on s' j = parked_on s j" using k(4) pt(3) same(2) vw(1) by simp
    qed (use t b ph k v' 2(1) same in \<open>auto simp: view_defs mutex_facts\<close>)
  qed
qed

lemma mutex_unlock_ok:
  assumes ok: "blocking_ok s v" and al: "ballowed s v (Unlock m)" and p: "bperform s v (Unlock m) = Some (s', v')"
  shows "blocking_ok s' v'"
proof -
  let ?q = "mqueue (mutexes s ! m)" and ?n = "current_id s" and ?x = "mutex_clear (mutexes s ! m)"
  obtain c where c: "current (sched s) = Some c" "\<not> is_idle c" using al by (auto simp: ballowed_def Let_def)
  have m: "m < length (mutexes s)" and ph: "phase_of v ?n = Outside" and o: "?n \<in> owners v m"
    using al by (auto simp: ballowed_def Let_def)
  have v': "v' = disown m ?n (set_phase ?n (Wakes ?q) v)" and s': "s' = snd (on_mutex (\<lambda>x. ((), mutex_clear x)) m s)"
    using p by (auto simp: bperform_def Let_def guard_store_def)
  have "on_mutex (\<lambda>x. ((), mutex_clear x)) m s = ((), s')" by (simp add: s' prod_eq_iff)
  note t = on_mutex_simps [OF this, simplified]
  note pt = blocking_ok_parts [OF ok]
  have mo: "mutex_ok s v m" using ok m by (simp add: blocking_ok_def)
  then have held: "owners v m = {?n}" using o by (auto simp: mutex_ok_def Let_def split: if_splits)
  have same: "sched s' = sched s" "waiters s' = waiters s" "queues s' = queues s" and xs: "mutexes s' ! m = ?x"
    using t m by (simp_all add: queues_def queues_update mutex_facts)
  note vw = view_cong [OF same(1,2)]
  have ok': "sched_ok s'" using sched_ok_cong [of s' s] t pt(1) by simp
  have w: "wq_ok ((phase_of v)(?n := Wakes ?q)) ?q (parked_on s ?q) (mutex_units ?x)"
    using mo ph pt(5) by (intro mutex_object.give_keeps) (auto simp: mutex_ok_def Let_def)
  have b: "busy_ok s' ((phase_of v)(?n := Wakes ?q))"
    using busy_ok_set(2) [OF pt(4) same pt(1) c mutex_queue_in [OF m]] .
  show ?thesis
  proof (rule blocking_mutex_step [OF ok m refl, where x = ?x and n = ?n and p = "Wakes ?q"])
    show "mutex_ok s' v' m" using w held vw by (simp add: mutex_ok_def Let_def view_defs xs mutex_facts v')
  qed (use t b ok' ph same vw v' in \<open>auto simp: view_defs mutex_facts\<close>)
qed

lemma sem_taken:
  assumes ok: "blocking_ok s v" and k: "k < length (semaphores s)" and t: "on_sem sem_take k s = (True, s')"
    and ph: "phase_of v (current_id s) \<in> {Outside, Waits (squeue (semaphores s ! k))}"
  shows "blocking_ok s' (count_taken k (set_phase (current_id s) Outside v))"
proof -
  let ?q = "squeue (semaphores s ! k)" and ?n = "current_id s" and ?x = "snd (sem_take (semaphores s ! k))"
  note p = blocking_ok_parts [OF ok]
  note t' = on_sem_simps [OF t]
  have x: "0 < sem_count (semaphores s ! k)" "sem_count ?x = sem_count (semaphores s ! k) - 1" "sem_take (semaphores s ! k) = (True, ?x)"
    using t' by (auto simp: sem_take_def split: if_splits)
  have so: "sem_ok s v k" using ok k by (simp add: blocking_ok_def)
  have same: "sched s' = sched s" "waiters s' = waiters s" "queues s' = queues s" and xs: "semaphores s' ! k = ?x"
    using t' k by (simp_all add: queues_def queues_update sem_facts)
  have ok': "sched_ok s'" using sched_ok_cong [of s' s] t' p(1) by simp
  have w: "wq_ok ((phase_of v)(?n := Outside)) ?q (parked_on s ?q) (sem_count ?x)"
    using so ph parked_distinct(2) [OF p(1)] p(3,5) sem_queue_in [OF k] x(3)
    by (intro sem_object.take_keeps [where x = "semaphores s ! k"]) (auto simp: sem_ok_def Let_def)
  have b: "busy_ok s' ((phase_of v)(?n := Outside))"
    using p(4,5) few_busy_upd [of "phase_of v" ?n] view_cong [OF same(1,2)] same(3) by (auto simp: busy_ok_def)
  show ?thesis
  proof (rule blocking_sem_step [OF ok k refl, where x = ?x and n = ?n and p = Outside])
    show "sem_ok s' (count_taken k (set_phase ?n Outside v)) k"
      using w so x view_cong(1) [OF same(1,2)] by (simp add: sem_ok_def Let_def view_defs xs sem_facts)
  qed (use t' b ok' ph same view_cong(1) [OF same(1,2)] in \<open>auto simp: view_defs sem_facts\<close>)
qed

lemma sem_acquire_ok:
  assumes ok: "blocking_ok s v" and al: "ballowed s v (Acquire k)" and p: "bperform s v (Acquire k) = Some (s', v')"
  shows "blocking_ok s' v'"
proof -
  let ?q = "squeue (semaphores s ! k)" and ?n = "current_id s"
  obtain c where c: "current (sched s) = Some c" "\<not> is_idle c" using al by (auto simp: ballowed_def Let_def)
  have k: "k < length (semaphores s)" and ph: "phase_of v ?n \<in> {Outside, Waits ?q}" using al by (auto simp: ballowed_def Let_def)
  obtain b where l: "wait_round s ?q (on_sem sem_take k) = Some (b, s')"
    and v': "v' = (if b then count_taken k (set_phase ?n Outside v) else set_phase ?n (Waits ?q) v)"
    using p by (auto simp: bperform_def Let_def acquire_def)
  note pt = blocking_ok_parts [OF ok]
  have rd: "READY s1" if "on_sem sem_take k s = (r, s1)" for r s1 using on_sem_simps [OF that] pt(6) by simp
  consider "b" "on_sem sem_take k s = (True, s')"
    | s1 where "\<not> b" "on_sem sem_take k s = (False, s1)" "reschedule s1 (Block ?q) = Some s'"
    using wait_round_cases [OF l] rd by metis
  then show ?thesis
  proof cases
    case 1
    then show ?thesis using sem_taken [OF ok k 1(2) ph] v' by simp
  next
    case (2 s1)
    note t = on_sem_simps [OF 2(2)]
    have x: "sem_take (semaphores s ! k) = (False, semaphores s ! k)" using t by (auto simp: sem_take_def split: if_splits)
    have so: "sem_ok s v k" using ok k by (simp add: blocking_ok_def)
    have same: "sched s1 = sched s" "waiters s1 = waiters s" "queues s1 = queues s" "semaphores s1 = semaphores s"
      using t x by (simp_all add: queues_def)
    note vw = view_cong [OF same(1,2)]
    have ok1: "sched_ok s1" using sched_ok_cong [of s1 s] t pt(1) by simp
    have ql: "?q < length (waiters s1)" using pt(3) sem_queue_in [OF k] same(2) by simp
    note f = park_facts [OF 2(3) ok1 c [folded same(1)] ql]
    have w: "wq_ok ((phase_of v)(?n := Waits ?q)) ?q (parked_on s ?q @ [?n]) (sem_count (semaphores s ! k))"
      using so x by (intro sem_object.park_keeps [where x = "semaphores s ! k"]) (auto simp: sem_ok_def Let_def)
    have b: "busy_ok s' ((phase_of v)(?n := Waits ?q))"
    proof -
      have "busy_ok s1 (phase_of v)" using pt(4) by (simp add: busy_ok_def vw same)
      then show ?thesis using busy_ok_park [OF _ 2(3) ok1 f(7) c [folded same(1)]] sem_queue_in [OF k] pt(3)
        by (simp add: same vw)
    qed
    show ?thesis
    proof (rule blocking_sem_step [OF ok k refl, where x = "semaphores s ! k" and n = ?n and p = "Waits ?q"])
      show "sem_ok s' v' k" using w so 2(1) v' f(3) vw by (simp add: sem_ok_def Let_def view_defs f(6) same(4))
      show "\<forall>j. j \<in> set (queues s) \<longrightarrow> j \<noteq> ?q \<longrightarrow> parked_on s' j = parked_on s j" using f(4) pt(3) same(2) vw(1) by simp
    qed (use t b ph f v' 2(1) same in \<open>auto simp: view_defs\<close>)
  qed
qed

lemma sem_release_ok:
  assumes ok: "blocking_ok s v" and al: "ballowed s v (Release k)" and p: "bperform s v (Release k) = Some (s', v')"
  shows "blocking_ok s' v'"
proof -
  let ?q = "squeue (semaphores s ! k)" and ?n = "current_id s" and ?x = "sem_give (semaphores s ! k)"
  obtain c where c: "current (sched s) = Some c" "\<not> is_idle c" using al by (auto simp: ballowed_def Let_def)
  have k: "k < length (semaphores s)" and ph: "phase_of v ?n = Outside" using al by (auto simp: ballowed_def Let_def)
  have v': "v' = count_given k (set_phase ?n (Wakes ?q) v)" and s': "s' = snd (on_sem (\<lambda>x. ((), sem_give x)) k s)"
    using p by (auto simp: bperform_def Let_def sem_store_def)
  have "on_sem (\<lambda>x. ((), sem_give x)) k s = ((), s')" by (simp add: s' prod_eq_iff)
  note t = on_sem_simps [OF this, simplified]
  note pt = blocking_ok_parts [OF ok]
  have so: "sem_ok s v k" using ok k by (simp add: blocking_ok_def)
  have same: "sched s' = sched s" "waiters s' = waiters s" "queues s' = queues s" and xs: "semaphores s' ! k = ?x"
    using t k by (simp_all add: queues_def queues_update sem_facts)
  note vw = view_cong [OF same(1,2)]
  have ok': "sched_ok s'" using sched_ok_cong [of s' s] t pt(1) by simp
  have w: "wq_ok ((phase_of v)(?n := Wakes ?q)) ?q (parked_on s ?q) (sem_count ?x)"
    using so ph pt(5) by (intro sem_object.give_keeps) (auto simp: sem_ok_def Let_def)
  have b: "busy_ok s' ((phase_of v)(?n := Wakes ?q))"
    using busy_ok_set(2) [OF pt(4) same pt(1) c sem_queue_in [OF k]] .
  show ?thesis
  proof (rule blocking_sem_step [OF ok k refl, where x = ?x and n = ?n and p = "Wakes ?q"])
    show "sem_ok s' v' k" using w so vw by (simp add: sem_ok_def Let_def view_defs xs sem_facts v')
  qed (use t b ok' ph same vw v' in \<open>auto simp: view_defs sem_facts\<close>)
qed

lemma set_phase_same: "phase_of v n = p \<Longrightarrow> set_phase n p v = v"
  by (cases v) (auto simp: set_phase_def)

lemma try_ok:
  assumes ok: "blocking_ok s v" and al: "ballowed s v f" and p: "bperform s v f = Some (s', v')"
  shows "f = TryLock m \<Longrightarrow> blocking_ok s' v'" "f = TryAcquire k \<Longrightarrow> blocking_ok s' v'"
proof -
  let ?n = "current_id s"
  show "blocking_ok s' v'" if f: "f = TryLock m"
  proof -
    have m: "m < length (mutexes s)" and ph: "phase_of v ?n = Outside" using al f by (simp_all add: ballowed_def Let_def)
    obtain b where t: "on_mutex mutex_swap m s = (b, s')" and v': "v' = (if b then own m ?n v else v)"
      using p f by (auto simp: bperform_def Let_def try_lock_def split: prod.splits)
    show ?thesis
    proof (cases b)
      case True
      then show ?thesis using mutex_taken [OF ok m _, of s'] t v' ph set_phase_same [OF ph] by simp
    next
      case False
      then have "locked (mutexes s ! m)" using on_mutex_simps [OF t] by (simp add: mutex_facts)
      then have "mutex_swap (mutexes s ! m) = (False, mutexes s ! m)" by (cases "mutexes s ! m") (simp add: mutex_swap_def)
      then have "s' = s" using t by (simp add: on_mutex_def)
      then show ?thesis using ok False v' by simp
    qed
  qed
  show "blocking_ok s' v'" if f: "f = TryAcquire k"
  proof -
    have k: "k < length (semaphores s)" and ph: "phase_of v ?n = Outside" using al f by (simp_all add: ballowed_def Let_def)
    obtain b where t: "on_sem sem_take k s = (b, s')" and v': "v' = (if b then count_taken k v else v)"
      using p f by (auto simp: bperform_def Let_def try_acquire_def split: prod.splits)
    show ?thesis
    proof (cases b)
      case True
      then show ?thesis using sem_taken [OF ok k _, of s'] t v' ph set_phase_same [OF ph] by simp
    next
      case False
      then have "s' = s" using t by (auto simp: on_sem_def sem_take_def split: if_splits)
      then show ?thesis using ok False v' by simp
    qed
  qed
qed

lemma write_ok:
  assumes ok: "blocking_ok s v" and al: "ballowed s v (Write m d)" and p: "bperform s v (Write m d) = Some (s', v')"
  shows "blocking_ok s' v'"
proof -
  let ?x = "(mutexes s ! m)\<lparr>mdata := d\<rparr>" and ?n = "current_id s"
  have m: "m < length (mutexes s)" and ph: "phase_of v ?n = Outside" using al by (simp_all add: ballowed_def Let_def)
  have v': "v' = v" and s': "s' = s\<lparr>mutexes := (mutexes s)[m := ?x]\<rparr>"
    using p by (auto simp: bperform_def guard_deref_mut_def on_mutex_def)
  have same: "sched s' = sched s" "waiters s' = waiters s" "queues s' = queues s"
    using m by (simp_all add: s' queues_def queues_update)
  note vw = view_cong [OF same(1,2)]
  note pt = blocking_ok_parts [OF ok]
  have "mutex_ok s v m" using ok m by (simp add: blocking_ok_def)
  then have here: "mutex_ok s' v' m" using m vw by (simp add: mutex_ok_def Let_def s' v' mutex_units_def parked_on_def)
  have "sched_ok s'" using sched_ok_cong [of s' s] pt(1) by (simp add: s')
  moreover have "busy_ok s' (phase_of v')" using pt(4) by (simp add: busy_ok_def vw same v')
  ultimately show ?thesis
    using here ph by (intro blocking_mutex_step [OF ok m refl, where x = ?x and n = ?n and p = Outside]) (auto simp: s' v' parked_on_def)
qed

lemma wake_step_ok:
  assumes ok: "blocking_ok s v" and p: "bperform s v Wake = Some (s', v')"
  shows "blocking_ok s' v'"
proof -
  let ?n = "current_id s"
  obtain q where ph: "phase_of v ?n = Wakes q" and s': "s' = snd (wake_one s q)" and v': "v' = set_phase ?n Outside v"
    using p by (auto simp: bperform_def Let_def split: phase.splits)
  note pt = blocking_ok_parts [OF ok]
  have q: "q \<in> set (queues s)" "q < length (waiters s)" using pt(3,4) ph by (auto simp: busy_ok_def)
  have more: "skernel.more s' = skernel.more s" by (auto simp: s' wake_one_def push_ready_def split: list.splits)
  note same = more_objects [OF more]
  note vw = wake_one_view [OF q(2), folded s']
  have ok': "sched_ok s'" "length (waiters s') = length (waiters s)"
    using wake_ok(1) [OF pt(1) q(2), of "fst (wake_one s q)" s'] s' by simp_all
  have b: "busy_ok s' ((phase_of v)(?n := Outside))" by (rule busy_ok_wake [OF pt(4) ph pt(3) same(3) s'])
  note d = parked_distinct(1) [OF pt(1) q(2)]
  consider m where "m < length (mutexes s)" "q = mqueue (mutexes s ! m)" | k where "k < length (semaphores s)" "q = squeue (semaphores s ! k)"
    using q(1) by (auto simp: queues_def in_set_conv_nth)
  then show ?thesis
  proof cases
    case (1 m)
    then have mo: "mutex_ok s v m" using ok by (simp add: blocking_ok_def)
    have "wq_ok ((phase_of v)(?n := Outside)) q (tl (parked_on s q)) (mutex_units (mutexes s ! m))"
      using mo 1 by (intro wq_ok_wake [OF _ ph d pt(5)]) (simp add: mutex_ok_def Let_def)
    then have "mutex_ok s' v' m" using mo 1 vw(1) by (simp add: mutex_ok_def Let_def same v' view_defs)
    then show ?thesis
      using b ok' vw(1) ph by (intro blocking_mutex_step [OF ok 1, where x = "mutexes s ! m" and n = ?n and p = Outside])
        (auto simp: same v' view_defs 1)
  next
    case (2 k)
    then have so: "sem_ok s v k" using ok by (simp add: blocking_ok_def)
    have "wq_ok ((phase_of v)(?n := Outside)) q (tl (parked_on s q)) (sem_count (semaphores s ! k))"
      using so 2 by (intro wq_ok_wake [OF _ ph d pt(5)]) (simp add: sem_ok_def Let_def)
    then have "sem_ok s' v' k" using so 2 vw(1) by (simp add: sem_ok_def Let_def same v' view_defs)
    then show ?thesis
      using b ok' vw(1) ph by (intro blocking_sem_step [OF ok 2, where x = "semaphores s ! k" and n = ?n and p = Outside])
        (auto simp: same v' view_defs 2)
  qed
qed

lemma sched_step_ok:
  assumes ok: "blocking_ok s v" and al: "ballowed s v (Sched f)" and p: "bperform s v (Sched f) = Some (s', v')"
  shows "blocking_ok s' v'"
proof -
  have a: "allowed s f" "\<forall>q\<in>set (queues s). f \<noteq> DoWait q \<and> f \<noteq> DoWakeOne q \<and> f \<noteq> DoWakeAll q"
    "phase_of v (current_id s) = Outside \<or> f = DoTick \<or> (\<exists>c m. f = DoRun c m)"
    using al by (auto simp: ballowed_def Let_def)
  have pf: "perform s f = Some s'" and v': "v' = v" using p by (auto simp: bperform_def Let_def)
  note pt = blocking_ok_parts [OF ok]
  note same = more_objects [OF perform_more [OF pf pt(6)]]
  have w: "parked_on s' q = parked_on s q" if "q \<in> set (queues s)" for q
    using perform_view(1) [OF pt(1) a(1) pf] a(2) pt(3) that by blast
  have "busy_ok s' (phase_of v)" by (rule busy_ok_perform [OF pt(4) pf pt(1) a(1) same(3) a(2) pt(3) a(3)])
  moreover have "mutex_ok s' v m" if "m < length (mutexes s)" for m
    using ok that w [OF mutex_queue_in [OF that]] by (simp add: blocking_ok_def mutex_ok_def Let_def same)
  moreover have "sem_ok s' v k" if "k < length (semaphores s)" for k
    using ok that w [OF sem_queue_in [OF that]] by (simp add: blocking_ok_def sem_ok_def Let_def same)
  ultimately show ?thesis using ok perform_ok [OF pt(1) a(1) pf] by (simp add: blocking_ok_def same v')
qed

lemma blocking_step_ok:
  assumes "blocking_ok s v" "ballowed s v f" "bperform s v f = Some (s', v')"
  shows "blocking_ok s' v'"
proof (cases f)
  case (Sched g)
  then show ?thesis using assms sched_step_ok by simp
next
  case (Lock m)
  then show ?thesis using assms mutex_lock_ok by simp
next
  case (Write m d)
  then show ?thesis using assms write_ok by simp
next
  case (Unlock m)
  then show ?thesis using assms mutex_unlock_ok by simp
next
  case (Acquire k)
  then show ?thesis using assms sem_acquire_ok by simp
next
  case (Release k)
  then show ?thesis using assms sem_release_ok by simp
next
  case Wake
  then show ?thesis using assms wake_step_ok by simp
qed (use try_ok [OF assms] in simp_all)

lemma blocking_reachable_ok: "blocking_reachable s v \<Longrightarrow> blocking_ok s v"
proof (induction rule: blocking_reachable.induct)
  case (started s c)
  have "parked_on s q = []" if "q \<in> set (queues s)" for q using started(3) that by (simp add: parked_on_def)
  then show ?case
    using started sched_reachable_ok [OF started(1)] mutex_queue_in [of _ s] sem_queue_in [of _ s]
    by (auto simp: blocking_ok_def busy_ok_def few_busy_def mutex_ok_def sem_ok_def wq_ok_def Let_def)
next
  case (performed s v f s' v')
  then show ?case using blocking_step_ok by blast
qed

section \<open>Properties\<close>

lemma pending_runs:
  assumes "busy_ok s ph" "n \<in> pending ph q (parked_on s q)"
  shows "n \<in> runnable s"
  using assms by (auto simp: busy_ok_def pending_def)

text \<open>C16. However threads interleave, at most one thread holds a guard of a blocking mutex, and the mutex is marked locked
  exactly while one does. No wake-up is lost: while the mutex is free and threads are parked on it, some thread that can
  run is about to try again or to wake one of them.\<close>

theorem mutex_safe:
  assumes "blocking_reachable s v" "m < length (mutexes s)"
  shows "(locked (mutexes s ! m) \<longleftrightarrow> owners v m \<noteq> {}) \<and> card (owners v m) \<le> 1 \<and>
    (\<not> locked (mutexes s ! m) \<and> waiters s ! mqueue (mutexes s ! m) \<noteq> [] \<longrightarrow>
      (\<exists>n\<in>runnable s. n \<in> pending (phase_of v) (mqueue (mutexes s ! m)) (parked_on s (mqueue (mutexes s ! m)))))"
proof -
  let ?x = "mutexes s ! m"
  let ?P = "pending (phase_of v) (mqueue ?x) (parked_on s (mqueue ?x))"
  have ok: "blocking_ok s v" using assms(1) by (rule blocking_reachable_ok)
  then have mo: "mutex_ok s v m" and b: "busy_ok s (phase_of v)" using assms(2) by (simp_all add: blocking_ok_def)
  have "\<exists>n\<in>runnable s. n \<in> ?P" if "\<not> locked ?x" "waiters s ! mqueue ?x \<noteq> []"
  proof -
    have "1 \<le> int (card ?P)" using mo that by (simp add: mutex_ok_def Let_def wq_ok_def mutex_units_def parked_on_def)
    then have "?P \<noteq> {}" by force
    then show ?thesis using pending_runs [OF b] by blast
  qed
  then show ?thesis using mo by (auto simp: mutex_ok_def Let_def split: if_splits)
qed


section \<open>An example\<close>

definition block_kernel :: "nat bkernel" where
  "block_kernel = skernel.extend (sched_kernel\<lparr>waiters := replicate 2 []\<rparr>) (bkernel.fields [mutex_new 7 0] [semaphore_new 1 1])"

lemma block_kernel_fields:
  "mutexes block_kernel = [mutex_new 7 0]" "semaphores block_kernel = [semaphore_new 1 1]" "sched block_kernel = scheduler_new"
  "waiters block_kernel = replicate 2 []" "\<not> READY block_kernel" "vmm_lock block_kernel = Some 0x1000" "pmm_lock block_kernel = Some sched_pmm"
  "mem block_kernel = mem sched_kernel"
  by (simp_all add: block_kernel_def skernel.defs bkernel.defs sched_kernel_def)

lemma block_kernel_reaches:
  "\<exists>s v. blocking_reachable (s :: nat bkernel) v \<and> length (mutexes s) = 1 \<and> length (semaphores s) = 1 \<and> locked (mutexes s ! 0) \<and> initial v 0 = 1 \<and>
     available 0 s = 0"
proof -
  have p: "pmm_lock block_kernel = pmm_lock sched_kernel" "mem block_kernel = mem sched_kernel"
    by (simp_all add: block_kernel_fields) (simp add: sched_kernel_def)
  have "vm_ok block_kernel 0x1000" "64 \<le> card (kernel_free block_kernel)"
    using sched_kernel_ok sched_kernel_frames(2) by (simp_all add: vm_ok_def kernel_ok_def kernel_free_def kernel_limit_def p)
  then obtain s t where s: "READY s" "sched_reachable s" "idle (sched s) = Some t" "waiters s = waiters block_kernel"
    "skernel.more s = skernel.more block_kernel"
    using sched_init_reaches [of block_kernel 2 "0x1000"] by (auto simp: block_kernel_fields)
  note o = more_objects [OF s(5), unfolded queues_def block_kernel_fields]
  obtain c where c: "current (sched s) = Some c" "\<not> is_idle c"
    using sched_reachable_ok [OF s(2)] s(3) by (auto simp: sched_ok_def idle_ok_def split: if_splits)
  define v where "v = \<lparr>phase_of = (\<lambda>_. Outside), owners = (\<lambda>_. {}), initial = (\<lambda>_. 1), taken = (\<lambda>_. 0), given = (\<lambda>_. 0)\<rparr>"
  have r0: "blocking_reachable s v" unfolding v_def
    by (rule blocking_reachable.started [OF s(2)])
      (auto simp: queues_def o s(4) block_kernel_fields mutex_new_def semaphore_new_def less_Suc_eq nth_Cons')
  define s1 where "s1 = s\<lparr>mutexes := [(mutex_new 7 0)\<lparr>locked := True\<rparr>]\<rparr>"
  define v1 where "v1 = own 0 (current_id s) (set_phase (current_id s) Outside v)"
  have r1: "blocking_reachable s1 v1"
  proof (rule blocking_reachable.performed [OF r0])
    show "ballowed s v (Lock 0)" using c by (simp add: ballowed_def Let_def o v_def)
    show "bperform s v (Lock 0) = Some (s1, v1)"
      by (simp add: bperform_def Let_def mutex_lock_def wait_round_def on_mutex_def mutex_swap_def o s1_def v1_def mutex_new_def)
  qed
  define s2 where "s2 = s1\<lparr>semaphores := [(semaphore_new 1 1)\<lparr>sem_count := 0\<rparr>]\<rparr>"
  define v2 where "v2 = count_taken 0 (set_phase (current_id s1) Outside v1)"
  have "blocking_reachable s2 v2"
  proof (rule blocking_reachable.performed [OF r1])
    show "ballowed s1 v1 (Acquire 0)" using c by (simp add: ballowed_def Let_def o v1_def v_def view_defs s1_def current_id_def)
    show "bperform s1 v1 (Acquire 0) = Some (s2, v2)"
      by (simp add: bperform_def Let_def acquire_def wait_round_def on_sem_def sem_take_def o s1_def s2_def v2_def semaphore_new_def)
  qed
  then show ?thesis
    by (intro exI [of _ s2] exI [of _ v2]) (simp add: s2_def s1_def v2_def v1_def v_def view_defs available_def)
qed

theorem mutex_safe_witness:
  "\<exists>s v. blocking_reachable (s :: nat bkernel) v \<and> locked (mutexes s ! 0) \<and> owners v 0 \<noteq> {} \<and> card (owners v 0) \<le> 1"
proof -
  obtain s v where r: "blocking_reachable (s :: nat bkernel) v" "length (mutexes s) = 1" "locked (mutexes s ! 0)"
    using block_kernel_reaches by blast
  then show ?thesis using mutex_safe [OF r(1), of 0] by auto
qed


end
