(* ===== verification/Elf.thy ===== *)
theory Elf
  imports Vmm
begin

unbundle bit_operations_syntax

text \<open>
  The ELF64 loader, \<open>src/elf.rs\<close>: validating the headers of an executable image and turning its
  segments into pages of an address space.

  File offsets and sizes are the 64-bit words of the headers; \<open>pages\<close>, a \<open>BTreeMap\<close>, is an association
  list in key order. Copied bytes go to physical memory, as in \<open>Vmm\<close>. \<open>None\<close> is a panic.
\<close>

section \<open>Headers\<close>

definition LOAD_MIN :: u64 where "LOAD_MIN = 0x1000"
definition LOAD_MAX :: u64 where "LOAD_MAX = 0x0000400000000000"
definition MAX_SEGMENTS :: nat where "MAX_SEGMENTS = 16"
definition MAX_PHDRS :: u16 where "MAX_PHDRS = 64"
definition MAX_PAGES :: u64 where "MAX_PAGES = 16 * 1024"
definition EHDR_SIZE :: nat where "EHDR_SIZE = 64"
definition PHDR_SIZE :: nat where "PHDR_SIZE = 56"
definition ET_EXEC :: u16 where "ET_EXEC = 2"
definition EM_X86_64 :: u16 where "EM_X86_64 = 62"
definition PT_LOAD :: u32 where "PT_LOAD = 1"
definition PT_INTERP :: u32 where "PT_INTERP = 3"
definition PF_X :: u32 where "PF_X = 1"
definition PF_W :: u32 where "PF_W = 2"

datatype elf_error =
  TooShort | BadMagic | NotElf64Le | NotExecutable | WrongArch | BadHeader | Dynamic | Truncated | BadSegment |
  TooManySegments | Overlap | WritableExecutable | TooLarge | NoLoadable | BadEntry | NoMemory

record segment =
  vaddr :: u64
  file_offset :: u64
  filesz :: u64
  memsz :: u64
  seg_flags :: u32

record page =
  page_phys :: u64
  writable :: bool
  executable :: bool

definition rd16 :: "u8 list \<Rightarrow> nat \<Rightarrow> u16" where
  "rd16 b i = from_le (slice b i (i + 2))"

definition rd32 :: "u8 list \<Rightarrow> nat \<Rightarrow> u32" where
  "rd32 b i = from_le (slice b i (i + 4))"

definition rd64 :: "u8 list \<Rightarrow> nat \<Rightarrow> u64" where
  "rd64 b i = from_le (slice b i (i + 8))"

text \<open>The checks on one \<open>PT_LOAD\<close> entry, and the loop over the program headers with the segments and
  the number of pages so far.\<close>

definition check_segment :: "u8 list \<Rightarrow> segment \<Rightarrow> segment list \<Rightarrow> u64 \<Rightarrow> elf_error + segment list \<times> u64" where
  "check_segment img seg segments total_pages =
     (if filesz seg > memsz seg then Inl BadSegment
      else and_then (ok_or BadSegment (checked_add (vaddr seg) (memsz seg))) (\<lambda>end.
        if vaddr seg < LOAD_MIN \<or> end > LOAD_MAX then Inl BadSegment
        else and_then (ok_or Truncated (checked_add (file_offset seg) (filesz seg))) (\<lambda>file_end.
          if file_end > of_nat (length img) then Inl Truncated
          else if seg_flags seg AND PF_W \<noteq> 0 \<and> seg_flags seg AND PF_X \<noteq> 0 then Inl WritableExecutable
          else if length segments = MAX_SEGMENTS then Inl TooManySegments
          else
            let total_pages = total_pages + (align_up end PAGE_SIZE - align_down (vaddr seg) PAGE_SIZE) div PAGE_SIZE in
            if total_pages > MAX_PAGES then Inl TooLarge
            else Inr (segments @ [seg], total_pages))))"

fun phdr_loop :: "u8 list \<Rightarrow> u64 \<Rightarrow> nat list \<Rightarrow> segment list \<Rightarrow> u64 \<Rightarrow> elf_error + segment list" where
  "phdr_loop img phoff [] segments total_pages = Inr segments"
| "phdr_loop img phoff (i # rest) segments total_pages =
     (let at = unat phoff + i * PHDR_SIZE;
          p_type = rd32 img at;
          seg = \<lparr>vaddr = rd64 img (at + 16), file_offset = rd64 img (at + 8), filesz = rd64 img (at + 32),
                 memsz = rd64 img (at + 40), seg_flags = rd32 img (at + 4)\<rparr>
      in if p_type = PT_INTERP then Inl Dynamic
         else if p_type \<noteq> PT_LOAD \<or> memsz seg = 0 then phdr_loop img phoff rest segments total_pages
         else and_then (check_segment img seg segments total_pages) (\<lambda>(segments, total_pages).
           phdr_loop img phoff rest segments total_pages))"

definition segments_meet :: "segment \<Rightarrow> segment \<Rightarrow> bool" where
  "segments_meet a b \<longleftrightarrow> vaddr a < vaddr b + memsz b \<and> vaddr b < vaddr a + memsz a"

definition any_overlap :: "segment list \<Rightarrow> bool" where
  "any_overlap segments =
     list_ex (\<lambda>i. list_ex (\<lambda>j. segments_meet (segments ! i) (segments ! j)) [i + 1..<length segments])
       [0..<length segments]"

definition elf_parse :: "u8 list \<Rightarrow> elf_error + u64 \<times> segment list" where
  "elf_parse img =
     (if length img < EHDR_SIZE then Inl TooShort
      else if slice img 0 4 \<noteq> [0x7F, 0x45, 0x4C, 0x46] then Inl BadMagic
      else if img ! 4 \<noteq> 2 \<or> img ! 5 \<noteq> 1 then Inl NotElf64Le
      else if rd16 img 16 \<noteq> ET_EXEC then Inl NotExecutable
      else if rd16 img 18 \<noteq> EM_X86_64 then Inl WrongArch
      else
        let entry = rd64 img 24; phoff = rd64 img 32; phentsize = unat (rd16 img 54); phnum = rd16 img 56 in
        if phentsize \<noteq> PHDR_SIZE \<or> phnum = 0 \<or> phnum > MAX_PHDRS then Inl BadHeader
        else and_then (ok_or Truncated (checked_add phoff (ucast phnum * of_nat PHDR_SIZE))) (\<lambda>table_end.
          if table_end > of_nat (length img) then Inl Truncated
          else and_then (phdr_loop img phoff [0..<unat phnum] [] 0) (\<lambda>segments.
            if segments = [] then Inl NoLoadable
            else if any_overlap segments then Inl Overlap
            else if \<not> list_ex (\<lambda>s. seg_flags s AND PF_X \<noteq> 0 \<and> entry \<ge> vaddr s \<and> entry < vaddr s + memsz s) segments
            then Inl BadEntry
            else Inr (entry, segments))))"

section \<open>Building and mapping the pages\<close>

type_synonym pages = "(u64 \<times> page) list"

definition pages_insert :: "u64 \<Rightarrow> page \<Rightarrow> pages \<Rightarrow> pages" where
  "pages_insert va p pages = insort_key fst (va, p) pages"

definition pages_share :: "u64 \<Rightarrow> bool \<Rightarrow> bool \<Rightarrow> pages \<Rightarrow> pages" where
  "pages_share va w x pages =
     map (\<lambda>(k, p). if k = va then (k, p\<lparr>writable := writable p \<or> w, executable := executable p \<or> x\<rparr>) else (k, p)) pages"

text \<open>The first loop of \<open>populate\<close> for one segment; the addition to \<open>va\<close> panics on overflow.\<close>

function claim_pages ::
  "'a kernel_scheme \<Rightarrow> pages \<Rightarrow> u64 \<Rightarrow> u64 \<Rightarrow> bool \<Rightarrow> bool \<Rightarrow> ((elf_error + unit) \<times> pages \<times> 'a kernel_scheme) option" where
  "claim_pages s pages va end w x =
     (if va < end then
        case (case map_of pages va of
                Some _ \<Rightarrow> (Inr (), pages_share va w x pages, s)
              | None \<Rightarrow>
                  (case alloc_frame_zeroed s of
                     (None, s1) \<Rightarrow> (Inl NoMemory, pages, s1)
                   | (Some phys, s1) \<Rightarrow>
                       (Inr (), pages_insert va \<lparr>page_phys = phys, writable = w, executable = x\<rparr> pages, s1))) of
          (Inl e, pages1, s1) \<Rightarrow> Some (Inl e, pages1, s1)
        | (Inr _, pages1, s1) \<Rightarrow>
            (case checked_add va PAGE_SIZE of
               None \<Rightarrow> None
             | Some va' \<Rightarrow> claim_pages s1 pages1 va' end w x)
      else Some (Inr (), pages, s))"
  by pat_completeness auto
termination
  by (relation "measure (\<lambda>(s, pages, va, end, w, x). unat end - unat va)")
    (auto simp: checked_add_Some word_less_nat_alt)

text \<open>The second loop: copying the file's bytes into the pages.\<close>

function fill_pages :: "'a kernel_scheme \<Rightarrow> u8 list \<Rightarrow> pages \<Rightarrow> segment \<Rightarrow> nat \<Rightarrow> (elf_error + unit) \<times> 'a kernel_scheme" where
  "fill_pages s img pages seg copied =
     (if copied < unat (filesz seg) then
        let dst_va = vaddr seg + of_nat copied;
            page_va = align_down dst_va PAGE_SIZE;
            in_page = page_off dst_va;
            n = min (unat (filesz seg) - copied) (4096 - in_page)
        in case map_of pages page_va of
             None \<Rightarrow> (Inl BadSegment, s)
           | Some p \<Rightarrow>
               fill_pages
                 (s\<lparr>mem := set_bytes (mem s) (page_phys p + of_nat in_page)
                             (take n (drop (unat (file_offset seg) + copied) img))\<rparr>)
                 img pages seg (copied + n)
      else (Inr (), s))"
  by pat_completeness auto
termination
  by (relation "measure (\<lambda>(s, img, pages, seg, copied). unat (filesz seg) - copied)") (simp_all add: copy_progress)

declare claim_pages.simps [simp del] fill_pages.simps [simp del]

fun populate_loop ::
  "'a kernel_scheme \<Rightarrow> u8 list \<Rightarrow> segment list \<Rightarrow> pages \<Rightarrow> ((elf_error + unit) \<times> pages \<times> 'a kernel_scheme) option" where
  "populate_loop s img [] pages = Some (Inr (), pages, s)"
| "populate_loop s img (seg # rest) pages =
     (case claim_pages s pages (align_down (vaddr seg) PAGE_SIZE) (align_up (vaddr seg + memsz seg) PAGE_SIZE)
             (seg_flags seg AND PF_W \<noteq> 0) (seg_flags seg AND PF_X \<noteq> 0) of
        None \<Rightarrow> None
      | Some (Inl e, pages1, s1) \<Rightarrow> Some (Inl e, pages1, s1)
      | Some (Inr _, pages1, s1) \<Rightarrow>
          (case fill_pages s1 img pages1 seg 0 of
             (Inl e, s2) \<Rightarrow> Some (Inl e, pages1, s2)
           | (Inr _, s2) \<Rightarrow> populate_loop s2 img rest pages1))"

definition populate ::
  "'a kernel_scheme \<Rightarrow> u8 list \<Rightarrow> segment list \<Rightarrow> ((elf_error + unit) \<times> pages \<times> 'a kernel_scheme) option" where
  "populate s img segments =
     (case populate_loop s img segments [] of
        None \<Rightarrow> None
      | Some (Inl e, pages, s1) \<Rightarrow> Some (Inl e, pages, s1)
      | Some (Inr _, pages, s1) \<Rightarrow>
          if list_ex (\<lambda>(va, p). writable p \<and> executable p) pages then Some (Inl WritableExecutable, pages, s1)
          else Some (Inr (), pages, s1))"

definition free_pages :: "'a kernel_scheme \<Rightarrow> pages \<Rightarrow> 'a kernel_scheme" where
  "free_pages s pages = foldl (\<lambda>s (va, p). free_frame s (page_phys p)) s pages"

definition page_flags :: "page \<Rightarrow> u64" where
  "page_flags p =
     (case (writable p, executable p) of
        (False, False) \<Rightarrow> USER_RO
      | (True, False) \<Rightarrow> USER_RW
      | (False, True) \<Rightarrow> USER_RX
      | (True, True) \<Rightarrow> USER_RO)"

fun map_image :: "'a kernel_scheme \<Rightarrow> address_space \<Rightarrow> pages \<Rightarrow> 'a kernel_scheme option" where
  "map_image s sp [] = Some s"
| "map_image s sp ((va, p) # rest) =
     do { s1 \<leftarrow> space_map s sp va (page_phys p) (page_flags p); map_image s1 sp rest }"

definition elf_load :: "'a kernel_scheme \<Rightarrow> u8 list \<Rightarrow> address_space \<Rightarrow> ((elf_error + u64) \<times> 'a kernel_scheme) option" where
  "elf_load s img aspace =
     (case elf_parse img of
        Inl e \<Rightarrow> Some (Inl e, s)
      | Inr (entry, segments) \<Rightarrow>
          (case populate s img segments of
             None \<Rightarrow> None
           | Some (Inl e, pages, s1) \<Rightarrow> Some (Inl e, free_pages s1 pages)
           | Some (Inr _, pages, s1) \<Rightarrow> map_option (Pair (Inr entry)) (map_image s1 aspace pages)))"

section \<open>Lemmas: what the parser guarantees\<close>

definition seg_end :: "segment \<Rightarrow> nat" where
  "seg_end seg = unat (vaddr seg) + unat (memsz seg)"

text \<open>The pages a segment touches, by number.\<close>

definition seg_pages :: "segment \<Rightarrow> nat set" where
  "seg_pages seg = {unat (vaddr seg) div 4096..<(seg_end seg + 4095) div 4096}"

definition seg_ok :: "u8 list \<Rightarrow> segment \<Rightarrow> bool" where
  "seg_ok img seg \<longleftrightarrow> filesz seg \<le> memsz seg \<and> memsz seg \<noteq> 0 \<and> LOAD_MIN \<le> vaddr seg \<and> seg_end seg \<le> unat LOAD_MAX \<and>
     unat (file_offset seg) + unat (filesz seg) \<le> length img \<and> \<not> (seg_flags seg AND PF_W \<noteq> 0 \<and> seg_flags seg AND PF_X \<noteq> 0)"

lemma LOAD_MAX_nat: "unat LOAD_MAX = 70368744177664"
  by (simp add: LOAD_MAX_def)

lemma seg_ok_end:
  assumes "seg_ok img seg"
  shows "unat (vaddr seg + memsz seg) = seg_end seg" "seg_end seg \<le> 70368744177664" "unat (vaddr seg) < seg_end seg"
    "unat (align_up (vaddr seg + memsz seg) PAGE_SIZE) = (seg_end seg + 4095) div 4096 * 4096"
    "unat (align_down (vaddr seg) PAGE_SIZE) = unat (vaddr seg) div 4096 * 4096"
    "unat (vaddr seg) div 4096 \<le> (seg_end seg + 4095) div 4096"
proof -
  show le: "seg_end seg \<le> 70368744177664" using assms LOAD_MAX_nat by (simp add: seg_ok_def)
  then show u: "unat (vaddr seg + memsz seg) = seg_end seg"
    by (simp add: seg_end_def unat_add_u64)
  have "unat (memsz seg) \<noteq> 0" using assms by (simp add: seg_ok_def unsigned_eq_0_iff)
  then show "unat (vaddr seg) < seg_end seg" by (simp add: seg_end_def)
  then show "unat (vaddr seg) div 4096 \<le> (seg_end seg + 4095) div 4096" by (intro div_le_mono) linarith
  show "unat (align_up (vaddr seg + memsz seg) PAGE_SIZE) = (seg_end seg + 4095) div 4096 * 4096"
    using unat_align_up_page [of "vaddr seg + memsz seg"] u le by simp
qed (rule unat_align_down_page)

lemma seg_page_count:
  assumes "seg_ok img seg"
  shows "unat ((align_up (vaddr seg + memsz seg) PAGE_SIZE - align_down (vaddr seg) PAGE_SIZE) div PAGE_SIZE) = card (seg_pages seg)"
proof -
  let ?u = "(seg_end seg + 4095) div 4096" and ?d = "unat (vaddr seg) div 4096"
  have "align_down (vaddr seg) PAGE_SIZE \<le> align_up (vaddr seg + memsz seg) PAGE_SIZE"
    using seg_ok_end(4-6) [OF assms] by (simp add: word_le_nat_alt)
  then have "unat (align_up (vaddr seg + memsz seg) PAGE_SIZE - align_down (vaddr seg) PAGE_SIZE) = (?u - ?d) * 4096"
    using seg_ok_end(4,5) [OF assms] by (simp add: unat_sub diff_mult_distrib)
  then show ?thesis by (simp add: unat_div_distrib seg_pages_def)
qed

lemma check_segment_Inr:
  assumes "check_segment img seg segments n = Inr r" "memsz seg \<noteq> 0" "length img < 18446744073709551616"
    "unat n \<le> unat MAX_PAGES"
  shows "seg_ok img seg \<and> length segments \<noteq> MAX_SEGMENTS \<and> fst r = segments @ [seg] \<and>
    unat (snd r) = unat n + card (seg_pages seg) \<and> snd r \<le> MAX_PAGES"
proof -
  obtain e fe where e: "checked_add (vaddr seg) (memsz seg) = Some e" "checked_add (file_offset seg) (filesz seg) = Some fe"
    "filesz seg \<le> memsz seg" "LOAD_MIN \<le> vaddr seg" "e \<le> LOAD_MAX" "fe \<le> of_nat (length img)"
    "\<not> (seg_flags seg AND PF_W \<noteq> 0 \<and> seg_flags seg AND PF_X \<noteq> 0)" "length segments \<noteq> MAX_SEGMENTS"
    "fst r = segments @ [seg]" "snd r \<le> MAX_PAGES"
    "snd r = n + (align_up e PAGE_SIZE - align_down (vaddr seg) PAGE_SIZE) div PAGE_SIZE"
    using assms(1) by (auto simp: check_segment_def and_then_Inr ok_or_Inr Let_def split: if_splits)
  have ok: "seg_ok img seg"
    using e assms(2,3) checked_add_Some [OF e(1)] checked_add_Some [OF e(2)]
    by (auto simp: seg_ok_def seg_end_def word_le_nat_alt unat_of_nat_u64)
  have eq: "e = vaddr seg + memsz seg" using checked_add_Some [OF e(1)] by blast
  let ?k = "(align_up e PAGE_SIZE - align_down (vaddr seg) PAGE_SIZE) div PAGE_SIZE"
  have k: "unat ?k = card (seg_pages seg)" using seg_page_count [OF ok] unfolding eq .
  have "card (seg_pages seg) \<le> seg_end seg + 4095"
    unfolding seg_pages_def card_atLeastLessThan by (rule order_trans [OF diff_le_self div_le_dividend])
  then have "unat ?k \<le> 70368744181759" using k seg_ok_end(2) [OF ok] by linarith
  then have "unat (n + ?k) = unat n + unat ?k" using assms(4) by (intro unat_add_u64) (simp add: MAX_PAGES_def)
  then show ?thesis using ok e k by simp
qed

lemma phdr_loop_Inr:
  assumes "phdr_loop img phoff is segments n = Inr segs" "length img < 18446744073709551616"
    "\<forall>seg\<in>set segments. seg_ok img seg" "length segments \<le> MAX_SEGMENTS" "unat n \<le> unat MAX_PAGES"
    "(\<Sum>seg\<leftarrow>segments. card (seg_pages seg)) = unat n"
  shows "(\<forall>seg\<in>set segs. seg_ok img seg) \<and> length segs \<le> MAX_SEGMENTS \<and>
    (\<Sum>seg\<leftarrow>segs. card (seg_pages seg)) \<le> unat MAX_PAGES"
  using assms(1,3-)
proof (induction "is" arbitrary: segments n)
  case (Cons i "is")
  define at where "at = unat phoff + i * PHDR_SIZE"
  define seg where "seg = \<lparr>vaddr = rd64 img (at + 16), file_offset = rd64 img (at + 8), filesz = rd64 img (at + 32),
                 memsz = rd64 img (at + 40), seg_flags = rd32 img (at + 4)\<rparr>"
  have "phdr_loop img phoff is segments n = Inr segs \<or>
    memsz seg \<noteq> 0 \<and> (\<exists>r. check_segment img seg segments n = Inr r \<and> phdr_loop img phoff is (fst r) (snd r) = Inr segs)"
    using Cons.prems(1) unfolding phdr_loop.simps Let_def at_def [symmetric] seg_def [symmetric]
    by (auto simp: and_then_Inr split: if_splits)
  then show ?case
  proof (elim disjE conjE exE)
    fix r assume r: "memsz seg \<noteq> 0" "check_segment img seg segments n = Inr r" "phdr_loop img phoff is (fst r) (snd r) = Inr segs"
    note c = check_segment_Inr [OF r(2,1) assms(2) Cons.prems(4)]
    show ?thesis
      by (rule Cons.IH [OF r(3)]) (use c Cons.prems in \<open>auto simp: word_le_nat_alt\<close>)
  qed (rule Cons.IH, use Cons.prems in auto)
qed simp

lemma elf_parse_Inr:
  assumes "elf_parse img = Inr (entry, segs)" "length img < 18446744073709551616"
  shows "segs \<noteq> []" "\<forall>seg\<in>set segs. seg_ok img seg" "length segs \<le> MAX_SEGMENTS"
    "(\<Sum>seg\<leftarrow>segs. card (seg_pages seg)) \<le> unat MAX_PAGES" "\<not> any_overlap segs"
    "\<exists>seg\<in>set segs. seg_flags seg AND PF_X \<noteq> 0 \<and> vaddr seg \<le> entry \<and> entry < vaddr seg + memsz seg"
proof -
  obtain phoff phnum where "phdr_loop img phoff [0..<unat (phnum :: u16)] [] 0 = Inr segs"
    and r: "segs \<noteq> []" "\<not> any_overlap segs"
    "\<exists>seg\<in>set segs. seg_flags seg AND PF_X \<noteq> 0 \<and> vaddr seg \<le> entry \<and> entry < vaddr seg + memsz seg"
    using assms(1)
    by (auto simp: elf_parse_def and_then_Inr ok_or_Inr Let_def list_ex_iff split: if_splits)
  from phdr_loop_Inr [OF this(1) assms(2)] r
  show "segs \<noteq> []" "\<forall>seg\<in>set segs. seg_ok img seg" "length segs \<le> MAX_SEGMENTS"
    "(\<Sum>seg\<leftarrow>segs. card (seg_pages seg)) \<le> unat MAX_PAGES" "\<not> any_overlap segs"
    "\<exists>seg\<in>set segs. seg_flags seg AND PF_X \<noteq> 0 \<and> vaddr seg \<le> entry \<and> entry < vaddr seg + memsz seg"
    by auto
qed

lemma any_overlap_disjoint:
  assumes "\<not> any_overlap segs" "\<forall>seg\<in>set segs. seg_ok img seg" "i < j" "j < length segs"
  shows "{unat (vaddr (segs ! i))..<seg_end (segs ! i)} \<inter> {unat (vaddr (segs ! j))..<seg_end (segs ! j)} = {}"
proof -
  have ok: "seg_ok img (segs ! i)" "seg_ok img (segs ! j)" using assms by auto
  have "\<not> segments_meet (segs ! i) (segs ! j)"
    using assms(1,3,4) by (force simp: any_overlap_def list_ex_iff)
  then have "seg_end (segs ! j) \<le> unat (vaddr (segs ! i)) \<or> seg_end (segs ! i) \<le> unat (vaddr (segs ! j))"
    using seg_ok_end(1) [OF ok(1)] seg_ok_end(1) [OF ok(2)] by (auto simp: segments_meet_def word_less_nat_alt)
  then show ?thesis by auto
qed

section \<open>Lemmas: the image in memory\<close>

lemma byte_split: "x = (a :: u64) \<longleftrightarrow> x AND NOT 7 = a AND NOT 7 \<and> x AND 7 = a AND 7"
proof -
  have "x = (x AND NOT 7) OR (x AND 7)" for x :: u64 by (rule bit_word_eqI) (auto simp: bit_simps)
  then show ?thesis by metis
qed

lemma unat_and_7: "unat ((a :: u64) AND 7) < 8"
proof -
  have "(7 :: u64) = mask 3" by (simp add: mask_eq_exp_minus_1)
  then have "a AND 7 = take_bit 3 a" by (simp add: take_bit_eq_mask)
  then have "unat (a AND 7) = take_bit 3 (unat a)" by (simp only: unsigned_take_bit_eq)
  then show ?thesis using take_bit_nat_less_exp [of 3 "unat a"] by simp
qed

lemma mem_byte_bit: "bit (mem_byte m a) k \<longleftrightarrow> k < 8 \<and> bit (m (a AND NOT 7)) (8 * unat (a AND 7) + k)"
  by (auto simp: mem_byte_def bit_simps)

lemma bit_set_byte_word:
  "bit ((w AND NOT (push_bit sh 0xFF)) OR push_bit sh (ucast b) :: u64) n \<longleftrightarrow>
     n < 64 \<and> (if sh \<le> n \<and> n < sh + 8 then bit (b :: u8) (n - sh) else bit w n)"
proof -
  have "(0xFF :: u64) = mask 8" by (simp add: mask_eq_exp_minus_1)
  then have m: "bit (0xFF :: u64) (n - sh) \<longleftrightarrow> n - sh < 8 \<and> n - sh < 64" by (simp only: bit_mask_iff) auto
  have "bit b (n - sh) \<Longrightarrow> n - sh < 8" using bit_imp_le_length [of b "n - sh"] by simp
  then show ?thesis using m by (cases "n - sh < 8"; cases "sh \<le> n") (auto simp: bit_simps)
qed

lemma mem_byte_set_byte: "mem_byte (set_byte a b m) x = (if x = a then b else mem_byte m x)"
proof (rule bit_word_eqI)
  fix k assume "k < LENGTH(8)"
  then have k: "k < 8" by simp
  consider "x AND NOT 7 \<noteq> a AND NOT 7" | "x = a" | "x AND NOT 7 = a AND NOT 7" "x AND 7 \<noteq> a AND 7"
    using byte_split by metis
  then show "bit (mem_byte (set_byte a b m) x) k = bit (if x = a then b else mem_byte m x) k"
  proof cases
    case 1
    then show ?thesis by (auto simp: mem_byte_def set_byte_def Let_def)
  next
    case 2
    then show ?thesis using k unat_and_7 [of a] by (simp add: mem_byte_bit set_byte_def Let_def bit_set_byte_word)
  next
    case 3
    then have "unat (x AND 7) \<noteq> unat (a AND 7)" "x \<noteq> a" using word_unat_eq_iff by blast+
    then show ?thesis using k 3 unat_and_7 [of x] by (auto simp: mem_byte_bit set_byte_def Let_def bit_set_byte_word)
  qed
qed

lemma mem_byte_fold:
  "x \<notin> f ` set ks \<Longrightarrow> mem_byte (fold (\<lambda>k. set_byte (f k) (g k)) ks m) x = mem_byte m x"
  "inj_on f (set ks) \<Longrightarrow> distinct ks \<Longrightarrow> k \<in> set ks \<Longrightarrow>
    mem_byte (fold (\<lambda>k. set_byte (f k) (g k)) ks m) (f k) = g k"
proof -
  show other: "x \<notin> f ` set ks \<Longrightarrow> mem_byte (fold (\<lambda>k. set_byte (f k) (g k)) ks m) x = mem_byte m x" for x ks m
    by (induction ks arbitrary: m) (simp_all add: mem_byte_set_byte)
  show "inj_on f (set ks) \<Longrightarrow> distinct ks \<Longrightarrow> k \<in> set ks \<Longrightarrow>
    mem_byte (fold (\<lambda>k. set_byte (f k) (g k)) ks m) (f k) = g k"
  proof (induction ks arbitrary: m)
    case (Cons j ks)
    show ?case
    proof (cases "k = j")
      case True
      then have "f k \<notin> f ` set ks" using Cons.prems by (auto simp: inj_on_def)
      then show ?thesis using True other [of "f k" ks] by (simp add: mem_byte_set_byte)
    next
      case False
      then show ?thesis using Cons by (simp add: inj_on_def)
    qed
  qed simp
qed

lemma of_nat_inj_page: "i < 4096 \<Longrightarrow> j < 4096 \<Longrightarrow> a + of_nat i = a + (of_nat j :: u64) \<Longrightarrow> i = j"
proof -
  assume lt: "i < 4096" "j < 4096" and "a + of_nat i = a + (of_nat j :: u64)"
  then have eq: "unat (of_nat i :: u64) = unat (of_nat j :: u64)" by (simp only: add_left_cancel)
  have "unat (of_nat i :: u64) = i" "unat (of_nat j :: u64) = j" using lt by (intro unat_of_nat_u64; linarith)+
  then show "i = j" using eq by metis
qed

lemma mem_byte_set_bytes:
  assumes "length bs \<le> 4096"
  shows "k < length bs \<Longrightarrow> mem_byte (set_bytes m a bs) (a + of_nat k) = bs ! k"
    "(\<And>k. k < length bs \<Longrightarrow> x \<noteq> a + of_nat k) \<Longrightarrow> mem_byte (set_bytes m a bs) x = mem_byte m x"
proof -
  have "inj_on (\<lambda>k. a + of_nat k :: u64) (set [0..<length bs])"
    unfolding inj_on_def using assms by (auto intro!: of_nat_inj_page)
  then show "k < length bs \<Longrightarrow> mem_byte (set_bytes m a bs) (a + of_nat k) = bs ! k"
    unfolding set_bytes_def
    using mem_byte_fold(2) [where f = "\<lambda>k. a + of_nat k" and g = "\<lambda>k. bs ! k" and ks = "[0..<length bs]"] by simp
  show "(\<And>k. k < length bs \<Longrightarrow> x \<noteq> a + of_nat k) \<Longrightarrow> mem_byte (set_bytes m a bs) x = mem_byte m x"
    unfolding set_bytes_def by (rule mem_byte_fold(1)) fastforce
qed

lemma mem_byte_frame: "unat (x AND NOT 7 :: u64) div 4096 = unat x div 4096"
proof -
  have "(7 :: u64) = mask 3" by (simp add: mask_eq_exp_minus_1)
  then have "unat (x AND NOT 7) = unat x div 8 * 8" using unat_and_not_mask [of x 3] by simp
  then show ?thesis using div_mult_mult2 [of 8 "unat x div 8" 512] div_mult2_eq [of "unat x" 8 512] by simp
qed

lemma mem_byte_cong: "(\<And>a. unat a div 4096 = unat x div 4096 \<Longrightarrow> m a = m' a) \<Longrightarrow> mem_byte m x = mem_byte m' x"
  using mem_byte_frame [of x] by (simp add: mem_byte_def)

lemma unat_page_add:
  assumes "page_aligned f" "i < 4096"
  shows "unat (f + of_nat i) = unat f + i" "unat (f + of_nat i) div 4096 = unat f div 4096"
proof -
  have m: "unat f mod 4096 = 0" using assms(1) by (simp add: page_aligned_def)
  then obtain q where q: "unat f = 4096 * q" by auto
  then have "q < 4503599627370496" using unat_u64_less [of f] by linarith
  then show u: "unat (f + of_nat i) = unat f + i"
    using assms(2) q by (subst unat_add_u64) (simp_all add: unat_of_nat_u64)
  show "unat (f + of_nat i) div 4096 = unat f div 4096" unfolding u using small_add(1) [of "unat f" i] m assms(2) by simp
qed

lemma mem_byte_zero_page:
  assumes "page_aligned f" "i < 4096"
  shows "mem_byte (zero_page m f) (f + of_nat i) = 0"
proof -
  let ?x = "f + of_nat i"
  have q: "unat f div 4096 * 4096 = unat f" using assms(1) by (auto simp: page_aligned_def)
  have "unat (?x AND NOT 7) div 4096 = unat f div 4096" using mem_byte_frame [of ?x] unat_page_add(2) [OF assms] by simp
  then have "unat f \<le> unat (?x AND NOT 7)" "unat (?x AND NOT 7) < unat f + 4096"
    using q div_mult_mod_eq [of "unat (?x AND NOT 7)" 4096] mod_less_divisor [of 4096 "unat (?x AND NOT 7)"] by linarith+
  then show ?thesis by (simp add: mem_byte_def zero_page_def)
qed

text \<open>The frames and the page numbers of a page map, and the invariant of \<open>populate\<close> relative to the
  state \<open>s0\<close> it started from: the frames of the pages are distinct and were free in \<open>s0\<close>, nothing else
  was taken and no other memory written, and the pages hold the permissions \<open>wr\<close>, \<open>ex\<close> (by page number)
  and the bytes \<open>c\<close> (by address), which are empty elsewhere.\<close>

definition page_frame :: "u64 \<times> page \<Rightarrow> nat" where
  "page_frame vp = unat (page_phys (snd vp)) div 4096"

definition page_nos :: "pages \<Rightarrow> nat set" where
  "page_nos pages = (\<lambda>vp. unat (fst vp) div 4096) ` set pages"

definition frames_inv :: "'a kernel_scheme \<Rightarrow> 'a kernel_scheme \<Rightarrow> pages \<Rightarrow> bool" where
  "frames_inv s0 s pages \<longleftrightarrow> kernel_ok s \<and> kernel_limit s = kernel_limit s0 \<and> mem_only s0 s \<and>
     sorted (map fst pages) \<and> distinct (map fst pages) \<and> distinct (map page_frame pages) \<and>
     page_frame ` set pages \<subseteq> kernel_free s0 \<and> kernel_free s = kernel_free s0 - page_frame ` set pages \<and>
     (\<forall>vp\<in>set pages. page_aligned (fst vp) \<and> page_aligned (page_phys (snd vp))) \<and>
     (\<forall>a. unat a div 4096 \<notin> kernel_free s0 \<longrightarrow> mem s a = mem s0 a)"

definition holds_image :: "'a kernel_scheme \<Rightarrow> pages \<Rightarrow> (nat \<Rightarrow> bool) \<Rightarrow> (nat \<Rightarrow> bool) \<Rightarrow> (nat \<Rightarrow> u8) \<Rightarrow> bool" where
  "holds_image s pages wr ex c \<longleftrightarrow>
     (\<forall>vp\<in>set pages. writable (snd vp) = wr (unat (fst vp) div 4096) \<and> executable (snd vp) = ex (unat (fst vp) div 4096) \<and>
        (\<forall>i<4096. mem_byte (mem s) (page_phys (snd vp) + of_nat i) = c (unat (fst vp) + i))) \<and>
     (\<forall>n. n \<notin> page_nos pages \<longrightarrow> \<not> wr n \<and> \<not> ex n \<and> (\<forall>i<4096. c (n * 4096 + i) = 0))"

lemma frames_inv_start:
  assumes "kernel_ok s"
  shows "frames_inv s s []" "holds_image s [] (\<lambda>_. False) (\<lambda>_. False) (\<lambda>_. 0)"
  using assms by (simp_all add: frames_inv_def holds_image_def)

lemma page_number_eq:
  assumes "page_aligned va" "page_aligned vb" "unat va div 4096 = unat vb div 4096"
  shows "va = vb"
proof -
  have "unat va = unat va div 4096 * 4096" "unat vb = unat vb div 4096 * 4096"
    using assms(1,2) by (auto simp: page_aligned_def)
  then show ?thesis using assms(3) word_unat_eq_iff by metis
qed

lemma page_nos_mem:
  assumes "frames_inv s0 s pages" "page_aligned va"
  shows "unat va div 4096 \<in> page_nos pages \<longleftrightarrow> (\<exists>p. map_of pages va = Some p)"
proof
  assume "unat va div 4096 \<in> page_nos pages"
  then obtain vp where vp: "vp \<in> set pages" "unat va div 4096 = unat (fst vp) div 4096" by (auto simp: page_nos_def)
  then have "va = fst vp" using page_number_eq assms by (auto simp: frames_inv_def)
  then have "va \<in> dom (map_of pages)" using vp(1) by (simp add: dom_map_of_conv_image_fst)
  then show "\<exists>p. map_of pages va = Some p" by auto
next
  assume "\<exists>p. map_of pages va = Some p"
  then obtain p where "(va, p) \<in> set pages" by (auto dest: map_of_SomeD)
  then show "unat va div 4096 \<in> page_nos pages" by (force simp: page_nos_def)
qed

lemma share_image:
  assumes fi: "frames_inv s0 s pages" and hi: "holds_image s pages wr ex c" and va: "page_aligned va"
    and p: "map_of pages va = Some p"
  shows "frames_inv s0 s (pages_share va w x pages)"
    "holds_image s (pages_share va w x pages) (\<lambda>n. wr n \<or> w \<and> n = unat va div 4096) (\<lambda>n. ex n \<or> x \<and> n = unat va div 4096) c"
    "page_nos (pages_share va w x pages) = page_nos pages"
proof -
  define f where "f = (\<lambda>(k, p :: page). if k = va then (k, p\<lparr>writable := writable p \<or> w, executable := executable p \<or> x\<rparr>) else (k, p))"
  have f: "fst (f vp) = fst vp" "page_phys (snd (f vp)) = page_phys (snd vp)" "page_frame (f vp) = page_frame vp" for vp
    by (auto simp: f_def page_frame_def split: prod.splits)
  have sh: "pages_share va w x pages = map f pages" by (simp add: pages_share_def f_def)
  have fs: "fst \<circ> f = fst" "page_frame \<circ> f = page_frame" using f by auto
  have img: "page_frame ` set (map f pages) = page_frame ` set pages" using f by (auto simp: image_image)
  show nos: "page_nos (pages_share va w x pages) = page_nos pages"
    unfolding sh page_nos_def using f by (simp add: image_image)
  show "frames_inv s0 s (pages_share va w x pages)"
    using fi img f unfolding sh frames_inv_def map_map fs by auto
  have "unat va div 4096 \<in> page_nos pages" using page_nos_mem [OF fi va] p by blast
  then have absent: "\<forall>n. n \<notin> page_nos pages \<longrightarrow> n \<noteq> unat va div 4096" by blast
  have num: "unat (fst vp) div 4096 = unat va div 4096 \<longleftrightarrow> fst vp = va" if "vp \<in> set pages" for vp
    using page_number_eq [OF _ va] fi that by (auto simp: frames_inv_def)
  have snd_f: "writable (snd (f vp)) = (writable (snd vp) \<or> w \<and> fst vp = va)"
    "executable (snd (f vp)) = (executable (snd vp) \<or> x \<and> fst vp = va)" for vp
    by (simp_all add: f_def split: prod.splits)
  show "holds_image s (pages_share va w x pages) (\<lambda>n. wr n \<or> w \<and> n = unat va div 4096)
      (\<lambda>n. ex n \<or> x \<and> n = unat va div 4096) c"
    using hi absent num unfolding holds_image_def nos unfolding sh set_map ball_simps f snd_f by simp
qed

lemma insort_fst:
  assumes "sorted (map fst xs)" "distinct (map fst xs)" "fst x \<notin> fst ` set xs"
  shows "sorted (map fst (insort_key fst x xs))" "distinct (map fst (insort_key fst x xs))"
  using assms by (auto simp: sorted_insort_key distinct_map distinct_insort set_insort_key)

lemma new_page_image:
  assumes fi: "frames_inv s0 s pages" and hi: "holds_image s pages wr ex c" and va: "page_aligned va"
    and p: "map_of pages va = None" and lim: "kernel_limit s0 \<le> 1099511627776"
    and al: "alloc_frame_zeroed s = (Some phys, s')"
    and pages': "pages' = pages_insert va \<lparr>page_phys = phys, writable = w, executable = x\<rparr> pages"
  shows "frames_inv s0 s' pages'"
    "holds_image s' pages' (\<lambda>n. wr n \<or> w \<and> n = unat va div 4096) (\<lambda>n. ex n \<or> x \<and> n = unat va div 4096) c"
    "page_nos pages' = insert (unat va div 4096) (page_nos pages)"
proof -
  let ?vp = "(va, \<lparr>page_phys = phys, writable = w, executable = x\<rparr>)"
  have ok: "kernel_ok s" "kernel_limit s \<le> 1099511627776" using fi lim by (auto simp: frames_inv_def)
  have "mem s' = zero_page (mem s) phys \<and> page_aligned phys \<and> unat phys div 4096 \<in> kernel_free s \<and>
    kernel_free s' = kernel_free s - {unat phys div 4096} \<and> kernel_ok s' \<and> kernel_limit s' = kernel_limit s"
    by (rule alloc_frame_zeroed_cases [OF ok]) (use al in auto)
  then have s': "mem s' = zero_page (mem s) phys" "page_aligned phys" "unat phys div 4096 \<in> kernel_free s"
    "kernel_free s' = kernel_free s - {unat phys div 4096}" "kernel_ok s'" "kernel_limit s' = kernel_limit s"
    by auto
  have set: "set pages' = insert ?vp (set pages)" by (simp add: pages' pages_insert_def set_insort_key)
  have new: "unat va div 4096 \<notin> page_nos pages" using page_nos_mem [OF fi va] p by simp
  have fresh: "va \<notin> fst ` set pages" using p by (simp add: map_of_eq_None_iff)
  have frame: "page_frame ?vp = unat phys div 4096" by (simp add: page_frame_def)
  have mset: "mset pages' = add_mset ?vp (mset pages)" by (simp add: pages' pages_insert_def mset_insort)
  have out: "unat phys div 4096 \<notin> page_frame ` set pages" "unat phys div 4096 \<in> kernel_free s0"
    using s'(3) fi by (auto simp: frames_inv_def)
  have "mset (map page_frame pages') = add_mset (page_frame ?vp) (mset (map page_frame pages))" using mset by simp
  then have "distinct (map page_frame pages') \<longleftrightarrow> distinct (page_frame ?vp # map page_frame pages)"
    by (intro mset_eq_imp_distinct_iff) simp
  then have dist: "distinct (map page_frame pages')" using fi out(1) frame by (simp add: frames_inv_def)
  have keep: "mem s' a = mem s a" if "unat a div 4096 \<noteq> unat phys div 4096" for a
    using zero_page_other [OF that s'(2)] s'(1) by simp
  show nos: "page_nos pages' = insert (unat va div 4096) (page_nos pages)" unfolding page_nos_def set by simp
  have "mem_only s0 s'" using fi mem_only_alloc [OF al] mem_only_trans by (auto simp: frames_inv_def)
  moreover have "mem s' a = mem s0 a" if "unat a div 4096 \<notin> kernel_free s0" for a
    using that keep [of a] out(2) fi unfolding frames_inv_def by metis
  ultimately show "frames_inv s0 s' pages'"
    using fi s' dist out va insort_fst [of pages ?vp] fresh unfolding frames_inv_def set
    by (auto simp: frame pages' pages_insert_def)
  have old: "mem_byte (mem s') (page_phys (snd vp) + of_nat i) = mem_byte (mem s) (page_phys (snd vp) + of_nat i)"
    if "vp \<in> set pages" "i < 4096" for vp i
  proof (rule mem_byte_cong, rule keep)
    have "page_aligned (page_phys (snd vp))" using fi that(1) by (auto simp: frames_inv_def)
    moreover have "page_frame vp \<noteq> unat phys div 4096" using out(1) that(1) by (metis imageI)
    ultimately show "unat a div 4096 \<noteq> unat phys div 4096"
      if "unat a div 4096 = unat (page_phys (snd vp) + of_nat i) div 4096" for a
      using that unat_page_add(2) \<open>i < 4096\<close> by (simp add: page_frame_def)
  qed
  have num: "unat (fst vp) div 4096 \<noteq> unat va div 4096" if "vp \<in> set pages" for vp
    using new that unfolding page_nos_def by (metis (no_types, lifting) imageI)
  have "unat va div 4096 * 4096 = unat va" using va by (auto simp: page_aligned_def)
  then have va0: "\<not> wr (unat va div 4096)" "\<not> ex (unat va div 4096)" "\<forall>i<4096. c (unat va + i) = 0"
    using hi new unfolding holds_image_def by metis+
  show "holds_image s' pages' (\<lambda>n. wr n \<or> w \<and> n = unat va div 4096) (\<lambda>n. ex n \<or> x \<and> n = unat va div 4096) c"
    unfolding holds_image_def nos unfolding set ball_simps
  proof (intro conjI ballI allI impI)
    fix vp i assume vp: "vp \<in> set pages"
    show "writable (snd vp) = (wr (unat (fst vp) div 4096) \<or> w \<and> unat (fst vp) div 4096 = unat va div 4096)"
      "executable (snd vp) = (ex (unat (fst vp) div 4096) \<or> x \<and> unat (fst vp) div 4096 = unat va div 4096)"
      using hi num [OF vp] vp by (simp_all add: holds_image_def)
    assume "i < (4096 :: nat)"
    then show "mem_byte (mem s') (page_phys (snd vp) + of_nat i) = c (unat (fst vp) + i)"
      using old [OF vp] hi vp by (simp add: holds_image_def)
  qed (use va0 hi mem_byte_zero_page [OF s'(2)] in \<open>auto simp: s'(1) holds_image_def\<close>)
qed

lemma claim_pages_spec:
  assumes "frames_inv s0 s pages" "holds_image s pages wr ex c" "kernel_limit s0 \<le> 1099511627776"
    "page_aligned va" "page_aligned end" "unat end \<le> 70368744177664"
  shows "\<exists>r pages' s'. claim_pages s pages va end w x = Some (r, pages', s') \<and> frames_inv s0 s' pages' \<and>
    (case r of
       Inl e \<Rightarrow> e = NoMemory \<and> kernel_free s' = {} \<and> page_nos pages' \<subset> page_nos pages \<union> {unat va div 4096..<unat end div 4096}
     | Inr _ \<Rightarrow> holds_image s' pages' (\<lambda>n. wr n \<or> w \<and> n \<in> {unat va div 4096..<unat end div 4096})
         (\<lambda>n. ex n \<or> x \<and> n \<in> {unat va div 4096..<unat end div 4096}) c \<and>
         page_nos pages' = page_nos pages \<union> {unat va div 4096..<unat end div 4096})"
  using assms
proof (induction "unat end - unat va" arbitrary: s pages wr ex va rule: less_induct)
  case less
  show ?case
  proof (cases "va < end")
    case False
    then have "unat end div 4096 \<le> unat va div 4096" by (intro div_le_mono) (simp add: word_less_nat_alt)
    then show ?thesis using less.prems False by (auto simp: claim_pages.simps [of s pages va])
  next
    case True
    let ?n = "unat va div 4096" and ?e = "unat end div 4096"
    have va: "unat va = ?n * 4096" and en: "unat end = ?e * 4096" using less.prems(4,5) by (auto simp: page_aligned_def)
    have lt: "?n < ?e" using True va en by (simp add: word_less_nat_alt)
    define va' where "va' = va + PAGE_SIZE"
    have u: "unat va' = unat va + 4096"
      unfolding va'_def using True less.prems(6) by (subst unat_add_u64) (simp_all add: word_less_nat_alt)
    have n': "unat va' div 4096 = Suc ?n" and al: "page_aligned va'"
      using u less.prems(4) by (simp_all add: page_aligned_def)
    have "unat va + unat PAGE_SIZE < 2 ^ 64" using True less.prems(6) by (simp add: word_less_nat_alt)
    then have add: "checked_add va PAGE_SIZE = Some va'" by (simp add: checked_add_def va'_def)
    have rng: "{?n..<?e} = insert ?n {Suc ?n..<?e}" using lt by auto
    have step: "?thesis" if fi: "frames_inv s0 s1 pages1"
      and hi: "holds_image s1 pages1 (\<lambda>n. wr n \<or> w \<and> n = ?n) (\<lambda>n. ex n \<or> x \<and> n = ?n) c"
      and nos: "page_nos pages1 = insert ?n (page_nos pages)"
      and eq: "claim_pages s pages va end w x = claim_pages s1 pages1 va' end w x" for s1 pages1
    proof -
      have m: "unat end - unat va' < unat end - unat va" using u va en lt by simp
      have f: "(\<lambda>n. (wr n \<or> w \<and> n = ?n) \<or> w \<and> n \<in> {Suc ?n..<?e}) = (\<lambda>n. wr n \<or> w \<and> n \<in> {?n..<?e})"
        "(\<lambda>n. (ex n \<or> x \<and> n = ?n) \<or> x \<and> n \<in> {Suc ?n..<?e}) = (\<lambda>n. ex n \<or> x \<and> n \<in> {?n..<?e})"
        unfolding rng by auto
      show ?thesis using less.hyps [OF m fi hi less.prems(3) al less.prems(5,6)] unfolding eq n' f nos rng by (simp only: Un_insert_left Un_insert_right)
    qed
    show ?thesis
    proof (cases "map_of pages va")
      case (Some p)
      note sh = share_image [OF less.prems(1,2,4) Some, of w x]
      have "?n \<in> page_nos pages" using page_nos_mem [OF less.prems(1,4)] Some by blast
      then show ?thesis
        using True Some add by (intro step [OF sh(1,2)]) (auto simp: sh(3) claim_pages.simps [of s pages va])
    next
      case None
      obtain r s1 where al: "alloc_frame_zeroed s = (r, s1)" by force
      show ?thesis
      proof (cases r)
        case (Some phys)
        note np = new_page_image [OF less.prems(1,2,4) None less.prems(3) al [unfolded Some] refl, of w x]
        show ?thesis
          using True None add al Some by (intro step [OF np]) (simp add: claim_pages.simps [of s pages va])
      next
        case N: None
        have "kernel_ok s" "kernel_limit s \<le> 1099511627776" using less.prems(1,3) by (auto simp: frames_inv_def)
        then have "s1 = s \<and> kernel_free s = {}" by (rule alloc_frame_zeroed_cases) (use al N in auto)
        moreover have "?n \<notin> page_nos pages" "?n \<in> {?n..<?e}"
          using page_nos_mem [OF less.prems(1,4)] None lt by simp_all
        then have "page_nos pages \<subset> page_nos pages \<union> {?n..<?e}" by blast
        ultimately show ?thesis using less.prems(1) True None al N by (simp add: claim_pages.simps [of s pages va])
      qed
    qed
  qed
qed

lemma set_bytes_other:
  assumes "\<And>k. k < length bs \<Longrightarrow> unat (a + of_nat k) div 4096 \<noteq> unat x div 4096"
  shows "set_bytes m a bs x = m x"
proof -
  have "fold (\<lambda>k. set_byte (a + of_nat k) (bs ! k)) ks m x = m x" if "set ks \<subseteq> {..<length bs}" for ks
    using that
  proof (induction ks arbitrary: m)
    case (Cons k ks)
    then have "unat x div 4096 \<noteq> unat (a + of_nat k) div 4096" using assms [of k] by auto
    then show ?case using Cons by (simp add: set_byte_other)
  qed simp
  from this [of "[0..<length bs]"] show ?thesis by (simp add: set_bytes_def lessThan_atLeast0)
qed

lemma page_interval:
  assumes "v * 4096 + off \<le> n * 4096 + i" "n * 4096 + i < v * 4096 + off + len" "off + len \<le> 4096" "i < 4096"
  shows "n = (v :: nat)"
  using assms by linarith

lemma page_number: "page_aligned va \<Longrightarrow> unat va = unat va div 4096 * 4096"
  by (auto simp: page_aligned_def)

lemma write_chunk:
  assumes fi: "frames_inv s0 s pages" and hi: "holds_image s pages wr ex c" and p: "(va, p) \<in> set pages"
    and n: "off + length bs \<le> 4096"
    and s': "s' = s\<lparr>mem := set_bytes (mem s) (page_phys p + of_nat off) bs\<rparr>"
  shows "frames_inv s0 s' pages"
    "holds_image s' pages wr ex (\<lambda>a. if unat va + off \<le> a \<and> a < unat va + off + length bs then bs ! (a - (unat va + off)) else c a)"
proof -
  let ?ph = "page_phys p + of_nat off"
  have ms: "mem s' = set_bytes (mem s) ?ph bs" by (simp add: s')
  have al: "page_aligned va" "page_aligned (page_phys p)" using fi p by (auto simp: frames_inv_def)
  have "page_frame (va, p) \<in> kernel_free s0" using fi p unfolding frames_inv_def by blast
  then have fr: "unat (page_phys p) div 4096 \<in> kernel_free s0" by (simp add: page_frame_def)
  have addr: "?ph + of_nat k = page_phys p + of_nat (off + k)" for k by simp
  have in_frame: "unat (?ph + of_nat k) div 4096 = unat (page_phys p) div 4096" if "k < length bs" for k
    unfolding addr by (rule unat_page_add(2) [OF al(2)]) (use that n in linarith)
  have keep: "mem s' x = mem s x" if "unat x div 4096 \<noteq> unat (page_phys p) div 4096" for x
    unfolding s' using that in_frame by (simp add: set_bytes_other)
  show "frames_inv s0 s' pages"
  proof -
    have "mem s' a = mem s0 a" if "unat a div 4096 \<notin> kernel_free s0" for a
      using that keep [of a] fr fi unfolding frames_inv_def by metis
    moreover have "mem_only s0 s'" using fi mem_only_trans [OF _ mem_only_write(2)] by (auto simp: frames_inv_def s')
    ultimately show ?thesis using fi by (auto simp: frames_inv_def s')
  qed
  let ?c = "\<lambda>a. if unat va + off \<le> a \<and> a < unat va + off + length bs then bs ! (a - (unat va + off)) else c a"
  have self: "mem_byte (mem s') (page_phys p + of_nat i) = ?c (unat va + i)" if "i < 4096" for i
  proof (cases "off \<le> i \<and> i < off + length bs")
    case True
    then have eq: "page_phys p + of_nat i = ?ph + of_nat (i - off)" by (simp flip: of_nat_add)
    have "mem_byte (mem s') (?ph + of_nat (i - off)) = bs ! (i - off)"
      unfolding ms by (rule mem_byte_set_bytes(1)) (use True n in auto)
    then show ?thesis using True unfolding eq by simp
  next
    case False
    have "mem_byte (mem s') (page_phys p + of_nat i) = mem_byte (mem s) (page_phys p + of_nat i)"
      unfolding ms
    proof (rule mem_byte_set_bytes(2))
      fix k assume "k < length bs"
      then have "off + k < 4096" "i \<noteq> off + k" using n False by auto
      then show "page_phys p + of_nat i \<noteq> ?ph + of_nat k"
        unfolding addr using of_nat_inj_page [OF that, of "off + k"] by blast
    qed (use n in simp)
    also have "\<dots> = c (unat va + i)" using hi p that by (auto simp: holds_image_def)
    finally show ?thesis using False by auto
  qed
  have vb: "unat vb div 4096 = unat va div 4096 \<longleftrightarrow> vb = va" if "(vb, q) \<in> set pages" for vb q
  proof -
    have "page_aligned vb" using fi that by (auto simp: frames_inv_def)
    then show ?thesis using page_number_eq al(1) by blast
  qed
  have outside: "?c (k * 4096 + i) = c (k * 4096 + i)" if "k \<noteq> unat va div 4096" "i < 4096" for k i
    using page_interval [of "unat va div 4096" off k i "length bs"] page_number [OF al(1)] n that by auto
  have other: "mem_byte (mem s') (page_phys q + of_nat i) = ?c (unat vb + i)"
    if q: "(vb, q) \<in> set pages" "vb \<noteq> va" "i < 4096" for vb q i
  proof -
    have "page_frame (vb, q) \<noteq> page_frame (va, p)"
      using fi p q by (auto simp: frames_inv_def distinct_map inj_on_def)
    moreover have "page_aligned (page_phys q)" "page_aligned vb" using fi q by (auto simp: frames_inv_def)
    ultimately have "mem_byte (mem s') (page_phys q + of_nat i) = mem_byte (mem s) (page_phys q + of_nat i)"
      using unat_page_add(2) [of "page_phys q" i] q(3) by (intro mem_byte_cong keep) (simp add: page_frame_def)
    moreover have "mem_byte (mem s) (page_phys q + of_nat i) = c (unat vb + i)" using hi q by (auto simp: holds_image_def)
    moreover have "unat vb div 4096 \<noteq> unat va div 4096" using vb [OF q(1)] q(2) by simp
    note outside [OF this q(3), folded page_number [OF \<open>page_aligned vb\<close>]]
    ultimately show ?thesis by (simp only:)
  qed
  have "unat va div 4096 \<in> page_nos pages" using p by (force simp: page_nos_def)
  then have "\<forall>k. k \<notin> page_nos pages \<longrightarrow> \<not> wr k \<and> \<not> ex k \<and> (\<forall>i<4096. ?c (k * 4096 + i) = 0)"
    using hi outside unfolding holds_image_def by metis
  moreover have "\<forall>i<4096. mem_byte (mem s') (page_phys (snd vp) + of_nat i) = ?c (unat (fst vp) + i)" if "vp \<in> set pages" for vp
  proof (cases "fst vp = va")
    case True
    then have "vp = (va, p)" using fi p that by (cases vp) (auto simp: frames_inv_def dest: eq_key_imp_eq_value)
    then show ?thesis using self by simp
  next
    case False
    then show ?thesis using other [of "fst vp" "snd vp"] that by simp
  qed
  ultimately show "holds_image s' pages wr ex ?c"
    using hi unfolding holds_image_def by blast
qed

lemma fill_pages_spec:
  assumes "frames_inv s0 s pages" "holds_image s pages wr ex c" and ok: "seg_ok img seg"
    and pg: "seg_pages seg \<subseteq> page_nos pages" and "copied \<le> unat (filesz seg)"
  shows "\<exists>s'. fill_pages s img pages seg copied = (Inr (), s') \<and> frames_inv s0 s' pages \<and>
    holds_image s' pages wr ex (\<lambda>a. if unat (vaddr seg) + copied \<le> a \<and> a < unat (vaddr seg) + unat (filesz seg)
      then img ! (unat (file_offset seg) + (a - unat (vaddr seg))) else c a)"
  using assms(1,2,5)
proof (induction "unat (filesz seg) - copied" arbitrary: s c copied rule: less_induct)
  case less
  show ?case
  proof (cases "copied < unat (filesz seg)")
    case False
    then have "fill_pages s img pages seg copied = (Inr (), s)" by (simp add: fill_pages.simps [of s img pages seg copied])
    moreover have "(\<lambda>a. if unat (vaddr seg) + copied \<le> a \<and> a < unat (vaddr seg) + unat (filesz seg)
      then img ! (unat (file_offset seg) + (a - unat (vaddr seg))) else c a) = c" using False by (intro ext) auto
    ultimately show ?thesis using less.prems by (simp only: simp_thms prod.inject)
  next
    case True
    have sz: "unat (filesz seg) \<le> unat (memsz seg)" "unat (file_offset seg) + unat (filesz seg) \<le> length img"
      using ok by (auto simp: seg_ok_def word_le_nat_alt)
    define va where "va = vaddr seg + of_nat copied"
    define off where "off = page_off va"
    define k where "k = min (unat (filesz seg) - copied) (4096 - off)"
    define bs where "bs = take k (drop (unat (file_offset seg) + copied) img)"
    have va: "unat va = unat (vaddr seg) + copied"
      unfolding va_def using True sz seg_ok_end(2) [OF ok] unat_u64_less [of "filesz seg"]
      by (subst unat_add_u64) (simp_all add: unat_of_nat_u64 seg_end_def)
    have off: "off < 4096" "unat va = unat va div 4096 * 4096 + off"
      unfolding off_def page_off_mod by simp_all
    have lo: "unat (align_down va PAGE_SIZE) = unat va div 4096 * 4096" by (rule unat_align_down_page)
    have al: "page_aligned (align_down va PAGE_SIZE)" by (simp add: page_aligned_def lo)
    have "unat va < seg_end seg" using va True sz by (simp add: seg_end_def)
    then have "unat va div 4096 < (seg_end seg + 4095) div 4096"
      using div_le_mono [of "unat va + 4096" "seg_end seg + 4095" 4096] by simp
    moreover have "unat (vaddr seg) div 4096 \<le> unat va div 4096" by (rule div_le_mono) (simp add: va)
    ultimately have "unat va div 4096 \<in> page_nos pages" using pg by (auto simp: seg_pages_def)
    then obtain p where p: "map_of pages (align_down va PAGE_SIZE) = Some p"
      using page_nos_mem [OF less.prems(1) al] lo by auto
    define s1 where "s1 = s\<lparr>mem := set_bytes (mem s) (page_phys p + of_nat off) bs\<rparr>"
    have k: "0 < k" "copied + k \<le> unat (filesz seg)" "off + k \<le> 4096" using True off by (auto simp: k_def)
    have len: "length bs = k" using k sz by (simp add: bs_def)
    note wc = write_chunk [OF less.prems(1,2) map_of_SomeD [OF p] _ s1_def, unfolded len, OF k(3)]
    have eq: "fill_pages s img pages seg copied = fill_pages s1 img pages seg (copied + k)"
      using True p by (simp add: fill_pages.simps [of s img pages seg copied] Let_def s1_def bs_def k_def off_def va_def)
    have m: "unat (filesz seg) - (copied + k) < unat (filesz seg) - copied" using k True by linarith
    have start: "unat (align_down va PAGE_SIZE) + off = unat (vaddr seg) + copied" using off va lo by simp
    have "(\<lambda>a. if unat (vaddr seg) + (copied + k) \<le> a \<and> a < unat (vaddr seg) + unat (filesz seg)
        then img ! (unat (file_offset seg) + (a - unat (vaddr seg)))
        else if unat (vaddr seg) + copied \<le> a \<and> a < unat (vaddr seg) + copied + k then bs ! (a - (unat (vaddr seg) + copied)) else c a) =
      (\<lambda>a. if unat (vaddr seg) + copied \<le> a \<and> a < unat (vaddr seg) + unat (filesz seg)
        then img ! (unat (file_offset seg) + (a - unat (vaddr seg))) else c a)"
      using k sz by (auto simp: fun_eq_iff bs_def intro!: arg_cong [where f = "(!) img"])
    then show ?thesis
      using less.hyps [OF m wc k(2)] unfolding eq start by (simp only:)
  qed
qed

text \<open>What the segments ask of a page, and of an address: the byte the last of them puts there.\<close>

definition want_flag :: "u32 \<Rightarrow> segment list \<Rightarrow> nat \<Rightarrow> bool" where
  "want_flag f segs n \<longleftrightarrow> (\<exists>seg\<in>set segs. seg_flags seg AND f \<noteq> 0 \<and> n \<in> seg_pages seg)"

fun image_byte :: "u8 list \<Rightarrow> segment list \<Rightarrow> (nat \<Rightarrow> u8) \<Rightarrow> nat \<Rightarrow> u8" where
  "image_byte img [] c = c"
| "image_byte img (seg # segs) c = image_byte img segs
     (\<lambda>a. if unat (vaddr seg) \<le> a \<and> a < unat (vaddr seg) + unat (filesz seg)
          then img ! (unat (file_offset seg) + (a - unat (vaddr seg))) else c a)"

lemma populate_loop_spec:
  assumes "frames_inv s0 s pages" "holds_image s pages wr ex c" "kernel_limit s0 \<le> 1099511627776"
    "\<forall>seg\<in>set segs. seg_ok img seg"
  shows "\<exists>r pages' s'. populate_loop s img segs pages = Some (r, pages', s') \<and> frames_inv s0 s' pages' \<and>
    (case r of
       Inl e \<Rightarrow> e = NoMemory \<and> kernel_free s' = {} \<and> page_nos pages' \<subset> page_nos pages \<union> \<Union> (seg_pages ` set segs)
     | Inr _ \<Rightarrow> holds_image s' pages' (\<lambda>n. wr n \<or> want_flag PF_W segs n) (\<lambda>n. ex n \<or> want_flag PF_X segs n) (image_byte img segs c) \<and>
         page_nos pages' = page_nos pages \<union> \<Union> (seg_pages ` set segs))"
  using assms
proof (induction segs arbitrary: s pages wr ex c)
  case Nil
  then show ?case by (simp add: want_flag_def)
next
  case (Cons seg segs)
  let ?va = "align_down (vaddr seg) PAGE_SIZE" and ?top = "align_up (vaddr seg + memsz seg) PAGE_SIZE"
  let ?w = "seg_flags seg AND PF_W \<noteq> 0" and ?x = "seg_flags seg AND PF_X \<noteq> 0"
  have ok: "seg_ok img seg" using Cons.prems(4) by simp
  note e = seg_ok_end [OF ok]
  have al: "page_aligned ?va" "page_aligned ?top" using e(4,5) by (simp_all add: page_aligned_def)
  have lim: "unat ?top \<le> 70368744177664"
    using e(2,4) div_le_mono [of "seg_end seg + 4095" "70368744177664 + 4095" 4096] by simp
  have rng: "{unat ?va div 4096..<unat ?top div 4096} = seg_pages seg" using e(4,5) by (simp add: seg_pages_def)
  obtain r pages1 s1 where c: "claim_pages s pages ?va ?top ?w ?x = Some (r, pages1, s1)" "frames_inv s0 s1 pages1"
    "case r of Inl e \<Rightarrow> e = NoMemory \<and> kernel_free s1 = {} \<and> page_nos pages1 \<subset> page_nos pages \<union> seg_pages seg
     | Inr _ \<Rightarrow> holds_image s1 pages1 (\<lambda>n. wr n \<or> ?w \<and> n \<in> seg_pages seg) (\<lambda>n. ex n \<or> ?x \<and> n \<in> seg_pages seg) c \<and>
         page_nos pages1 = page_nos pages \<union> seg_pages seg"
    using claim_pages_spec [OF Cons.prems(1-3) al lim, of ?w ?x] unfolding rng by blast
  show ?case
  proof (cases r)
    case (Inl err)
    then show ?thesis using c by auto
  next
    case (Inr u)
    then have h: "holds_image s1 pages1 (\<lambda>n. wr n \<or> ?w \<and> n \<in> seg_pages seg) (\<lambda>n. ex n \<or> ?x \<and> n \<in> seg_pages seg) c"
      "page_nos pages1 = page_nos pages \<union> seg_pages seg" using c(3) by simp_all
    obtain s2 where f: "fill_pages s1 img pages1 seg 0 = (Inr (), s2)" "frames_inv s0 s2 pages1"
      "holds_image s2 pages1 (\<lambda>n. wr n \<or> ?w \<and> n \<in> seg_pages seg) (\<lambda>n. ex n \<or> ?x \<and> n \<in> seg_pages seg)
        (\<lambda>a. if unat (vaddr seg) \<le> a \<and> a < unat (vaddr seg) + unat (filesz seg)
          then img ! (unat (file_offset seg) + (a - unat (vaddr seg))) else c a)"
      using fill_pages_spec [OF c(2) h(1) ok, of 0] h(2) by auto
    have eq: "populate_loop s img (seg # segs) pages = populate_loop s2 img segs pages1"
      using c(1) f(1) Inr by simp
    have w: "(\<lambda>n. (wr n \<or> ?w \<and> n \<in> seg_pages seg) \<or> want_flag PF_W segs n) = (\<lambda>n. wr n \<or> want_flag PF_W (seg # segs) n)"
      "(\<lambda>n. (ex n \<or> ?x \<and> n \<in> seg_pages seg) \<or> want_flag PF_X segs n) = (\<lambda>n. ex n \<or> want_flag PF_X (seg # segs) n)"
      by (auto simp: want_flag_def)
    have n: "page_nos pages1 \<union> \<Union> (seg_pages ` set segs) = page_nos pages \<union> \<Union> (seg_pages ` set (seg # segs))"
      using h(2) by auto
    show ?thesis
      using Cons.IH [OF f(2,3) Cons.prems(3)] Cons.prems(4) unfolding eq w n image_byte.simps by simp
  qed
qed

lemma page_count:
  assumes "frames_inv s0 s pages"
  shows "card (page_frame ` set pages) = length pages" "card (page_nos pages) = length pages"
proof -
  show "card (page_frame ` set pages) = length pages"
    using assms distinct_card [of "map page_frame pages"] by (simp add: frames_inv_def)
  have "inj_on (\<lambda>va. unat va div 4096) (fst ` set pages)"
    unfolding inj_on_def using assms page_number_eq by (auto simp: frames_inv_def)
  then have "card ((\<lambda>va. unat va div 4096) ` fst ` set pages) = card (fst ` set pages)" by (rule card_image)
  then show "card (page_nos pages) = length pages"
    using assms distinct_card [of "map fst pages"] by (simp add: page_nos_def image_image frames_inv_def)
qed

lemma populate_spec:
  assumes "kernel_ok s" "kernel_limit s \<le> 1099511627776" "\<forall>seg\<in>set segs. seg_ok img seg"
  shows "\<exists>r pages s'. populate s img segs = Some (r, pages, s') \<and> frames_inv s s' pages \<and>
    (case r of
       Inl e \<Rightarrow> e = NoMemory \<and> card (kernel_free s) < card (\<Union> (seg_pages ` set segs)) \<or> e = WritableExecutable \<and> (\<exists>n. want_flag PF_W segs n \<and> want_flag PF_X segs n)
     | Inr _ \<Rightarrow> holds_image s' pages (want_flag PF_W segs) (want_flag PF_X segs) (image_byte img segs (\<lambda>_. 0)) \<and>
         page_nos pages = \<Union> (seg_pages ` set segs) \<and> (\<forall>vp\<in>set pages. \<not> (writable (snd vp) \<and> executable (snd vp))))"
proof -
  obtain r pages s' where l: "populate_loop s img segs [] = Some (r, pages, s')" "frames_inv s s' pages"
    "case r of
       Inl e \<Rightarrow> e = NoMemory \<and> kernel_free s' = {} \<and> page_nos pages \<subset> \<Union> (seg_pages ` set segs)
     | Inr _ \<Rightarrow> holds_image s' pages (want_flag PF_W segs) (want_flag PF_X segs) (image_byte img segs (\<lambda>_. 0)) \<and>
         page_nos pages = \<Union> (seg_pages ` set segs)"
    using populate_loop_spec [OF frames_inv_start [OF assms(1)] assms(2,3)]
    unfolding simp_thms page_nos_def list.set(1) image_empty Un_empty_left by blast
  show ?thesis
  proof (cases r)
    case (Inl e)
    have "kernel_free s = page_frame ` set pages" using l(2,3) Inl by (auto simp: frames_inv_def)
    then have "card (kernel_free s) = card (page_nos pages)" using page_count [OF l(2)] by simp
    also have "\<dots> < card (\<Union> (seg_pages ` set segs))"
      by (rule psubset_card_mono) (use l(3) Inl in \<open>auto simp: seg_pages_def\<close>)
    finally show ?thesis using l Inl by (auto simp: populate_def)
  next
    case (Inr u)
    show ?thesis
    proof (cases "\<exists>vp\<in>set pages. writable (snd vp) \<and> executable (snd vp)")
      case True
      then have "populate s img segs = Some (Inl WritableExecutable, pages, s')"
        using l(1) Inr by (force simp: populate_def list_ex_iff)
      moreover have "\<exists>n. want_flag PF_W segs n \<and> want_flag PF_X segs n"
        using True l(3) Inr by (auto simp: holds_image_def)
      ultimately show ?thesis using l(2) by simp
    next
      case False
      then have "populate s img segs = Some (Inr (), pages, s')"
        using l(1) Inr by (force simp: populate_def list_ex_iff)
      then show ?thesis using l Inr False by simp
    qed
  qed
qed

lemma image_byte_other:
  "(\<And>seg. seg \<in> set segs \<Longrightarrow> a \<notin> {unat (vaddr seg)..<unat (vaddr seg) + unat (filesz seg)}) \<Longrightarrow> image_byte img segs c a = c a"
  by (induction segs arbitrary: c) auto

lemma image_byte_append: "image_byte img (xs @ ys) c = image_byte img ys (image_byte img xs c)"
  by (induction xs arbitrary: c) simp_all

lemma image_byte_seg:
  assumes "\<not> any_overlap segs" "\<forall>seg\<in>set segs. seg_ok img seg" "seg \<in> set segs" "k < unat (memsz seg)"
  shows "image_byte img segs (\<lambda>_. 0) (unat (vaddr seg) + k) = (if k < unat (filesz seg) then img ! (unat (file_offset seg) + k) else 0)"
proof -
  obtain i where i: "i < length segs" "seg = segs ! i" using assms(3) by (auto simp: in_set_conv_nth)
  let ?a = "unat (vaddr seg) + k"
  have other: "?a \<notin> {unat (vaddr (segs ! j))..<unat (vaddr (segs ! j)) + unat (filesz (segs ! j))}"
    if "j < length segs" "j \<noteq> i" for j
  proof -
    have "?a \<in> {unat (vaddr seg)..<seg_end seg}" using assms(4) by (simp add: seg_end_def)
    then have "?a \<notin> {unat (vaddr (segs ! j))..<seg_end (segs ! j)}"
      using any_overlap_disjoint [OF assms(1,2), of i j] any_overlap_disjoint [OF assms(1,2), of j i] that i
      by (cases "i < j") auto
    moreover have "filesz (segs ! j) \<le> memsz (segs ! j)" using assms(2) that by (auto simp: seg_ok_def)
    ultimately show ?thesis by (auto simp: seg_end_def word_le_nat_alt)
  qed
  have "image_byte img segs (\<lambda>_. 0) = image_byte img (take i segs @ seg # drop (Suc i) segs) (\<lambda>_. 0)"
    using i by (simp flip: id_take_nth_drop)
  moreover have "image_byte img (drop (Suc i) segs) c ?a = c ?a" for c
    by (rule image_byte_other) (use other in \<open>auto simp: in_set_conv_nth\<close>)
  moreover have "image_byte img (take i segs) c ?a = c ?a" for c
    by (rule image_byte_other) (use other in \<open>auto simp: in_set_conv_nth\<close>)
  ultimately show ?thesis by (simp add: image_byte_append)
qed

lemma free_pages_spec:
  assumes "kernel_ok s" "distinct (map page_frame pages)"
    "\<forall>vp\<in>set pages. page_aligned (page_phys (snd vp)) \<and> page_frame vp < kernel_limit s \<and> page_frame vp \<notin> kernel_free s"
  shows "kernel_ok (free_pages s pages) \<and> kernel_free (free_pages s pages) = kernel_free s \<union> page_frame ` set pages \<and>
    kernel_limit (free_pages s pages) = kernel_limit s \<and> mem (free_pages s pages) = mem s \<and> mem_only s (free_pages s pages)"
  using assms
proof (induction pages arbitrary: s)
  case Nil
  then show ?case by (simp add: free_pages_def)
next
  case (Cons vp pages)
  let ?f = "page_frame vp" and ?s1 = "free_frame s (page_phys (snd vp))"
  have "of_nat (unat (page_phys (snd vp)) div 4096 * 4096) = page_phys (snd vp)"
    using page_number [of "page_phys (snd vp)"] Cons.prems(3) by simp
  then have "of_nat ?f * PAGE_SIZE = page_phys (snd vp)" by (simp only: page_frame_def of_nat_mult of_nat_numeral)
  then have law: "kernel_ok ?s1" "kernel_limit ?s1 = kernel_limit s" "kernel_free ?s1 = insert ?f (kernel_free s)"
    using free_frame_law [of s ?f] Cons.prems by auto
  have m: "mem ?s1 = mem s" "mem_only s ?s1"
    by (auto simp: free_frame_def free_frames_at_def split: option.splits prod.splits intro: mem_onlyI [where m = "mem s"])
  have eq: "free_pages s (vp # pages) = free_pages ?s1 pages" by (simp add: free_pages_def split: prod.splits)
  have "\<forall>vp'\<in>set pages. page_frame vp' \<noteq> ?f" using Cons.prems(2) by (metis distinct.simps(2) imageI list.map(2) set_map)
  then show ?case
    unfolding eq using Cons.IH [of ?s1] law m Cons.prems by (auto intro: mem_only_trans)
qed

text \<open>A minimal image with one program header, as the loader's own tests in \<open>process.rs\<close> build it.\<close>

definition TEST_DATA :: "u8 list" where "TEST_DATA = [0xDE, 0xAD, 0xBE, 0xEF]"

definition test_elf_fields :: "u64 \<Rightarrow> u64 \<Rightarrow> u64 \<Rightarrow> u64 \<Rightarrow> u32 \<Rightarrow> (nat \<times> u8 list) list" where
  "test_elf_fields entry va fsz msz flags =
       [(0, [0x7F, 0x45, 0x4C, 0x46]),
        (4, [2]),
        (5, [1]),
        (6, [1]),
        (16, to_le 2 (2 :: u16)),
        (18, to_le 2 (62 :: u16)),
        (20, to_le 4 (1 :: u32)),
        (24, to_le 8 entry),
        (32, to_le 8 (64 :: u64)),
        (52, to_le 2 (64 :: u16)),
        (54, to_le 2 (56 :: u16)),
        (56, to_le 2 (1 :: u16)),
        (64, to_le 4 (1 :: u32)),
        (68, to_le 4 flags),
        (72, to_le 8 (120 :: u64)),
        (80, to_le 8 va),
        (88, to_le 8 va),
        (96, to_le 8 fsz),
        (104, to_le 8 msz),
        (112, to_le 8 PAGE_SIZE),
        (120, TEST_DATA)]"

definition make_test_elf :: "u64 \<Rightarrow> u64 \<Rightarrow> u64 \<Rightarrow> u64 \<Rightarrow> u32 \<Rightarrow> u8 list" where
  "make_test_elf entry va fsz msz flags =
     fold (\<lambda>(at, bytes) b. copy_at b at bytes) (test_elf_fields entry va fsz msz flags) (replicate 124 0)"

lemma make_test_elf_slice:
  shows "length (make_test_elf entry va fsz msz flags) = 124"
    "(at, ys) \<in> set (test_elf_fields entry va fsz msz flags) \<Longrightarrow>
      slice (make_test_elf entry va fsz msz flags) at (at + length ys) = ys"
proof -
  have ok: "list_all (\<lambda>(at, ys). at + length ys \<le> length (replicate 124 (0 :: u8))) (test_elf_fields entry va fsz msz flags)"
    "sorted_wrt (\<lambda>(i, xs) (j, ys). i + length xs \<le> j) (test_elf_fields entry va fsz msz flags)"
    by (simp_all add: test_elf_fields_def TEST_DATA_def)
  show "length (make_test_elf entry va fsz msz flags) = 124"
    unfolding make_test_elf_def using copies_slice(1) [OF ok] by simp
  show "(at, ys) \<in> set (test_elf_fields entry va fsz msz flags) \<Longrightarrow>
      slice (make_test_elf entry va fsz msz flags) at (at + length ys) = ys"
    unfolding make_test_elf_def by (rule copies_slice(2) [OF ok])
qed

lemma make_test_elf_fields:
  fixes entry va fsz msz flags
  defines "b \<equiv> make_test_elf entry va fsz msz flags"
  shows "slice b 0 4 = [0x7F, 0x45, 0x4C, 0x46]" "b ! 4 = 2" "b ! 5 = 1" "rd16 b 16 = 2" "rd16 b 18 = 62"
    "rd64 b 24 = entry" "rd64 b 32 = 64" "rd16 b 54 = 56" "rd16 b 56 = 1"
    "rd32 b 64 = 1" "rd32 b 68 = flags" "rd64 b 72 = 120" "rd64 b 80 = va" "rd64 b 96 = fsz" "rd64 b 104 = msz"
    "slice b 120 124 = TEST_DATA"
proof -
  have sl: "slice b at (at + length ys) = ys" if "(at, ys) \<in> set (test_elf_fields entry va fsz msz flags)" for at ys
    unfolding b_def by (rule make_test_elf_slice(2) [OF that])
  have len: "length b = 124" unfolding b_def by (rule make_test_elf_slice(1))
  show "slice b 0 4 = [0x7F, 0x45, 0x4C, 0x46]" using sl [of 0 "[0x7F, 0x45, 0x4C, 0x46]"] by (simp add: test_elf_fields_def numeral_eq_Suc)
  show "slice b 120 124 = TEST_DATA" using sl [of 120 TEST_DATA] by (simp add: test_elf_fields_def TEST_DATA_def)
  show "b ! 4 = 2" "b ! 5 = 1"
    using sl [of 4 "[2]"] sl [of 5 "[1]"] nth_slice [of 5 b 0 4] nth_slice [of 6 b 0 5] len by (simp_all add: test_elf_fields_def)
  show "rd16 b 16 = 2" "rd16 b 18 = 62" "rd16 b 54 = 56" "rd16 b 56 = 1"
    using sl [of 16 "to_le 2 (2 :: u16)"] sl [of 18 "to_le 2 (62 :: u16)"] sl [of 54 "to_le 2 (56 :: u16)"]
      sl [of 56 "to_le 2 (1 :: u16)"] by (simp_all add: test_elf_fields_def rd16_def)
  show "rd32 b 64 = 1" "rd32 b 68 = flags"
    using sl [of 64 "to_le 4 (1 :: u32)"] sl [of 68 "to_le 4 flags"] by (simp_all add: test_elf_fields_def rd32_def)
  show "rd64 b 24 = entry" "rd64 b 32 = 64" "rd64 b 72 = 120" "rd64 b 80 = va" "rd64 b 96 = fsz" "rd64 b 104 = msz"
    using sl [of 24 "to_le 8 entry"] sl [of 32 "to_le 8 (64 :: u64)"] sl [of 72 "to_le 8 (120 :: u64)"]
      sl [of 80 "to_le 8 va"] sl [of 96 "to_le 8 fsz"] sl [of 104 "to_le 8 msz"] by (simp_all add: test_elf_fields_def rd64_def)
qed

lemma parse_test_elf:
  fixes va msz :: u64 and flags :: u32
  defines "seg \<equiv> \<lparr>vaddr = va, file_offset = 120, filesz = 4, memsz = msz, seg_flags = flags\<rparr>"
  assumes "seg_ok (make_test_elf entry va 4 msz flags) seg" "card (seg_pages seg) \<le> 16384" "flags AND PF_X \<noteq> 0"
    "va \<le> entry" "entry < va + msz"
  shows "elf_parse (make_test_elf entry va 4 msz flags) = Inr (entry, [seg])"
proof -
  let ?b = "make_test_elf entry va 4 msz flags"
  note f = make_test_elf_fields [of entry va 4 msz flags] and len = make_test_elf_slice(1) [of entry va 4 msz flags]
  have e: "unat va + unat msz \<le> 70368744177664" "unat (va + msz) = unat va + unat msz"
    using seg_ok_end(1,2) [OF assms(2)] by (simp_all add: seg_def seg_end_def)
  have "checked_add va msz = Some (va + msz)" using e by (simp add: checked_add_def)
  moreover have "checked_add 120 4 = Some (124 :: u64)" by (simp add: checked_add_def)
  moreover have "unat ((align_up (va + msz) PAGE_SIZE - align_down va PAGE_SIZE) div PAGE_SIZE) \<le> 16384"
    using seg_page_count [OF assms(2)] assms(3) by (simp add: seg_def)
  then have "(align_up (va + msz) PAGE_SIZE - align_down va PAGE_SIZE) div PAGE_SIZE \<le> MAX_PAGES"
    by (simp add: word_le_nat_alt MAX_PAGES_def)
  ultimately have "check_segment ?b seg [] 0 =
      Inr ([seg], (align_up (va + msz) PAGE_SIZE - align_down va PAGE_SIZE) div PAGE_SIZE)"
    using assms(2) e by (auto simp: check_segment_def seg_ok_def Let_def seg_def seg_end_def LOAD_MAX_nat word_le_nat_alt
        word_less_nat_alt len not_less MAX_SEGMENTS_def not_le)
  then have "phdr_loop ?b 64 [0] [] 0 = Inr [seg]"
    using assms(2) by (simp add: f Let_def PT_INTERP_def PT_LOAD_def seg_ok_def seg_def)
  then show ?thesis
    using assms(4-6)
    by (simp add: elf_parse_def f len Let_def EHDR_SIZE_def PHDR_SIZE_def ET_EXEC_def EM_X86_64_def MAX_PHDRS_def checked_add_def
        any_overlap_def seg_def)
qed

definition test_seg :: "u64 \<Rightarrow> segment" where
  "test_seg msz = \<lparr>vaddr = 0x400000, file_offset = 120, filesz = 4, memsz = msz, seg_flags = 5\<rparr>"

lemma test_seg_ok:
  assumes "0 < n" "n < 16"
  shows "seg_ok (make_test_elf 0x400000 0x400000 4 (of_nat n * PAGE_SIZE) 5) (test_seg (of_nat n * PAGE_SIZE))"
    "seg_pages (test_seg (of_nat n * PAGE_SIZE)) = {0x400..<n + 0x400}"
proof -
  have u: "unat (of_nat n * PAGE_SIZE :: u64) = n * 4096" using assms by (intro unat_frame_address) simp
  have "(4 :: u64) \<le> of_nat n * PAGE_SIZE" using u assms by (simp add: word_le_nat_alt)
  moreover have "of_nat n * PAGE_SIZE \<noteq> (0 :: u64)" using u assms unat_eq_zero [of "of_nat n * PAGE_SIZE"] by linarith
  ultimately show "seg_ok (make_test_elf 0x400000 0x400000 4 (of_nat n * PAGE_SIZE) 5) (test_seg (of_nat n * PAGE_SIZE))"
    using u assms
    by (simp add: test_seg_def seg_ok_def seg_end_def LOAD_MIN_def LOAD_MAX_def PF_W_def PF_X_def make_test_elf_slice(1))
  show "seg_pages (test_seg (of_nat n * PAGE_SIZE)) = {0x400..<n + 0x400}"
    using u by (simp add: test_seg_def seg_pages_def seg_end_def)
qed

lemma parse_test_image:
  assumes "0 < n" "n < 16"
  shows "elf_parse (make_test_elf 0x400000 0x400000 4 (of_nat n * PAGE_SIZE) 5) = Inr (0x400000, [test_seg (of_nat n * PAGE_SIZE)])"
  unfolding test_seg_def
proof (rule parse_test_elf)
  show "0x400000 < 0x400000 + (of_nat n * PAGE_SIZE :: u64)"
    using seg_ok_end(1,3) [OF test_seg_ok(1) [OF assms]] by (simp add: word_less_nat_alt test_seg_def)
qed (use test_seg_ok [OF assms] assms in \<open>simp_all add: PF_X_def test_seg_def\<close>)

lemma kernel_example_limit: "kernel_limit kernel_example = 16"
  by (simp add: kernel_limit_def kernel_example_def pmm_example_total)

lemma test_image_no_memory:
  "\<exists>s'. elf_load kernel_example (make_test_elf 0x400000 0x400000 4 0x6000 5) aspace = Some (Inl NoMemory, s')"
proof -
  let ?img = "make_test_elf 0x400000 0x400000 4 0x6000 5" and ?segs = "[test_seg 0x6000]"
  have ok: "\<forall>seg\<in>set ?segs. seg_ok ?img seg" and pgs: "seg_pages (test_seg 0x6000) = {0x400..<0x406}"
    using test_seg_ok [of 6] by auto
  have nowr: "\<not> want_flag PF_W ?segs n" for n by (simp add: want_flag_def PF_W_def test_seg_def)
  have lim: "kernel_limit kernel_example \<le> 1099511627776" by (simp add: kernel_example_limit)
  obtain r pages s' where r: "populate kernel_example ?img ?segs = Some (r, pages, s')" "frames_inv kernel_example s' pages"
    and c: "case r of
       Inl e \<Rightarrow> e = NoMemory \<and> card (kernel_free kernel_example) < card (\<Union> (seg_pages ` set ?segs)) \<or>
         e = WritableExecutable \<and> (\<exists>n. want_flag PF_W ?segs n \<and> want_flag PF_X ?segs n)
     | Inr _ \<Rightarrow> holds_image s' pages (want_flag PF_W ?segs) (want_flag PF_X ?segs) (image_byte ?img ?segs (\<lambda>_. 0)) \<and>
         page_nos pages = \<Union> (seg_pages ` set ?segs) \<and> (\<forall>vp\<in>set pages. \<not> (writable (snd vp) \<and> executable (snd vp)))"
    using populate_spec [OF kernel_example_ok(1) lim ok] by blast
  have "card (page_nos pages) \<le> 5"
    using page_count [OF r(2)] r(2) kernel_example_ok(2) card_mono [of "{4, 5, 6, 7, 10}" "page_frame ` set pages"]
    by (simp add: frames_inv_def)
  then have "r = Inl NoMemory" using c pgs nowr by (cases r) auto
  then show ?thesis using r(1) parse_test_image [of 6] by (simp add: elf_load_def)
qed

lemma seg_page_mem:
  assumes "k < unat (memsz seg)"
  shows "(unat (vaddr seg) + k) div 4096 \<in> seg_pages seg"
proof -
  have "(unat (vaddr seg) + k + 4096) div 4096 \<le> (seg_end seg + 4095) div 4096"
    using assms by (intro div_le_mono) (simp add: seg_end_def)
  moreover have "unat (vaddr seg) div 4096 \<le> (unat (vaddr seg) + k) div 4096" by (intro div_le_mono) simp
  ultimately show ?thesis by (simp add: seg_pages_def)
qed

section \<open>Properties\<close>

text \<open>C9. The parser accepts only safe images: every accepted segment lies in the user range the loader
  allows and takes its file bytes from inside the image, no segment is both writable and executable, no
  two segments overlap, the pages asked for are within the limit, and the entry point lies inside an
  executable segment.\<close>

theorem elf_parse_safe:
  assumes "elf_parse img = Inr (entry, segs)" "length img < 2 ^ 64"
  shows "segs \<noteq> [] \<and> length segs \<le> MAX_SEGMENTS \<and> (\<Sum>seg\<leftarrow>segs. card (seg_pages seg)) \<le> unat MAX_PAGES \<and>
    (\<forall>seg\<in>set segs. LOAD_MIN \<le> vaddr seg \<and> seg_end seg \<le> unat LOAD_MAX \<and> filesz seg \<le> memsz seg \<and>
       unat (file_offset seg) + unat (filesz seg) \<le> length img \<and>
       (seg_flags seg AND PF_W = 0 \<or> seg_flags seg AND PF_X = 0)) \<and>
    (\<forall>j<length segs. \<forall>i<j.
       {unat (vaddr (segs ! i))..<seg_end (segs ! i)} \<inter> {unat (vaddr (segs ! j))..<seg_end (segs ! j)} = {}) \<and>
    (\<exists>seg\<in>set segs. seg_flags seg AND PF_X \<noteq> 0 \<and> unat entry \<in> {unat (vaddr seg)..<seg_end seg})"
proof -
  have "length img < 18446744073709551616" using assms(2) by simp
  note p = elf_parse_Inr [OF assms(1) this]
  have "\<exists>seg\<in>set segs. seg_flags seg AND PF_X \<noteq> 0 \<and> unat entry \<in> {unat (vaddr seg)..<seg_end seg}"
    using p(2,6) seg_ok_end(1) by (fastforce simp: word_le_nat_alt word_less_nat_alt)
  then show ?thesis using p any_overlap_disjoint [OF p(5,2)] by (auto simp: seg_ok_def)
qed

theorem elf_parse_safe_witness:
  "\<exists>segs. elf_parse (make_test_elf 0x400000 0x400000 4 0x6000 5) = Inr (0x400000, segs) \<and> length segs = 1 \<and>
     (\<exists>seg\<in>set segs. seg_flags seg AND PF_X \<noteq> 0 \<and> unat (0x400000 :: u64) \<in> {unat (vaddr seg)..<seg_end seg})"
  using elf_parse_safe [OF parse_test_image [of 6]] parse_test_image [of 6] by (simp add: make_test_elf_slice(1))

text \<open>C10. Populating an accepted image always returns. On success the pages are exactly those the segments
  touch, in distinct frames taken from the free ones, writable or executable as some segment touching
  them asks and never both, and every byte of every segment is there: the file's bytes, then zeros.
  It fails only when there are fewer free frames than pages, or when two segments together ask for a writable and executable page.\<close>

theorem populate_correct:
  assumes "kernel_ok s" "kernel_limit s \<le> 2 ^ 40" "elf_parse img = Inr (entry, segs)" "length img < 2 ^ 64"
  shows "\<exists>r pages s'. populate s img segs = Some (r, pages, s') \<and> distinct (map page_frame pages) \<and>
    page_frame ` set pages \<subseteq> kernel_free s \<and> kernel_free s' = kernel_free s - page_frame ` set pages \<and>
    (case r of
       Inl e \<Rightarrow> e = NoMemory \<and> card (kernel_free s) < card (\<Union> (seg_pages ` set segs)) \<or> e = WritableExecutable \<and> (\<exists>n. want_flag PF_W segs n \<and> want_flag PF_X segs n)
     | Inr _ \<Rightarrow> page_nos pages = \<Union> (seg_pages ` set segs) \<and>
         (\<forall>vp\<in>set pages. writable (snd vp) = want_flag PF_W segs (unat (fst vp) div 4096) \<and>
            executable (snd vp) = want_flag PF_X segs (unat (fst vp) div 4096) \<and> \<not> (writable (snd vp) \<and> executable (snd vp))) \<and>
         (\<forall>seg\<in>set segs. \<forall>k<unat (memsz seg). \<exists>p.
            map_of pages (align_down (vaddr seg + of_nat k) PAGE_SIZE) = Some p \<and>
            mem_byte (mem s') (page_phys p + of_nat (page_off (vaddr seg + of_nat k))) =
              (if k < unat (filesz seg) then img ! (unat (file_offset seg) + k) else 0)))"
proof -
  have "length img < 18446744073709551616" using assms(4) by simp
  note p = elf_parse_Inr [OF assms(3) this]
  have "kernel_limit s \<le> 1099511627776" using assms(2) by simp
  from populate_spec [OF assms(1) this p(2)]
  obtain r pages s' where r: "populate s img segs = Some (r, pages, s')" and fi: "frames_inv s s' pages"
    and c: "case r of
       Inl e \<Rightarrow> e = NoMemory \<and> card (kernel_free s) < card (\<Union> (seg_pages ` set segs)) \<or> e = WritableExecutable \<and> (\<exists>n. want_flag PF_W segs n \<and> want_flag PF_X segs n)
     | Inr _ \<Rightarrow> holds_image s' pages (want_flag PF_W segs) (want_flag PF_X segs) (image_byte img segs (\<lambda>_. 0)) \<and>
         page_nos pages = \<Union> (seg_pages ` set segs) \<and> (\<forall>vp\<in>set pages. \<not> (writable (snd vp) \<and> executable (snd vp)))"
    by blast
  have byte: "\<exists>p. map_of pages (align_down (vaddr seg + of_nat k) PAGE_SIZE) = Some p \<and>
            mem_byte (mem s') (page_phys p + of_nat (page_off (vaddr seg + of_nat k))) =
              (if k < unat (filesz seg) then img ! (unat (file_offset seg) + k) else 0)"
    if r: "r = Inr u" and seg: "seg \<in> set segs" and k: "k < unat (memsz seg)" for u seg k
  proof -
    let ?a = "vaddr seg + of_nat k"
    have ok: "seg_ok img seg" using p(2) seg by blast
    have a: "unat ?a = unat (vaddr seg) + k"
      using seg_ok_end(2) [OF ok] k by (subst unat_add_u64) (simp_all add: seg_end_def unat_of_nat_u64)
    have pg: "unat ?a div 4096 \<in> seg_pages seg" using seg_page_mem [of k seg] k a by simp
    have al: "page_aligned (align_down ?a PAGE_SIZE)" by (simp add: page_aligned_def unat_align_down_page)
    obtain q where q: "map_of pages (align_down ?a PAGE_SIZE) = Some q"
      using page_nos_mem [OF fi al] c r seg pg by (auto simp: unat_align_down_page)
    have "mem_byte (mem s') (page_phys q + of_nat (page_off ?a)) = image_byte img segs (\<lambda>_. 0) (unat (align_down ?a PAGE_SIZE) + page_off ?a)"
      using c r map_of_SomeD [OF q] page_off_less [of ?a] by (auto simp: holds_image_def)
    also have "unat (align_down ?a PAGE_SIZE) + page_off ?a = unat (vaddr seg) + k"
      using a by (simp add: unat_align_down_page page_off_mod)
    finally show ?thesis using q image_byte_seg [OF p(5,2) seg k] by auto
  qed
  have fr: "distinct (map page_frame pages)" "page_frame ` set pages \<subseteq> kernel_free s"
    "kernel_free s' = kernel_free s - page_frame ` set pages" using fi by (auto simp: frames_inv_def)
  show ?thesis
    by (intro exI conjI, rule r, rule fr(1), rule fr(2), rule fr(3))
      (use c byte in \<open>cases r; simp add: holds_image_def\<close>)
qed

theorem populate_correct_witness:
  "\<exists>pages s'. populate kernel_example (make_test_elf 0x400000 0x400000 4 0x2000 5) [test_seg 0x2000] = Some (Inr (), pages, s') \<and>
     page_nos pages = {0x400..<0x402} \<and> page_frame ` set pages \<subseteq> {4, 5, 6, 7, 10} \<and>
     (\<exists>p. map_of pages (align_down 0x400003 PAGE_SIZE) = Some p \<and>
        mem_byte (mem s') (page_phys p + of_nat (page_off 0x400003)) = 0xEF)"
proof -
  let ?img = "make_test_elf 0x400000 0x400000 4 0x2000 5" and ?segs = "[test_seg 0x2000]"
  have nowr: "\<not> want_flag PF_W ?segs n" for n by (simp add: want_flag_def PF_W_def test_seg_def)
  have pgs: "seg_pages (test_seg 0x2000) = {0x400..<0x402}" using test_seg_ok(2) [of 2] by simp
  have byte: "?img ! 123 = 0xEF"
    using make_test_elf_fields(16) [of "0x400000" "0x400000" 4 "0x2000" 5] nth_slice [of 124 ?img 3 120]
    by (simp add: make_test_elf_slice(1) TEST_DATA_def)
  have lim: "kernel_limit kernel_example \<le> 2 ^ 40" and len: "length ?img < 2 ^ 64"
    by (simp_all add: kernel_example_limit make_test_elf_slice(1))
  have parse: "elf_parse ?img = Inr (0x400000, ?segs)" using parse_test_image [of 2] by simp
  obtain r pages s' where r: "populate kernel_example ?img ?segs = Some (r, pages, s')" "page_frame ` set pages \<subseteq> {4, 5, 6, 7, 10}"
    and c: "case r of
       Inl e \<Rightarrow> e = NoMemory \<and> card {4, 5, 6, 7, 10 :: nat} < card (\<Union> (seg_pages ` set ?segs)) \<or>
         e = WritableExecutable \<and> (\<exists>n. want_flag PF_W ?segs n \<and> want_flag PF_X ?segs n)
     | Inr _ \<Rightarrow> page_nos pages = \<Union> (seg_pages ` set ?segs) \<and>
         (\<forall>vp\<in>set pages. writable (snd vp) = want_flag PF_W ?segs (unat (fst vp) div 4096) \<and>
            executable (snd vp) = want_flag PF_X ?segs (unat (fst vp) div 4096) \<and> \<not> (writable (snd vp) \<and> executable (snd vp))) \<and>
         (\<forall>seg\<in>set ?segs. \<forall>k<unat (memsz seg). \<exists>p.
            map_of pages (align_down (vaddr seg + of_nat k) PAGE_SIZE) = Some p \<and>
            mem_byte (mem s') (page_phys p + of_nat (page_off (vaddr seg + of_nat k))) =
              (if k < unat (filesz seg) then ?img ! (unat (file_offset seg) + k) else 0))"
    using populate_correct [OF kernel_example_ok(1) lim parse len] unfolding kernel_example_ok(2) by blast
  obtain u where u: "r = Inr u" using c nowr pgs by (cases r) auto
  have b: "\<exists>p. map_of pages (align_down 0x400003 PAGE_SIZE) = Some p \<and>
        mem_byte (mem s') (page_phys p + of_nat (page_off 0x400003)) = 0xEF"
  proof -
    have "\<forall>k<unat (memsz (test_seg 0x2000)). \<exists>p.
      map_of pages (align_down (vaddr (test_seg 0x2000) + of_nat k) PAGE_SIZE) = Some p \<and>
      mem_byte (mem s') (page_phys p + of_nat (page_off (vaddr (test_seg 0x2000) + of_nat k))) =
        (if k < unat (filesz (test_seg 0x2000)) then ?img ! (unat (file_offset (test_seg 0x2000)) + k) else 0)"
      using c u by simp
    from this [THEN spec, of 3] show ?thesis using byte by (simp add: test_seg_def)
  qed
  have "page_nos pages = {0x400..<0x402}" using c u pgs by simp
  moreover have "r = Inr ()" using u by simp
  ultimately show ?thesis
    by (intro exI [of _ pages] exI [of _ s'] conjI) (use r b in \<open>simp_all only:\<close>)
qed

text \<open>C11. A failed load leaves nothing behind: the free frames are those from before, and memory outside
  them is unchanged, so nothing is mapped either.\<close>

theorem elf_load_no_leak:
  assumes "kernel_ok s" "kernel_limit s \<le> 2 ^ 40" "length img < 2 ^ 64" "elf_load s img aspace = Some (Inl e, s')"
  shows "kernel_ok s' \<and> kernel_free s' = kernel_free s \<and> kernel_limit s' = kernel_limit s \<and>
    (\<forall>a. unat a div 4096 \<notin> kernel_free s \<longrightarrow> mem s' a = mem s a)"
proof (cases "elf_parse img")
  case (Inl err)
  then show ?thesis using assms by (simp add: elf_load_def)
next
  case (Inr es)
  obtain entry segs where es: "es = (entry, segs)" by force
  have "length img < 18446744073709551616" using assms(3) by simp
  note p = elf_parse_Inr [OF Inr [unfolded es] this]
  have "kernel_limit s \<le> 1099511627776" using assms(2) by simp
  from populate_spec [OF assms(1) this p(2)]
  obtain r pages s1 where r: "populate s img segs = Some (r, pages, s1)" and fi: "frames_inv s s1 pages"
    by blast
  have s': "s' = free_pages s1 pages"
    using assms(4) Inr es r by (cases r) (auto simp: elf_load_def)
  have f: "kernel_ok s1" "kernel_limit s1 = kernel_limit s" "distinct (map page_frame pages)"
    "page_frame ` set pages \<subseteq> kernel_free s" "kernel_free s1 = kernel_free s - page_frame ` set pages"
    "\<forall>a. unat a div 4096 \<notin> kernel_free s \<longrightarrow> mem s1 a = mem s a"
    and al: "\<forall>vp\<in>set pages. page_aligned (page_phys (snd vp))"
    using fi by (auto simp: frames_inv_def)
  have "\<forall>vp\<in>set pages. page_aligned (page_phys (snd vp)) \<and> page_frame vp < kernel_limit s1 \<and> page_frame vp \<notin> kernel_free s1"
    using al f(2,4,5) frames.frees_limit [OF assms(1)] by fastforce
  from free_pages_spec [OF f(1,3) this] show ?thesis
    unfolding s' using f(2,4-6) by (simp add: Un_absorb2 Diff_partition Un_commute)
qed

theorem elf_load_no_leak_witness:
  "\<exists>s'. elf_load kernel_example (make_test_elf 0x400000 0x400000 4 0x6000 5) \<lparr>pml4_phys = 0x8000\<rparr> = Some (Inl NoMemory, s') \<and>
     kernel_free s' = {4, 5, 6, 7, 10}"
proof -
  obtain s' where s': "elf_load kernel_example (make_test_elf 0x400000 0x400000 4 0x6000 5) \<lparr>pml4_phys = 0x8000\<rparr> = Some (Inl NoMemory, s')"
    using test_image_no_memory by blast
  show ?thesis
    using elf_load_no_leak [OF kernel_example_ok(1) _ _ s'] s' kernel_example_ok
    by (simp add: make_test_elf_slice(1) kernel_example_limit)
qed

end
