(* ===== verification/Block.thy ===== *)
theory Block
  imports Prelude
begin

unbundle bit_operations_syntax

text \<open>
  The block-device interface, \<open>src/block.rs\<close>: the \<open>BlockDevice\<close> trait, the registry, the bounded view
  of a partition and the device backed by a boot image with a RAM overlay.

  A \<open>dyn BlockDevice\<close> is the record of its methods over a device state \<open>'d\<close>; a method that takes
  \<open>&self\<close> but changes what the device holds returns the new state. \<open>out\<close> buffers are results.
\<close>

section \<open>The trait\<close>

definition SECTOR_SIZE :: nat where "SECTOR_SIZE = 512"

datatype block_error = BlockOutOfRange | BadBuffer | ReadOnly

record 'd block_device =
  sector_count :: "'d \<Rightarrow> u64"
  read_sector :: "'d \<Rightarrow> u64 \<Rightarrow> block_error + u8 list"
  write_sector :: "'d \<Rightarrow> u64 \<Rightarrow> u8 list \<Rightarrow> (block_error + unit) \<times> 'd"
  flush :: "'d \<Rightarrow> (block_error + unit) \<times> 'd"

text \<open>The trait's default bodies.\<close>

definition default_write_sector :: "'d \<Rightarrow> u64 \<Rightarrow> u8 list \<Rightarrow> (block_error + unit) \<times> 'd" where
  "default_write_sector d lba data = (Inl ReadOnly, d)"

definition default_flush :: "'d \<Rightarrow> (block_error + unit) \<times> 'd" where
  "default_flush d = (Inl ReadOnly, d)"

section \<open>The registry\<close>

text \<open>\<open>DEVICES\<close>, in registration order; \<open>'v\<close> is a reference to a device.\<close>

type_synonym 'v registry = "(string \<times> 'v) list"

definition register_device :: "'v registry \<Rightarrow> string \<Rightarrow> 'v \<Rightarrow> 'v registry" where
  "register_device devices name device =
     (if \<exists>entry \<in> set devices. fst entry = name then devices else devices @ [(name, device)])"

definition find_device :: "'v registry \<Rightarrow> string \<Rightarrow> 'v option" where
  "find_device devices name = map_option snd (List.find (\<lambda>entry. fst entry = name) devices)"

section \<open>Partitions\<close>

record partition_device =
  start_lba :: u64
  sectors :: u64

definition partition_new :: "'d block_device \<Rightarrow> 'd \<Rightarrow> u64 \<Rightarrow> u64 \<Rightarrow> partition_device option" where
  "partition_new parent d start n =
     (case checked_add start n of
        None \<Rightarrow> None
      | Some end \<Rightarrow>
          if n = 0 \<or> end > sector_count parent d then None
          else Some \<lparr>start_lba = start, sectors = n\<rparr>)"

definition partition_view :: "'d block_device \<Rightarrow> partition_device \<Rightarrow> 'd block_device" where
  "partition_view parent p =
     \<lparr>sector_count = (\<lambda>d. sectors p),
      read_sector = (\<lambda>d lba.
        if lba \<ge> sectors p then Inl BlockOutOfRange else read_sector parent d (start_lba p + lba)),
      write_sector = (\<lambda>d lba data.
        if lba \<ge> sectors p then (Inl BlockOutOfRange, d) else write_sector parent d (start_lba p + lba) data),
      flush = flush parent\<rparr>"

section \<open>Boot images\<close>

record memory_device =
  disk_image :: "u8 list"
  overlay :: "u64 \<Rightarrow> u8 list option"

definition memory_new :: "u8 list \<Rightarrow> memory_device option" where
  "memory_new bs =
     (if length bs < SECTOR_SIZE \<or> length bs mod SECTOR_SIZE \<noteq> 0 then None
      else Some \<lparr>disk_image = bs, overlay = Map.empty\<rparr>)"

definition memory_sector_count :: "memory_device \<Rightarrow> u64" where
  "memory_sector_count d = of_nat (length (disk_image d) div SECTOR_SIZE)"

definition memory_read_sector :: "memory_device \<Rightarrow> u64 \<Rightarrow> block_error + u8 list" where
  "memory_read_sector d lba =
     (case overlay d lba of
        Some sector \<Rightarrow> Inr sector
      | None \<Rightarrow>
          let start = unat lba * SECTOR_SIZE; end = start + SECTOR_SIZE in
          if start \<ge> 2 ^ 64 \<or> end \<ge> 2 ^ 64 \<or> end > length (disk_image d) then Inl BlockOutOfRange
          else Inr (slice (disk_image d) start end))"

definition memory_write_sector :: "memory_device \<Rightarrow> u64 \<Rightarrow> u8 list \<Rightarrow> (block_error + unit) \<times> memory_device" where
  "memory_write_sector d lba data =
     (if lba \<ge> memory_sector_count d then (Inl BlockOutOfRange, d)
      else (Inr (), d\<lparr>overlay := (overlay d)(lba \<mapsto> data)\<rparr>))"

definition memory_block_device :: "memory_device block_device" where
  "memory_block_device =
     \<lparr>sector_count = memory_sector_count, read_sector = memory_read_sector,
      write_sector = memory_write_sector, flush = default_flush\<rparr>"

section \<open>The contract of a device\<close>

text \<open>
  What filesystems rely on: reads return whole sectors inside the device, a write that succeeds is
  read back and leaves every other sector, and one that fails leaves every sector.
  \<open>ok\<close> is the device's own invariant.
\<close>

lemma partition_view_simps [simp]:
  "sector_count (partition_view parent p) d = sectors p"
  "read_sector (partition_view parent p) d lba =
     (if lba < sectors p then read_sector parent d (start_lba p + lba) else Inl BlockOutOfRange)"
  "write_sector (partition_view parent p) d lba s =
     (if lba < sectors p then write_sector parent d (start_lba p + lba) s else (Inl BlockOutOfRange, d))"
  "flush (partition_view parent p) d = flush parent d"
  by (auto simp: partition_view_def dest: leD)

lemma memory_block_device_simps [simp]:
  "sector_count memory_block_device = memory_sector_count" "read_sector memory_block_device = memory_read_sector"
  "write_sector memory_block_device = memory_write_sector" "flush memory_block_device = default_flush"
  by (simp_all add: memory_block_device_def)

definition same_sectors :: "'d block_device \<Rightarrow> 'd \<Rightarrow> 'd \<Rightarrow> bool" where
  "same_sectors dev d d' \<longleftrightarrow>
     sector_count dev d' = sector_count dev d \<and> (\<forall>l. read_sector dev d' l = read_sector dev d l)"

locale device_contract =
  fixes dev :: "'d block_device" and ok :: "'d \<Rightarrow> bool"
  assumes read_whole: "ok d \<Longrightarrow> read_sector dev d lba = Inr s \<Longrightarrow> length s = SECTOR_SIZE \<and> lba < sector_count dev d"
    and write_read: "ok d \<Longrightarrow> length s = SECTOR_SIZE \<Longrightarrow> write_sector dev d lba s = (Inr (), d') \<Longrightarrow>
      ok d' \<and> sector_count dev d' = sector_count dev d \<and> lba < sector_count dev d \<and>
      (\<forall>l. read_sector dev d' l = (if l = lba then Inr s else read_sector dev d l))"
    and write_fail: "ok d \<Longrightarrow> length s = SECTOR_SIZE \<Longrightarrow> write_sector dev d lba s = (Inl e, d') \<Longrightarrow>
      ok d' \<and> same_sectors dev d d'"
    and flush_same: "ok d \<Longrightarrow> flush dev d = (r, d') \<Longrightarrow> ok d' \<and> same_sectors dev d d'"
begin

text \<open>A sector is the last thing written to it.\<close>

lemma write_write:
  assumes "ok d" "length s = SECTOR_SIZE" "length t = SECTOR_SIZE"
    and "write_sector dev d lba s = (Inr (), d1)" "write_sector dev d1 lba t = (Inr (), d2)"
  shows "read_sector dev d2 l = (if l = lba then Inr t else read_sector dev d l)"
  using write_read [OF assms(1,2,4)] write_read [of d1, OF _ assms(3,5)] by simp

lemma write_commute:
  assumes "ok d" "length s = SECTOR_SIZE" "length t = SECTOR_SIZE" "l \<noteq> k"
    and "write_sector dev d l s = (Inr (), d1)" "write_sector dev d1 k t = (Inr (), d2)"
    and "write_sector dev d k t = (Inr (), d3)" "write_sector dev d3 l s = (Inr (), d4)"
  shows "same_sectors dev d2 d4"
proof -
  note a = write_read [OF assms(1,2,5)] and b = write_read [OF assms(1,3,7)]
  have "ok d1" "ok d3" using a b by simp_all
  with a b write_read [of d1, OF _ assms(3,6)] write_read [of d3, OF _ assms(2,8)] assms(4)
  show ?thesis by (simp add: same_sectors_def)
qed

lemma write_keeps_ok: "ok d \<Longrightarrow> length s = SECTOR_SIZE \<Longrightarrow> write_sector dev d lba s = (r, d') \<Longrightarrow> ok d'"
  using write_read [of d s lba d'] write_fail [of d s lba _ d'] by (cases r) (auto simp: old.unit.exhaust)

text \<open>A partition that lies inside a device is a device.\<close>

lemma partition_lba:
  assumes "unat (start_lba p) + unat (sectors p) \<le> unat n" "l < sectors p"
  shows "unat (start_lba p + l) = unat (start_lba p) + unat l" "start_lba p + l < n"
proof -
  have "unat (start_lba p) + unat l < unat n" using assms by (simp add: word_less_nat_alt)
  moreover have "unat n < 18446744073709551616" by (rule unat_u64_less)
  ultimately show "unat (start_lba p + l) = unat (start_lba p) + unat l" by (intro unat_add_u64) linarith
  with \<open>unat (start_lba p) + unat l < unat n\<close> show "start_lba p + l < n" by (simp add: word_less_nat_alt)
qed

lemma partition_contract:
  "device_contract (partition_view dev p)
     (\<lambda>d. ok d \<and> unat (start_lba p) + unat (sectors p) \<le> unat (sector_count dev d))"
proof unfold_locales
  fix d lba s
  assume "ok d \<and> unat (start_lba p) + unat (sectors p) \<le> unat (sector_count dev d)"
    and "read_sector (partition_view dev p) d lba = Inr s"
  then show "length s = SECTOR_SIZE \<and> lba < sector_count (partition_view dev p) d"
    using read_whole by (fastforce split: if_splits)
next
  fix d s lba d'
  assume ok: "ok d \<and> unat (start_lba p) + unat (sectors p) \<le> unat (sector_count dev d)"
    and s: "length s = SECTOR_SIZE" and w: "write_sector (partition_view dev p) d lba s = (Inr (), d')"
  have lba: "lba < sectors p" and w': "write_sector dev d (start_lba p + lba) s = (Inr (), d')"
    using w by (auto split: if_splits)
  have "start_lba p + l = start_lba p + lba \<longleftrightarrow> l = lba" for l by simp
  then show "(ok d' \<and> unat (start_lba p) + unat (sectors p) \<le> unat (sector_count dev d')) \<and>
      sector_count (partition_view dev p) d' = sector_count (partition_view dev p) d \<and>
      lba < sector_count (partition_view dev p) d \<and>
      (\<forall>l. read_sector (partition_view dev p) d' l = (if l = lba then Inr s else read_sector (partition_view dev p) d l))"
    using write_read [OF _ s w'] ok lba by auto
next
  fix d s lba e d'
  assume "ok d \<and> unat (start_lba p) + unat (sectors p) \<le> unat (sector_count dev d)"
    and "length s = SECTOR_SIZE" "write_sector (partition_view dev p) d lba s = (Inl e, d')"
  then show "(ok d' \<and> unat (start_lba p) + unat (sectors p) \<le> unat (sector_count dev d')) \<and>
      same_sectors (partition_view dev p) d d'"
    using write_fail [of d s "start_lba p + lba" e d'] by (auto simp: same_sectors_def split: if_splits)
next
  fix d r d'
  assume "ok d \<and> unat (start_lba p) + unat (sectors p) \<le> unat (sector_count dev d)"
    and "flush (partition_view dev p) d = (r, d')"
  then show "(ok d' \<and> unat (start_lba p) + unat (sectors p) \<le> unat (sector_count dev d')) \<and>
      same_sectors (partition_view dev p) d d'"
    using flush_same [of d r d'] by (auto simp: same_sectors_def)
qed

lemma partition_new_inside:
  assumes "partition_new dev d start n = Some p"
  shows "start_lba p = start" "sectors p = n" "n \<noteq> 0" "unat start + unat n \<le> unat (sector_count dev d)"
proof -
  obtain e where "checked_add start n = Some e" "n \<noteq> 0" "e \<le> sector_count dev d" "p = \<lparr>start_lba = start, sectors = n\<rparr>"
    using assms by (auto simp: partition_new_def not_less split: option.splits if_splits)
  then show "start_lba p = start" "sectors p = n" "n \<noteq> 0" "unat start + unat n \<le> unat (sector_count dev d)"
    using checked_add_Some [of start n e] by (auto simp: word_le_nat_alt)
qed

text \<open>Whatever a client of a partition writes, the sectors outside the partition stay.\<close>

lemma partition_write_outside:
  assumes "ok d" "partition_new dev d start n = Some p" "length s = SECTOR_SIZE"
    and "write_sector (partition_view dev p) d lba s = (r, d')" "l < start \<or> start + n \<le> l"
  shows "read_sector dev d' l = read_sector dev d l"
proof (cases "lba < sectors p")
  case True
  note p = partition_new_inside [OF assms(2)]
  have w: "write_sector dev d (start_lba p + lba) s = (r, d')" using assms(4) True by simp
  have lba: "unat (start_lba p + lba) = unat start + unat lba"
    using partition_lba(1) [OF _ True, of "sector_count dev d"] p by simp
  have "unat (start + n) = unat start + unat n \<or> unat start + unat n = 18446744073709551616"
    using p(4) unat_add_u64 [of start n] unat_u64_less [of "sector_count dev d"] by linarith
  then have "l \<noteq> start_lba p + lba"
    using assms(5) lba True p(2) p(4) unat_u64_less [of "sector_count dev d"] by (auto simp: word_less_nat_alt word_le_nat_alt)
  then show ?thesis
    using write_read [OF assms(1,3), of "start_lba p + lba" d'] write_fail [OF assms(1,3), of "start_lba p + lba" _ d'] w
    by (cases r) (auto simp: same_sectors_def old.unit.exhaust)
next
  case False
  then show ?thesis using assms(4) by auto
qed

end

text \<open>The invariant of an image: it was made by \<open>new\<close>, it is smaller than the address space and the
  overlay holds whole sectors of it.\<close>

definition memory_ok :: "memory_device \<Rightarrow> bool" where
  "memory_ok d \<longleftrightarrow> length (disk_image d) < 2 ^ 64 \<and> length (disk_image d) mod SECTOR_SIZE = 0 \<and>
     (\<forall>lba s. overlay d lba = Some s \<longrightarrow> length s = SECTOR_SIZE \<and> lba < memory_sector_count d)"

lemma unat_memory_sector_count:
  "length (disk_image d) < 2 ^ 64 \<Longrightarrow> unat (memory_sector_count d) = length (disk_image d) div SECTOR_SIZE"
  unfolding memory_sector_count_def by (rule unat_of_nat_u64) (simp add: SECTOR_SIZE_def)

lemma memory_in_range:
  assumes "memory_ok d"
  shows "lba < memory_sector_count d \<longleftrightarrow> unat lba * SECTOR_SIZE + SECTOR_SIZE \<le> length (disk_image d)"
proof -
  have m: "length (disk_image d) = length (disk_image d) div SECTOR_SIZE * SECTOR_SIZE" "0 < SECTOR_SIZE"
    using assms by (auto simp: memory_ok_def SECTOR_SIZE_def)
  have "lba < memory_sector_count d \<longleftrightarrow> Suc (unat lba) \<le> length (disk_image d) div SECTOR_SIZE"
    using assms unat_memory_sector_count [of d] by (simp add: memory_ok_def word_less_nat_alt Suc_le_eq)
  also have "\<dots> \<longleftrightarrow> Suc (unat lba) * SECTOR_SIZE \<le> length (disk_image d) div SECTOR_SIZE * SECTOR_SIZE"
    using m(2) mult_le_cancel2 [of "Suc (unat lba)" SECTOR_SIZE] by blast
  finally show ?thesis using m(1) by (simp add: add.commute)
qed

lemma memory_read_total:
  assumes "memory_ok d" "lba < memory_sector_count d"
  shows "\<exists>s. memory_read_sector d lba = Inr s \<and> length s = SECTOR_SIZE"
proof -
  have "unat lba * SECTOR_SIZE + SECTOR_SIZE \<le> length (disk_image d)" "length (disk_image d) < 2 ^ 64"
    using assms memory_in_range by (auto simp: memory_ok_def)
  then show ?thesis using assms(1)
    by (cases "overlay d lba") (auto simp: memory_read_sector_def memory_ok_def Let_def)
qed

lemma memory_read_overlay:
  "memory_read_sector (d\<lparr>overlay := (overlay d)(lba \<mapsto> s)\<rparr>) l = (if l = lba then Inr s else memory_read_sector d l)"
  by (simp add: memory_read_sector_def Let_def cong: if_cong option.case_cong)

lemma memory_write_cases:
  assumes "memory_write_sector d lba s = (r, d')"
  obtains (fail) "r = Inl BlockOutOfRange" "d' = d" "memory_sector_count d \<le> lba"
  | (ok) "r = Inr ()" "d' = d\<lparr>overlay := (overlay d)(lba \<mapsto> s)\<rparr>" "lba < memory_sector_count d"
  using assms by (auto simp: memory_write_sector_def not_le split: if_splits)

lemma memory_ok_overlay:
  "memory_ok d \<Longrightarrow> length s = SECTOR_SIZE \<Longrightarrow> lba < memory_sector_count d \<Longrightarrow>
     memory_ok (d\<lparr>overlay := (overlay d)(lba \<mapsto> s)\<rparr>)"
  by (auto simp: memory_ok_def memory_sector_count_def)

interpretation ramdisk: device_contract memory_block_device memory_ok
proof unfold_locales
  fix d lba s
  assume ok: "memory_ok d" and r: "read_sector memory_block_device d lba = Inr s"
  show "length s = SECTOR_SIZE \<and> lba < sector_count memory_block_device d"
  proof (cases "overlay d lba")
    case None
    then have "unat lba * SECTOR_SIZE + SECTOR_SIZE \<le> length (disk_image d)"
      "s = slice (disk_image d) (unat lba * SECTOR_SIZE) (unat lba * SECTOR_SIZE + SECTOR_SIZE)"
      using r by (auto simp: memory_read_sector_def Let_def split: if_splits)
    then show ?thesis using memory_in_range [OF ok] by simp
  qed (use ok r in \<open>auto simp: memory_read_sector_def memory_ok_def\<close>)
next
  fix d s lba d'
  assume "memory_ok d" "length s = SECTOR_SIZE" "write_sector memory_block_device d lba s = (Inr (), d')"
  then show "memory_ok d' \<and> sector_count memory_block_device d' = sector_count memory_block_device d \<and>
      lba < sector_count memory_block_device d \<and>
      (\<forall>l. read_sector memory_block_device d' l = (if l = lba then Inr s else read_sector memory_block_device d l))"
    by (auto elim!: memory_write_cases simp: memory_read_overlay memory_ok_overlay)
      (simp add: memory_sector_count_def)
qed (auto simp: default_flush_def same_sectors_def elim!: memory_write_cases)

text \<open>A partition of a boot image.\<close>

interpretation bootpart: device_contract "partition_view memory_block_device p"
  "\<lambda>d. memory_ok d \<and> unat (start_lba p) + unat (sectors p) \<le> unat (sector_count memory_block_device d)" for p
  by (rule ramdisk.partition_contract)

section \<open>Properties\<close>

text \<open>Writing a sector of a boot image either fails outside the image and changes nothing, or is what
  the next read of that sector returns, every other sector unchanged; the bootloader's bytes are
  never changed, and every sector inside the image can be read.\<close>

theorem ramdisk_overlay_correct:
  assumes "memory_ok d" "length s = SECTOR_SIZE" "memory_write_sector d lba s = (r, d')"
  shows "memory_ok d' \<and> disk_image d' = disk_image d \<and>
    (case r of
       Inl e \<Rightarrow> e = BlockOutOfRange \<and> memory_sector_count d \<le> lba \<and> d' = d
     | Inr _ \<Rightarrow> lba < memory_sector_count d \<and>
         (\<forall>l. memory_read_sector d' l = (if l = lba then Inr s else memory_read_sector d l))) \<and>
    (\<forall>l. (\<exists>t. memory_read_sector d' l = Inr t \<and> length t = SECTOR_SIZE) \<longleftrightarrow> l < memory_sector_count d)"
proof -
  have w: "write_sector memory_block_device d lba s = (r, d')" using assms(3) by simp
  have ok: "memory_ok d'" by (rule ramdisk.write_keeps_ok [OF assms(1,2) w])
  have n: "memory_sector_count d' = memory_sector_count d"
    using assms(3) by (auto elim!: memory_write_cases simp: memory_sector_count_def)
  have "(\<exists>t. memory_read_sector d' l = Inr t \<and> length t = SECTOR_SIZE) \<longleftrightarrow> l < memory_sector_count d" for l
    using ramdisk.read_whole [OF ok, of l] memory_read_total [OF ok, of l] n by auto
  with ok assms(3) show ?thesis by (auto elim!: memory_write_cases simp: memory_read_overlay)
qed

definition disk_example :: memory_device where
  "disk_example = \<lparr>disk_image = replicate 2048 7, overlay = Map.empty\<rparr>"

lemma disk_example_ok: "memory_ok disk_example" "memory_sector_count disk_example = 4"
  by (simp_all add: disk_example_def memory_ok_def memory_sector_count_def SECTOR_SIZE_def)

theorem ramdisk_overlay_correct_witness:
  "\<exists>d'. memory_write_sector disk_example 2 (replicate 512 1) = (Inr (), d') \<and>
     memory_read_sector d' 2 = Inr (replicate 512 1) \<and> disk_image d' = replicate 2048 7"
proof -
  obtain d' where w: "memory_write_sector disk_example 2 (replicate 512 1) = (Inr (), d')"
    using disk_example_ok(2) by (auto simp: memory_write_sector_def)
  show ?thesis
    using ramdisk_overlay_correct [OF disk_example_ok(1) _ w] w by (auto simp: SECTOR_SIZE_def disk_example_def)
qed



end
