(* ===== verification/Text.thy ===== *)
theory Text
  imports Prelude
begin

unbundle bit_operations_syntax

text \<open>
  The operations on strings the kernel takes from the standard library. A string is the list of its
  UTF-8 bytes, so splitting at and trimming of ASCII characters are list operations; a \<open>char\<close> is its
  code point as a 32-bit word. \<open>String::from_utf8_lossy\<close> is \<open>utf8_lossy\<close>: each maximal ill-formed prefix
  becomes one replacement character.
\<close>

type_synonym str = "u8 list"

section \<open>Splitting and comparing\<close>

text \<open>\<open>str::split\<close>, \<open>trim_start_matches\<close>, \<open>trim_end_matches\<close>, \<open>trim_matches\<close> and \<open>rsplit_once\<close> at an ASCII character.\<close>

fun split_on :: "u8 \<Rightarrow> str \<Rightarrow> str list" where
  "split_on c [] = [[]]"
| "split_on c (b # bs) =
     (if b = c then [] # split_on c bs
      else case split_on c bs of [] \<Rightarrow> [[b]] | p # ps \<Rightarrow> (b # p) # ps)"

definition trim_start :: "u8 \<Rightarrow> str \<Rightarrow> str" where
  "trim_start c s = dropWhile (\<lambda>b. b = c) s"

definition trim_end :: "u8 \<Rightarrow> str \<Rightarrow> str" where
  "trim_end c s = rev (dropWhile (\<lambda>b. b = c) (rev s))"

definition trim_matches :: "u8 \<Rightarrow> str \<Rightarrow> str" where
  "trim_matches c s = trim_end c (trim_start c s)"

definition rsplit_once :: "u8 \<Rightarrow> str \<Rightarrow> (str \<times> str) option" where
  "rsplit_once c s =
     (if c \<in> set s
      then Some (rev (tl (dropWhile (\<lambda>b. b \<noteq> c) (rev s))), rev (takeWhile (\<lambda>b. b \<noteq> c) (rev s)))
      else None)"

definition strip_prefix :: "str \<Rightarrow> str \<Rightarrow> str option" where
  "strip_prefix p s = (if take (length p) s = p then Some (drop (length p) s) else None)"

definition ascii_uppercase :: "u8 \<Rightarrow> u8" where
  "ascii_uppercase b = (if 0x61 \<le> b \<and> b \<le> 0x7A then b - 0x20 else b)"

definition ascii_lowercase :: "u8 \<Rightarrow> u8" where
  "ascii_lowercase b = (if 0x41 \<le> b \<and> b \<le> 0x5A then b + 0x20 else b)"

definition eq_ignore_ascii_case :: "str \<Rightarrow> str \<Rightarrow> bool" where
  "eq_ignore_ascii_case a b \<longleftrightarrow> map ascii_lowercase a = map ascii_lowercase b"

definition is_ascii_alphanumeric :: "u8 \<Rightarrow> bool" where
  "is_ascii_alphanumeric b \<longleftrightarrow> 0x30 \<le> b \<and> b \<le> 0x39 \<or> 0x41 \<le> b \<and> b \<le> 0x5A \<or> 0x61 \<le> b \<and> b \<le> 0x7A"

text \<open>The decimal digits of \<open>format!("{}", n)\<close>.\<close>

fun decimal :: "nat \<Rightarrow> str" where
  "decimal n = (if n < 10 then [0x30 + of_nat n] else decimal (n div 10) @ [0x30 + of_nat (n mod 10)])"

declare decimal.simps [simp del]

section \<open>UTF-8\<close>

definition byte_at :: "u8 list \<Rightarrow> nat \<Rightarrow> u8" where
  "byte_at bs i = (if i < length bs then bs ! i else 0)"

definition is_cont :: "u8 \<Rightarrow> bool" where
  "is_cont b \<longleftrightarrow> b AND 192 = 128"

definition between :: "u8 \<Rightarrow> u8 \<Rightarrow> u8 \<Rightarrow> bool" where
  "between lo hi b \<longleftrightarrow> lo \<le> b \<and> b \<le> hi"

text \<open>The second byte a lead byte of a three- or four-byte sequence admits.\<close>

definition second_ok :: "u8 \<Rightarrow> u8 \<Rightarrow> bool" where
  "second_ok lead b \<longleftrightarrow>
     lead = 0xE0 \<and> between 0xA0 0xBF b \<or> between 0xE1 0xEC lead \<and> between 0x80 0xBF b \<or>
     lead = 0xED \<and> between 0x80 0x9F b \<or> between 0xEE 0xEF lead \<and> between 0x80 0xBF b \<or>
     lead = 0xF0 \<and> between 0x90 0xBF b \<or> between 0xF1 0xF3 lead \<and> between 0x80 0xBF b \<or>
     lead = 0xF4 \<and> between 0x80 0x8F b"

text \<open>Whether a non-empty string starts with a character, and the bytes inspected to decide.\<close>

definition utf8_step :: "u8 list \<Rightarrow> bool \<times> nat" where
  "utf8_step bs =
     (let b = byte_at bs 0 in
      if b < 0x80 then (True, 1)
      else if between 0xC2 0xDF b then (if is_cont (byte_at bs 1) then (True, 2) else (False, 1))
      else if between 0xE0 0xEF b then
        if \<not> second_ok b (byte_at bs 1) then (False, 1)
        else if \<not> is_cont (byte_at bs 2) then (False, 2)
        else (True, 3)
      else if between 0xF0 0xF4 b then
        if \<not> second_ok b (byte_at bs 1) then (False, 1)
        else if \<not> is_cont (byte_at bs 2) then (False, 2)
        else if \<not> is_cont (byte_at bs 3) then (False, 3)
        else (True, 4)
      else (False, 1))"

lemma utf8_step_pos: "0 < snd (utf8_step bs)"
  by (simp add: utf8_step_def Let_def)

function utf8_lossy :: "u8 list \<Rightarrow> u8 list" where
  "utf8_lossy bs =
     (if bs = [] then []
      else
        let (ok, n) = utf8_step bs in
        (if ok then take n bs else [0xEF, 0xBF, 0xBD]) @ utf8_lossy (drop n bs))"
  by pat_completeness auto
termination
proof (relation "measure length", goal_cases)
  case (2 bs x y z)
  have "z = snd (utf8_step bs)" using 2(2,3) by (metis snd_conv)
  then have "0 < z" using utf8_step_pos by simp
  then show ?case using 2(1) by (simp add: diff_less)
qed simp

declare utf8_lossy.simps [simp del]

function utf8_valid :: "u8 list \<Rightarrow> bool" where
  "utf8_valid bs =
     (if bs = [] then True
      else if fst (utf8_step bs) then utf8_valid (drop (snd (utf8_step bs)) bs)
      else False)"
  by pat_completeness auto
termination
proof (relation "measure length", goal_cases)
  case (2 bs)
  then show ?case using utf8_step_pos [of bs] by (simp add: diff_less)
qed simp

declare utf8_valid.simps [simp del]

section \<open>Characters and UTF-16\<close>

definition encode_utf8 :: "u32 \<Rightarrow> u8 list" where
  "encode_utf8 c =
     (if c < 0x80 then [ucast c]
      else if c < 0x800 then [0xC0 OR ucast (drop_bit 6 c), 0x80 OR ucast (c AND 0x3F)]
      else if c < 0x10000 then
        [0xE0 OR ucast (drop_bit 12 c), 0x80 OR ucast (drop_bit 6 c AND 0x3F), 0x80 OR ucast (c AND 0x3F)]
      else
        [0xF0 OR ucast (drop_bit 18 c), 0x80 OR ucast (drop_bit 12 c AND 0x3F),
         0x80 OR ucast (drop_bit 6 c AND 0x3F), 0x80 OR ucast (c AND 0x3F)])"

definition decode_utf8 :: "u8 list \<Rightarrow> u32" where
  "decode_utf8 bs =
     (case bs of
        [a] \<Rightarrow> ucast a
      | [a, b] \<Rightarrow> push_bit 6 (ucast a AND 0x1F) OR (ucast b AND 0x3F)
      | [a, b, c] \<Rightarrow> push_bit 12 (ucast a AND 0x0F) OR push_bit 6 (ucast b AND 0x3F) OR (ucast c AND 0x3F)
      | [a, b, c, d] \<Rightarrow>
          push_bit 18 (ucast a AND 0x07) OR push_bit 12 (ucast b AND 0x3F) OR push_bit 6 (ucast c AND 0x3F) OR (ucast d AND 0x3F)
      | _ \<Rightarrow> 0)"

text \<open>\<open>str::chars\<close> of a well-formed string.\<close>

function chars :: "str \<Rightarrow> u32 list" where
  "chars bs =
     (if bs = [] then []
      else decode_utf8 (take (snd (utf8_step bs)) bs) # chars (drop (snd (utf8_step bs)) bs))"
  by pat_completeness auto
termination
proof (relation "measure length", goal_cases)
  case (2 bs)
  then show ?case using utf8_step_pos [of bs] by (simp add: diff_less)
qed simp

declare chars.simps [simp del]

definition string_of :: "u32 list \<Rightarrow> str" where
  "string_of cs = concat (map encode_utf8 cs)"

definition encode_utf16 :: "str \<Rightarrow> u16 list" where
  "encode_utf16 s =
     concat (map (\<lambda>c. if c < 0x10000 then [ucast c]
                      else let c' = c - 0x10000 in [0xD800 OR ucast (drop_bit 10 c'), 0xDC00 OR ucast (c' AND 0x3FF)])
                 (chars s))"

text \<open>\<open>String::from_utf16_lossy\<close>: an unpaired surrogate becomes U+FFFD.\<close>

fun decode_utf16 :: "u16 list \<Rightarrow> u32 list" where
  "decode_utf16 [] = []"
| "decode_utf16 (u # us) =
     (if u AND 0xF800 \<noteq> 0xD800 then ucast u # decode_utf16 us
      else if u \<ge> 0xDC00 then 0xFFFD # decode_utf16 us
      else case us of
          [] \<Rightarrow> [0xFFFD]
        | v # vs \<Rightarrow>
            if v < 0xDC00 \<or> v > 0xDFFF then 0xFFFD # decode_utf16 us
            else ((push_bit 10 (ucast u AND 0x3FF) OR (ucast v AND 0x3FF)) + 0x10000) # decode_utf16 vs)"

definition from_utf16_lossy :: "u16 list \<Rightarrow> str" where
  "from_utf16_lossy us = string_of (decode_utf16 us)"

end
