(* ===== verification/Fat32.thy ===== *)
theory Fat32
  imports Block Text
begin

unbundle bit_operations_syntax

text \<open>
  The FAT32 filesystem, \<open>src/fat32.rs\<close>, over any block device \<open>dev\<close>.

  \<open>fat32\<close> is the struct with its atomics and the state of the device it points to. Methods that only read
  are functions of it; methods that write return it updated, together with their result. Cluster numbers,
  sizes and sector numbers are \<open>nat\<close>: on a mounted volume none of the source's sums of them can overflow.
  Loops over a cluster chain are bounded by a step count, as in the source.
\<close>

section \<open>The volume\<close>

definition MAX_CHAIN_STEPS :: nat where "MAX_CHAIN_STEPS = 1000000"

datatype fat_error =
  FatIo | InvalidBootSector | Unsupported | FatCorrupt | NotFound | NotDirectory | IsDirectory | FatTooLarge |
  NoSpace | InvalidName | AlreadyExists | DirectoryNotEmpty

record dir_entry =
  de_name :: str
  de_is_dir :: bool
  de_size :: nat

record 'd fat32 =
  fat_device :: 'd
  sectors_per_cluster :: nat
  reserved_sectors :: nat
  fat_count :: nat
  sectors_per_fat :: nat
  root_cluster :: nat
  data_start :: nat
  cluster_count :: nat
  next_free_hint :: nat
  fsinfo_sector :: "nat option"
  fsinfo_invalidated :: bool

record entry_location =
  loc_cluster :: nat
  loc_offset :: nat
  loc_first :: nat
  loc_size :: nat
  loc_is_dir :: bool

definition u16le :: "u8 list \<Rightarrow> nat \<Rightarrow> u16" where
  "u16le b at = from_le (slice b at (at + 2))"

definition u32le :: "u8 list \<Rightarrow> nat \<Rightarrow> u32" where
  "u32le b at = from_le (slice b at (at + 4))"

text \<open>\<open>u8::is_power_of_two\<close>.\<close>

definition is_power_of_two :: "u8 \<Rightarrow> bool" where
  "is_power_of_two b \<longleftrightarrow> b \<in> {1, 2, 4, 8, 16, 32, 64, 128}"

definition fat_mount :: "'d block_device \<Rightarrow> 'd \<Rightarrow> fat_error + 'd fat32" where
  "fat_mount dev d =
     and_then (map_err (\<lambda>_. FatIo) (read_sector dev d 0)) (\<lambda>b.
       if b ! 510 \<noteq> 0x55 \<or> b ! 511 \<noteq> 0xAA then Inl InvalidBootSector
       else
         let bytes_per_sector = u16le b 11;
             spc = b ! 13;
             reserved = unat (u16le b 14);
             fats = unat (b ! 16);
             root_entries = u16le b 17;
             total_sectors = (if u16le b 19 \<noteq> 0 then unat (u16le b 19) else unat (u32le b 32));
             fat16_size = u16le b 22;
             spf = unat (u32le b 36);
             root = unat (u32le b 44 AND 0x0FFFFFFF);
             fsinfo = unat (u16le b 48)
         in
         if bytes_per_sector \<noteq> 512 \<or> spc = 0 \<or> \<not> is_power_of_two spc \<or> reserved = 0 \<or> fats = 0 \<or> spf = 0 \<or>
            root_entries \<noteq> 0 \<or> fat16_size \<noteq> 0 \<or> total_sectors > unat (sector_count dev d)
         then Inl Unsupported
         else
           let fats_sectors = fats * spf; start = reserved + fats_sectors in
           if fats_sectors \<ge> 2 ^ 64 \<or> start \<ge> 2 ^ 64 then Inl FatCorrupt
           else if start \<ge> total_sectors then Inl InvalidBootSector
           else
             let clusters = (total_sectors - start) div unat spc mod 2 ^ 32; fat_entries = spf * SECTOR_SIZE div 4 in
             if clusters < 1 \<or> clusters > 0x0FFFFFF5 \<or> fat_entries < clusters + 2 \<or> root < 2 \<or> root \<ge> clusters + 2
             then Inl InvalidBootSector
             else Inr \<lparr>fat_device = d, sectors_per_cluster = unat spc, reserved_sectors = reserved, fat_count = fats,
                       sectors_per_fat = spf, root_cluster = root, data_start = start, cluster_count = clusters,
                       next_free_hint = 2,
                       fsinfo_sector = (if fsinfo \<noteq> 0 \<and> fsinfo < reserved then Some fsinfo else None),
                       fsinfo_invalidated = False\<rparr>)"

section \<open>Sectors and the file allocation table\<close>

definition fat_read_sector :: "'d block_device \<Rightarrow> 'd fat32 \<Rightarrow> nat \<Rightarrow> fat_error + u8 list" where
  "fat_read_sector dev fs lba = map_err (\<lambda>_. FatIo) (read_sector dev (fat_device fs) (of_nat lba))"

definition fat_write_sector :: "'d block_device \<Rightarrow> 'd fat32 \<Rightarrow> nat \<Rightarrow> u8 list \<Rightarrow> (fat_error + unit) \<times> 'd fat32" where
  "fat_write_sector dev fs lba data =
     (case write_sector dev (fat_device fs) (of_nat lba) data of
        (r, d) \<Rightarrow> (map_err (\<lambda>_. FatIo) r, fs\<lparr>fat_device := d\<rparr>))"

definition fat_flush :: "'d block_device \<Rightarrow> 'd fat32 \<Rightarrow> (block_error + unit) \<times> 'd fat32" where
  "fat_flush dev fs = (case flush dev (fat_device fs) of (r, d) \<Rightarrow> (r, fs\<lparr>fat_device := d\<rparr>))"

definition invalidate_fsinfo_hint :: "'d block_device \<Rightarrow> 'd fat32 \<Rightarrow> (fat_error + unit) \<times> 'd fat32" where
  "invalidate_fsinfo_hint dev fs =
     (if fsinfo_invalidated fs then (Inr (), fs)
      else case fsinfo_sector fs of
        None \<Rightarrow> (Inr (), fs\<lparr>fsinfo_invalidated := True\<rparr>)
      | Some sector_no \<Rightarrow>
          and_next (fat_read_sector dev fs sector_no, fs) (\<lambda>sector fs.
          and_next
            (if u32le sector 0 = 0x41615252 \<and> u32le sector 484 = 0x61417272 \<and> u32le sector 508 = 0xAA550000
             then fat_write_sector dev fs sector_no
                    (copy_at (copy_at sector 488 (to_le 4 (NOT 0 :: u32))) 492 (to_le 4 (NOT 0 :: u32)))
             else (Inr (), fs)) (\<lambda>_ fs.
          (Inr (), fs\<lparr>fsinfo_invalidated := True\<rparr>))))"

definition fat_entry :: "'d block_device \<Rightarrow> 'd fat32 \<Rightarrow> nat \<Rightarrow> fat_error + nat" where
  "fat_entry dev fs cluster =
     (if cluster \<ge> cluster_count fs + 2 then Inl FatCorrupt
      else
        let byte = cluster * 4; sector_in_fat = byte div SECTOR_SIZE in
        if sector_in_fat \<ge> sectors_per_fat fs then Inl FatCorrupt
        else
          and_then (fat_read_sector dev fs (reserved_sectors fs + sector_in_fat)) (\<lambda>sector.
          Inr (unat (u32le sector (byte mod SECTOR_SIZE) AND 0x0FFFFFFF))))"

fun set_fat_copies :: "'d block_device \<Rightarrow> 'd fat32 \<Rightarrow> nat list \<Rightarrow> nat \<Rightarrow> nat \<Rightarrow> u32 \<Rightarrow> (fat_error + unit) \<times> 'd fat32" where
  "set_fat_copies dev fs [] sector_in_fat at val = (Inr (), fs)"
| "set_fat_copies dev fs (fat # fats) sector_in_fat at val =
     (let lba = reserved_sectors fs + fat * sectors_per_fat fs + sector_in_fat in
      and_next (fat_read_sector dev fs lba, fs) (\<lambda>sector fs.
      let old = u32le sector at in
      and_next (fat_write_sector dev fs lba
                 (copy_at sector at (to_le 4 ((old AND 0xF0000000) OR (val AND 0x0FFFFFFF))))) (\<lambda>_ fs.
      set_fat_copies dev fs fats sector_in_fat at val)))"

definition set_fat_entry :: "'d block_device \<Rightarrow> 'd fat32 \<Rightarrow> nat \<Rightarrow> nat \<Rightarrow> (fat_error + unit) \<times> 'd fat32" where
  "set_fat_entry dev fs cluster val =
     (if cluster \<ge> cluster_count fs + 2 then (Inl FatCorrupt, fs)
      else
        let byte = cluster * 4; sector_in_fat = byte div SECTOR_SIZE in
        if sector_in_fat \<ge> sectors_per_fat fs then (Inl FatCorrupt, fs)
        else
          and_next (invalidate_fsinfo_hint dev fs) (\<lambda>_ fs.
          set_fat_copies dev fs [0..<fat_count fs] sector_in_fat (byte mod SECTOR_SIZE) (of_nat val)))"

section \<open>Clusters\<close>

definition cluster_lba :: "'d fat32 \<Rightarrow> nat \<Rightarrow> fat_error + nat" where
  "cluster_lba fs cluster =
     (if cluster < 2 \<or> cluster \<ge> cluster_count fs + 2 then Inl FatCorrupt
      else
        let lba = data_start fs + (cluster - 2) * sectors_per_cluster fs in
        if lba < 2 ^ 64 then Inr lba else Inl FatCorrupt)"

definition cluster_bytes :: "'d fat32 \<Rightarrow> nat" where
  "cluster_bytes fs = sectors_per_cluster fs * SECTOR_SIZE"

fun zero_sectors :: "'d block_device \<Rightarrow> 'd fat32 \<Rightarrow> nat \<Rightarrow> nat list \<Rightarrow> (fat_error + unit) \<times> 'd fat32" where
  "zero_sectors dev fs first [] = (Inr (), fs)"
| "zero_sectors dev fs first (sector # rest) =
     and_next (fat_write_sector dev fs (first + sector) (replicate SECTOR_SIZE 0)) (\<lambda>_ fs.
     zero_sectors dev fs first rest)"

definition zero_cluster :: "'d block_device \<Rightarrow> 'd fat32 \<Rightarrow> nat \<Rightarrow> (fat_error + unit) \<times> 'd fat32" where
  "zero_cluster dev fs cluster =
     and_next (cluster_lba fs cluster, fs) (\<lambda>first fs.
     zero_sectors dev fs first [0..<sectors_per_cluster fs])"

fun allocate_loop :: "'d block_device \<Rightarrow> 'd fat32 \<Rightarrow> nat \<Rightarrow> nat list \<Rightarrow> (fat_error + nat) \<times> 'd fat32" where
  "allocate_loop dev fs start [] = (Inl NoSpace, fs)"
| "allocate_loop dev fs start (step # steps) =
     (let cluster = 2 + (start - 2 + step) mod cluster_count fs in
      and_next (fat_entry dev fs cluster, fs) (\<lambda>val fs.
      if val = 0 then
        and_next (set_fat_entry dev fs cluster 0x0FFFFFFF) (\<lambda>_ fs.
        case zero_cluster dev fs cluster of
          (Inl error, fs) \<Rightarrow> (case set_fat_entry dev fs cluster 0 of (_, fs) \<Rightarrow> (Inl error, fs))
        | (Inr _, fs) \<Rightarrow>
            (Inr cluster, fs\<lparr>next_free_hint := (if cluster = cluster_count fs + 1 then 2 else cluster + 1)\<rparr>))
      else allocate_loop dev fs start steps))"

definition allocate_cluster :: "'d block_device \<Rightarrow> 'd fat32 \<Rightarrow> (fat_error + nat) \<times> 'd fat32" where
  "allocate_cluster dev fs =
     allocate_loop dev fs (max 2 (min (next_free_hint fs) (cluster_count fs + 1))) [0..<cluster_count fs]"

definition next_cluster :: "'d block_device \<Rightarrow> 'd fat32 \<Rightarrow> nat \<Rightarrow> fat_error + nat option" where
  "next_cluster dev fs cluster =
     (if cluster < 2 \<or> cluster \<ge> cluster_count fs + 2 then Inl FatCorrupt
      else and_then (fat_entry dev fs cluster) (\<lambda>next.
        if next \<ge> 0x0FFFFFF8 then Inr None
        else if next = 0 \<or> next = 1 \<or> 0x0FFFFFF0 \<le> next \<and> next \<le> 0x0FFFFFF7 then Inl FatCorrupt
        else if next < 2 \<or> next \<ge> cluster_count fs + 2 then Inl FatCorrupt
        else Inr (Some next)))"

fun read_sectors :: "'d block_device \<Rightarrow> 'd fat32 \<Rightarrow> nat \<Rightarrow> nat list \<Rightarrow> u8 list \<Rightarrow> fat_error + u8 list" where
  "read_sectors dev fs first [] data = Inr data"
| "read_sectors dev fs first (s # rest) data =
     and_then (fat_read_sector dev fs (first + s)) (\<lambda>sector.
     read_sectors dev fs first rest (copy_at data (s * SECTOR_SIZE) sector))"

definition read_cluster :: "'d block_device \<Rightarrow> 'd fat32 \<Rightarrow> nat \<Rightarrow> fat_error + u8 list" where
  "read_cluster dev fs cluster =
     and_then (cluster_lba fs cluster) (\<lambda>first.
     read_sectors dev fs first [0..<sectors_per_cluster fs] (replicate (cluster_bytes fs) 0))"

section \<open>Names\<close>

text \<open>A short name's bytes are taken as characters.\<close>

definition short_name :: "u8 list \<Rightarrow> str" where
  "short_name raw =
     (let base = string_of (map ucast (takeWhile (\<lambda>b. b \<noteq> 0x20) (slice raw 0 8)));
          ext = string_of (map ucast (takeWhile (\<lambda>b. b \<noteq> 0x20) (slice raw 8 11)))
      in if ext = [] then base else base @ [0x2E] @ ext)"

text \<open>The characters of the byte string in the source, besides letters and digits.\<close>

definition short_punctuation :: "u8 list" where
  "short_punctuation =
     [0x24, 0x25, 0x27, 0x2D, 0x5F, 0x40, 0x7E, 0x60, 0x21, 0x28, 0x29, 0x7B, 0x7D, 0x5E, 0x23, 0x26]"

definition to_short_name :: "str \<Rightarrow> fat_error + u8 list" where
  "to_short_name nm =
     (let parts = split_on 0x2E nm;
          base = (case parts of [] \<Rightarrow> [] | p # _ \<Rightarrow> p);
          ext = (case parts of _ # p # _ \<Rightarrow> p | _ \<Rightarrow> []);
          valid = list_all (\<lambda>b. is_ascii_alphanumeric b \<or> b \<in> set short_punctuation)
      in if length parts > 2 \<or> base = [] \<or> length base > 8 \<or> length ext > 3 then Inl InvalidName
         else if \<not> valid base \<or> \<not> valid ext then Inl InvalidName
         else Inr (copy_at (copy_at (replicate 11 0x20) 0 (map ascii_uppercase base)) 8 (map ascii_uppercase ext)))"

definition lfn_positions :: "nat list" where
  "lfn_positions = [1, 3, 5, 7, 9, 14, 16, 18, 20, 22, 24, 28, 30]"

definition lfn_forbidden :: "u16 \<Rightarrow> bool" where
  "lfn_forbidden u \<longleftrightarrow> u < 0x20 \<or> u \<in> {0x22, 0x2A, 0x2F, 0x3A, 0x3C, 0x3E, 0x3F, 0x5C, 0x7C}"

definition lfn_checksum :: "u8 list \<Rightarrow> u8" where
  "lfn_checksum short = foldl (\<lambda>checksum byte. push_bit 7 (checksum AND 1) + drop_bit 1 checksum + byte) 0 short"

definition lfn_record :: "u16 list \<Rightarrow> nat \<Rightarrow> u8 \<Rightarrow> nat \<Rightarrow> u8 list" where
  "lfn_record units n checksum order =
     (let entry = (replicate 32 0)[0 := of_nat order OR (if order = n then 0x40 else 0), 11 := 0x0F, 12 := 0,
                                   13 := checksum, 26 := 0, 27 := 0]
      in fold (\<lambda>(i, pos) entry.
           let name_index = (order - 1) * 13 + i;
               unit = (if name_index < length units then units ! name_index
                       else if name_index = length units then 0 else 0xFFFF)
           in copy_at entry pos (to_le 2 unit)) (List.enumerate 0 lfn_positions) entry)"

definition div_ceil :: "nat \<Rightarrow> nat \<Rightarrow> nat" where
  "div_ceil a b = (a + b - 1) div b"

definition lfn_records :: "str \<Rightarrow> u8 list \<Rightarrow> fat_error + u8 list list" where
  "lfn_records nm short =
     (let units = encode_utf16 nm in
      if units = [] \<or> length units > 255 then Inl InvalidName
      else if list_ex lfn_forbidden units then Inl InvalidName
      else
        let n = div_ceil (length units + 1) 13 in
        Inr (map (lfn_record units n (lfn_checksum short)) (rev [1..<n + 1])))"

section \<open>Directories\<close>

definition chunks32 :: "u8 list \<Rightarrow> u8 list list" where
  "chunks32 data = map (\<lambda>i. slice data (32 * i) (32 * i + 32)) [0..<length data div 32]"

definition entry_first :: "u8 list \<Rightarrow> nat" where
  "entry_first e = unat (push_bit 16 (ucast (u16le e 20)) OR ucast (u16le e 26) :: u32)"

text \<open>
  What one 32-byte record means to a reader of the directory, which collects the pieces of a long name in
  \<open>lfn\<close>: the end marker, a record to skip, or an entry with its name. \<open>directory_entries\<close> and
  \<open>find_named_entry\<close> repeat these lines.
\<close>

datatype scan = ScanEnd | ScanSkip "u16 list" bool | ScanEntry str

definition lfn_blank :: "u16 list" where "lfn_blank = replicate 260 0xFFFF"

definition lfn_name :: "u16 list \<Rightarrow> u8 list \<Rightarrow> str" where
  "lfn_name lfn e =
     (let n = (case position (\<lambda>x. x = 0 \<or> x = 0xFFFF) lfn of None \<Rightarrow> length lfn | Some n \<Rightarrow> n);
          s = from_utf16_lossy (take n lfn)
      in if s = [] then short_name (slice e 0 11) else s)"

definition scan_entry :: "u16 list \<Rightarrow> bool \<Rightarrow> u8 list \<Rightarrow> scan" where
  "scan_entry lfn have_lfn e =
     (if e ! 0 = 0 then ScanEnd
      else if e ! 0 = 0xE5 then ScanSkip lfn False
      else
        let attr = e ! 11 in
        if attr = 0x0F then
          let ord = unat (e ! 0 AND 0x1F) in
          if ord = 0 \<or> ord > 20 then ScanSkip lfn False
          else
            let (lfn, have_lfn) = (if e ! 0 AND 0x40 \<noteq> 0 then (lfn_blank, True) else (lfn, have_lfn)) in
            if \<not> have_lfn then ScanSkip lfn have_lfn
            else ScanSkip (fold (\<lambda>(i, p) lfn. lfn[(ord - 1) * 13 + i := u16le e p]) (List.enumerate 0 lfn_positions) lfn) have_lfn
        else if attr AND 0x08 \<noteq> 0 then ScanSkip lfn False
        else ScanEntry (if have_lfn then lfn_name lfn e else short_name (slice e 0 11)))"

text \<open>One cluster of a directory; the flag says that the end marker was met.\<close>

fun entries_in :: "u8 list list \<Rightarrow> u16 list \<Rightarrow> bool \<Rightarrow> (dir_entry \<times> nat) list \<Rightarrow> bool \<times> u16 list \<times> bool \<times> (dir_entry \<times> nat) list" where
  "entries_in [] lfn have_lfn out = (False, lfn, have_lfn, out)"
| "entries_in (e # es) lfn have_lfn out =
     (case scan_entry lfn have_lfn e of
        ScanEnd \<Rightarrow> (True, lfn, have_lfn, out)
      | ScanSkip lfn have_lfn \<Rightarrow> entries_in es lfn have_lfn out
      | ScanEntry nm \<Rightarrow>
          if nm = [0x2E] \<or> nm = [0x2E, 0x2E] then entries_in es lfn False out
          else entries_in es lfn False
                 (out @ [(\<lparr>de_name = nm, de_is_dir = e ! 11 AND 0x10 \<noteq> 0, de_size = unat (u32le e 28)\<rparr>, entry_first e)]))"

function dir_loop ::
  "'d block_device \<Rightarrow> 'd fat32 \<Rightarrow> nat option \<Rightarrow> nat \<Rightarrow> u16 list \<Rightarrow> bool \<Rightarrow> (dir_entry \<times> nat) list \<Rightarrow> fat_error + (dir_entry \<times> nat) list" where
  "dir_loop dev fs current steps lfn have_lfn out =
     (case current of
        None \<Rightarrow> Inr out
      | Some c \<Rightarrow>
          if steps \<ge> MAX_CHAIN_STEPS then Inl FatCorrupt
          else
            case read_cluster dev fs c of
              Inl error \<Rightarrow> Inl error
            | Inr data \<Rightarrow>
                case entries_in (chunks32 data) lfn have_lfn out of
                  (True, _, _, out') \<Rightarrow> Inr out'
                | (False, lfn', have_lfn', out') \<Rightarrow>
                    case next_cluster dev fs c of
                      Inl error \<Rightarrow> Inl error
                    | Inr current' \<Rightarrow> dir_loop dev fs current' (steps + 1) lfn' have_lfn' out')"
  by pat_completeness auto
termination
  by (relation "measure (\<lambda>(dev, fs, current, steps, lfn, have_lfn, out). MAX_CHAIN_STEPS - steps)") auto

declare dir_loop.simps [simp del]

definition directory_entries :: "'d block_device \<Rightarrow> 'd fat32 \<Rightarrow> nat \<Rightarrow> fat_error + (dir_entry \<times> nat) list" where
  "directory_entries dev fs cluster = dir_loop dev fs (Some cluster) 0 lfn_blank False []"

definition root_entry :: dir_entry where
  "root_entry = \<lparr>de_name = [0x2F], de_is_dir = True, de_size = 0\<rparr>"

fun resolve_loop ::
  "'d block_device \<Rightarrow> 'd fat32 \<Rightarrow> str list \<Rightarrow> nat \<Rightarrow> (dir_entry \<times> nat) option \<Rightarrow> fat_error + dir_entry \<times> nat" where
  "resolve_loop dev fs [] cluster prev = Inr (case prev of Some p \<Rightarrow> p | None \<Rightarrow> (root_entry, cluster))"
| "resolve_loop dev fs (component # rest) cluster prev =
     (if component = [] \<or> component = [0x2E] then resolve_loop dev fs rest cluster prev
      else if component = [0x2E, 0x2E] then Inl NotFound
      else if (case prev of Some (e, _) \<Rightarrow> \<not> de_is_dir e | None \<Rightarrow> False) then Inl NotDirectory
      else
        and_then (directory_entries dev fs cluster) (\<lambda>entries.
        and_then (ok_or NotFound (List.find (\<lambda>(e, _). eq_ignore_ascii_case (de_name e) component) entries)) (\<lambda>found.
        resolve_loop dev fs rest (snd found) (Some found))))"

definition resolve :: "'d block_device \<Rightarrow> 'd fat32 \<Rightarrow> str \<Rightarrow> fat_error + dir_entry \<times> nat" where
  "resolve dev fs path =
     (let clean = trim_matches 0x2F path in
      if clean = [] then Inr (root_entry, root_cluster fs)
      else resolve_loop dev fs (split_on 0x2F clean) (root_cluster fs) None)"

definition fat_stat :: "'d block_device \<Rightarrow> 'd fat32 \<Rightarrow> str \<Rightarrow> fat_error + dir_entry" where
  "fat_stat dev fs path = and_then (resolve dev fs path) (\<lambda>x. Inr (fst x))"

definition fat_list :: "'d block_device \<Rightarrow> 'd fat32 \<Rightarrow> str \<Rightarrow> fat_error + dir_entry list" where
  "fat_list dev fs path =
     and_then (resolve dev fs path) (\<lambda>(entry, cluster).
     if \<not> de_is_dir entry then Inl NotDirectory
     else and_then (directory_entries dev fs cluster) (\<lambda>entries. Inr (map fst entries)))"

section \<open>Reading files\<close>

fun skip_clusters :: "'d block_device \<Rightarrow> 'd fat32 \<Rightarrow> nat \<Rightarrow> nat \<Rightarrow> nat \<Rightarrow> fat_error + nat \<times> nat" where
  "skip_clusters dev fs 0 cluster steps = Inr (cluster, steps)"
| "skip_clusters dev fs (Suc skip) cluster steps =
     and_then (next_cluster dev fs cluster) (\<lambda>next.
     and_then (ok_or FatCorrupt next) (\<lambda>cluster.
     if steps + 1 > MAX_CHAIN_STEPS then Inl FatCorrupt
     else skip_clusters dev fs skip cluster (steps + 1)))"

function read_loop ::
  "'d block_device \<Rightarrow> 'd fat32 \<Rightarrow> u8 list \<Rightarrow> nat \<Rightarrow> nat \<Rightarrow> nat \<Rightarrow> nat \<Rightarrow> nat \<Rightarrow> fat_error + nat \<times> u8 list" where
  "read_loop dev fs out wanted cluster in_cluster copied steps =
     (if copied < wanted then
        if steps \<ge> MAX_CHAIN_STEPS then Inl FatCorrupt
        else
          case read_cluster dev fs cluster of
            Inl error \<Rightarrow> Inl error
          | Inr data \<Rightarrow>
              let n = min (wanted - copied) (cluster_bytes fs - in_cluster);
                  out = copy_at out copied (slice data in_cluster (in_cluster + n));
                  copied = copied + n
              in case (if copied < wanted
                       then and_then (next_cluster dev fs cluster) (ok_or FatCorrupt) else Inr cluster) of
                   Inl error \<Rightarrow> Inl error
                 | Inr cluster \<Rightarrow> read_loop dev fs out wanted cluster 0 copied (steps + 1)
      else Inr (copied, out))"
  by pat_completeness auto
termination
  by (relation "measure (\<lambda>(dev, fs, out, wanted, cluster, in_cluster, copied, steps). MAX_CHAIN_STEPS - steps)") auto

declare read_loop.simps [simp del]

text \<open>The result is the count of bytes read and the buffer \<open>out\<close> after the call.\<close>

definition fat_read_at :: "'d block_device \<Rightarrow> 'd fat32 \<Rightarrow> str \<Rightarrow> nat \<Rightarrow> u8 list \<Rightarrow> fat_error + nat \<times> u8 list" where
  "fat_read_at dev fs path off out =
     and_then (resolve dev fs path) (\<lambda>(entry, cluster).
     if de_is_dir entry then Inl IsDirectory
     else if off \<ge> de_size entry \<or> out = [] then Inr (0, out)
     else
       let wanted = min (length out) (de_size entry - off) in
       and_then (skip_clusters dev fs (off div cluster_bytes fs) cluster 0) (\<lambda>(cluster, steps).
       read_loop dev fs out wanted cluster (off mod cluster_bytes fs) 0 steps))"

definition fat_read_file :: "'d block_device \<Rightarrow> 'd fat32 \<Rightarrow> str \<Rightarrow> fat_error + u8 list" where
  "fat_read_file dev fs path =
     and_then (fat_stat dev fs path) (\<lambda>entry.
     if de_is_dir entry then Inl IsDirectory
     else if de_size entry > 64 * 1024 * 1024 then Inl FatTooLarge
     else and_then (fat_read_at dev fs path 0 (replicate (de_size entry) 0)) (\<lambda>(n, result).
       if n \<noteq> length result then Inl FatCorrupt else Inr result))"

section \<open>Finding entries\<close>

definition parent_and_name :: "'d block_device \<Rightarrow> 'd fat32 \<Rightarrow> str \<Rightarrow> fat_error + nat \<times> str" where
  "parent_and_name dev fs path =
     (let clean = trim_matches 0x2F path;
          (parent_path, nm) = (case rsplit_once 0x2F clean of None \<Rightarrow> ([], clean) | Some pn \<Rightarrow> pn)
      in if nm = [] \<or> nm = [0x2E] \<or> nm = [0x2E, 0x2E] then Inl InvalidName
         else
           and_then
             (if parent_path = [] then Inr (root_cluster fs)
              else and_then (resolve dev fs parent_path) (\<lambda>(entry, cluster).
                if \<not> de_is_dir entry then Inl NotDirectory else Inr cluster)) (\<lambda>parent.
           if length nm > 255 \<or> last nm = 0x2E \<or> last nm = 0x20 \<or>
              list_ex (\<lambda>b. b \<in> {0x5C, 0x3A, 0x2A, 0x3F, 0x22, 0x3C, 0x3E, 0x7C}) nm
           then Inl InvalidName
           else Inr (parent, nm)))"

definition location_of :: "nat \<Rightarrow> nat \<Rightarrow> u8 list \<Rightarrow> entry_location" where
  "location_of cluster i e =
     \<lparr>loc_cluster = cluster, loc_offset = i * 32, loc_first = entry_first e, loc_size = unat (u32le e 28),
      loc_is_dir = e ! 11 AND 0x10 \<noteq> 0\<rparr>"

text \<open>One cluster: \<open>Some\<close> is a \<open>return\<close>.\<close>

fun find_short_in :: "nat \<Rightarrow> u8 list \<Rightarrow> (nat \<times> u8 list) list \<Rightarrow> entry_location option option" where
  "find_short_in cluster short [] = None"
| "find_short_in cluster short ((i, e) # es) =
     (if e ! 0 = 0 then Some None
      else if e ! 0 = 0xE5 \<or> e ! 11 = 0x0F \<or> e ! 11 AND 0x08 \<noteq> 0 then find_short_in cluster short es
      else if slice e 0 11 = short then Some (Some (location_of cluster i e))
      else find_short_in cluster short es)"

function find_short_loop :: "'d block_device \<Rightarrow> 'd fat32 \<Rightarrow> nat option \<Rightarrow> nat \<Rightarrow> u8 list \<Rightarrow> fat_error + entry_location option" where
  "find_short_loop dev fs current steps short =
     (case current of
        None \<Rightarrow> Inr None
      | Some cluster \<Rightarrow>
          if steps \<ge> cluster_count fs then Inl FatCorrupt
          else
            case read_cluster dev fs cluster of
              Inl error \<Rightarrow> Inl error
            | Inr data \<Rightarrow>
                case find_short_in cluster short (List.enumerate 0 (chunks32 data)) of
                  Some r \<Rightarrow> Inr r
                | None \<Rightarrow>
                    case next_cluster dev fs cluster of
                      Inl error \<Rightarrow> Inl error
                    | Inr current' \<Rightarrow> find_short_loop dev fs current' (steps + 1) short)"
  by pat_completeness auto
termination
  by (relation "measure (\<lambda>(dev, fs, current, steps, short). cluster_count fs - steps)") auto

declare find_short_loop.simps [simp del]

definition find_short_entry :: "'d block_device \<Rightarrow> 'd fat32 \<Rightarrow> nat \<Rightarrow> u8 list \<Rightarrow> fat_error + entry_location option" where
  "find_short_entry dev fs directory short = find_short_loop dev fs (Some directory) 0 short"

fun find_named_in ::
  "nat \<Rightarrow> str \<Rightarrow> (nat \<times> u8 list) list \<Rightarrow> u16 list \<Rightarrow> bool \<Rightarrow> (entry_location option) option \<times> u16 list \<times> bool" where
  "find_named_in cluster nm [] lfn have_lfn = (None, lfn, have_lfn)"
| "find_named_in cluster nm ((i, e) # es) lfn have_lfn =
     (case scan_entry lfn have_lfn e of
        ScanEnd \<Rightarrow> (Some None, lfn, have_lfn)
      | ScanSkip lfn have_lfn \<Rightarrow> find_named_in cluster nm es lfn have_lfn
      | ScanEntry entry_name \<Rightarrow>
          if eq_ignore_ascii_case entry_name nm then (Some (Some (location_of cluster i e)), lfn, False)
          else find_named_in cluster nm es lfn False)"

function find_named_loop ::
  "'d block_device \<Rightarrow> 'd fat32 \<Rightarrow> nat option \<Rightarrow> nat \<Rightarrow> str \<Rightarrow> u16 list \<Rightarrow> bool \<Rightarrow> fat_error + entry_location option" where
  "find_named_loop dev fs current steps nm lfn have_lfn =
     (case current of
        None \<Rightarrow> Inr None
      | Some cluster \<Rightarrow>
          if steps \<ge> cluster_count fs then Inl FatCorrupt
          else
            case read_cluster dev fs cluster of
              Inl error \<Rightarrow> Inl error
            | Inr data \<Rightarrow>
                case find_named_in cluster nm (List.enumerate 0 (chunks32 data)) lfn have_lfn of
                  (Some r, _, _) \<Rightarrow> Inr r
                | (None, lfn', have_lfn') \<Rightarrow>
                    case next_cluster dev fs cluster of
                      Inl error \<Rightarrow> Inl error
                    | Inr current' \<Rightarrow> find_named_loop dev fs current' (steps + 1) nm lfn' have_lfn')"
  by pat_completeness auto
termination
  by (relation "measure (\<lambda>(dev, fs, current, steps, nm, lfn, have_lfn). cluster_count fs - steps)") auto

declare find_named_loop.simps [simp del]

definition find_named_entry :: "'d block_device \<Rightarrow> 'd fat32 \<Rightarrow> nat \<Rightarrow> str \<Rightarrow> fat_error + entry_location option" where
  "find_named_entry dev fs directory nm = find_named_loop dev fs (Some directory) 0 nm lfn_blank False"

text \<open>\<open>sanitize\<close> and the search for a free alias.\<close>

definition sanitize :: "str \<Rightarrow> str" where
  "sanitize part =
     map (\<lambda>c. if c \<ge> 0x80 then 0x5F
              else let upper = ascii_uppercase (ucast c) in
                   if is_ascii_alphanumeric upper \<or> upper \<in> set short_punctuation then upper else 0x5F)
       (filter (\<lambda>c. c \<noteq> 0x2E) (chars part))"

definition alias_of :: "str \<Rightarrow> str \<Rightarrow> nat \<Rightarrow> u8 list" where
  "alias_of stem ext serial =
     (let suffix = 0x7E # decimal serial;
          prefix = take (8 - length suffix) stem
      in copy_at (copy_at (copy_at (replicate 11 0x20) 0 prefix) (length prefix) suffix) 8 ext)"

fun alias_loop :: "'d block_device \<Rightarrow> 'd fat32 \<Rightarrow> nat \<Rightarrow> str \<Rightarrow> str \<Rightarrow> nat list \<Rightarrow> fat_error + u8 list" where
  "alias_loop dev fs directory stem ext [] = Inl NoSpace"
| "alias_loop dev fs directory stem ext (serial # serials) =
     and_then (find_short_entry dev fs directory (alias_of stem ext serial)) (\<lambda>found.
     if found = None then Inr (alias_of stem ext serial)
     else alias_loop dev fs directory stem ext serials)"

definition choose_short_alias :: "'d block_device \<Rightarrow> 'd fat32 \<Rightarrow> nat \<Rightarrow> str \<Rightarrow> fat_error + u8 list" where
  "choose_short_alias dev fs directory nm =
     (let fallback =
        (let (stem, ext) = (case rsplit_once 0x2E nm of None \<Rightarrow> (nm, []) | Some se \<Rightarrow> se);
             stem = sanitize stem;
             ext = take 3 (sanitize ext);
             stem = (if stem = [] then [0x46, 0x49, 0x4C, 0x45] else stem)
         in alias_loop dev fs directory stem ext [1..<100000])
      in case to_short_name nm of
           Inl _ \<Rightarrow> fallback
         | Inr short \<Rightarrow>
             and_then (find_short_entry dev fs directory short) (\<lambda>found.
             if found = None then Inr short else fallback))"

section \<open>Cluster chains\<close>

function collect_loop :: "'d block_device \<Rightarrow> 'd fat32 \<Rightarrow> nat option \<Rightarrow> nat list \<Rightarrow> fat_error + nat list" where
  "collect_loop dev fs current chain =
     (case current of
        None \<Rightarrow> Inr chain
      | Some cluster \<Rightarrow>
          if length chain \<ge> cluster_count fs then Inl FatCorrupt
          else
            case next_cluster dev fs cluster of
              Inl error \<Rightarrow> Inl error
            | Inr current' \<Rightarrow> collect_loop dev fs current' (chain @ [cluster]))"
  by pat_completeness auto
termination
  by (relation "measure (\<lambda>(dev, fs, current, chain). cluster_count fs - length chain)") auto

declare collect_loop.simps [simp del]

definition collect_chain :: "'d block_device \<Rightarrow> 'd fat32 \<Rightarrow> nat \<Rightarrow> fat_error + nat list" where
  "collect_chain dev fs first = collect_loop dev fs (if first = 0 then None else Some first) []"

fun release_chain :: "'d block_device \<Rightarrow> 'd fat32 \<Rightarrow> nat list \<Rightarrow> (fat_error + unit) \<times> 'd fat32" where
  "release_chain dev fs [] = (Inr (), fs)"
| "release_chain dev fs (cluster # chain) =
     and_next (set_fat_entry dev fs cluster 0) (\<lambda>_ fs.
     release_chain dev (fs\<lparr>next_free_hint := min (next_free_hint fs) cluster\<rparr>) chain)"

text \<open>\<open>chain\<close> is the argument the source updates in place: the result is its new value and the volume.\<close>

definition rollback_chain_growth :: "'d block_device \<Rightarrow> 'd fat32 \<Rightarrow> nat list \<Rightarrow> nat \<Rightarrow> nat list \<times> 'd fat32" where
  "rollback_chain_growth dev fs chain original_len =
     (let fs = (if original_len > 0 then snd (set_fat_entry dev fs (chain ! (original_len - 1)) 0x0FFFFFFF) else fs);
          added = drop original_len chain
      in (take original_len chain, snd (release_chain dev fs added)))"

function ensure_loop ::
  "'d block_device \<Rightarrow> 'd fat32 \<Rightarrow> nat list \<Rightarrow> nat \<Rightarrow> nat \<Rightarrow> (fat_error + unit) \<times> nat list \<times> 'd fat32" where
  "ensure_loop dev fs chain original_len needed =
     (if length chain < needed then
        case allocate_cluster dev fs of
          (Inl error, fs1) \<Rightarrow> (Inl error, rollback_chain_growth dev fs1 chain original_len)
        | (Inr new_cluster, fs1) \<Rightarrow>
            case (if chain = [] then (Inr (), fs1) else set_fat_entry dev fs1 (last chain) new_cluster) of
              (Inl error, fs2) \<Rightarrow>
                (Inl error, rollback_chain_growth dev (snd (set_fat_entry dev fs2 new_cluster 0)) chain original_len)
            | (Inr _, fs2) \<Rightarrow> ensure_loop dev fs2 (chain @ [new_cluster]) original_len needed
      else (Inr (), chain, fs))"
  by pat_completeness auto
termination
  by (relation "measure (\<lambda>(dev, fs, chain, original_len, needed). needed - length chain)") auto

declare ensure_loop.simps [simp del]

definition ensure_chain :: "'d block_device \<Rightarrow> 'd fat32 \<Rightarrow> nat list \<Rightarrow> nat \<Rightarrow> (fat_error + nat list) \<times> nat list \<times> 'd fat32" where
  "ensure_chain dev fs chain needed =
     (case ensure_loop dev fs chain (length chain) needed of
        (Inl error, chain', fs') \<Rightarrow> (Inl error, chain', fs')
      | (Inr _, chain', fs') \<Rightarrow> (Inr (drop (length chain) chain'), chain', fs'))"

function write_chain_range :: "'d block_device \<Rightarrow> 'd fat32 \<Rightarrow> nat list \<Rightarrow> nat \<Rightarrow> u8 list \<Rightarrow> (fat_error + unit) \<times> 'd fat32" where
  "write_chain_range dev fs chain off data =
     (if data = [] then (Inr (), fs)
      else
        let ci = off div cluster_bytes fs in
        if ci \<ge> length chain then (Inl FatCorrupt, fs)
        else
          let in_cluster = off mod cluster_bytes fs;
              sector_index = in_cluster div SECTOR_SIZE;
              in_sector = in_cluster mod SECTOR_SIZE;
              n = min (length data) (SECTOR_SIZE - in_sector)
          in case and_next (cluster_lba fs (chain ! ci), fs) (\<lambda>first fs.
                  and_next (fat_read_sector dev fs (first + sector_index), fs) (\<lambda>sector fs.
                  fat_write_sector dev fs (first + sector_index) (copy_at sector in_sector (take n data)))) of
               (Inl error, fs1) \<Rightarrow> (Inl error, fs1)
             | (Inr _, fs1) \<Rightarrow> write_chain_range dev fs1 chain (off + n) (drop n data))"
  by pat_completeness auto
termination
proof (relation "measure (\<lambda>(dev, fs, chain, off, data). length data)", goal_cases)
  case (2 dev fs chain off data ci in_cluster sector_index in_sector n a b c)
  have "in_sector < SECTOR_SIZE" unfolding 2(6) by (simp add: SECTOR_SIZE_def)
  then have "0 < n" using 2(1,7) by simp
  then show ?case using 2(1) by simp
qed simp

declare write_chain_range.simps [simp del]

function write_zero_range :: "'d block_device \<Rightarrow> 'd fat32 \<Rightarrow> nat list \<Rightarrow> nat \<Rightarrow> nat \<Rightarrow> (fat_error + unit) \<times> 'd fat32" where
  "write_zero_range dev fs chain off len =
     (if len = 0 then (Inr (), fs)
      else
        let in_sector = off mod SECTOR_SIZE; n = min len (SECTOR_SIZE - in_sector) in
        case write_chain_range dev fs chain off (replicate n 0) of
          (Inl error, fs1) \<Rightarrow> (Inl error, fs1)
        | (Inr _, fs1) \<Rightarrow> write_zero_range dev fs1 chain (off + n) (len - n))"
  by pat_completeness auto
termination
proof (relation "measure (\<lambda>(dev, fs, chain, off, len). len)", goal_cases)
  case (2 dev fs chain off len in_sector n a b c)
  have "in_sector < SECTOR_SIZE" unfolding 2(2) by (simp add: SECTOR_SIZE_def)
  then show ?case using 2(1,3) by simp
qed simp

declare write_zero_range.simps [simp del]

section \<open>Writing directories\<close>

definition write_directory_bytes :: "'d block_device \<Rightarrow> 'd fat32 \<Rightarrow> nat \<Rightarrow> nat \<Rightarrow> u8 list \<Rightarrow> (fat_error + unit) \<times> 'd fat32" where
  "write_directory_bytes dev fs cluster off bytes =
     and_next (cluster_lba fs cluster, fs) (\<lambda>first fs.
     let lba = first + off div SECTOR_SIZE; in_sector = off mod SECTOR_SIZE in
     if in_sector + length bytes > SECTOR_SIZE then (Inl FatCorrupt, fs)
     else
       and_next (fat_read_sector dev fs lba, fs) (\<lambda>sector fs.
       fat_write_sector dev fs lba (copy_at sector in_sector bytes)))"

definition read_dir_entry :: "'d block_device \<Rightarrow> 'd fat32 \<Rightarrow> entry_location \<Rightarrow> fat_error + u8 list" where
  "read_dir_entry dev fs location =
     and_then (cluster_lba fs (loc_cluster location)) (\<lambda>first.
     and_then (fat_read_sector dev fs (first + loc_offset location div SECTOR_SIZE)) (\<lambda>sector.
     let at = loc_offset location mod SECTOR_SIZE in
     Inr (slice sector at (at + 32))))"

definition write_dir_entry :: "'d block_device \<Rightarrow> 'd fat32 \<Rightarrow> entry_location \<Rightarrow> u8 list \<Rightarrow> (fat_error + unit) \<times> 'd fat32" where
  "write_dir_entry dev fs location entry = write_directory_bytes dev fs (loc_cluster location) (loc_offset location) entry"

text \<open>Bytes 20 and 26 hold the halves of the first cluster, byte 28 the size.\<close>

definition put_first :: "u8 list \<Rightarrow> nat \<Rightarrow> u8 list" where
  "put_first entry first =
     copy_at (copy_at entry 20 (to_le 2 (ucast (drop_bit 16 (of_nat first :: u32)) :: u16))) 26
       (to_le 2 (ucast (of_nat first :: u32) :: u16))"

definition write_entry_metadata ::
  "'d block_device \<Rightarrow> 'd fat32 \<Rightarrow> entry_location \<Rightarrow> nat \<Rightarrow> nat \<Rightarrow> (fat_error + unit) \<times> 'd fat32" where
  "write_entry_metadata dev fs location first sz =
     and_next (read_dir_entry dev fs location, fs) (\<lambda>entry fs.
     write_dir_entry dev fs location (copy_at (put_first entry first) 28 (to_le 4 (of_nat sz :: u32))))"

text \<open>\<open>append_directory_records\<close>: the old tail becomes deleted entries, new clusters are linked, then the
  records are written.\<close>

fun delete_tail_in ::
  "'d block_device \<Rightarrow> 'd fat32 \<Rightarrow> nat \<Rightarrow> (nat \<times> u8 list) list \<Rightarrow> bool \<Rightarrow> (fat_error + bool) \<times> 'd fat32" where
  "delete_tail_in dev fs cluster [] after_end = (Inr after_end, fs)"
| "delete_tail_in dev fs cluster ((i, e) # es) after_end =
     (let after_end = (after_end \<or> e ! 0 = 0) in
      and_next (if after_end then write_directory_bytes dev fs cluster (i * 32) [0xE5] else (Inr (), fs)) (\<lambda>_ fs.
      delete_tail_in dev fs cluster es after_end))"

fun delete_tail :: "'d block_device \<Rightarrow> 'd fat32 \<Rightarrow> nat list \<Rightarrow> bool \<Rightarrow> (fat_error + unit) \<times> 'd fat32" where
  "delete_tail dev fs [] after_end = (Inr (), fs)"
| "delete_tail dev fs (cluster # chain) after_end =
     and_next (read_cluster dev fs cluster, fs) (\<lambda>data fs.
     and_next (delete_tail_in dev fs cluster (List.enumerate 0 (chunks32 data)) after_end) (\<lambda>after_end fs.
     delete_tail dev fs chain after_end))"

fun allocate_added :: "'d block_device \<Rightarrow> 'd fat32 \<Rightarrow> nat \<Rightarrow> nat list \<Rightarrow> (fat_error + nat list) \<times> 'd fat32" where
  "allocate_added dev fs 0 added = (Inr added, fs)"
| "allocate_added dev fs (Suc n) added =
     (case allocate_cluster dev fs of
        (Inr cluster, fs) \<Rightarrow> allocate_added dev fs n (added @ [cluster])
      | (Inl error, fs) \<Rightarrow> (Inl error, snd (release_chain dev fs added)))"

fun link_pairs :: "'d block_device \<Rightarrow> 'd fat32 \<Rightarrow> (nat \<times> nat) list \<Rightarrow> nat list \<Rightarrow> (fat_error + unit) \<times> 'd fat32" where
  "link_pairs dev fs [] added = (Inr (), fs)"
| "link_pairs dev fs ((a, b) # pairs) added =
     (case set_fat_entry dev fs a b of
        (Inl error, fs) \<Rightarrow> (Inl error, snd (release_chain dev fs added))
      | (Inr _, fs) \<Rightarrow> link_pairs dev fs pairs added)"

fun write_records ::
  "'d block_device \<Rightarrow> 'd fat32 \<Rightarrow> nat list \<Rightarrow> (nat \<times> u8 list) list \<Rightarrow> (fat_error + unit) \<times> 'd fat32" where
  "write_records dev fs added [] = (Inr (), fs)"
| "write_records dev fs added ((i, record) # records) =
     (let byte_offset = i * 32;
          cluster = added ! (byte_offset div cluster_bytes fs);
          off = byte_offset mod cluster_bytes fs
      in and_next (write_directory_bytes dev fs cluster off record) (\<lambda>_ fs.
         write_records dev fs added records))"

definition append_directory_records :: "'d block_device \<Rightarrow> 'd fat32 \<Rightarrow> nat \<Rightarrow> u8 list list \<Rightarrow> (fat_error + unit) \<times> 'd fat32" where
  "append_directory_records dev fs directory records =
     and_next (collect_chain dev fs directory, fs) (\<lambda>chain fs.
     if chain = [] then (Inl FatCorrupt, fs)
     else
       and_next (delete_tail dev fs chain False) (\<lambda>_ fs.
       let slots_needed = length records + 1;
           clusters_needed = div_ceil (slots_needed * 32) (cluster_bytes fs)
       in and_next (allocate_added dev fs clusters_needed []) (\<lambda>added fs.
          and_next (link_pairs dev fs (zip added (tl added)) added) (\<lambda>_ fs.
          and_next (link_pairs dev fs [(last chain, added ! 0)] added) (\<lambda>_ fs.
          write_records dev fs added (List.enumerate 0 records))))))"

section \<open>Operations on paths\<close>

definition fat_create_file :: "'d block_device \<Rightarrow> 'd fat32 \<Rightarrow> str \<Rightarrow> (fat_error + unit) \<times> 'd fat32" where
  "fat_create_file dev fs path =
     and_next (parent_and_name dev fs path, fs) (\<lambda>(parent, nm) fs.
     and_next (find_named_entry dev fs parent nm, fs) (\<lambda>found fs.
     case found of
       Some existing \<Rightarrow> (if loc_is_dir existing then Inl IsDirectory else Inr (), fs)
     | None \<Rightarrow>
         and_next (choose_short_alias dev fs parent nm, fs) (\<lambda>short fs.
         and_next (lfn_records nm short, fs) (\<lambda>records fs.
         let entry = (copy_at (replicate 32 0) 0 short)[11 := 0x20] in
         append_directory_records dev fs parent (records @ [entry])))))"

definition dot_entry :: "u8 list \<Rightarrow> nat \<Rightarrow> u8 list" where
  "dot_entry nm cluster = put_first ((copy_at (replicate 32 0) 0 nm)[11 := 0x10]) cluster"

definition fat_create_dir :: "'d block_device \<Rightarrow> 'd fat32 \<Rightarrow> str \<Rightarrow> (fat_error + unit) \<times> 'd fat32" where
  "fat_create_dir dev fs path =
     and_next (parent_and_name dev fs path, fs) (\<lambda>(parent, nm) fs.
     and_next (find_named_entry dev fs parent nm, fs) (\<lambda>found fs.
     if found \<noteq> None then (Inl AlreadyExists, fs)
     else
       and_next (allocate_cluster dev fs) (\<lambda>cluster fs.
       let result =
         and_next (write_directory_bytes dev fs cluster 0 (dot_entry (0x2E # replicate 10 0x20) cluster)) (\<lambda>_ fs.
         and_next (write_directory_bytes dev fs cluster 32 (dot_entry (0x2E # 0x2E # replicate 9 0x20) parent)) (\<lambda>_ fs.
         and_next (choose_short_alias dev fs parent nm, fs) (\<lambda>short fs.
         and_next (lfn_records nm short, fs) (\<lambda>records fs.
         append_directory_records dev fs parent (records @ [dot_entry short cluster])))))
       in case result of
            (Inl error, fs) \<Rightarrow> (Inl error, snd (release_chain dev fs [cluster]))
          | (Inr _, fs) \<Rightarrow> (Inr (), fs))))"

text \<open>The inner loop of \<open>remove\<close>: the long-name records pending and those found; a \<open>break\<close> ends it.\<close>

definition bare_location :: "nat \<Rightarrow> nat \<Rightarrow> entry_location" where
  "bare_location cluster i = \<lparr>loc_cluster = cluster, loc_offset = i * 32, loc_first = 0, loc_size = 0, loc_is_dir = False\<rparr>"

fun remove_scan_in ::
  "nat \<Rightarrow> entry_location \<Rightarrow> (nat \<times> u8 list) list \<Rightarrow> entry_location list \<Rightarrow> entry_location list \<times> entry_location list" where
  "remove_scan_in cluster location [] pending = (pending, [])"
| "remove_scan_in cluster location ((i, e) # es) pending =
     (if e ! 0 = 0 then (pending, [])
      else if e ! 0 = 0xE5 then remove_scan_in cluster location es []
      else if e ! 11 = 0x0F then remove_scan_in cluster location es (pending @ [bare_location cluster i])
      else if cluster = loc_cluster location \<and> i * 32 = loc_offset location
      then ([], pending @ [bare_location cluster i])
      else remove_scan_in cluster location es [])"

fun remove_scan ::
  "'d block_device \<Rightarrow> 'd fat32 \<Rightarrow> entry_location \<Rightarrow> nat list \<Rightarrow> entry_location list \<Rightarrow> fat_error + entry_location list" where
  "remove_scan dev fs location [] pending = Inr []"
| "remove_scan dev fs location (cluster # chain) pending =
     and_then (read_cluster dev fs cluster) (\<lambda>data.
     case remove_scan_in cluster location (List.enumerate 0 (chunks32 data)) pending of
       (pending, found) \<Rightarrow> if found \<noteq> [] then Inr found else remove_scan dev fs location chain pending)"

fun delete_entries :: "'d block_device \<Rightarrow> 'd fat32 \<Rightarrow> entry_location list \<Rightarrow> (fat_error + unit) \<times> 'd fat32" where
  "delete_entries dev fs [] = (Inr (), fs)"
| "delete_entries dev fs (location # locations) =
     and_next (read_dir_entry dev fs location, fs) (\<lambda>entry fs.
     and_next (write_dir_entry dev fs location (entry[0 := 0xE5])) (\<lambda>_ fs.
     delete_entries dev fs locations))"

definition fat_remove :: "'d block_device \<Rightarrow> 'd fat32 \<Rightarrow> str \<Rightarrow> (fat_error + unit) \<times> 'd fat32" where
  "fat_remove dev fs path =
     and_next (parent_and_name dev fs path, fs) (\<lambda>(parent, nm) fs.
     and_next (and_then (find_named_entry dev fs parent nm) (ok_or NotFound), fs) (\<lambda>location fs.
     and_next
       (and_then (if loc_is_dir location then directory_entries dev fs (loc_first location) else Inr []) (\<lambda>entries.
          if entries \<noteq> [] then Inl DirectoryNotEmpty else Inr ()), fs) (\<lambda>_ fs.
     and_next (collect_chain dev fs (loc_first location), fs) (\<lambda>chain fs.
     and_next (collect_chain dev fs parent, fs) (\<lambda>dir_chain fs.
     and_next (remove_scan dev fs location dir_chain [], fs) (\<lambda>found fs.
     if found = [] then (Inl FatCorrupt, fs)
     else
       and_next (delete_entries dev fs found) (\<lambda>_ fs.
       release_chain dev fs chain)))))))"

definition fat_truncate :: "'d block_device \<Rightarrow> 'd fat32 \<Rightarrow> str \<Rightarrow> (fat_error + unit) \<times> 'd fat32" where
  "fat_truncate dev fs path =
     and_next (parent_and_name dev fs path, fs) (\<lambda>(parent, nm) fs.
     and_next (and_then (find_named_entry dev fs parent nm) (ok_or NotFound), fs) (\<lambda>location fs.
     if loc_is_dir location then (Inl IsDirectory, fs)
     else
       and_next (collect_chain dev fs (loc_first location), fs) (\<lambda>chain fs.
       and_next (write_entry_metadata dev fs location 0 0) (\<lambda>_ fs.
       release_chain dev fs chain))))"

definition fat_write_at :: "'d block_device \<Rightarrow> 'd fat32 \<Rightarrow> str \<Rightarrow> nat \<Rightarrow> u8 list \<Rightarrow> (fat_error + nat) \<times> 'd fat32" where
  "fat_write_at dev fs path off data =
     (if data = [] then (Inr 0, fs)
      else
        let end = off + length data in
        if end \<ge> 2 ^ 64 then (Inl FatTooLarge, fs)
        else if end > 0xFFFFFFFF then (Inl FatTooLarge, fs)
        else
          and_next (parent_and_name dev fs path, fs) (\<lambda>(parent, nm) fs.
          and_next (and_then (find_named_entry dev fs parent nm) (ok_or NotFound), fs) (\<lambda>location fs.
          if loc_is_dir location then (Inl IsDirectory, fs)
          else
            and_next (collect_chain dev fs (loc_first location), fs) (\<lambda>chain0 fs.
            let needed_bytes = max (loc_size location) end;
                needed_clusters = div_ceil needed_bytes (cluster_bytes fs)
            in case ensure_chain dev fs chain0 needed_clusters of
                 (Inl error, _, fs) \<Rightarrow> (Inl error, fs)
               | (Inr added, chain, fs) \<Rightarrow>
                   let first = (case chain of [] \<Rightarrow> 0 | c # _ \<Rightarrow> c);
                       result =
                         and_next (if off > loc_size location
                                   then write_zero_range dev fs chain (loc_size location) (off - loc_size location)
                                   else (Inr (), fs)) (\<lambda>_ fs.
                         and_next (write_chain_range dev fs chain off data) (\<lambda>_ fs.
                         write_entry_metadata dev fs location first needed_bytes))
                   in case result of
                        (Inl error, fs) \<Rightarrow>
                          (Inl error, if added \<noteq> [] then snd (rollback_chain_growth dev fs chain (length chain0)) else fs)
                      | (Inr _, fs) \<Rightarrow> (Inr (length data), fs)))))"

end
