(* ===== verification/FatTable.thy ===== *)
theory FatTable
  imports Fat32
begin

unbundle bit_operations_syntax

text \<open>
  The allocation table of \<open>Fat32\<close>: what mounting guarantees of the layout, and what the operations on the
  table do, over a device that keeps its contract and does not fail inside its size.
\<close>

section \<open>Devices that do not fail\<close>

locale reliable_device = device_contract +
  assumes read_total: "ok d \<Longrightarrow> lba < sector_count dev d \<Longrightarrow> \<exists>s. read_sector dev d lba = Inr s"
    and write_total: "ok d \<Longrightarrow> lba < sector_count dev d \<Longrightarrow> length s = SECTOR_SIZE \<Longrightarrow> \<exists>d'. write_sector dev d lba s = (Inr (), d')"

interpretation ramvol: reliable_device memory_block_device memory_ok
proof unfold_locales
  fix d lba s
  assume "memory_ok d" "lba < sector_count memory_block_device d"
  then show "\<exists>s. read_sector memory_block_device d lba = Inr s"
    using memory_read_total [of d lba] by auto
next
  fix d lba and s :: "u8 list"
  assume "memory_ok d" "lba < sector_count memory_block_device d" "length s = SECTOR_SIZE"
  then show "\<exists>d'. write_sector memory_block_device d lba s = (Inr (), d')"
    by (auto simp: memory_write_sector_def)
qed

section \<open>The layout\<close>

definition same_volume :: "'d fat32 \<Rightarrow> 'd fat32 \<Rightarrow> bool" where
  "same_volume fs fs' \<longleftrightarrow> (\<exists>d hint inv. fs' = fs\<lparr>fat_device := d, next_free_hint := hint, fsinfo_invalidated := inv\<rparr>)"

lemma same_volume_refl [simp]: "same_volume fs fs"
  unfolding same_volume_def by (intro exI [of _ "fat_device fs"] exI [of _ "next_free_hint fs"] exI [of _ "fsinfo_invalidated fs"]) simp

lemma same_volume_trans: "same_volume fs fs1 \<Longrightarrow> same_volume fs1 fs2 \<Longrightarrow> same_volume fs fs2"
  unfolding same_volume_def by (elim exE) (rule exI, rule exI, rule exI, simp)

lemma same_volumeI [simp]:
  "same_volume fs (fs\<lparr>fat_device := d\<rparr>)" "same_volume fs (fs\<lparr>next_free_hint := h\<rparr>)" "same_volume fs (fs\<lparr>fsinfo_invalidated := b\<rparr>)"
proof -
  show "same_volume fs (fs\<lparr>fat_device := d\<rparr>)" unfolding same_volume_def
    by (intro exI [of _ d] exI [of _ "next_free_hint fs"] exI [of _ "fsinfo_invalidated fs"]) simp
  show "same_volume fs (fs\<lparr>next_free_hint := h\<rparr>)" unfolding same_volume_def
    by (intro exI [of _ "fat_device fs"] exI [of _ h] exI [of _ "fsinfo_invalidated fs"]) simp
  show "same_volume fs (fs\<lparr>fsinfo_invalidated := b\<rparr>)" unfolding same_volume_def
    by (intro exI [of _ "fat_device fs"] exI [of _ "next_free_hint fs"] exI [of _ b]) simp
qed

lemma same_volumeD:
  assumes "same_volume fs fs'"
  shows "sectors_per_cluster fs' = sectors_per_cluster fs" "reserved_sectors fs' = reserved_sectors fs"
    "fat_count fs' = fat_count fs" "sectors_per_fat fs' = sectors_per_fat fs" "root_cluster fs' = root_cluster fs"
    "data_start fs' = data_start fs" "cluster_count fs' = cluster_count fs" "fsinfo_sector fs' = fsinfo_sector fs"
    "cluster_bytes fs' = cluster_bytes fs"
  using assms by (auto simp: same_volume_def cluster_bytes_def)

text \<open>Reserved sectors, then the tables, then the clusters, all inside the device; the table has an entry
  for every cluster.\<close>

definition layout_ok :: "'d block_device \<Rightarrow> 'd fat32 \<Rightarrow> bool" where
  "layout_ok dev fs \<longleftrightarrow> 0 < sectors_per_cluster fs \<and> 0 < reserved_sectors fs \<and> 0 < fat_count fs \<and>
     data_start fs = reserved_sectors fs + fat_count fs * sectors_per_fat fs \<and>
     data_start fs + cluster_count fs * sectors_per_cluster fs \<le> unat (sector_count dev (fat_device fs)) \<and>
     cluster_count fs + 2 \<le> 128 * sectors_per_fat fs \<and> 0 < cluster_count fs \<and> cluster_count fs \<le> 0x0FFFFFF5 \<and>
     2 \<le> root_cluster fs \<and> root_cluster fs < cluster_count fs + 2 \<and>
     (\<forall>n. fsinfo_sector fs = Some n \<longrightarrow> 0 < n \<and> n < reserved_sectors fs)"

lemma mount_layout:
  assumes "fat_mount dev d = Inr fs"
  shows "layout_ok dev fs" "fat_device fs = d" "sectors_per_cluster fs \<in> {1, 2, 4, 8, 16, 32, 64, 128}"
proof -
  obtain b where b: "read_sector dev d 0 = Inr b"
    using assms by (cases "read_sector dev d 0") (auto simp: fat_mount_def)
  define spc reserved fats total spf root inf where
    "spc = b ! 13" and "reserved = unat (u16le b 14)" and "fats = unat (b ! 16)" and
    "total = (if u16le b 19 \<noteq> 0 then unat (u16le b 19) else unat (u32le b 32))" and "spf = unat (u32le b 36)" and
    "root = unat (u32le b 44 AND 0x0FFFFFFF)" and "inf = unat (u16le b 48)"
  define start where "start = reserved + fats * spf"
  define clusters where "clusters = (total - start) div unat spc mod 2 ^ 32"
  define fsinfo where "fsinfo = (if inf \<noteq> 0 \<and> inf < reserved then Some inf else None)"
  note body = assms [unfolded fat_mount_def b map_err_simps and_then_simps Let_def,
      folded spc_def reserved_def fats_def total_def spf_def root_def inf_def, folded start_def fsinfo_def, folded clusters_def]
  have fs: "fs = \<lparr>fat_device = d, sectors_per_cluster = unat spc, reserved_sectors = reserved, fat_count = fats,
                       sectors_per_fat = spf, root_cluster = root, data_start = start, cluster_count = clusters,
                       next_free_hint = 2, fsinfo_sector = fsinfo, fsinfo_invalidated = False\<rparr>"
    and c: "is_power_of_two spc" "reserved \<noteq> 0" "fats \<noteq> 0" "total \<le> unat (sector_count dev d)" "start < total"
      "1 \<le> clusters" "clusters \<le> 0x0FFFFFF5" "clusters + 2 \<le> spf * SECTOR_SIZE div 4" "2 \<le> root" "root < clusters + 2"
    using body by (simp_all split: if_split_asm)
  have s: "sectors_per_cluster fs \<in> {1, 2, 4, 8, 16, 32, 64, 128}" using c(1) fs by (auto simp: is_power_of_two_def)
  have "clusters * unat spc \<le> (total - start) div unat spc * unat spc"
    unfolding clusters_def by (intro mult_right_mono) (rule mod_less_eq_dividend, simp)
  also have "\<dots> \<le> total - start" by (rule div_times_less_eq_dividend)
  finally have "start + clusters * unat spc \<le> unat (sector_count dev d)" using c(4,5) by linarith
  moreover have "spf * SECTOR_SIZE div 4 = 128 * spf" by (simp add: SECTOR_SIZE_def)
  ultimately show "layout_ok dev fs" "fat_device fs = d" "sectors_per_cluster fs \<in> {1, 2, 4, 8, 16, 32, 64, 128}"
    using s c fs start_def by (auto simp: layout_ok_def fsinfo_def split: if_split_asm)
qed

section \<open>A small volume\<close>

text \<open>Four sectors: the boot sector, one table, two clusters.\<close>

definition small_fields :: "(nat \<times> u8 list) list" where
  "small_fields = [(11, [0, 2]), (13, [1]), (14, [1, 0]), (16, [1]), (17, [0, 0]), (19, [4, 0]), (22, [0, 0]), (36, [1, 0, 0, 0]), (44, [2, 0, 0, 0]), (48, [0, 0]), (510, [0x55, 0xAA])]"

definition small_boot :: "u8 list" where
  "small_boot = fold (\<lambda>(at, ys) b. copy_at b at ys) small_fields (replicate 512 0)"

definition small_disk :: memory_device where
  "small_disk = \<lparr>disk_image = small_boot @ replicate 1536 0, overlay = Map.empty\<rparr>"

definition small_volume :: "memory_device fat32" where
  "small_volume = \<lparr>fat_device = small_disk, sectors_per_cluster = 1, reserved_sectors = 1, fat_count = 1, sectors_per_fat = 1,
     root_cluster = 2, data_start = 2, cluster_count = 2, next_free_hint = 2, fsinfo_sector = None, fsinfo_invalidated = False\<rparr>"

lemma small_boot_slice:
  shows "length small_boot = 512" "(at, ys) \<in> set small_fields \<Longrightarrow> slice small_boot at (at + length ys) = ys"
proof -
  have ok: "list_all (\<lambda>(at, ys). at + length ys \<le> length (replicate 512 (0 :: u8))) small_fields"
    "sorted_wrt (\<lambda>(i, xs) (j, ys). i + length xs \<le> j) small_fields"
    by (simp_all add: small_fields_def)
  show "length small_boot = 512" unfolding small_boot_def using copies_slice(1) [OF ok] by simp
  show "(at, ys) \<in> set small_fields \<Longrightarrow> slice small_boot at (at + length ys) = ys"
    unfolding small_boot_def by (rule copies_slice(2) [OF ok])
qed

lemma small_boot_bytes: "small_boot ! 13 = 1" "small_boot ! 16 = 1" "small_boot ! 510 = 0x55" "small_boot ! 511 = 0xAA"
proof -
  have n: "small_boot ! (at + i) = ys ! i" if "(at, ys) \<in> set small_fields" "i < length ys" "at + length ys \<le> 512" for at ys i
    using small_boot_slice(2) [OF that(1)] nth_slice [of "at + length ys" small_boot i at] that small_boot_slice(1) by simp
  show "small_boot ! 13 = 1" "small_boot ! 16 = 1" "small_boot ! 510 = 0x55" "small_boot ! 511 = 0xAA"
    using n [of 13 "[1]" 0] n [of 16 "[1]" 0] n [of 510 "[0x55, 0xAA]" 0] n [of 510 "[0x55, 0xAA]" 1]
    by (simp_all add: small_fields_def)
qed

lemma small_boot_words: "u16le small_boot 11 = 512" "u16le small_boot 14 = 1" "u16le small_boot 17 = 0" "u16le small_boot 19 = 4"
  "u16le small_boot 22 = 0" "u32le small_boot 36 = 1" "u32le small_boot 44 = 2" "u16le small_boot 48 = 0"
  using small_boot_slice(2) [of 11 "[0, 2]"] small_boot_slice(2) [of 14 "[1, 0]"] small_boot_slice(2) [of 17 "[0, 0]"]
    small_boot_slice(2) [of 19 "[4, 0]"] small_boot_slice(2) [of 22 "[0, 0]"] small_boot_slice(2) [of 36 "[1, 0, 0, 0]"]
    small_boot_slice(2) [of 44 "[2, 0, 0, 0]"] small_boot_slice(2) [of 48 "[0, 0]"]
  by (simp_all add: small_fields_def u16le_def u32le_def from_le_def)

lemma small_disk_ok: "memory_ok small_disk" "memory_sector_count small_disk = 4"
  by (simp_all add: small_disk_def memory_ok_def memory_sector_count_def SECTOR_SIZE_def small_boot_slice(1))

lemma small_mount: "fat_mount memory_block_device small_disk = Inr small_volume"
proof -
  have "memory_read_sector small_disk 0 = Inr small_boot"
    by (simp add: memory_read_sector_def small_disk_def Let_def SECTOR_SIZE_def small_boot_slice(1) slice_def)
  then show ?thesis
    by (simp add: fat_mount_def Let_def small_boot_words small_boot_bytes is_power_of_two_def small_disk_ok SECTOR_SIZE_def small_volume_def)
qed

section \<open>Mounting\<close>

text \<open>C24. A volume that mounts has its reserved sectors, its tables and all its clusters one after the other
  inside the device, an entry of the table for every cluster, its root directory among the clusters, a power of two
  of sectors to a cluster, and the information sector, if it is used, among the reserved ones and not the
  boot sector.\<close>

theorem fat_mount_geometry:
  assumes "fat_mount dev d = Inr fs"
  shows "data_start fs = reserved_sectors fs + fat_count fs * sectors_per_fat fs \<and>
    data_start fs + cluster_count fs * sectors_per_cluster fs \<le> unat (sector_count dev d) \<and>
    (cluster_count fs + 2) * 4 \<le> sectors_per_fat fs * SECTOR_SIZE \<and>
    2 \<le> root_cluster fs \<and> root_cluster fs < cluster_count fs + 2 \<and> cluster_count fs + 2 < 0x0FFFFFF8 \<and>
    (\<exists>k. sectors_per_cluster fs = 2 ^ k \<and> k \<le> 7) \<and>
    (case fsinfo_sector fs of None \<Rightarrow> True | Some n \<Rightarrow> 0 < n \<and> n < reserved_sectors fs)"
proof -
  note l = mount_layout [OF assms]
  have "sectors_per_cluster fs \<in> {2 ^ 0, 2 ^ 1, 2 ^ 2, 2 ^ 3, 2 ^ 4, 2 ^ 5, 2 ^ 6, 2 ^ 7}" using l(3) by simp
  then have "\<exists>k. sectors_per_cluster fs = 2 ^ k \<and> k \<le> 7"
    unfolding insert_iff
    by (elim disjE) (auto intro: exI [of _ 0] exI [of _ 1] exI [of _ 2] exI [of _ 3] exI [of _ 4] exI [of _ 5] exI [of _ 6] exI [of _ 7])
  moreover have "case fsinfo_sector fs of None \<Rightarrow> True | Some n \<Rightarrow> 0 < n \<and> n < reserved_sectors fs"
    using l(1) by (auto simp: layout_ok_def split: option.splits)
  ultimately show ?thesis using l(1,2) by (auto simp: layout_ok_def SECTOR_SIZE_def)
qed

theorem fat_mount_geometry_witness:
  "fat_mount memory_block_device small_disk = Inr small_volume \<and>
   data_start small_volume + cluster_count small_volume * sectors_per_cluster small_volume \<le> unat (memory_sector_count small_disk)"
  using small_mount fat_mount_geometry [OF small_mount] by simp

end
