(* ===== verification/Initramfs.thy ===== *)
theory Initramfs
  imports Text "HOL-Library.Monad_Syntax"
begin

unbundle bit_operations_syntax

text \<open>
  The initial RAM filesystem, \<open>src/initramfs.rs\<close>: reading a \<open>ustar\<close> archive in place.

  Strings are their UTF-8 bytes, as in \<open>Text\<close>. An iterator is its offset; \<open>next\<close> returns the entry and
  the new offset.
\<close>

section \<open>Headers\<close>

definition BLOCK :: nat where "BLOCK = 512"

record entry =
  name :: "u8 list"
  data :: "u8 list"

definition cstr :: "u8 list \<Rightarrow> u8 list" where
  "cstr field = (case position (\<lambda>b. b = 0) field of None \<Rightarrow> field | Some end \<Rightarrow> take end field)"

text \<open>The loop of \<open>parse_octal\<close>: \<open>None\<close> is an early return, otherwise \<open>value\<close> and \<open>seen\<close>.\<close>

fun octal_loop :: "u8 list \<Rightarrow> u64 \<Rightarrow> bool \<Rightarrow> (u64 \<times> bool) option" where
  "octal_loop [] val seen = Some (val, seen)"
| "octal_loop (b # bs) val seen =
     (if 0x30 \<le> b \<and> b \<le> 0x37 then
        if unat val * 8 \<ge> 2 ^ 64 then None
        else case checked_add (val * 8) (ucast (b - 0x30)) of
          None \<Rightarrow> None
        | Some v \<Rightarrow> octal_loop bs v True
      else if b = 0x20 \<or> b = 0 then
        if seen then Some (val, seen) else octal_loop bs val seen
      else None)"

definition parse_octal :: "u8 list \<Rightarrow> u64 option" where
  "parse_octal field =
     (case octal_loop field 0 False of
        None \<Rightarrow> None
      | Some (val, seen) \<Rightarrow> if seen then Some val else None)"

definition checksum :: "u8 list \<Rightarrow> u64" where
  "checksum hdr =
     foldl (\<lambda>sum (i, b). sum + (if 148 \<le> i \<and> i < 156 then 0x20 else ucast b)) 0 (List.enumerate 0 hdr)"

definition checksum_ok :: "u8 list \<Rightarrow> bool" where
  "checksum_ok hdr \<longleftrightarrow> parse_octal (slice hdr 148 156) = Some (checksum hdr)"

text \<open>\<open>./\<close> is the bytes 2E 2F.\<close>

fun normalize :: "u8 list \<Rightarrow> u8 list" where
  "normalize (a # b # rest) =
     (if a = 0x2E \<and> b = 0x2F then normalize rest
      else if a = 0x2F then normalize (b # rest)
      else a # b # rest)"
| "normalize [a] = (if a = 0x2F then [] else [a])"
| "normalize [] = []"

definition entry_name :: "u8 list \<Rightarrow> u8 list" where
  "entry_name hdr =
     (let nm = cstr (slice hdr 0 100);
          is_ustar = (slice hdr 257 262 = [0x75, 0x73, 0x74, 0x61, 0x72]);
          prefix = (if is_ustar then cstr (slice hdr 345 500) else []);
          full = (if prefix \<noteq> [] then utf8_lossy prefix @ [0x2F] else []) @ utf8_lossy nm
      in normalize full)"

section \<open>The archive\<close>

text \<open>\<open>Entries::next\<close>. The additions are checked; on overflow the iterator ends.\<close>

function entries_next :: "u8 list \<Rightarrow> nat \<Rightarrow> (entry \<times> nat) option" where
  "entries_next dat off =
     (case checked_add_usize off BLOCK of
        None \<Rightarrow> None
      | Some hdr_end \<Rightarrow>
          if hdr_end > length dat then None
          else
            let hdr = slice dat off hdr_end in
            if \<forall>b \<in> set hdr. b = 0 then None
            else if \<not> checksum_ok hdr then None
            else case parse_octal (slice hdr 124 136) of
              None \<Rightarrow> None
            | Some sz \<Rightarrow>
                let n = unat sz; data_start = hdr_end in
                case checked_add_usize data_start n of
                  None \<Rightarrow> None
                | Some data_end \<Rightarrow>
                    if data_end > length dat then None
                    else case checked_add_usize n (BLOCK - 1) of
                      None \<Rightarrow> None
                    | Some up \<Rightarrow>
                        let padded = up div BLOCK * BLOCK in
                        case checked_add_usize data_start padded of
                          None \<Rightarrow> None
                        | Some off' \<Rightarrow>
                            if hdr ! 156 = 0x30 \<or> hdr ! 156 = 0
                            then Some (\<lparr>name = entry_name hdr, data = slice dat data_start data_end\<rparr>, off')
                            else entries_next dat off')"
  by pat_completeness auto
termination
  by (relation "measure (\<lambda>(dat, off). length dat - off)")
    (auto simp: checked_add_usize_def BLOCK_def split: if_splits)

declare entries_next.simps [simp del]

lemma entries_next_progress:
  "entries_next dat off = Some (e, off') \<Longrightarrow> off + BLOCK \<le> off' \<and> off + BLOCK \<le> length dat"
proof (induction dat off rule: entries_next.induct)
  case (1 dat off)
  show ?case using "1.prems"
    by (subst (asm) entries_next.simps)
      (auto simp: checked_add_usize_def Let_def split: option.splits if_splits dest!: "1.IH" [rotated -1])
qed

text \<open>What collecting the iterator from an offset yields.\<close>

function entries_from :: "u8 list \<Rightarrow> nat \<Rightarrow> entry list" where
  "entries_from dat off =
     (case entries_next dat off of None \<Rightarrow> [] | Some (e, off') \<Rightarrow> e # entries_from dat off')"
  by pat_completeness auto
termination
proof (relation "measure (\<lambda>(dat, off). length dat - off)", goal_cases)
  case (2 dat off x e off')
  then show ?case using entries_next_progress [of dat off e off'] by (auto simp: BLOCK_def)
qed simp

declare entries_from.simps [simp del]

text \<open>\<open>ARCHIVE\<close> and \<open>FILE_COUNT\<close>.\<close>

record initramfs =
  archive :: "u8 list option"
  file_count :: nat

definition entries :: "initramfs \<Rightarrow> entry list" where
  "entries r = entries_from (case archive r of Some d \<Rightarrow> d | None \<Rightarrow> []) 0"

definition find_file :: "initramfs \<Rightarrow> u8 list \<Rightarrow> u8 list option" where
  "find_file r path =
     (let want = normalize path in map_option data (List.find (\<lambda>e. name e = want) (entries r)))"

text \<open>A boot module as the bootloader reports it; the responses, the translation of addresses and the
  bytes behind a mapped range are the environment's.\<close>

record module_file =
  module_path :: "u8 list"
  module_addr :: u64
  module_size :: u64

definition path_ends_with :: "module_file \<Rightarrow> u8 list \<Rightarrow> bool" where
  "path_ends_with f suf =
     (let path = (if utf8_valid (module_path f) then module_path f else []) in
      length suf \<le> length path \<and> drop (length path - length suf) path = suf)"

definition module_bytes ::
  "module_file list option \<Rightarrow> (u64 \<Rightarrow> u64 option) \<Rightarrow> (u64 \<Rightarrow> nat \<Rightarrow> u8 list) \<Rightarrow> u8 list \<Rightarrow> u8 list option" where
  "module_bytes response translate raw suf = do {
     modules \<leftarrow> response;
     file \<leftarrow> List.find (\<lambda>f. path_ends_with f suf) modules;
     let first = module_addr file;
     let n = module_size file;
     (if n = 0 then None
      else do {
        end \<leftarrow> checked_add first (n - 1);
        (if translate first = None \<or> translate end = None then None else Some (raw first (unat n)))
      })
   }"

text \<open>\<open>init\<close>; the unchecked addition of \<open>last\<close> panics on overflow.\<close>

definition initramfs_init ::
  "module_file list option \<Rightarrow> (u64 \<Rightarrow> u64 option) \<Rightarrow> (u64 \<Rightarrow> nat \<Rightarrow> u8 list) \<Rightarrow> initramfs \<Rightarrow> initramfs option" where
  "initramfs_init response translate raw r =
     (case response of
        None \<Rightarrow> Some r
      | Some modules \<Rightarrow>
          case List.find (\<lambda>f. path_ends_with f
              [0x69, 0x6E, 0x69, 0x74, 0x72, 0x61, 0x6D, 0x66, 0x73, 0x2E, 0x74, 0x61, 0x72]) modules of
            None \<Rightarrow> Some r
          | Some file \<Rightarrow>
              let first = module_addr file; n = module_size file in
              if unat n < BLOCK then Some r
              else case checked_add first (n - 1) of
                None \<Rightarrow> None
              | Some end \<Rightarrow>
                  if translate first = None \<or> translate end = None then Some r
                  else
                    let r1 = r\<lparr>archive := Some (raw first (unat n))\<rparr> in
                    Some (r1\<lparr>file_count := length (entries r1)\<rparr>))"

section \<open>Lemmas\<close>

lemma utf8_lossy_ascii: "\<forall>b\<in>set bs. b < 0x80 \<Longrightarrow> utf8_lossy bs = bs"
proof (induction bs)
  case (Cons b bs)
  then show ?case by (subst utf8_lossy.simps) (simp add: utf8_step_def byte_at_def)
qed (simp add: utf8_lossy.simps)

lemma normalize_idem: "normalize (normalize bs) = normalize bs"
  by (induction bs rule: normalize.induct) auto

lemma normalize_slash: "normalize (0x2F # bs) = normalize bs" "normalize (0x2E # 0x2F # bs) = normalize bs"
  by (cases bs; simp)+

text \<open>The numeric fields, as \<open>tar\<close> writes them.\<close>

fun octal_digits :: "nat \<Rightarrow> nat \<Rightarrow> u8 list" where
  "octal_digits 0 n = []"
| "octal_digits (Suc k) n = octal_digits k (n div 8) @ [0x30 + of_nat (n mod 8)]"

lemma length_octal_digits [simp]: "length (octal_digits k n) = k"
  by (induction k arbitrary: n) auto

lemma octal_digit:
  assumes "d < 8"
  shows "0x30 \<le> (0x30 + of_nat d :: u8)" "(0x30 + of_nat d :: u8) \<le> 0x37" "unat (0x30 + of_nat d - 0x30 :: u8) = d"
proof -
  have d: "unat (of_nat d :: u8) = d" using assms by (simp only: unat_of_nat) simp
  have "unat (0x30 + of_nat d :: u8) = 0x30 + d"
    using assms by (simp only: unat_word_ariths d) simp
  then show "0x30 \<le> (0x30 + of_nat d :: u8)" "(0x30 + of_nat d :: u8) \<le> 0x37"
    using assms by (simp_all add: word_le_nat_alt)
  show "unat (0x30 + of_nat d - 0x30 :: u8) = d" using d by simp
qed

lemma octal_loop_digit:
  assumes "d < 8" "v * 8 + d < 2 ^ 64"
  shows "octal_loop ((0x30 + of_nat d) # bs) (of_nat v) seen = octal_loop bs (of_nat (v * 8 + d)) True"
proof -
  have v: "unat (of_nat v :: u64) = v" using assms(2) by (intro unat_of_nat_u64) simp
  let ?b = "0x30 + of_nat d :: u8"
  have d: "unat (ucast (?b - 0x30) :: u64) = d"
    using octal_digit(3) [OF assms(1)] assms(1) by (simp add: unsigned_ucast_eq take_bit_eq_mod)
  have v8: "unat (of_nat v * 8 :: u64) = v * 8"
    using unat_of_nat_u64 [of "v * 8"] assms(2) by simp
  have "checked_add (of_nat v * 8) (ucast (?b - 0x30)) = Some (of_nat (v * 8 + d))"
  proof -
    have "ucast (?b - 0x30) = (of_nat d :: u64)" using d assms(1) unat_of_nat_u64 [of d] by (simp add: word_unat_eq_iff)
    then show ?thesis using assms(2) v8 d by (simp add: checked_add_def)
  qed
  then show ?thesis using octal_digit(1,2) [OF assms(1)] v assms(2) by simp
qed

lemma octal_loop_digits:
  assumes "n < 8 ^ k" "v * 8 ^ k + n < 2 ^ 64"
  shows "octal_loop (octal_digits k n @ bs) (of_nat v) seen = octal_loop bs (of_nat (v * 8 ^ k + n)) (seen \<or> 0 < k)"
  using assms
proof (induction k arbitrary: n bs)
  case (Suc k)
  have n: "n div 8 < 8 ^ k" using Suc.prems(1) by (simp add: less_mult_imp_div_less mult.commute)
  have eq: "v * 8 ^ Suc k + n = (v * 8 ^ k + n div 8) * 8 + n mod 8" by (simp add: algebra_simps)
  have "q < 2 ^ 64" if "q * 8 + r < 2 ^ 64" for q r :: nat using that by linarith
  from this [OF Suc.prems(2) [unfolded eq]]
  have "octal_loop (octal_digits (Suc k) n @ bs) (of_nat v) seen =
      octal_loop ((0x30 + of_nat (n mod 8)) # bs) (of_nat (v * 8 ^ k + n div 8)) (seen \<or> 0 < k)"
    using Suc.IH [OF n, of "(0x30 + of_nat (n mod 8)) # bs"] by (simp only: octal_digits.simps append_assoc append.simps)
  also have "\<dots> = octal_loop bs (of_nat ((v * 8 ^ k + n div 8) * 8 + n mod 8)) True"
    using Suc.prems(2) unfolding eq by (intro octal_loop_digit) simp_all
  finally show ?case unfolding eq by (simp only: zero_less_Suc simp_thms)
qed simp

lemma parse_octal_digits:
  assumes "n < 8 ^ k" "0 < k" "n < 2 ^ 64" "bs = [] \<or> hd bs = 0 \<or> hd bs = 0x20"
  shows "parse_octal (octal_digits k n @ bs) = Some (of_nat n)"
proof -
  have "octal_loop bs (of_nat n) True = Some (of_nat n, True)" using assms(4) by (cases bs) auto
  then show ?thesis using octal_loop_digits [OF assms(1), of 0 bs False] assms(2,3) by (simp add: parse_octal_def)
qed

text \<open>The checksum ignores its own field and fits six octal digits.\<close>

lemma foldl_checksum_le:
  fixes xs :: "(nat \<times> u8) list" and a :: u64
  assumes "unat a + 255 * length xs < 2 ^ 64"
  shows "unat (foldl (\<lambda>sum (i, b). sum + (if 148 \<le> i \<and> i < 156 then 0x20 else ucast b)) a xs) \<le> unat a + 255 * length xs"
    (is "unat (foldl ?f a xs) \<le> _")
  using assms
proof (induction xs arbitrary: a)
  case (Cons x xs)
  obtain i b where x: "x = (i, b :: u8)" by (cases x)
  let ?c = "if 148 \<le> i \<and> i < 156 then 0x20 else ucast b :: u64"
  have "unat b < 256" using unsigned_less [of b] by simp
  then have c: "unat ?c \<le> 255" by (simp add: unsigned_ucast_eq take_bit_eq_mod)
  have "unat (a + ?c) = unat a + unat ?c" using Cons.prems c by (intro unat_add_u64) simp
  then show ?case using Cons.IH [of "a + ?c"] Cons.prems c by (simp add: x)
qed simp

lemma checksum_le: "length hdr = 512 \<Longrightarrow> unat (checksum hdr) < 8 ^ 6"
  using foldl_checksum_le [of 0 "List.enumerate 0 hdr"] by (simp add: checksum_def)

lemma checksum_field:
  assumes "length a = 148" "length c = 8" "length c' = 8"
  shows "checksum (a @ c @ b) = checksum (a @ c' @ b)"
proof -
  have "foldl (\<lambda>sum (i, b). sum + (if 148 \<le> i \<and> i < 156 then 0x20 else ucast b :: u64)) s (List.enumerate 148 c) = s + 0x100"
    if "length c = 8" for s and c :: "u8 list"
    using that by (auto simp: length_Suc_conv numeral_eq_Suc)
  then show ?thesis using assms by (simp add: checksum_def enumerate_append_eq)
qed

section \<open>Writing archives\<close>

text \<open>A \<open>ustar\<close> header with a given checksum field, the header of a file and a whole archive.\<close>

definition pad_to :: "nat \<Rightarrow> u8 list \<Rightarrow> u8 list" where
  "pad_to n bs = bs @ replicate (n - length bs) 0"

definition tar_head :: "u8 list \<Rightarrow> nat \<Rightarrow> u8 list" where
  "tar_head nm n = pad_to 100 nm @ replicate 24 0 @ octal_digits 11 n @ [0] @ replicate 12 0"

definition tar_tail :: "u8 list" where
  "tar_tail = [0x30] @ replicate 100 0 @ [0x75, 0x73, 0x74, 0x61, 0x72, 0, 0x30, 0x30] @ replicate 247 0"

definition tar_header :: "u8 list \<Rightarrow> nat \<Rightarrow> u8 list" where
  "tar_header nm n =
     tar_head nm n @ octal_digits 6 (unat (checksum (tar_head nm n @ replicate 8 0x20 @ tar_tail))) @ [0, 0x20] @ tar_tail"

definition tar_file :: "u8 list \<times> u8 list \<Rightarrow> u8 list" where
  "tar_file f = (case f of (nm, d) \<Rightarrow>
     tar_header nm (length d) @ pad_to ((length d + 511) div 512 * 512) d)"

definition tar_archive :: "(u8 list \<times> u8 list) list \<Rightarrow> u8 list" where
  "tar_archive fs = concat (map tar_file fs) @ replicate 1024 0"

definition tar_name_ok :: "u8 list \<Rightarrow> bool" where
  "tar_name_ok nm \<longleftrightarrow> length nm \<le> 100 \<and> nm \<noteq> [] \<and> (\<forall>b\<in>set nm. 0 < b \<and> b < 0x80) \<and> normalize nm = nm"

lemma length_tar_head [simp]: "length nm \<le> 100 \<Longrightarrow> length (tar_head nm n) = 148"
  by (simp add: tar_head_def pad_to_def)

lemma length_tar_tail [simp]: "length tar_tail = 356"
  by (simp add: tar_tail_def)

lemma length_tar_header [simp]: "length nm \<le> 100 \<Longrightarrow> length (tar_header nm n) = 512"
  by (simp add: tar_header_def)

lemma cstr_pad: "0 \<notin> set nm \<Longrightarrow> cstr (pad_to k nm) = nm"
proof -
  assume nz: "0 \<notin> set nm"
  have "position (\<lambda>b. b = 0) (nm @ replicate j 0) = (if j = 0 then None else Some (length nm))" for j
    using nz by (induction nm) (auto simp: gr0_conv_Suc)
  then show ?thesis by (simp add: cstr_def pad_to_def)
qed

lemma tar_header_ok:
  assumes "tar_name_ok nm" "n < 8 ^ 11"
  shows "checksum_ok (tar_header nm n)" "parse_octal (slice (tar_header nm n) 124 136) = Some (of_nat n)"
    "tar_header nm n ! 156 = 0x30" "entry_name (tar_header nm n) = nm" "\<exists>b\<in>set (tar_header nm n). b \<noteq> 0"
proof -
  let ?c = "octal_digits 6 (unat (checksum (tar_head nm n @ replicate 8 0x20 @ tar_tail))) @ [0, 0x20]"
  have l: "length nm \<le> 100" using assms(1) by (simp add: tar_name_ok_def)
  have h: "tar_header nm n = tar_head nm n @ ?c @ tar_tail" by (simp add: tar_header_def)
  have cs: "checksum (tar_header nm n) = checksum (tar_head nm n @ replicate 8 0x20 @ tar_tail)"
    unfolding h using l by (intro checksum_field) simp_all
  have lt: "unat (checksum (tar_head nm n @ replicate 8 0x20 @ tar_tail)) < 8 ^ 6" using l by (intro checksum_le) simp
  have "slice (tar_header nm n) 148 156 = ?c" unfolding h using l by (simp add: slice_def)
  then show "checksum_ok (tar_header nm n)"
    using parse_octal_digits [OF lt, of "[0, 0x20]"] unat_u64_less cs by (simp add: checksum_ok_def)
  have "slice (tar_header nm n) 124 136 = octal_digits 11 n @ [0]"
    unfolding h using l by (simp add: slice_def tar_head_def pad_to_def)
  then show "parse_octal (slice (tar_header nm n) 124 136) = Some (of_nat n)"
    using parse_octal_digits [OF assms(2), of "[0]"] assms(2) by simp
  show "tar_header nm n ! 156 = 0x30" unfolding h using l by (simp add: nth_append tar_tail_def)
  have "slice (tar_header nm n) 0 100 = pad_to 100 nm" unfolding h using l by (simp add: slice_def tar_head_def pad_to_def)
  moreover have "slice (tar_header nm n) 345 500 = pad_to 155 []"
    unfolding h using l by (simp add: slice_def tar_tail_def pad_to_def)
  moreover have c: "cstr (pad_to 100 nm) = nm" using assms(1) by (intro cstr_pad) (auto simp: tar_name_ok_def)
  ultimately show "entry_name (tar_header nm n) = nm"
    using assms(1) cstr_pad [of "[]" 155] by (simp add: entry_name_def Let_def c utf8_lossy_ascii tar_name_ok_def utf8_lossy.simps [of "[]"])
  obtain x xs where "nm = x # xs" "x \<noteq> 0" using assms(1) by (cases nm) (auto simp: tar_name_ok_def)
  then show "\<exists>b\<in>set (tar_header nm n). b \<noteq> 0" unfolding h tar_head_def pad_to_def by auto
qed

lemma length_tar_file: "length nm \<le> 100 \<Longrightarrow> length (tar_file (nm, d)) = 512 + (length d + 511) div 512 * 512"
proof -
  assume "length nm \<le> 100"
  moreover have "length d \<le> (length d + 511) div 512 * 512" by linarith
  ultimately show ?thesis by (simp add: tar_file_def pad_to_def)
qed

lemma entries_next_tar:
  assumes "tar_name_ok nm" "length d < 8 ^ 11" "length (pre @ tar_file (nm, d) @ rest) + 512 < 2 ^ 64"
  shows "entries_next (pre @ tar_file (nm, d) @ rest) (length pre) =
    Some (\<lparr>name = nm, data = d\<rparr>, length pre + length (tar_file (nm, d)))"
proof -
  have l: "length nm \<le> 100" using assms(1) by (simp add: tar_name_ok_def)
  let ?dat = "pre @ tar_file (nm, d) @ rest" and ?p = "(length d + 511) div 512 * 512"
  have p: "length d \<le> ?p" by linarith
  have f: "length (tar_file (nm, d)) = 512 + ?p" using length_tar_file [OF l] .
  have len: "length ?dat = length pre + 512 + ?p + length rest" using f by simp
  have hdr: "slice ?dat (length pre) (length pre + 512) = tar_header nm (length d)"
    using l by (simp add: slice_def tar_file_def)
  have dat: "slice ?dat (length pre + 512) (length pre + 512 + length d) = d"
    using l by (simp add: slice_def tar_file_def pad_to_def)
  have u: "unat (of_nat (length d) :: u64) = length d" using assms(2) by (intro unat_of_nat_u64) simp
  have c: "checked_add_usize (length pre) 512 = Some (length pre + 512)"
    "checked_add_usize (length pre + 512) (length d) = Some (length pre + 512 + length d)"
    "checked_add_usize (length d) 511 = Some (length d + 511)"
    "checked_add_usize (length pre + 512) ?p = Some (length pre + 512 + ?p)"
    using assms(3) p unfolding checked_add_usize_def len by auto
  have "length pre + 512 \<le> length ?dat" "length pre + 512 + length d \<le> length ?dat" using len p by linarith+
  then show ?thesis using tar_header_ok [OF assms(1,2)] hdr dat c u f
    by (subst entries_next.simps) (auto simp: BLOCK_def Let_def)
qed

lemma entries_next_end:
  assumes "length pre + 1536 < 2 ^ 64"
  shows "entries_next (pre @ replicate 1024 0) (length pre) = None"
proof -
  have "slice (pre @ replicate 1024 (0::u8)) (length pre) (length pre + 512) = replicate 512 0" by (simp add: slice_def)
  then show ?thesis using assms
    by (subst entries_next.simps) (simp add: BLOCK_def checked_add_usize_def)
qed

lemma entries_from_tar:
  assumes "\<forall>f\<in>set fs. tar_name_ok (fst f) \<and> length (snd f) < 8 ^ 11" "length (pre @ tar_archive fs) + 512 < 2 ^ 64"
  shows "entries_from (pre @ tar_archive fs) (length pre) = map (\<lambda>f. \<lparr>name = fst f, data = snd f\<rparr>) fs"
  using assms
proof (induction fs arbitrary: pre)
  case Nil
  then show ?case using entries_next_end [of pre] by (subst entries_from.simps) (simp add: tar_archive_def)
next
  case (Cons f fs)
  obtain nm d where f: "f = (nm, d)" by (cases f)
  have a: "pre @ tar_archive (f # fs) = pre @ tar_file (nm, d) @ tar_archive fs"
    "pre @ tar_archive (f # fs) = (pre @ tar_file (nm, d)) @ tar_archive fs" by (simp_all add: tar_archive_def f)
  have "entries_next (pre @ tar_archive (f # fs)) (length pre) =
      Some (\<lparr>name = nm, data = d\<rparr>, length (pre @ tar_file (nm, d)))"
    using entries_next_tar [of nm d pre "tar_archive fs"] Cons.prems a(1) by (simp add: f)
  moreover have "entries_from (pre @ tar_archive (f # fs)) (length (pre @ tar_file (nm, d))) =
      map (\<lambda>f. \<lparr>name = fst f, data = snd f\<rparr>) fs"
    unfolding a(2) using Cons.prems a(2) by (intro Cons.IH) (simp_all add: f)
  ultimately show ?case by (subst entries_from.simps) (simp add: f)
qed

text \<open>Every entry is a slice of the archive.\<close>

lemma entries_next_slice:
  "entries_next dat off = Some (e, off') \<Longrightarrow> \<exists>a b. data e = slice dat a b \<and> a \<le> b \<and> b \<le> length dat"
proof (induction dat off rule: entries_next.induct)
  case (1 dat off)
  show ?case using "1.prems"
    by (subst (asm) entries_next.simps)
      (fastforce simp: checked_add_usize_def Let_def split: option.splits if_splits dest!: "1.IH" [rotated -1])
qed

lemma entries_from_slice:
  "e \<in> set (entries_from dat off) \<Longrightarrow> \<exists>a b. data e = slice dat a b \<and> a \<le> b \<and> b \<le> length dat"
proof (induction dat off rule: entries_from.induct)
  case (1 dat off)
  then show ?case using entries_next_slice [of dat off]
    by (cases "entries_next dat off") (auto simp: entries_from.simps [of dat off])
qed

section \<open>Properties\<close>



text \<open>Lookup: a path finds the first file with its normalised name, leading \<open>/\<close> and \<open>./\<close> make no difference,
  and what it returns lies inside the archive; without an archive nothing is found.\<close>

theorem find_file_correct:
  "find_file r (0x2F # path) = find_file r path \<and> find_file r (0x2E # 0x2F # path) = find_file r path \<and>
   (archive r = None \<longrightarrow> find_file r path = None) \<and>
   (\<forall>d. find_file r path = Some d \<longrightarrow>
      (\<exists>e\<in>set (entries r). name e = normalize path \<and> data e = d) \<and>
      (\<exists>arc a b. archive r = Some arc \<and> d = slice arc a b \<and> a \<le> b \<and> b \<le> length arc)) \<and>
   (find_file r path = None \<longleftrightarrow> (\<forall>e\<in>set (entries r). name e \<noteq> normalize path))"
proof -
  have none: "archive r = None \<Longrightarrow> entries r = []"
    by (simp add: entries_def entries_from.simps entries_next.simps checked_add_usize_def BLOCK_def)
  have "\<exists>arc a b. archive r = Some arc \<and> data e = slice arc a b \<and> a \<le> b \<and> b \<le> length arc" if "e \<in> set (entries r)" for e
    using that none entries_from_slice [of e _ 0] by (cases "archive r") (auto simp: entries_def)
  then show ?thesis using none
    by (auto simp: find_file_def normalize_slash find_None_iff dest!: find_Some_iff_hd)
qed

theorem find_file_correct_witness:
  "find_file \<lparr>archive = Some (tar_archive [([0x61], [1, 2, 3])]), file_count = 1\<rparr> [0x2F, 0x61] = Some [1, 2, 3]"
proof -
  let ?r = "\<lparr>archive = Some (tar_archive [([0x61], [1, 2, 3])]), file_count = 1\<rparr>"
  have "entries_from ([] @ tar_archive [([0x61], [1, 2, 3])]) (length ([] :: u8 list)) = [\<lparr>name = [0x61], data = [1, 2, 3]\<rparr>]"
    using entries_from_tar [of "[([0x61], [1, 2, 3])]" "[]"] length_tar_file [of "[0x61]" "[1, 2, 3]"]
    by (simp add: tar_name_ok_def tar_archive_def)
  then have "entries ?r = [\<lparr>name = [0x61], data = [1, 2, 3]\<rparr>]" by (simp add: entries_def)
  then have "find_file ?r [0x61] = Some [1, 2, 3]" by (simp add: find_file_def)
  then show ?thesis using find_file_correct [of ?r "[0x61]"] by simp
qed

end
