(* ===== verification/Partition.thy ===== *)
theory Partition
  imports Block
begin

unbundle bit_operations_syntax

text \<open>
  Discovery of MBR and GPT partitions on a block device, \<open>src/partition.rs\<close>. The device is the record
  of its methods and its state, as in \<open>Block\<close>; scanning only reads.
\<close>

section \<open>Tables\<close>

datatype table_kind = Mbr | Gpt

record partition =
  part_index :: u32
  part_start :: u64
  part_sectors :: u64
  type_tag :: u32
  part_table :: table_kind

datatype partition_error = PartitionIo | InvalidTable | Unsupported | Corrupt

definition u32le :: "u8 list \<Rightarrow> nat \<Rightarrow> u32" where
  "u32le b at = from_le (slice b at (at + 4))"

definition u64le :: "u8 list \<Rightarrow> nat \<Rightarrow> u64" where
  "u64le b at = from_le (slice b at (at + 8))"

definition crc_bit :: "u32 \<Rightarrow> u32" where
  "crc_bit crc = drop_bit 1 crc XOR (0xEDB88320 AND (0 - (crc AND 1)))"

definition crc_byte :: "u32 \<Rightarrow> u8 \<Rightarrow> u32" where
  "crc_byte crc byte = (crc_bit ^^ 8) (crc XOR ucast byte)"

definition crc32 :: "u8 list \<Rightarrow> u32" where
  "crc32 bs = NOT (foldl crc_byte (NOT 0) bs)"

text \<open>The loop over the four MBR entries, with \<open>protective\<close> and \<open>parts\<close>.\<close>

fun mbr_loop :: "u64 \<Rightarrow> u8 list \<Rightarrow> nat list \<Rightarrow> bool \<Rightarrow> partition list \<Rightarrow> partition_error + bool \<times> partition list" where
  "mbr_loop tot mbr [] protective parts = Inr (protective, parts)"
| "mbr_loop tot mbr (index # rest) protective parts =
     (let at = 446 + index * 16;
          kind = mbr ! (at + 4);
          start = ucast (u32le mbr (at + 8));
          n = ucast (u32le mbr (at + 12))
      in if kind = 0 \<or> n = 0 then mbr_loop tot mbr rest protective parts
         else if kind = 0xEE then mbr_loop tot mbr rest True parts
         else if kind = 0x05 \<or> kind = 0x0F \<or> kind = 0x85 then mbr_loop tot mbr rest protective parts
         else and_then (ok_or Corrupt (checked_add start n)) (\<lambda>end.
           if start = 0 \<or> end > tot then Inl Corrupt
           else mbr_loop tot mbr rest protective
             (parts @ [\<lparr>part_index = of_nat index + 1, part_start = start, part_sectors = n,
                        type_tag = ucast kind, part_table = Mbr\<rparr>])))"

text \<open>The loops of \<open>scan_gpt\<close>: reading the entry array, then its entries.\<close>

fun gpt_read :: "'d block_device \<Rightarrow> 'd \<Rightarrow> u64 \<Rightarrow> nat list \<Rightarrow> u8 list \<Rightarrow> partition_error + u8 list" where
  "gpt_read dev d table_lba [] raw = Inr raw"
| "gpt_read dev d table_lba (i # rest) raw =
     and_then (map_err (\<lambda>_. PartitionIo) (read_sector dev d (table_lba + of_nat i)))
       (\<lambda>sector. gpt_read dev d table_lba rest (copy_at raw (i * SECTOR_SIZE) sector))"

fun gpt_loop :: "u64 \<Rightarrow> u8 list \<Rightarrow> nat \<Rightarrow> nat list \<Rightarrow> partition list \<Rightarrow> partition_error + partition list" where
  "gpt_loop tot raw entry_size [] out = Inr out"
| "gpt_loop tot raw entry_size (i # rest) out =
     (let at = i * entry_size in
      if \<forall>b \<in> set (slice raw at (at + 16)). b = 0 then gpt_loop tot raw entry_size rest out
      else
        let first = u64le raw (at + 32); last = u64le raw (at + 40) in
        if last < first \<or> first = 0 \<or> last \<ge> tot then Inl Corrupt
        else gpt_loop tot raw entry_size rest
          (out @ [\<lparr>part_index = of_nat i + 1, part_start = first, part_sectors = last - first + 1,
                   type_tag = u32le raw at, part_table = Gpt\<rparr>]))"

definition scan_gpt :: "'d block_device \<Rightarrow> 'd \<Rightarrow> partition_error + partition list" where
  "scan_gpt dev d =
     and_then (map_err (\<lambda>_. PartitionIo) (read_sector dev d 1)) (\<lambda>hdr.
     if take 8 hdr \<noteq> [0x45, 0x46, 0x49, 0x20, 0x50, 0x41, 0x52, 0x54] then Inl InvalidTable
     else
       let header_size = unat (u32le hdr 12) in
       if \<not> (92 \<le> header_size \<and> header_size \<le> SECTOR_SIZE) then Inl Corrupt
       else
         let expected = u32le hdr 16;
             crc_hdr = copy_at hdr 16 [0, 0, 0, 0]
         in if crc32 (take header_size crc_hdr) \<noteq> expected then Inl Corrupt
         else
           let table_lba = u64le hdr 72;
               entries = min (unat (u32le hdr 80)) 4096;
               entry_size = unat (u32le hdr 84)
           in if entry_size < 128 \<or> entry_size > 4096 \<or> entry_size mod 8 \<noteq> 0 \<or> entries = 0 then Inl Unsupported
           else
             let total_bytes = entries * entry_size;
                 n = (total_bytes + SECTOR_SIZE - 1) div SECTOR_SIZE
             in if (case checked_add table_lba (of_nat n) of None \<Rightarrow> True | Some end \<Rightarrow> end > sector_count dev d)
             then Inl Corrupt
             else and_then (gpt_read dev d table_lba [0..<n] (replicate (n * SECTOR_SIZE) 0)) (\<lambda>raw.
               if crc32 (take total_bytes raw) \<noteq> u32le hdr 88 then Inl Corrupt
               else gpt_loop (sector_count dev d) raw entry_size [0..<entries] []))"

definition scan :: "'d block_device \<Rightarrow> 'd \<Rightarrow> partition_error + partition list" where
  "scan dev d =
     (if sector_count dev d < 2 then Inl InvalidTable
      else and_then (map_err (\<lambda>_. PartitionIo) (read_sector dev d 0)) (\<lambda>mbr.
        if slice mbr 510 512 \<noteq> [0x55, 0xAA] then Inl InvalidTable
        else and_then (mbr_loop (sector_count dev d) mbr [0..<4] False []) (\<lambda>(protective, parts).
          if \<not> protective then Inr parts else scan_gpt dev d)))"

section \<open>Lemmas\<close>

text \<open>What a scan promises of a partition: it lies inside a device of \<open>tot\<close> sectors, past sector 0.\<close>

definition part_fits :: "u64 \<Rightarrow> partition \<Rightarrow> bool" where
  "part_fits tot p \<longleftrightarrow> part_start p \<noteq> 0 \<and> part_sectors p \<noteq> 0 \<and>
     unat (part_start p) + unat (part_sectors p) \<le> unat tot"

text \<open>The partitions found among the first \<open>n\<close> entries: they fit, and are numbered by their entries.\<close>

definition parts_ok :: "u64 \<Rightarrow> partition list \<Rightarrow> nat \<Rightarrow> bool" where
  "parts_ok tot ps n \<longleftrightarrow> (\<forall>p\<in>set ps. part_fits tot p \<and> unat (part_index p) \<le> n) \<and>
     sorted_wrt (<) (map (\<lambda>p. unat (part_index p)) ps)"

lemma parts_ok_Nil [simp]: "parts_ok tot [] n"
  by (simp add: parts_ok_def)

lemma parts_ok_skip: "parts_ok tot ps n \<Longrightarrow> parts_ok tot ps (Suc n)"
  by (force simp: parts_ok_def)

lemma parts_ok_snoc:
  assumes "parts_ok tot ps n" "part_index p = of_nat n + 1" "part_fits tot p" "n < 4096"
  shows "parts_ok tot (ps @ [p]) (Suc n)"
proof -
  have "unat (of_nat (Suc n) :: u32) = Suc n" using assms(4) by (simp only: unat_of_nat) simp
  then have "unat (part_index p) = Suc n" using assms(2) by (simp add: add.commute)
  then show ?thesis using assms(1,3) by (force simp: parts_ok_def sorted_wrt_append)
qed

lemma part_fits_checked:
  assumes "checked_add (part_start p) (part_sectors p) = Some e" "\<not> tot < e" "part_start p \<noteq> 0" "part_sectors p \<noteq> 0"
  shows "part_fits tot p"
proof -
  have "unat e = unat (part_start p) + unat (part_sectors p)" using checked_add_Some [OF assms(1)] by blast
  moreover have "unat e \<le> unat tot" using assms(2) by (simp add: word_le_nat_alt not_less)
  ultimately show ?thesis using assms(3,4) by (simp add: part_fits_def)
qed

lemma mbr_step:
  assumes "mbr_loop tot mbr (i # rest) pr ps = Inr r" "parts_ok tot ps i" "i < 4096"
  shows "\<exists>pr2 ps2. mbr_loop tot mbr rest pr2 ps2 = Inr r \<and> parts_ok tot ps2 (Suc i)"
proof -
  have "\<exists>e. checked_add (part_start p) (part_sectors p) = Some e \<and> \<not> tot < e \<and> part_start p \<noteq> 0 \<and> part_sectors p \<noteq> 0 \<and>
      part_index p = of_nat i + 1 \<Longrightarrow> parts_ok tot (ps @ [p]) (Suc i)" for p
    using parts_ok_snoc [OF assms(2)] assms(3) part_fits_checked by blast
  then show ?thesis
    using assms(1) parts_ok_skip [OF assms(2)]
    by (auto simp: Let_def and_then_Inr ok_or_Inr split: if_splits) (intro exI conjI, assumption, auto)
qed

lemma gpt_step:
  assumes "gpt_loop tot raw es (i # rest) ps = Inr r" "parts_ok tot ps i" "i < 4096"
  shows "\<exists>ps2. gpt_loop tot raw es rest ps2 = Inr r \<and> parts_ok tot ps2 (Suc i)"
proof -
  have fit: "part_fits tot p" if "\<not> l < part_start p" "part_start p \<noteq> 0" "l < tot" "part_sectors p = l - part_start p + 1" for p l
  proof -
    have le: "unat (part_start p) \<le> unat l" "0 < unat (part_start p)" "unat l < unat tot"
      using that(1-3) by (auto simp: word_less_nat_alt unat_gt_0 not_less)
    have "unat (l - part_start p) = unat l - unat (part_start p)" using that(1) by (simp add: unat_sub not_less)
    moreover from this have "unat (l - part_start p + 1) = unat (l - part_start p) + 1"
      using le unat_u64_less [of l] unat_add_u64 [of "l - part_start p" 1] by simp
    ultimately have n: "unat (part_sectors p) = unat l - unat (part_start p) + 1" using that(4) by simp
    then have "part_sectors p \<noteq> 0" by auto
    then show ?thesis using n le that(2) by (simp add: part_fits_def)
  qed
  have "\<exists>l. \<not> l < part_start p \<and> part_start p \<noteq> 0 \<and> l < tot \<and> part_sectors p = l - part_start p + 1 \<and>
      part_index p = of_nat i + 1 \<Longrightarrow> parts_ok tot (ps @ [p]) (Suc i)" for p
    using parts_ok_snoc [OF assms(2)] assms(3) fit by blast
  then show ?thesis
    using assms(1) parts_ok_skip [OF assms(2)] by (auto simp: Let_def not_le split: if_splits)
qed

lemma mbr_loop_ok:
  assumes "mbr_loop tot mbr [i..<k] pr ps = Inr (pr', ps')" "parts_ok tot ps i" "i \<le> k" "k \<le> 4096"
  shows "parts_ok tot ps' k"
  using assms(3,1,2)
proof (induction i arbitrary: pr ps rule: inc_induct)
  case (step i)
  then show ?case using mbr_step [of tot mbr i "[Suc i..<k]" pr ps] assms(4) by (auto simp: upt_conv_Cons)
qed simp

lemma gpt_loop_ok:
  assumes "gpt_loop tot raw es [i..<k] ps = Inr ps'" "parts_ok tot ps i" "i \<le> k" "k \<le> 4096"
  shows "parts_ok tot ps' k"
  using assms(3,1,2)
proof (induction i arbitrary: ps rule: inc_induct)
  case (step i)
  then show ?case using gpt_step [of tot raw es i "[Suc i..<k]" ps] assms(4) by (auto simp: upt_conv_Cons)
qed simp

lemma scan_gpt_ok: "scan_gpt dev d = Inr ps \<Longrightarrow> \<exists>k. parts_ok (sector_count dev d) ps k"
  using gpt_loop_ok [of "sector_count dev d" _ _ 0 _ "[]" ps]
  by (fastforce simp: scan_gpt_def Let_def and_then_Inr split: if_splits)

lemma scan_ok: "scan dev d = Inr ps \<Longrightarrow> \<exists>k. parts_ok (sector_count dev d) ps k"
  using mbr_loop_ok [of "sector_count dev d" _ 0 4 False "[]" _ ps]
  by (fastforce simp: scan_def Let_def and_then_Inr split: if_splits dest: scan_gpt_ok)

lemma partition_new_fits:
  assumes "part_fits (sector_count dev d) p"
  shows "partition_new dev d (part_start p) (part_sectors p) = Some \<lparr>start_lba = part_start p, sectors = part_sectors p\<rparr>"
proof -
  have f: "unat (part_start p) + unat (part_sectors p) \<le> unat (sector_count dev d)" "part_sectors p \<noteq> 0"
    using assms by (auto simp: part_fits_def)
  then obtain e where e: "checked_add (part_start p) (part_sectors p) = Some e"
    using unat_u64_less [of "sector_count dev d"] by (auto simp: checked_add_def)
  then have "unat e = unat (part_start p) + unat (part_sectors p)" using checked_add_Some by blast
  then have "\<not> sector_count dev d < e" using f(1) by (simp add: word_le_nat_alt not_less)
  then show ?thesis using e f(2) by (simp add: partition_new_def)
qed

text \<open>The checksum: one bit step, and so one byte step, loses nothing.\<close>

lemma xor_cancel: "a XOR b = a XOR c \<Longrightarrow> b = c" for a :: "'a::len word"
  by (metis xor.assoc xor.left_neutral xor_self_eq)

lemma crc_bit_inj: "inj crc_bit"
proof (rule injI)
  fix x y assume eq: "crc_bit x = crc_bit y"
  have top: "bit (crc_bit x) 31 \<longleftrightarrow> bit x 0" for x
    by (cases "bit x 0") (auto simp: crc_bit_def bit_simps and_one_eq odd_iff_mod_2_eq_one bit_0 dest: bit_imp_le_length)
  show "x = y"
  proof (rule bit_word_eqI)
    fix n assume n: "n < LENGTH(32)"
    have b0: "bit x 0 = bit y 0" using top [of x] top [of y] eq by simp
    show "bit x n = bit y n"
    proof (cases n)
      case (Suc m)
      have "x AND 1 = y AND 1" using b0 by (simp add: and_one_eq bit_0 mod_2_eq_odd)
      then have "drop_bit 1 x = drop_bit 1 y"
        using eq unfolding crc_bit_def by (metis xor.commute xor_cancel)
      then have "bit (drop_bit 1 x) m = bit (drop_bit 1 y) m" by simp
      then show ?thesis using Suc by (simp add: bit_drop_bit_eq)
    qed (use b0 in simp)
  qed
qed

lemma crc_byte_inj_crc: "crc_byte c b = crc_byte c' b \<Longrightarrow> c = c'"
  unfolding crc_byte_def using inj_fn [OF crc_bit_inj, of 8] by (metis injD xor.commute xor_cancel)

lemma crc_byte_inj_byte: "crc_byte c b = crc_byte c b' \<Longrightarrow> b = b'"
proof -
  assume "crc_byte c b = crc_byte c b'"
  then have "c XOR ucast b = c XOR ucast b'"
    unfolding crc_byte_def using inj_fn [OF crc_bit_inj, of 8] by (simp add: inj_eq)
  then have eq: "(ucast b :: u32) = ucast b'" by (rule xor_cancel)
  show ?thesis
  proof (rule bit_word_eqI)
    fix n assume "n < LENGTH(8)"
    then show "bit b n = bit b' n" using arg_cong [OF eq, of "\<lambda>w. bit w n"] by (simp add: bit_simps)
  qed
qed

lemma foldl_crc_inj: "foldl crc_byte c bs = foldl crc_byte c' bs \<Longrightarrow> c = c'"
proof (induction bs arbitrary: c c')
  case (Cons b bs)
  then have "crc_byte c b = crc_byte c' b" by auto
  then show ?case by (rule crc_byte_inj_crc)
qed simp

section \<open>Properties\<close>

text \<open>C23. Every partition that a scan reports, from an MBR or from a GPT, starts past sector 0, is not empty
  and lies inside the device, so that \<open>PartitionDevice::new\<close> accepts it; partition numbers are
  strictly increasing.\<close>

theorem scan_partitions_fit:
  assumes "scan dev d = Inr ps"
  shows "(\<forall>p\<in>set ps. part_start p \<noteq> 0 \<and> part_sectors p \<noteq> 0 \<and>
      unat (part_start p) + unat (part_sectors p) \<le> unat (sector_count dev d) \<and>
      partition_new dev d (part_start p) (part_sectors p) =
        Some \<lparr>start_lba = part_start p, sectors = part_sectors p\<rparr>) \<and>
    sorted_wrt (<) (map (\<lambda>p. unat (part_index p)) ps)"
proof -
  obtain k where k: "parts_ok (sector_count dev d) ps k" using scan_ok [OF assms] by blast
  then show ?thesis by (auto simp: parts_ok_def part_fits_def intro!: partition_new_fits)
qed

text \<open>The CRC-32 that guards the GPT header and the entry array detects every corruption confined to one
  byte: two byte strings that differ in exactly one position have different checksums.\<close>

theorem crc32_detects_byte: "x \<noteq> y \<Longrightarrow> crc32 (pre @ x # post) \<noteq> crc32 (pre @ y # post)"
proof
  assume "x \<noteq> y" "crc32 (pre @ x # post) = crc32 (pre @ y # post)"
  then have "foldl crc_byte (NOT 0) (pre @ x # post) = foldl crc_byte (NOT 0) (pre @ y # post)"
    unfolding crc32_def by (metis bit.double_compl)
  then have "crc_byte (foldl crc_byte (NOT 0) pre) x = crc_byte (foldl crc_byte (NOT 0) pre) y"
    unfolding foldl_append foldl_Cons by (rule foldl_crc_inj)
  then show False using crc_byte_inj_byte \<open>x \<noteq> y\<close> by blast
qed

theorem crc32_detects_byte_witness: "crc32 [0x45, 0x46, 0x49] \<noteq> crc32 [0x45, 0x47, 0x49]"
proof -
  have "(0x46 :: u8) \<noteq> 0x47" by simp
  from crc32_detects_byte [OF this, of "[0x45]" "[0x49]", unfolded append_Cons append_Nil] show ?thesis .
qed

text \<open>The on-disk form of an MBR: four entries of a type byte, a first sector and a length.\<close>

definition mbr_entry :: "u8 \<times> u32 \<times> u32 \<Rightarrow> u8 list" where
  "mbr_entry e = (case e of (kind, start, n) \<Rightarrow> [0, 0, 0, 0, kind, 0, 0, 0] @ to_le 4 start @ to_le 4 n)"

definition mbr_sector :: "(u8 \<times> u32 \<times> u32) list \<Rightarrow> u8 list" where
  "mbr_sector es = replicate 446 0 @ concat (map mbr_entry es) @ [0x55, 0xAA]"

definition mbr_partition :: "nat \<Rightarrow> u8 \<times> u32 \<times> u32 \<Rightarrow> partition" where
  "mbr_partition i e = (case e of (kind, start, n) \<Rightarrow>
     \<lparr>part_index = of_nat i + 1, part_start = ucast start, part_sectors = ucast n, type_tag = ucast kind, part_table = Mbr\<rparr>)"

text \<open>An entry that the scan reports, and one that it skips.\<close>

definition mbr_live :: "u64 \<Rightarrow> u8 \<times> u32 \<times> u32 \<Rightarrow> bool" where
  "mbr_live tot e = (case e of (kind, start, n) \<Rightarrow> kind \<notin> {0, 0xEE, 0x05, 0x0F, 0x85} \<and> n \<noteq> 0 \<and> start \<noteq> 0 \<and>
     unat start + unat n \<le> unat tot)"

definition mbr_skipped :: "u8 \<times> u32 \<times> u32 \<Rightarrow> bool" where
  "mbr_skipped e = (case e of (kind, start, n) \<Rightarrow> kind \<in> {0, 0x05, 0x0F, 0x85} \<or> n = 0)"

lemma length_mbr_entry [simp]: "length (mbr_entry e) = 16"
  by (simp add: mbr_entry_def split: prod.splits)

lemma drop_mbr_entries: "i < length es \<Longrightarrow> drop (i * 16) (concat (map mbr_entry es)) = mbr_entry (es ! i) @ concat (map mbr_entry (drop (Suc i) es))"
proof (induction es arbitrary: i)
  case (Cons e es)
  then show ?case by (cases i) auto
qed simp

lemma mbr_sector_fields:
  assumes "i < length es" "es ! i = (kind, start, n)"
  shows "mbr_sector es ! (450 + i * 16) = kind" "u32le (mbr_sector es) (454 + i * 16) = start"
    "u32le (mbr_sector es) (458 + i * 16) = n"
proof -
  have d: "drop (446 + i * 16) (mbr_sector es) =
      [0, 0, 0, 0, kind, 0, 0, 0] @ to_le 4 start @ to_le 4 n @ concat (map mbr_entry (drop (Suc i) es)) @ [0x55, 0xAA]"
  proof -
    have "i * 16 \<le> length (concat (map mbr_entry es))" using assms(1) by (simp add: length_concat sum_list_triv comp_def)
    then show ?thesis using drop_mbr_entries [OF assms(1)] assms(2)
      by (simp add: mbr_sector_def mbr_entry_def drop_drop [symmetric] add.commute del: drop_drop)
  qed
  have len: "446 + i * 16 + 4 < length (mbr_sector es)" using arg_cong [OF d, of length] by simp
  have at: "drop (k + (446 + i * 16)) (mbr_sector es) = drop k (drop (446 + i * 16) (mbr_sector es))" for k by simp
  show "mbr_sector es ! (450 + i * 16) = kind"
    using len nth_drop [of "446 + i * 16" "mbr_sector es" 4] by (simp add: d)
  show "u32le (mbr_sector es) (454 + i * 16) = start"
    using at [of 8] by (simp add: u32le_def slice_def d)
  show "u32le (mbr_sector es) (458 + i * 16) = n"
    using at [of 12] by (simp add: u32le_def slice_def d)
qed

lemma mbr_loop_sector:
  assumes "\<forall>e\<in>set es. mbr_live tot e \<or> mbr_skipped e" "i \<le> length es"
  shows "mbr_loop tot (mbr_sector es) [i..<length es] False ps =
    Inr (False, ps @ [mbr_partition j (es ! j). j \<leftarrow> [i..<length es], mbr_live tot (es ! j)])"
  using assms(2)
proof (induction i arbitrary: ps rule: inc_induct)
  case (step i)
  obtain kind start n where e: "es ! i = (kind, start, n)" by (cases "es ! i") auto
  have u: "[i..<length es] = i # [Suc i..<length es]" using step.hyps by (simp add: upt_conv_Cons)
  have z: "(ucast x :: u64) = 0 \<longleftrightarrow> x = 0" "unat (ucast x :: u64) = unat x" for x :: u32
    by (simp_all add: unsigned_ucast_eq take_bit_eq_mod order.strict_trans [OF unsigned_less] flip: unat_eq_0)
  have "mbr_live tot (es ! i) \<or> mbr_skipped (es ! i)" using assms(1) step.hyps by simp
  then show ?case
  proof
    assume l: "mbr_live tot (es ! i)"
    then obtain w where w: "checked_add (ucast start) (ucast n) = Some w"
      using unat_u64_less [of tot] by (auto simp: mbr_live_def e checked_add_def z)
    have "unat w = unat start + unat n" using checked_add_Some [OF w] unfolding z(2) by blast
    then have "\<not> tot < w" using l by (simp add: mbr_live_def e word_less_nat_alt)
    then show ?thesis using l w step.IH mbr_sector_fields [OF step.hyps(2) e]
      by (simp add: u mbr_live_def e z mbr_partition_def Let_def)
  next
    assume k: "mbr_skipped (es ! i)"
    then have "\<not> mbr_live tot (es ! i)" "kind \<noteq> 0xEE \<or> n = 0" by (auto simp: mbr_live_def mbr_skipped_def e)
    then show ?thesis using k step.IH mbr_sector_fields [OF step.hyps(2) e]
      by (auto simp: u mbr_skipped_def e z Let_def)
  qed
qed simp

text \<open>A device whose first sector is an MBR of four entries, each of them unused, extended, empty or a
  partition inside the device, scans to exactly those partitions, with their own numbers, types and
  extents, in table order.\<close>

theorem scan_mbr_roundtrip:
  assumes "read_sector dev d 0 = Inr (mbr_sector es)" "length es = 4" "2 \<le> sector_count dev d"
    and "\<forall>e\<in>set es. mbr_live (sector_count dev d) e \<or> mbr_skipped e"
  shows "scan dev d = Inr [mbr_partition j (es ! j). j \<leftarrow> [0..<4], mbr_live (sector_count dev d) (es ! j)]"
proof -
  have "slice (mbr_sector es) 510 512 = [0x55, 0xAA]"
    using assms(2) by (simp add: slice_def mbr_sector_def length_concat comp_def sum_list_triv)
  moreover have "\<not> sector_count dev d < 2" using assms(3) by simp
  ultimately show ?thesis
    using assms mbr_loop_sector [OF assms(4), of 0 "[]"] by (simp add: scan_def)
qed

definition mbr_example :: "(u8 \<times> u32 \<times> u32) list" where
  "mbr_example = [(0x0C, 1, 2), (0, 0, 0), (0x83, 3, 1), (0x05, 9, 9)]"

definition mbr_disk :: memory_device where
  "mbr_disk = \<lparr>disk_image = mbr_sector mbr_example @ replicate 1536 0, overlay = Map.empty\<rparr>"

lemma mbr_disk_facts:
  "read_sector memory_block_device mbr_disk 0 = Inr (mbr_sector mbr_example)"
  "sector_count memory_block_device mbr_disk = 4"
proof -
  have "length (mbr_sector mbr_example) = 512"
    by (simp add: mbr_sector_def mbr_example_def length_concat comp_def sum_list_triv)
  then show "read_sector memory_block_device mbr_disk 0 = Inr (mbr_sector mbr_example)"
    "sector_count memory_block_device mbr_disk = 4"
    by (simp_all add: mbr_disk_def memory_read_sector_def memory_sector_count_def SECTOR_SIZE_def slice_def)
qed

lemma mbr_example_facts:
  "\<forall>e\<in>set mbr_example. mbr_live 4 e \<or> mbr_skipped e" "length mbr_example = 4"
  "[mbr_partition j (mbr_example ! j). j \<leftarrow> [0..<4], mbr_live 4 (mbr_example ! j)] =
     [mbr_partition 0 (0x0C, 1, 2), mbr_partition 2 (0x83, 3, 1)]"
proof -
  have "[0..<4] = [0, 1, 2, 3::nat]" by (simp add: upt_conv_Cons)
  then show "[mbr_partition j (mbr_example ! j). j \<leftarrow> [0..<4], mbr_live 4 (mbr_example ! j)] =
      [mbr_partition 0 (0x0C, 1, 2), mbr_partition 2 (0x83, 3, 1)]"
    by (simp add: mbr_example_def mbr_live_def)
qed (simp_all add: mbr_example_def mbr_live_def mbr_skipped_def)

theorem scan_mbr_roundtrip_witness:
  "\<exists>p q. scan memory_block_device mbr_disk = Inr [p, q] \<and> part_index p = 1 \<and> part_index q = 3 \<and>
     part_start q = 3 \<and> part_sectors p = 2"
  using scan_mbr_roundtrip [of memory_block_device mbr_disk mbr_example] mbr_disk_facts mbr_example_facts
  by (simp add: mbr_partition_def)

text \<open>The bounds of the partitions found on that disk.\<close>

lemma mbr_disk_scan:
  "scan memory_block_device mbr_disk = Inr [mbr_partition 0 (0x0C, 1, 2), mbr_partition 2 (0x83, 3, 1)]"
proof -
  have "slice (mbr_sector mbr_example) 510 512 = [0x55, 0xAA]"
    by (simp add: slice_def mbr_sector_def mbr_example_def length_concat comp_def sum_list_triv)
  moreover have "mbr_loop 4 (mbr_sector mbr_example) [0..<4] False [] =
      Inr (False, [mbr_partition 0 (0x0C, 1, 2), mbr_partition 2 (0x83, 3, 1)])"
    using mbr_loop_sector [OF mbr_example_facts(1), of 0 "[]"] mbr_example_facts(2,3) by simp
  ultimately show ?thesis unfolding scan_def mbr_disk_facts by simp
qed

theorem scan_partitions_fit_witness:
  "\<exists>p q. scan memory_block_device mbr_disk = Inr [p, q] \<and> unat (part_start q) + unat (part_sectors q) \<le> 4 \<and>
     partition_new memory_block_device mbr_disk (part_start q) (part_sectors q) \<noteq> None"
  using scan_partitions_fit [OF mbr_disk_scan] mbr_disk_scan mbr_disk_facts(2) by auto

end
