(* ===== verification/Vfs.thy ===== *)
theory Vfs
  imports FatTable Initramfs Partition
begin

unbundle bit_operations_syntax

text \<open>
  The virtual filesystem, \<open>src/vfs.rs\<close>: path normalisation, the mount table, and the dispatch of file
  operations to the boot archive or to a FAT32 volume.

  The state holds \<open>MOUNTS\<close>, the boot archive and the state \<open>'d\<close> of all block devices together: several
  mounts may share a disk. A mounted volume carries its device as the record of methods over that
  state, and an operation on it runs on the current state of the devices.
\<close>

datatype fs_error =
  FsNotFound | FsNotDirectory | FsIsDirectory | FsIo | InvalidPath | FsTooLarge | FsReadOnly | FsNoSpace |
  FsInvalidName | FsAlreadyExists | FsDirectoryNotEmpty

datatype 'd filesystem = BootArchive | Volume "'d block_device" "'d fat32"

record 'd mount =
  prefix :: str
  mounted :: "'d filesystem"
  source_device :: "str option"

record 'd vfs =
  mounts :: "'d mount list"
  disks :: 'd
  boot_archive :: initramfs

definition MAX_READ_ALL :: nat where "MAX_READ_ALL = 16 * 1024 * 1024"

section \<open>Paths\<close>

fun normalize_loop :: "str list \<Rightarrow> str list \<Rightarrow> fs_error + str list" where
  "normalize_loop [] parts = Inr parts"
| "normalize_loop (p # ps) parts =
     (if p = [] \<or> p = [0x2E] then normalize_loop ps parts
      else if p = [0x2E, 0x2E] then
        if parts = [] then Inl InvalidPath else normalize_loop ps (butlast parts)
      else normalize_loop ps (parts @ [p]))"

text \<open>\<open>join\<close>.\<close>

fun join :: "u8 \<Rightarrow> str list \<Rightarrow> str" where
  "join c [] = []"
| "join c [p] = p"
| "join c (p # ps) = p @ [c] @ join c ps"

definition normalize_path :: "str \<Rightarrow> fs_error + str" where
  "normalize_path path =
     and_then (normalize_loop (split_on 0x2F path) []) (\<lambda>parts. Inr (0x2F # join 0x2F parts))"

definition inner_path :: "str \<Rightarrow> str \<Rightarrow> str option" where
  "inner_path pre path =
     (if pre = [0x2F] then Some (trim_start 0x2F path)
      else if path = pre then Some []
      else case strip_prefix pre path of
          Some (c # tail) \<Rightarrow> if c = 0x2F then Some (trim_start 0x2F (c # tail)) else None
        | _ \<Rightarrow> None)"

text \<open>\<open>max_by_key\<close> keeps the last of several greatest elements. A mount is named by its place in the table.\<close>

fun route_loop :: "(nat \<times> 'd mount) list \<Rightarrow> str \<Rightarrow> (nat \<times> nat \<times> str) option \<Rightarrow> (nat \<times> nat \<times> str) option" where
  "route_loop [] path best = best"
| "route_loop ((i, m) # ms) path best =
     (case inner_path (prefix m) path of
        None \<Rightarrow> route_loop ms path best
      | Some inner \<Rightarrow>
          (case best of
             Some (len, _) \<Rightarrow>
               if len \<le> length (prefix m) then route_loop ms path (Some (length (prefix m), i, inner)) else route_loop ms path best
           | None \<Rightarrow> route_loop ms path (Some (length (prefix m), i, inner))))"

definition route :: "'d mount list \<Rightarrow> str \<Rightarrow> (nat \<times> str) option" where
  "route ms path = map_option snd (route_loop (List.enumerate 0 ms) path None)"

section \<open>Mounting\<close>

definition vfs_init :: "'d vfs \<Rightarrow> 'd vfs" where
  "vfs_init v = v\<lparr>mounts := [\<lparr>prefix = [0x2F], mounted = BootArchive, source_device = None\<rparr>]\<rparr>"

definition mount_fat32_inner :: "'d vfs \<Rightarrow> str \<Rightarrow> str option \<Rightarrow> 'd block_device \<Rightarrow> (fs_error + unit) \<times> 'd vfs" where
  "mount_fat32_inner v pre source dev =
     (if (case pre of c # _ \<Rightarrow> c \<noteq> 0x2F | [] \<Rightarrow> True) then (Inl InvalidPath, v)
      else
        and_next (normalize_path pre, v) (\<lambda>pre v.
        if pre = [0x2F] then (Inl InvalidPath, v)
        else
          and_next (map_err (\<lambda>_. FsIo) (fat_mount dev (disks v)), v) (\<lambda>fs v.
          if list_ex (\<lambda>m. prefix m = pre \<or> source \<noteq> None \<and> source_device m = source) (mounts v) then (Inl InvalidPath, v)
          else (Inr (), v\<lparr>mounts := mounts v @ [\<lparr>prefix = pre, mounted = Volume dev fs, source_device = source\<rparr>]\<rparr>))))"

definition mount_fat32 :: "'d vfs \<Rightarrow> str \<Rightarrow> 'd block_device \<Rightarrow> (fs_error + unit) \<times> 'd vfs" where
  "mount_fat32 v pre dev = mount_fat32_inner v pre None dev"

definition mount_fat32_device :: "'d vfs \<Rightarrow> str \<Rightarrow> str \<Rightarrow> 'd block_device \<Rightarrow> (fs_error + unit) \<times> 'd vfs" where
  "mount_fat32_device v pre device_name dev = mount_fat32_inner v pre (Some device_name) dev"

definition mountpoint_for_device :: "'d vfs \<Rightarrow> str \<Rightarrow> str option" where
  "mountpoint_for_device v device_name =
     map_option prefix (List.find (\<lambda>m. source_device m = Some device_name) (mounts v))"

definition mount_fat32_partition :: "'d vfs \<Rightarrow> str \<Rightarrow> 'd block_device \<Rightarrow> u64 \<Rightarrow> u64 \<Rightarrow> (fs_error + unit) \<times> 'd vfs" where
  "mount_fat32_partition v pre parent start n =
     and_next (ok_or InvalidPath (partition_new parent (disks v) start n), v) (\<lambda>p v.
     mount_fat32 v pre (partition_view parent p))"

section \<open>Errors and flushing\<close>

fun map_fat_error :: "fat_error \<Rightarrow> fs_error" where
  "map_fat_error NotFound = FsNotFound"
| "map_fat_error NotDirectory = FsNotDirectory"
| "map_fat_error IsDirectory = FsIsDirectory"
| "map_fat_error FatIo = FsIo"
| "map_fat_error FatTooLarge = FsTooLarge"
| "map_fat_error NoSpace = FsNoSpace"
| "map_fat_error InvalidName = FsInvalidName"
| "map_fat_error AlreadyExists = FsAlreadyExists"
| "map_fat_error DirectoryNotEmpty = FsDirectoryNotEmpty"
| "map_fat_error _ = FsIo"

definition flush_error :: "block_error \<Rightarrow> fs_error" where
  "flush_error error = (case error of ReadOnly \<Rightarrow> FsReadOnly | _ \<Rightarrow> FsIo)"

definition flush_filesystem :: "'d block_device \<Rightarrow> 'd fat32 \<Rightarrow> (fs_error + unit) \<times> 'd fat32" where
  "flush_filesystem dev fs = (case fat_flush dev fs of (r, fs) \<Rightarrow> (map_err flush_error r, fs))"

section \<open>Operations on files\<close>

text \<open>The volume as an operation finds it: its own fields with the devices' current state.\<close>

definition volume_now :: "'d vfs \<Rightarrow> 'd fat32 \<Rightarrow> 'd fat32" where
  "volume_now v fs = fs\<lparr>fat_device := disks v\<rparr>"

definition put_volume :: "'d vfs \<Rightarrow> nat \<Rightarrow> 'd block_device \<Rightarrow> 'd fat32 \<Rightarrow> 'd vfs" where
  "put_volume v i dev fs =
     v\<lparr>mounts := (mounts v)[i := (mounts v ! i)\<lparr>mounted := Volume dev fs\<rparr>], disks := fat_device fs\<rparr>"

definition lookup :: "'d vfs \<Rightarrow> str \<Rightarrow> fs_error + nat \<times> 'd filesystem \<times> str" where
  "lookup v path =
     and_then (normalize_path path) (\<lambda>path.
     and_then (ok_or FsNotFound (route (mounts v) path)) (\<lambda>(i, inner).
     Inr (i, mounted (mounts v ! i), inner)))"

definition vfs_read_at :: "'d vfs \<Rightarrow> str \<Rightarrow> nat \<Rightarrow> u8 list \<Rightarrow> fs_error + nat \<times> u8 list" where
  "vfs_read_at v path off out =
     and_then (lookup v path) (\<lambda>(i, fs, inner).
     case fs of
       BootArchive \<Rightarrow>
         and_then (ok_or FsNotFound (find_file (boot_archive v) inner)) (\<lambda>data.
         if off \<ge> length data then Inr (0, out)
         else
           let n = min (length out) (length data - off) in
           Inr (n, copy_at out 0 (slice data off (off + n))))
     | Volume dev fs \<Rightarrow> map_err map_fat_error (fat_read_at dev (volume_now v fs) inner off out))"

definition file_size :: "'d vfs \<Rightarrow> str \<Rightarrow> fs_error + nat" where
  "file_size v path =
     and_then (lookup v path) (\<lambda>(i, fs, inner).
     case fs of
       BootArchive \<Rightarrow> ok_or FsNotFound (map_option length (find_file (boot_archive v) inner))
     | Volume dev fs \<Rightarrow>
         and_then (map_err map_fat_error (fat_stat dev (volume_now v fs) inner)) (\<lambda>e.
         if de_is_dir e then Inl FsIsDirectory else Inr (de_size e)))"

definition read_all :: "'d vfs \<Rightarrow> str \<Rightarrow> fs_error + u8 list" where
  "read_all v path =
     and_then (file_size v path) (\<lambda>sz.
     if sz > MAX_READ_ALL then Inl FsTooLarge
     else and_then (vfs_read_at v path 0 (replicate sz 0)) (\<lambda>(n, data).
       if n \<noteq> sz then Inl FsIo else Inr data))"

text \<open>What \<open>create_file\<close>, \<open>create_dir\<close>, \<open>remove\<close>, \<open>truncate\<close> and \<open>write_at\<close> have in common: the boot archive
  refuses, a volume runs the operation and is flushed.\<close>

definition vfs_mutate ::
  "('d block_device \<Rightarrow> 'd fat32 \<Rightarrow> str \<Rightarrow> (fat_error + 'a) \<times> 'd fat32) \<Rightarrow> 'd vfs \<Rightarrow> str \<Rightarrow> (fs_error + 'a) \<times> 'd vfs" where
  "vfs_mutate operation v path =
     and_next (lookup v path, v) (\<lambda>(i, fs, inner) v.
     case fs of
       BootArchive \<Rightarrow> (Inl FsReadOnly, v)
     | Volume dev fs \<Rightarrow>
         (case operation dev (volume_now v fs) inner of
            (Inl error, fs1) \<Rightarrow> (Inl (map_fat_error error), put_volume v i dev fs1)
          | (Inr a, fs1) \<Rightarrow>
              (case flush_filesystem dev fs1 of
                 (Inl error, fs2) \<Rightarrow> (Inl error, put_volume v i dev fs2)
               | (Inr _, fs2) \<Rightarrow> (Inr a, put_volume v i dev fs2))))"

definition vfs_create_file :: "'d vfs \<Rightarrow> str \<Rightarrow> (fs_error + unit) \<times> 'd vfs" where
  "vfs_create_file v path = vfs_mutate fat_create_file v path"

definition vfs_create_dir :: "'d vfs \<Rightarrow> str \<Rightarrow> (fs_error + unit) \<times> 'd vfs" where
  "vfs_create_dir v path = vfs_mutate fat_create_dir v path"

definition vfs_remove :: "'d vfs \<Rightarrow> str \<Rightarrow> (fs_error + unit) \<times> 'd vfs" where
  "vfs_remove v path = vfs_mutate fat_remove v path"

definition vfs_truncate :: "'d vfs \<Rightarrow> str \<Rightarrow> (fs_error + unit) \<times> 'd vfs" where
  "vfs_truncate v path = vfs_mutate fat_truncate v path"

definition vfs_write_at :: "'d vfs \<Rightarrow> str \<Rightarrow> nat \<Rightarrow> u8 list \<Rightarrow> (fs_error + nat) \<times> 'd vfs" where
  "vfs_write_at v path off bytes = vfs_mutate (\<lambda>dev fs inner. fat_write_at dev fs inner off bytes) v path"

fun sync_loop :: "'d vfs \<Rightarrow> nat list \<Rightarrow> bool \<Rightarrow> (fs_error + bool) \<times> 'd vfs" where
  "sync_loop v [] found = (Inr found, v)"
| "sync_loop v (i # is) found =
     (case mounted (mounts v ! i) of
        BootArchive \<Rightarrow> sync_loop v is found
      | Volume dev fs \<Rightarrow>
          (case flush_filesystem dev (volume_now v fs) of
             (Inl error, fs) \<Rightarrow> (Inl error, put_volume v i dev fs)
           | (Inr _, fs) \<Rightarrow> sync_loop (put_volume v i dev fs) is True))"

definition vfs_sync :: "'d vfs \<Rightarrow> (fs_error + unit) \<times> 'd vfs" where
  "vfs_sync v =
     and_next (sync_loop v [0..<length (mounts v)] False) (\<lambda>found v.
     if found then (Inr (), v) else (Inl FsReadOnly, v))"

section \<open>Listing\<close>

fun archive_list :: "entry list \<Rightarrow> str \<Rightarrow> dir_entry list \<Rightarrow> dir_entry list" where
  "archive_list [] pre out = out"
| "archive_list (e # es) pre out =
     (case strip_prefix pre (name e) of
        None \<Rightarrow> archive_list es pre out
      | Some rest \<Rightarrow>
          if rest = [] then archive_list es pre out
          else
            let nm = hd (split_on 0x2F rest); is_dir = (0x2F \<in> set rest) in
            if list_ex (\<lambda>entry. de_name entry = nm) out then archive_list es pre out
            else archive_list es pre
                   (out @ [\<lparr>de_name = nm, de_is_dir = is_dir, de_size = (if is_dir then 0 else length (data e) mod 2 ^ 32)\<rparr>]))"

definition list_archive :: "initramfs \<Rightarrow> str \<Rightarrow> fs_error + dir_entry list" where
  "list_archive r inner =
     (let pre = (if inner = [] then [] else trim_end 0x2F inner @ [0x2F]);
          out = archive_list (entries r) pre []
      in if inner \<noteq> [] \<and> find_file r inner \<noteq> None then Inl FsNotDirectory
         else if out = [] \<and> inner \<noteq> [] then Inl FsNotFound
         else Inr out)"

text \<open>Mounts appear as directories of their parent.\<close>

definition mount_child :: "str \<Rightarrow> 'd mount \<Rightarrow> str option" where
  "mount_child path m =
     (if prefix m = path then None
      else
        case (if path = [0x2F] then Some (trim_start 0x2F (prefix m))
              else map_option (trim_start 0x2F) (strip_prefix (trim_end 0x2F path) (prefix m))) of
          None \<Rightarrow> None
        | Some rest \<Rightarrow> let nm = hd (split_on 0x2F rest) in if nm = [] then None else Some nm)"

fun add_mounts :: "'d mount list \<Rightarrow> str \<Rightarrow> dir_entry list \<Rightarrow> dir_entry list" where
  "add_mounts [] path out = out"
| "add_mounts (m # ms) path out =
     (case mount_child path m of
        None \<Rightarrow> add_mounts ms path out
      | Some nm \<Rightarrow>
          if list_ex (\<lambda>e. de_name e = nm) out then add_mounts ms path out
          else add_mounts ms path (out @ [\<lparr>de_name = nm, de_is_dir = True, de_size = 0\<rparr>]))"

definition vfs_list :: "'d vfs \<Rightarrow> str \<Rightarrow> fs_error + dir_entry list" where
  "vfs_list v path =
     and_then (normalize_path path) (\<lambda>path.
     and_then (ok_or FsNotFound (route (mounts v) path)) (\<lambda>(i, inner).
     and_then
       (case mounted (mounts v ! i) of
          Volume dev fs \<Rightarrow> map_err map_fat_error (fat_list dev (volume_now v fs) inner)
        | BootArchive \<Rightarrow> list_archive (boot_archive v) inner) (\<lambda>out.
     Inr (add_mounts (mounts v) path out))))"

text \<open>\<open>list_files\<close>; the first argument of \<open>walk\<close> is the depth left, \<open>32 - depth\<close>.\<close>

fun list_walk :: "'d vfs \<Rightarrow> nat \<Rightarrow> str \<Rightarrow> str list \<Rightarrow> str list"
  and list_walk_in :: "'d vfs \<Rightarrow> nat \<Rightarrow> str \<Rightarrow> dir_entry list \<Rightarrow> str list \<Rightarrow> str list" where
  "list_walk v 0 path out = out"
| "list_walk v (Suc n) path out =
     (if length out \<ge> 4096 then out
      else case vfs_list v path of Inl _ \<Rightarrow> out | Inr es \<Rightarrow> list_walk_in v n path es out)"
| "list_walk_in v n path [] out = out"
| "list_walk_in v n path (e # es) out =
     (let child = (if path = [0x2F] then 0x2F # de_name e else trim_end 0x2F path @ 0x2F # de_name e) in
      if de_is_dir e then list_walk_in v n path es (list_walk v n child out)
      else
        let out = out @ [child] in
        if length out \<ge> 4096 then out else list_walk_in v n path es out)"

definition list_files :: "'d vfs \<Rightarrow> str list" where
  "list_files v = list_walk v 32 [0x2F] []"

section \<open>Lemmas: paths\<close>

lemma split_on_not_Nil [simp]: "split_on c s \<noteq> []"
  by (induction s) (auto split: list.splits)

lemma split_on_free: "\<forall>p\<in>set (split_on c s). c \<notin> set p"
  by (induction s) (auto split: list.splits)

lemma split_on_id: "c \<notin> set p \<Longrightarrow> split_on c p = [p]"
  by (induction p) auto

lemma split_on_append: "c \<notin> set p \<Longrightarrow> split_on c (p @ c # s) = p # split_on c s"
  by (induction p) auto

lemma split_on_join:
  assumes "ps \<noteq> []" "\<forall>p\<in>set ps. c \<notin> set p"
  shows "split_on c (join c ps) = ps"
  using assms
proof (induction c ps rule: join.induct)
  case (2 c p)
  then show ?case by (simp add: split_on_id)
next
  case (3 c p q ps)
  then show ?case using split_on_append [of c p "join c (q # ps)"] by simp
qed simp

text \<open>A component that normalisation keeps.\<close>

definition plain_part :: "str \<Rightarrow> bool" where
  "plain_part p \<longleftrightarrow> p \<noteq> [] \<and> p \<noteq> [0x2E] \<and> p \<noteq> [0x2E, 0x2E] \<and> 0x2F \<notin> set p"

definition clean_path :: "str \<Rightarrow> bool" where
  "clean_path q \<longleftrightarrow> (\<exists>parts. list_all plain_part parts \<and> q = 0x2F # join 0x2F parts)"

lemma normalize_loop_plain: "list_all plain_part ps \<Longrightarrow> normalize_loop ps parts = Inr (parts @ ps)"
  by (induction ps arbitrary: parts) (auto simp: plain_part_def)

lemma normalize_loop_clean:
  assumes "normalize_loop ps parts = Inr qs" "list_all plain_part parts" "\<forall>p\<in>set ps. 0x2F \<notin> set p"
  shows "list_all plain_part qs"
  using assms
proof (induction ps arbitrary: parts)
  case (Cons p ps)
  have "list_all plain_part (butlast parts)" using Cons.prems(2) by (auto simp: list_all_iff dest: in_set_butlastD)
  then show ?case using Cons by (auto simp: plain_part_def [of p] split: if_splits)
qed simp

lemma normalize_path_clean: "normalize_path path = Inr q \<Longrightarrow> clean_path q"
  unfolding normalize_path_def clean_path_def and_then_Inr
  using normalize_loop_clean [of "split_on 0x2F path" "[]"] split_on_free [of "0x2F" path] by auto

lemma normalize_clean: "clean_path q \<Longrightarrow> normalize_path q = Inr q"
proof -
  assume "clean_path q"
  then obtain parts where p: "list_all plain_part parts" "q = 0x2F # join 0x2F parts" by (auto simp: clean_path_def)
  show ?thesis
  proof (cases parts)
    case Nil
    then show ?thesis using p by (simp add: normalize_path_def)
  next
    case (Cons a as)
    have "\<forall>p\<in>set parts. 0x2F \<notin> set p" using p(1) by (auto simp: list_all_iff plain_part_def)
    then have "split_on 0x2F q = [] # parts" using split_on_join [of parts "0x2F"] p(2) Cons by simp
    then show ?thesis using normalize_loop_plain [OF p(1), of "[]"] p(2) by (simp add: normalize_path_def)
  qed
qed

text \<open>The running depth of a path: it fails exactly where it would rise above the root.\<close>

fun depth_after :: "str list \<Rightarrow> nat \<Rightarrow> nat option" where
  "depth_after [] n = Some n"
| "depth_after (p # ps) n =
     (if p = [] \<or> p = [0x2E] then depth_after ps n
      else if p = [0x2E, 0x2E] then (case n of 0 \<Rightarrow> None | Suc m \<Rightarrow> depth_after ps m)
      else depth_after ps (Suc n))"

lemma normalize_loop_depth:
  "case normalize_loop ps parts of
     Inl e \<Rightarrow> e = InvalidPath \<and> depth_after ps (length parts) = None
   | Inr qs \<Rightarrow> depth_after ps (length parts) = Some (length qs)"
proof (induction ps arbitrary: parts)
  case (Cons p ps)
  show ?case
  proof (cases "p = [] \<or> p = [0x2E]")
    case True
    then show ?thesis using Cons [of parts] by (auto split: sum.splits)
  next
    case False
    show ?thesis
    proof (cases "p = [0x2E, 0x2E]")
      case True
      then show ?thesis using Cons [of "butlast parts"] by (cases parts rule: rev_cases) (auto split: sum.splits)
    next
      case False
      then show ?thesis using Cons [of "parts @ [p]"] \<open>\<not> (p = [] \<or> p = [0x2E])\<close> by (simp split: sum.splits)
    qed
  qed
qed simp

section \<open>Lemmas: routing\<close>

lemma inner_path_iff:
  "inner_path pre path \<noteq> None \<longleftrightarrow> pre = [0x2F] \<or> path = pre \<or> (\<exists>rest. path = pre @ 0x2F # rest)"
proof (cases "pre = [0x2F] \<or> path = pre")
  case False
  have s: "strip_prefix pre path = Some tail \<longleftrightarrow> path = pre @ tail" for tail
    by (auto simp: strip_prefix_def) (metis append_take_drop_id)
  show ?thesis
  proof (cases "strip_prefix pre path")
    case None
    then show ?thesis using False s by (auto simp: inner_path_def)
  next
    case (Some tail)
    then show ?thesis using False s [of tail] by (cases tail) (auto simp: inner_path_def)
  qed
qed (auto simp: inner_path_def)

definition best_for :: "(nat \<times> 'd mount) list \<Rightarrow> str \<Rightarrow> nat \<times> nat \<times> str \<Rightarrow> bool" where
  "best_for ms path b \<longleftrightarrow>
     (\<exists>m. (fst (snd b), m) \<in> set ms \<and> inner_path (prefix m) path = Some (snd (snd b)) \<and> fst b = length (prefix m)) \<and>
     (\<forall>(j, m)\<in>set ms. inner_path (prefix m) path \<noteq> None \<longrightarrow> length (prefix m) \<le> fst b)"

lemma route_loop_best:
  assumes "case best of None \<Rightarrow> \<forall>(j, m)\<in>set seen. inner_path (prefix m) path = None | Some b \<Rightarrow> best_for seen path b"
  shows "case route_loop ms path best of
      None \<Rightarrow> \<forall>(j, m)\<in>set (seen @ ms). inner_path (prefix m) path = None
    | Some b \<Rightarrow> best_for (seen @ ms) path b"
  using assms
proof (induction ms arbitrary: best seen)
  case (Cons im ms)
  obtain i m where im: "im = (i, m)" by force
  have snoc: "seen @ im # ms = (seen @ [im]) @ ms" by simp
  show ?case
  proof (cases "inner_path (prefix m) path")
    case None
    have "case best of None \<Rightarrow> \<forall>(j, m)\<in>set (seen @ [im]). inner_path (prefix m) path = None
        | Some b \<Rightarrow> best_for (seen @ [im]) path b"
      using Cons.prems None by (cases best) (auto simp: best_for_def im)
    from Cons.IH [OF this] show ?thesis unfolding snoc using None im by simp
  next
    case (Some inner)
    show ?thesis
    proof (cases "\<exists>len x. best = Some (len, x) \<and> \<not> len \<le> length (prefix m)")
      case True
      then obtain len x where b: "best = Some (len, x)" "\<not> len \<le> length (prefix m)" by blast
      have "best_for (seen @ [im]) path (len, x)" using Cons.prems b by (auto simp: best_for_def im)
      then show ?thesis using Cons.IH [of "seen @ [im]" best] Some b im unfolding snoc by simp
    next
      case False
      let ?b = "(length (prefix m), i, inner)"
      have "best_for (seen @ [im]) path ?b"
        using Cons.prems Some False by (cases best) (fastforce simp: best_for_def im)+
      then show ?thesis
        using Cons.IH [of "seen @ [im]" "Some ?b"] Some False im unfolding snoc by (cases best) auto
    qed
  qed
qed (auto split: option.splits)

lemma route_Some:
  assumes "route ms path = Some (i, inner)"
  shows "i < length ms" "inner_path (prefix (ms ! i)) path = Some inner"
    "\<And>j. j < length ms \<Longrightarrow> inner_path (prefix (ms ! j)) path \<noteq> None \<Longrightarrow> length (prefix (ms ! j)) \<le> length (prefix (ms ! i))"
proof -
  obtain len where "route_loop (List.enumerate 0 ms) path None = Some (len, i, inner)"
    using assms by (auto simp: route_def)
  then have b: "best_for (List.enumerate 0 ms) path (len, i, inner)"
    using route_loop_best [where best = None and seen = "[]" and path = path and ms = "List.enumerate 0 ms"] by simp
  then show "i < length ms" "inner_path (prefix (ms ! i)) path = Some inner"
    by (auto simp: best_for_def in_set_enumerate_eq)
  fix j assume "j < length ms" "inner_path (prefix (ms ! j)) path \<noteq> None"
  moreover have "(j, ms ! j) \<in> set (List.enumerate 0 ms)" using \<open>j < length ms\<close> by (simp add: in_set_enumerate_eq)
  ultimately show "length (prefix (ms ! j)) \<le> length (prefix (ms ! i))"
    using b by (fastforce simp: best_for_def in_set_enumerate_eq)
qed

lemma route_None: "route ms path = None \<longleftrightarrow> (\<forall>m\<in>set ms. inner_path (prefix m) path = None)"
proof -
  have "\<forall>m\<in>set ms. inner_path (prefix m) path = None" if "route ms path = None"
  proof -
    have "\<forall>(j, m)\<in>set (List.enumerate 0 ms). inner_path (prefix m) path = None"
      using route_loop_best [where best = None and seen = "[]" and path = path and ms = "List.enumerate 0 ms"] that
      by (auto simp: route_def)
    then have "\<forall>m\<in>snd ` set (List.enumerate 0 ms). inner_path (prefix m) path = None" by auto
    then show ?thesis by (metis list.set_map map_snd_enumerate)
  qed
  moreover have "route ms path = None" if "\<forall>m\<in>set ms. inner_path (prefix m) path = None"
    using route_Some(1,2) [of ms path] that by (cases "route ms path") (auto dest: nth_mem)
  ultimately show ?thesis by blast
qed

section \<open>The mount table over time\<close>

text \<open>A state of the filesystem as the kernel can make it: initialisation, then mounting, changes to files and
  syncing, in any order and with any device and result.\<close>

inductive vfs_step :: "'d vfs \<Rightarrow> 'd vfs \<Rightarrow> bool" where
  mounted_one: "mount_fat32_inner v pre source dev = (r, v') \<Longrightarrow> vfs_step v v'"
| mounted_part: "mount_fat32_partition v pre dev start n = (r, v') \<Longrightarrow> vfs_step v v'"
| created_file: "vfs_create_file v path = (r, v') \<Longrightarrow> vfs_step v v'"
| created_dir: "vfs_create_dir v path = (r, v') \<Longrightarrow> vfs_step v v'"
| removed: "vfs_remove v path = (r, v') \<Longrightarrow> vfs_step v v'"
| truncated: "vfs_truncate v path = (r, v') \<Longrightarrow> vfs_step v v'"
| written: "vfs_write_at v path off bytes = (n, v') \<Longrightarrow> vfs_step v v'"
| synced: "vfs_sync v = (r, v') \<Longrightarrow> vfs_step v v'"

inductive vfs_reachable :: "'d vfs \<Rightarrow> bool" where
  booted: "vfs_reachable (vfs_init v)"
| stepped: "vfs_reachable v \<Longrightarrow> vfs_step v v' \<Longrightarrow> vfs_reachable v'"

definition mounts_ok :: "'d mount list \<Rightarrow> bool" where
  "mounts_ok ms \<longleftrightarrow> (\<exists>m rest. ms = m # rest \<and> prefix m = [0x2F] \<and> mounted m = BootArchive \<and>
     (\<forall>m'\<in>set rest. mounted m' \<noteq> BootArchive)) \<and> distinct (map prefix ms) \<and> (\<forall>m\<in>set ms. clean_path (prefix m))"

lemma clean_root: "clean_path [0x2F]"
  unfolding clean_path_def by (rule exI [of _ "[]"]) simp

lemma mounts_ok_put:
  assumes "mounts_ok (mounts v)" "mounted (mounts v ! i) = Volume dev fs" "i < length (mounts v)"
  shows "mounts_ok (mounts (put_volume v i dev fs'))"
proof -
  have "map prefix (mounts (put_volume v i dev fs')) = map prefix (mounts v)"
    unfolding put_volume_def using assms(3) list_update_id [of "map prefix (mounts v)" i] by (simp add: map_update)
  moreover have "i \<noteq> 0" using assms by (cases "mounts v") (auto simp: mounts_ok_def)
  moreover have "\<forall>m\<in>set (mounts (put_volume v i dev fs')). prefix m \<in> set (map prefix (mounts v))"
    using calculation(1) by (metis image_eqI list.set_map)
  ultimately show ?thesis
    using assms unfolding mounts_ok_def
    by (cases "mounts v"; cases i) (auto simp: put_volume_def dest: set_update_subset_insert [THEN subsetD])
qed

lemma lookup_Inr:
  assumes "lookup v path = Inr (i, fs, inner)"
  shows "i < length (mounts v)" "mounted (mounts v ! i) = fs"
  using assms route_Some(1) [of "mounts v" _ i inner] by (auto simp: lookup_def and_then_Inr ok_or_Inr)

lemma mutate_ok: "mounts_ok (mounts v) \<Longrightarrow> vfs_mutate f v path = (r, v') \<Longrightarrow> mounts_ok (mounts v')"
  unfolding vfs_mutate_def and_next_def
  by (auto split: sum.splits prod.splits filesystem.splits dest: lookup_Inr intro!: mounts_ok_put)

lemma sync_loop_ok:
  "mounts_ok (mounts v) \<Longrightarrow> set is \<subseteq> {..<length (mounts v)} \<Longrightarrow> sync_loop v is found = (r, v') \<Longrightarrow> mounts_ok (mounts v')"
proof (induction "is" arbitrary: v found)
  case (Cons i "is")
  show ?case
  proof (cases "mounted (mounts v ! i)")
    case BootArchive
    then show ?thesis using Cons by simp
  next
    case (Volume dev fs)
    obtain q fs1 where f: "flush_filesystem dev (volume_now v fs) = (q, fs1)" by force
    have ok: "mounts_ok (mounts (put_volume v i dev fs1))" using mounts_ok_put Cons.prems(1,2) Volume by auto
    have len: "length (mounts (put_volume v i dev fs1)) = length (mounts v)" by (simp add: put_volume_def)
    show ?thesis
    proof (cases q)
      case (Inl e)
      then show ?thesis using Cons.prems(3) Volume f ok by simp
    next
      case (Inr u)
      then have "sync_loop (put_volume v i dev fs1) is True = (r, v')" using Cons.prems(3) Volume f by simp
      then show ?thesis using Cons.IH [OF ok] len Cons.prems(2) by auto
    qed
  qed
qed simp

lemma mount_inner_ok:
  assumes "mounts_ok (mounts v)" "mount_fat32_inner v pre source dev = (r, v')"
  shows "mounts_ok (mounts v')"
proof (cases "v' = v")
  case False
  then obtain q fs where q: "normalize_path pre = Inr q" and n: "\<not> list_ex (\<lambda>m. prefix m = q) (mounts v)"
    and v': "mounts v' = mounts v @ [\<lparr>prefix = q, mounted = Volume dev fs, source_device = source\<rparr>]"
    using assms(2) unfolding mount_fat32_inner_def and_next_def
    by (auto simp: list_ex_iff split: if_split_asm sum.splits list.splits)
  show ?thesis
    using assms(1) n normalize_path_clean [OF q] unfolding v' mounts_ok_def by (auto simp: list_ex_iff)
qed (use assms in simp)

lemma step_ok: "vfs_step v v' \<Longrightarrow> mounts_ok (mounts v) \<Longrightarrow> mounts_ok (mounts v')"
proof (induction rule: vfs_step.induct)
  case (mounted_part v pre dev start n r v')
  then show ?case
    by (auto simp: mount_fat32_partition_def mount_fat32_def and_next_def split: sum.splits intro: mount_inner_ok)
next
  case (synced v r v')
  have "set [0..<length (mounts v)] \<subseteq> {..<length (mounts v)}" by auto
  note ok = sync_loop_ok [OF synced(2) this, where v' = v' and found = False]
  show ?case using synced(1) ok by (auto simp: vfs_sync_def and_next_def split: sum.splits prod.splits if_splits)
qed (auto simp: vfs_create_file_def vfs_create_dir_def vfs_remove_def vfs_truncate_def vfs_write_at_def
      intro: mount_inner_ok mutate_ok)

lemma reachable_ok: "vfs_reachable v \<Longrightarrow> mounts_ok (mounts v)"
proof (induction rule: vfs_reachable.induct)
  case (booted v)
  then show ?case by (simp add: vfs_init_def mounts_ok_def clean_root)
qed (rule step_ok)

lemma lookup_total:
  assumes "mounts_ok (mounts v)"
  shows "case lookup v path of Inl e \<Rightarrow> e = InvalidPath | Inr (i, fs, inner) \<Rightarrow> i < length (mounts v) \<and> fs = mounted (mounts v ! i)"
proof (cases "normalize_path path")
  case (Inl e)
  then show ?thesis using normalize_loop_depth [of "split_on 0x2F path" "[]"]
    by (auto simp: lookup_def normalize_path_def and_then_def split: sum.splits)
next
  case (Inr q)
  have "route (mounts v) q \<noteq> None"
    using assms inner_path_iff [of "[0x2F]" q] unfolding route_None mounts_ok_def by auto
  then show ?thesis using route_Some(1) [of "mounts v" q] Inr by (auto simp: lookup_def ok_or_def)
qed

section \<open>Properties\<close>



definition routes_example :: "memory_device mount list" where
  "routes_example = map (\<lambda>p. \<lparr>prefix = p, mounted = BootArchive, source_device = None\<rparr>)
     [[0x2F], [0x2F, 0x61], [0x2F, 0x61, 0x2F, 0x62], [0x2F, 0x61, 0x62]]"


text \<open>C28. However the filesystem is used after it is initialised, the boot archive stays at the root and is the only
  mount without a device, mount points stay distinct normalised paths, and every path that normalises is served by
  some mount: a lookup fails with nothing but an invalid path.\<close>

theorem vfs_mounts_invariant:
  assumes "vfs_reachable v"
  shows "mounts_ok (mounts v) \<and>
    (case lookup v path of Inl e \<Rightarrow> e = InvalidPath | Inr (i, fs, inner) \<Rightarrow> i < length (mounts v) \<and> fs = mounted (mounts v ! i))"
  using reachable_ok [OF assms] lookup_total [OF reachable_ok [OF assms], of path] by blast

definition vfs_example :: "memory_device vfs" where
  "vfs_example = vfs_init \<lparr>mounts = [], disks = small_disk, boot_archive = \<lparr>archive = None, file_count = 0\<rparr>\<rparr>"

theorem vfs_mounts_invariant_witness:
  "\<exists>v. mount_fat32 vfs_example [0x2F, 0x64] memory_block_device = (Inr (), v) \<and> length (mounts v) = 2 \<and>
     mounts_ok (mounts v) \<and> lookup v [0x2F, 0x64, 0x2F, 0x61] = Inr (1, Volume memory_block_device small_volume, [0x61])"
proof -
  define v where "v = vfs_example\<lparr>mounts := mounts vfs_example @
    [\<lparr>prefix = [0x2F, 0x64], mounted = Volume memory_block_device small_volume, source_device = None\<rparr>]\<rparr>"
  have m: "mount_fat32_inner vfs_example [0x2F, 0x64] None memory_block_device = (Inr (), v)"
    by (simp add: mount_fat32_inner_def and_next_def normalize_path_def vfs_example_def vfs_init_def small_mount v_def)
  have l: "lookup v [0x2F, 0x64, 0x2F, 0x61] = Inr (1, Volume memory_block_device small_volume, [0x61])"
    by (simp add: lookup_def normalize_path_def v_def vfs_example_def vfs_init_def route_def inner_path_def strip_prefix_def
        trim_start_def ok_or_def)
  have r: "vfs_reachable v"
    using vfs_reachable.stepped [OF vfs_reachable.booted vfs_step.mounted_one] m unfolding vfs_example_def by blast
  show ?thesis
    using m l vfs_mounts_invariant [OF r, of "[0x2F, 0x64, 0x2F, 0x61]"]
    by (auto simp: mount_fat32_def v_def vfs_example_def vfs_init_def)
qed

end
