(* ===== verification/Process.thy ===== *)
theory Process
  imports Elf Scheduler Vfs
begin

unbundle bit_operations_syntax

text \<open>
  User processes: \<open>src/process.rs\<close>, with the table of open files of \<open>src/syscall.rs\<close> as far as starting and ending a
  process touches it.

  A process is a thread with an address space of its own, and its pid is the number of the thread. \<open>spawn_with\<close> reads the
  executable, loads it into a new address space, writes the arguments and the environment on the first page of its stack
  and gives the space to a new thread; on every failure the address space is dropped, which frees it. The frame of the top
  page is written through the direct map, so the model writes to physical memory. A panic is \<open>None\<close>.
\<close>

type_synonym i64 = "64 word"

definition USER_STACK_TOP :: u64 where "USER_STACK_TOP = 0x00007FFFFFFFF000"
definition USER_STACK_PAGES :: nat where "USER_STACK_PAGES = 16"

record process_record =
  pid :: nat
  parent :: nat
  pname :: str
  status :: "i64 option"

record process_info =
  info_pid :: nat
  info_name :: str
  exit_status :: "i64 option"

datatype spawn_error = SpawnNotFound | SpawnElf elf_error | SpawnNoMemory | SpawnNoThread

datatype fd_kind = Stdin | Stdout | Stderr | ConsoleDev | NullDev | ZeroDev | Urandom | FileFd

record open_file =
  file_pid :: nat
  fd :: u64
  fkind :: fd_kind
  fpath :: str
  foffset :: nat
  readable :: bool
  writable :: bool
  append_mode :: bool

record 'd pkernel = skernel +
  PROCS :: "process_record list"
  OPEN_FILES :: "open_file list"
  the_vfs :: "'d vfs"

section \<open>The standard streams\<close>

definition std_file :: "nat \<Rightarrow> u64 \<Rightarrow> fd_kind \<Rightarrow> bool \<Rightarrow> bool \<Rightarrow> open_file" where
  "std_file p n kind rd wr =
     \<lparr>file_pid = p, fd = n, fkind = kind, fpath = [], foffset = 0, readable = rd, writable = wr, append_mode = False\<rparr>"

definition init_process_files :: "nat \<Rightarrow> open_file list \<Rightarrow> open_file list" where
  "init_process_files p files =
     filter (\<lambda>f. file_pid f \<noteq> p) files @
       [std_file p 0 Stdin True False, std_file p 1 Stdout False True, std_file p 2 Stderr False True]"

definition close_process_files :: "nat \<Rightarrow> open_file list \<Rightarrow> open_file list" where
  "close_process_files p files = filter (\<lambda>f. file_pid f \<noteq> p) files"

section \<open>The table of processes\<close>

definition register :: "nat \<Rightarrow> nat \<Rightarrow> str \<Rightarrow> process_record list \<Rightarrow> process_record list" where
  "register p par nm procs =
     (case position (\<lambda>r. pid r = p) procs of
        Some i \<Rightarrow> procs[i := (procs ! i)\<lparr>parent := par, pname := nm\<rparr>]
      | None \<Rightarrow> procs @ [\<lparr>pid = p, parent = par, pname = nm, status = None\<rparr>])"

definition record_exit :: "nat \<Rightarrow> i64 \<Rightarrow> process_record list \<Rightarrow> process_record list" where
  "record_exit p code procs =
     (case position (\<lambda>r. pid r = p) procs of
        Some i \<Rightarrow> procs[i := (procs ! i)\<lparr>status := Some code\<rparr>]
      | None \<Rightarrow> procs @ [\<lparr>pid = p, parent = 0, pname = [], status = Some code\<rparr>])"

definition exit_current :: "i64 \<Rightarrow> ('d, 'a) pkernel_scheme \<Rightarrow> ('d, 'a) pkernel_scheme option" where
  "exit_current code s =
     (let p = current_id s;
          s = s\<lparr>OPEN_FILES := close_process_files p (OPEN_FILES s)\<rparr>;
          s = s\<lparr>PROCS := record_exit p code (PROCS s)\<rparr>
      in sched_exit s)"

definition take_exit_status :: "nat \<Rightarrow> process_record list \<Rightarrow> i64 option \<times> process_record list" where
  "take_exit_status p procs =
     (case position (\<lambda>r. pid r = p \<and> status r \<noteq> None) procs of
        None \<Rightarrow> (None, procs)
      | Some i \<Rightarrow> (status (procs ! i), swap_remove procs i))"

definition take_child_exit_status ::
  "nat \<Rightarrow> u64 \<Rightarrow> process_record list \<Rightarrow> (unit + (nat \<times> i64) option) \<times> process_record list" where
  "take_child_exit_status par p procs =
     (let any = (p = - 1 \<or> p = 0);
          wanted = (\<lambda>r. parent r = par \<and> (any \<or> pid r = unat p))
      in if \<not> list_ex wanted procs then (Inl (), procs)
         else case position (\<lambda>r. wanted r \<and> status r \<noteq> None) procs of
             None \<Rightarrow> (Inr None, procs)
           | Some i \<Rightarrow> (Inr (Some (pid (procs ! i), the (status (procs ! i)))), swap_remove procs i))"

definition list_processes :: "process_record list \<Rightarrow> process_info list" where
  "list_processes procs = map (\<lambda>r. \<lparr>info_pid = pid r, info_name = pname r, exit_status = status r\<rparr>) procs"

section \<open>The first stack\<close>

definition stack_page :: u64 where "stack_page = USER_STACK_TOP - PAGE_SIZE"

fun map_user_stack :: "'a kernel_scheme \<Rightarrow> address_space \<Rightarrow> nat list \<Rightarrow> u64 \<Rightarrow> (u64 option \<times> 'a kernel_scheme) option" where
  "map_user_stack s asp [] top_frame = Some (Some top_frame, s)"
| "map_user_stack s asp (i # is) top_frame =
     (case alloc_frame_zeroed s of
        (None, s) \<Rightarrow> Some (None, s)
      | (Some phys, s) \<Rightarrow>
          (case space_map s asp (USER_STACK_TOP - (of_nat i + 1) * PAGE_SIZE) phys USER_RW of
             None \<Rightarrow> None
           | Some s \<Rightarrow> map_user_stack s asp is (if i = 0 then phys else top_frame)))"

definition stack_write :: "u64 \<Rightarrow> u64 \<Rightarrow> u8 list \<Rightarrow> 'a kernel_scheme \<Rightarrow> 'a kernel_scheme" where
  "stack_write frame virt bytes s = s\<lparr>mem := set_bytes (mem s) (frame + (virt - stack_page)) bytes\<rparr>"

definition checked_sub :: "u64 \<Rightarrow> u64 \<Rightarrow> u64 option" where
  "checked_sub a b = (if b \<le> a then Some (a - b) else None)"

fun place_strings ::
  "u64 \<Rightarrow> str list \<Rightarrow> u64 \<Rightarrow> u64 list \<Rightarrow> 'a kernel_scheme \<Rightarrow> (u64 \<times> u64 list) option \<times> 'a kernel_scheme" where
  "place_strings frame [] cur ptrs s = (Some (cur, ptrs), s)"
| "place_strings frame (v # vs) cur ptrs s =
     (if length v > 255 then (None, s)
      else case checked_sub cur (of_nat (length v) + 1) of
          None \<Rightarrow> (None, s)
        | Some cur \<Rightarrow>
            if cur < stack_page then (None, s)
            else place_strings frame vs cur (ptrs @ [cur]) (stack_write frame cur v s))"

definition stack_words :: "str list \<Rightarrow> u64 list \<Rightarrow> u64 list \<Rightarrow> u64 list" where
  "stack_words argv argv_ptrs env_ptrs = [of_nat (length argv)] @ argv_ptrs @ [0] @ env_ptrs @ [0, 0, 0]"

fun write_words :: "u64 \<Rightarrow> u64 \<Rightarrow> u64 list \<Rightarrow> 'a kernel_scheme \<Rightarrow> 'a kernel_scheme" where
  "write_words frame at [] s = s"
| "write_words frame at (w # ws) s = write_words frame (at + 8) ws (stack_write frame at (to_le 8 w) s)"

definition fill_stack :: "u64 \<Rightarrow> str list \<Rightarrow> str list \<Rightarrow> 'a kernel_scheme \<Rightarrow> u64 option \<times> 'a kernel_scheme" where
  "fill_stack frame argv env s =
     (case place_strings frame (rev argv) USER_STACK_TOP [] s of
        (None, s) \<Rightarrow> (None, s)
      | (Some (cur, argv_ptrs), s) \<Rightarrow>
          (case place_strings frame (rev env) cur [] s of
             (None, s) \<Rightarrow> (None, s)
           | (Some (cur, env_ptrs), s) \<Rightarrow>
               let words = stack_words argv (rev argv_ptrs) (rev env_ptrs) in
               (case checked_sub cur (of_nat (length words) * 8) of
                  None \<Rightarrow> (None, s)
                | Some sp \<Rightarrow>
                    let sp = sp AND NOT 0xF in
                    if sp < stack_page then (None, s) else (Some sp, write_words frame sp words s))))"

definition build_stack :: "'a kernel_scheme \<Rightarrow> address_space \<Rightarrow> str list \<Rightarrow> str list \<Rightarrow> (u64 option \<times> 'a kernel_scheme) option" where
  "build_stack s asp argv env =
     (case map_user_stack s asp [0..<USER_STACK_PAGES] 0 of
        None \<Rightarrow> None
      | Some (None, s) \<Rightarrow> Some (None, s)
      | Some (Some frame, s) \<Rightarrow> Some (fill_stack frame argv env s))"

section \<open>Starting a process\<close>

definition spawn_with ::
  "('d, 'a) pkernel_scheme \<Rightarrow> str \<Rightarrow> str list \<Rightarrow> str list \<Rightarrow> ((spawn_error + nat) \<times> ('d, 'a) pkernel_scheme) option" where
  "spawn_with s path argv env =
     (case read_all (the_vfs s) path of
        Inl _ \<Rightarrow> Some (Inl SpawnNotFound, s)
      | Inr img \<Rightarrow>
          (case create_address_space s of
             (None, s) \<Rightarrow> Some (Inl SpawnNoMemory, s)
           | (Some asp, s) \<Rightarrow>
               (case elf_load s img asp of
                  None \<Rightarrow> None
                | Some (Inl e, s) \<Rightarrow> Some (Inl (SpawnElf e), free_user_half (pml4_phys asp) s)
                | Some (Inr entry, s) \<Rightarrow>
                    (case build_stack s asp argv env of
                       None \<Rightarrow> None
                     | Some (None, s) \<Rightarrow> Some (Inl SpawnNoMemory, free_user_half (pml4_phys asp) s)
                     | Some (Some sp, s) \<Rightarrow>
                         (case spawn_user s ''user'' asp entry sp of
                            None \<Rightarrow> None
                          | Some (None, s) \<Rightarrow> Some (Inl SpawnNoThread, s)
                          | Some (Some p, s) \<Rightarrow>
                              let s = s\<lparr>OPEN_FILES := init_process_files p (OPEN_FILES s)\<rparr>;
                                  s = s\<lparr>PROCS := register p (current_id s) path (PROCS s)\<rparr>
                              in Some (Inr p, s))))))"

definition process_spawn :: "('d, 'a) pkernel_scheme \<Rightarrow> str \<Rightarrow> ((spawn_error + nat) \<times> ('d, 'a) pkernel_scheme) option" where
  "process_spawn s path = spawn_with s path [path] []"

section \<open>Lemmas: the tables\<close>

definition procs_ok :: "process_record list \<Rightarrow> nat \<Rightarrow> bool" where
  "procs_ok procs n \<longleftrightarrow> distinct (map pid procs) \<and> (\<forall>r \<in> set procs. pid r < n)"

definition files_ok :: "open_file list \<Rightarrow> nat \<Rightarrow> bool" where
  "files_ok files n \<longleftrightarrow> distinct (map (\<lambda>f. (file_pid f, fd f)) files) \<and> (\<forall>f \<in> set files. file_pid f < n)"

text \<open>Removing an element by swapping.\<close>

lemma distinct_map_swap_remove:
  assumes "i < length xs" and "distinct (map f xs)"
  shows "distinct (map f (swap_remove xs i))" "f (xs ! i) \<notin> f ` set (swap_remove xs i)"
    "set xs = insert (xs ! i) (set (swap_remove xs i))"
proof -
  note m = mset_swap_remove [OF assms(1)]
  then have "mset (map f xs) = mset (map f (xs ! i # swap_remove xs i))"
    by simp
  then have "distinct (map f (xs ! i # swap_remove xs i))"
    using assms(2) mset_eq_imp_distinct_iff by blast
  then show "distinct (map f (swap_remove xs i))" "f (xs ! i) \<notin> f ` set (swap_remove xs i)"
    by simp_all
  show "set xs = insert (xs ! i) (set (swap_remove xs i))"
    using arg_cong [OF m, of set_mset] by simp
qed

lemma procs_ok_mono: "procs_ok procs n \<Longrightarrow> n \<le> m \<Longrightarrow> procs_ok procs m"
  by (auto simp: procs_ok_def intro: order_less_le_trans)

lemma files_ok_mono: "files_ok files n \<Longrightarrow> n \<le> m \<Longrightarrow> files_ok files m"
  by (auto simp: files_ok_def intro: order_less_le_trans)

text \<open>Changing a record in place without changing its key.\<close>

lemma map_update_same: "f y = f (xs ! i) \<Longrightarrow> map f (xs[i := y]) = map f xs"
  by (metis list_update_id map_update)

lemma register_ok:
  assumes "procs_ok procs n" and "p < n"
  shows "procs_ok (register p par nm procs) n"
proof (cases "position (\<lambda>r. pid r = p) procs")
  case None
  moreover have "\<forall>x \<in> set procs. pid x \<noteq> p"
    using None by (simp add: position_None)
  ultimately show ?thesis
    using assms by (auto simp: register_def procs_ok_def)
next
  case (Some i)
  let ?y = "(procs ! i)\<lparr>parent := par, pname := nm\<rparr>"
  have "map pid (procs[i := ?y]) = map pid procs"
    by (rule map_update_same) simp
  moreover have "\<forall>r \<in> set (procs[i := ?y]). pid r < n"
    using assms position_Some [OF Some] by (auto simp: procs_ok_def dest!: set_update_subset_insert [THEN subsetD])
  ultimately show ?thesis
    using Some assms(1) by (simp add: register_def procs_ok_def)
qed

lemma record_exit_ok:
  assumes "procs_ok procs n" and "p < n"
  shows "procs_ok (record_exit p code procs) n"
proof (cases "position (\<lambda>r. pid r = p) procs")
  case None
  moreover have "\<forall>x \<in> set procs. pid x \<noteq> p"
    using None by (simp add: position_None)
  ultimately show ?thesis
    using assms by (auto simp: record_exit_def procs_ok_def)
next
  case (Some i)
  let ?y = "(procs ! i)\<lparr>status := Some code\<rparr>"
  have "map pid (procs[i := ?y]) = map pid procs"
    by (rule map_update_same) simp
  moreover have "\<forall>r \<in> set (procs[i := ?y]). pid r < n"
    using assms position_Some [OF Some] by (auto simp: procs_ok_def dest!: set_update_subset_insert [THEN subsetD])
  ultimately show ?thesis
    using Some assms(1) by (simp add: record_exit_def procs_ok_def)
qed

text \<open>Both leave the records of other processes alone.\<close>

lemma update_keeps_others: "r \<in> set xs \<Longrightarrow> f r \<noteq> f (xs ! i) \<Longrightarrow> r \<in> set (xs[i := y])"
  by (metis in_set_conv_nth length_list_update nth_list_update_neq)

lemma register_others: "r \<in> set procs \<Longrightarrow> pid r \<noteq> p \<Longrightarrow> r \<in> set (register p par nm procs)"
  by (auto simp: register_def split: option.splits dest!: position_Some intro: update_keeps_others [of _ _ pid])

lemma record_exit_others: "r \<in> set procs \<Longrightarrow> pid r \<noteq> p \<Longrightarrow> r \<in> set (record_exit p code procs)"
  by (auto simp: record_exit_def split: option.splits dest!: position_Some intro: update_keeps_others [of _ _ pid])

lemma record_exit_status: "\<exists>r \<in> set (record_exit p code procs). pid r = p \<and> status r = Some code"
proof (cases "position (\<lambda>r. pid r = p) procs")
  case (Some i)
  then have "i < length procs" "pid (procs ! i) = p"
    using position_Some [OF Some] by simp_all
  then show ?thesis
    using Some by (auto simp: record_exit_def intro!: bexI [OF _ set_update_memI])
qed (simp add: record_exit_def)

definition child_of :: "nat \<Rightarrow> u64 \<Rightarrow> process_record \<Rightarrow> bool" where
  "child_of par p r \<longleftrightarrow> parent r = par \<and> (p = - 1 \<or> p = 0 \<or> pid r = unat p)"

text \<open>The three answers of the search for an exited child.\<close>

lemma take_child_cases:
  assumes "take_child_exit_status par p procs = (r, procs')"
  obtains "r = Inl ()" "procs' = procs" "\<forall>x \<in> set procs. \<not> child_of par p x"
  | "r = Inr None" "procs' = procs" "\<exists>x \<in> set procs. child_of par p x" "\<forall>x \<in> set procs. child_of par p x \<longrightarrow> status x = None"
  | i code where "r = Inr (Some (pid (procs ! i), code))" "i < length procs" "child_of par p (procs ! i)"
      "status (procs ! i) = Some code" "procs' = swap_remove procs i"
proof -
  have w: "(\<lambda>r. parent r = par \<and> ((p = - 1 \<or> p = 0) \<or> pid r = unat p)) = child_of par p"
    by (auto simp: child_of_def fun_eq_iff)
  have "take_child_exit_status par p procs =
     (if \<not> list_ex (child_of par p) procs then (Inl (), procs)
      else case position (\<lambda>r. child_of par p r \<and> status r \<noteq> None) procs of
          None \<Rightarrow> (Inr None, procs)
        | Some i \<Rightarrow> (Inr (Some (pid (procs ! i), the (status (procs ! i)))), swap_remove procs i))"
    by (simp add: take_child_exit_status_def Let_def w [symmetric])
  note res = assms [unfolded this]
  show ?thesis
  proof (cases "list_ex (child_of par p) procs")
    case False
    then show ?thesis
      using that(1) res by (auto simp: list_ex_iff)
  next
    case True
    show ?thesis
    proof (cases "position (\<lambda>r. child_of par p r \<and> status r \<noteq> None) procs")
      case None
      then have "r = Inr None" "procs' = procs"
        using res True by simp_all
      then show ?thesis
        using that(2) True None by (auto simp: list_ex_iff position_None)
    next
      case (Some i)
      then show ?thesis
        using that(3) [of i] res True position_Some [OF Some] by auto
    qed
  qed
qed

lemma take_child_ok:
  assumes "procs_ok procs n" and "take_child_exit_status par p procs = (r, procs')"
  shows "procs_ok procs' n" "x \<in> set procs \<Longrightarrow> parent x \<noteq> par \<Longrightarrow> x \<in> set procs'"
proof -
  have "procs_ok procs' n \<and> (\<forall>x \<in> set procs. parent x \<noteq> par \<longrightarrow> x \<in> set procs')"
  proof (cases rule: take_child_cases [OF assms(2)])
    case (3 i code)
    have d: "distinct (map pid procs)"
      using assms(1) by (simp add: procs_ok_def)
    note s = distinct_map_swap_remove [OF 3(2) d]
    show ?thesis
      using assms(1) s 3 by (auto simp: procs_ok_def child_of_def)
  qed (use assms(1) in simp_all)
  then show "procs_ok procs' n" "x \<in> set procs \<Longrightarrow> parent x \<noteq> par \<Longrightarrow> x \<in> set procs'"
    by simp_all
qed

text \<open>Descriptors.\<close>

lemma close_files_ok: "files_ok files n \<Longrightarrow> files_ok (close_process_files p files) n"
  by (auto simp: files_ok_def close_process_files_def distinct_map_filter)

lemma init_files_ok:
  assumes "files_ok files n" and "p < m" and "n \<le> m"
  shows "files_ok (init_process_files p files) m"
  using assms by (auto simp: files_ok_def init_process_files_def std_file_def distinct_map_filter)

section \<open>Lemmas: what starting a process leaves alone\<close>

lemma mem_only_claim: "claim_pages s pages va e w x = Some (r, pages', s') \<Longrightarrow> mem_only s s'"
proof (induction s pages va e w x arbitrary: r pages' s' rule: claim_pages.induct)
  case (1 s pages va e w x)
  define st where "st = (case map_of pages va of
                Some _ \<Rightarrow> (Inr (), pages_share va w x pages, s)
              | None \<Rightarrow>
                  (case alloc_frame_zeroed s of
                     (None, s1) \<Rightarrow> (Inl NoMemory, pages, s1)
                   | (Some phys, s1) \<Rightarrow>
                       (Inr (), pages_insert va \<lparr>page_phys = phys, writable = w, executable = x\<rparr> pages, s1)))"
  obtain q pages1 s1 where st: "st = (q, pages1, s1)"
    by (rule prod_cases3)
  note step = st [unfolded st_def]
  have first: "mem_only s s1"
    using step by (auto split: option.splits prod.splits dest: mem_only_alloc)
  show ?case
  proof (cases "va < e \<and> (\<exists>u va'. q = Inr u \<and> checked_add va PAGE_SIZE = Some va')")
    case True
    then obtain u va' where u: "q = Inr u" "checked_add va PAGE_SIZE = Some va'" "va < e"
      by blast
    have "claim_pages s1 pages1 va' e w x = Some (r, pages', s')"
      using 1(2) u step by (simp add: claim_pages.simps [of s])
    then show ?thesis
      using 1(1) [OF u(3) step [symmetric]] u first mem_only_trans by blast
  next
    case False
    then show ?thesis
      using 1(2) first step by (cases q) (auto simp: claim_pages.simps [of s] split: if_splits option.splits)
  qed
qed

lemma mem_only_fill: "fill_pages s img pages seg k = (r, s') \<Longrightarrow> mem_only s s'"
proof (induction s img pages seg k arbitrary: r s' rule: fill_pages.induct)
  case (1 s img pages seg k)
  show ?case
    using 1(2) by (subst (asm) fill_pages.simps)
      (auto simp: Let_def split: if_splits option.splits dest!: 1(1) [OF _ refl refl refl refl]
        intro: mem_only_trans [OF mem_only_write(2)])
qed

lemma mem_only_populate: "populate_loop s img segs pages = Some (r, pages', s') \<Longrightarrow> mem_only s s'"
proof (induction segs arbitrary: s pages)
  case (Cons seg segs)
  then show ?case
    by (auto split: option.splits sum.splits prod.splits dest!: mem_only_claim mem_only_fill intro: mem_only_trans)
qed simp

lemma mem_only_free_pages: "mem_only s (free_pages s pages)"
proof (induction pages arbitrary: s)
  case (Cons p pages)
  then show ?case
    using mem_only_trans [OF mem_only_frames(2)] by (auto simp: free_pages_def split: prod.splits)
qed (simp add: free_pages_def)

lemma mem_only_space_map: "space_map s asp virt phys flags = Some s' \<Longrightarrow> mem_only s s'"
  by (auto simp: space_map_def split: if_splits dest: mem_only_map4k)

lemma mem_only_map_image: "map_image s asp pages = Some s' \<Longrightarrow> mem_only s s'"
proof (induction pages arbitrary: s)
  case (Cons p pages)
  then show ?case
    by (cases p) (auto split: bind_splits dest!: mem_only_space_map intro: mem_only_trans)
qed simp

lemma mem_only_elf_load: "elf_load s img asp = Some (r, s') \<Longrightarrow> mem_only s s'"
  by (auto simp: elf_load_def populate_def split: option.splits sum.splits prod.splits if_splits
      dest!: mem_only_populate mem_only_map_image intro: mem_only_trans [OF _ mem_only_free_pages] mem_only_trans)

lemma mem_only_create_space: "create_address_space s = (r, s') \<Longrightarrow> mem_only s s'"
  by (auto simp: create_address_space_def split: option.splits prod.splits
      intro: mem_only_trans [OF mem_only_alloc] mem_only_alloc mem_only_fold_step mem_only_write)

lemma mem_only_map_user_stack: "map_user_stack s asp is frame = Some (r, s') \<Longrightarrow> mem_only s s'"
proof (induction "is" arbitrary: s frame)
  case (Cons i "is")
  then show ?case
    by (auto split: option.splits prod.splits dest!: mem_only_alloc mem_only_space_map intro: mem_only_trans)
qed simp

lemma mem_only_stack_write: "mem_only s (stack_write frame virt bytes s)"
  by (simp add: stack_write_def mem_only_write)

lemma mem_only_place: "place_strings frame vs cur ptrs s = (r, s') \<Longrightarrow> mem_only s s'"
proof (induction vs arbitrary: cur ptrs s)
  case (Cons v vs)
  then show ?case
    by (auto split: option.splits if_splits intro: mem_only_trans [OF mem_only_stack_write])
qed simp

lemma mem_only_words: "mem_only s (write_words frame at ws s)"
proof (induction ws arbitrary: at s)
  case (Cons w ws)
  then show ?case
    by (auto intro: mem_only_trans [OF mem_only_stack_write])
qed simp

lemma mem_only_build_stack: "build_stack s asp argv env = Some (r, s') \<Longrightarrow> mem_only s s'"
  by (auto simp: build_stack_def fill_stack_def Let_def split: option.splits prod.splits if_splits
      dest!: mem_only_map_user_stack mem_only_place intro: mem_only_trans mem_only_trans [OF _ mem_only_words])

text \<open>Fields of the process table when the fields beyond those of the scheduler are kept.\<close>

lemma more_process:
  assumes "skernel.more s' = skernel.more s"
  shows "PROCS s' = PROCS s" "OPEN_FILES s' = OPEN_FILES s" "the_vfs s' = the_vfs s" "pkernel.more s' = pkernel.more s"
  using assms by (cases s; cases s'; simp)+

definition same_user :: "('d, 'a) pkernel_scheme \<Rightarrow> ('d, 'a) pkernel_scheme \<Rightarrow> bool" where
  "same_user s s' \<longleftrightarrow> same_sched s s' \<and> PROCS s' = PROCS s \<and> OPEN_FILES s' = OPEN_FILES s \<and> the_vfs s' = the_vfs s \<and>
     pkernel.more s' = pkernel.more s"

lemma mem_only_user: "mem_only s s' \<Longrightarrow> same_user s s'"
  using more_process [of s' s] by (auto simp: same_user_def same_sched_def dest: mem_only_sched)

lemma same_user_trans: "same_user s s1 \<Longrightarrow> same_user s1 s2 \<Longrightarrow> same_user s s2"
  by (auto simp: same_user_def intro: same_sched_trans)

lemma same_user_ids:
  assumes "same_user s s'"
  shows "current_id s' = current_id s" "next_id (sched s') = next_id (sched s)" "sched_ok s' = sched_ok s"
  using assms sched_ok_cong [of s' s] by (simp_all add: same_user_def same_sched_def current_id_def)

lemma spawn_user_fields:
  assumes "spawn_user s nm asp entry usp = Some (r, s')" and "sched_ok s"
  shows "sched_ok s'" "current_id s' = current_id s" "skernel.more s' = skernel.more s"
    "case r of None \<Rightarrow> next_id (sched s) \<le> next_id (sched s') | Some p \<Rightarrow> p = next_id (sched s) \<and> next_id (sched s') = p + 1"
proof -
  show "sched_ok s'"
    using spawn_ok(2) [OF assms(2,1)] by simp
  obtain t s1 where c: "create_thread s nm (user_thread_main (syms s)) False = Some (t, s1)"
    using assms(1) by (auto simp: spawn_user_def split: option.splits)
  have same: "same_threads s s1"
    using create_thread_keys(1) [OF c] .
  have half: "same_sched s1 (free_user_half (pml4_phys asp) s1)"
    by (rule mem_only_sched [OF mem_only_free_user_half])
  have cases: "t = None \<and> s' = free_user_half (pml4_phys asp) s1 \<and> r = None \<or>
      (\<exists>u. t = Some u \<and> r = Some (tid u) \<and> s' = push_ready (u\<lparr>aspace := Some asp, user_entry := entry, user_rsp := usp\<rparr>) s1)"
    using assms(1) c by (cases t) (auto simp: spawn_user_def)
  then show "current_id s' = current_id s" "skernel.more s' = skernel.more s"
    using same half by (auto simp: same_threads_def same_sched_def current_id_def push_ready_def)
  have "next_id (sched s) \<le> next_id (sched s1)" "t = Some u \<Longrightarrow> tid u = next_id (sched s) \<and> next_id (sched s1) = tid u + 1" for u
    by (cases rule: create_thread_cases [OF c]; auto simp: key_def claim_slot_same)+
  then show "case r of None \<Rightarrow> next_id (sched s) \<le> next_id (sched s') | Some p \<Rightarrow> p = next_id (sched s) \<and> next_id (sched s') = p + 1"
    using cases half by (auto simp: same_sched_def push_ready_def)
qed

lemma spawn_with_fields:
  assumes "spawn_with s path argv env = Some (r, s')" and ok: "sched_ok s"
  shows "sched_ok s' \<and> current_id s' = current_id s \<and> the_vfs s' = the_vfs s \<and> pkernel.more s' = pkernel.more s \<and>
    (case r of
       Inl _ \<Rightarrow> PROCS s' = PROCS s \<and> OPEN_FILES s' = OPEN_FILES s \<and> next_id (sched s) \<le> next_id (sched s')
     | Inr p \<Rightarrow> p = next_id (sched s) \<and> next_id (sched s') = p + 1 \<and>
         PROCS s' = register p (current_id s) path (PROCS s) \<and> OPEN_FILES s' = init_process_files p (OPEN_FILES s))"
proof -
  have unchanged: ?thesis if "same_user s s'" "r = Inl e" for e
    using that same_user_ids [OF that(1)] ok by (auto simp: same_user_def)
  show ?thesis
  proof (cases "read_all (the_vfs s) path")
    case (Inl e)
    then show ?thesis
      using assms by (auto simp: spawn_with_def)
  next
    case (Inr img)
    obtain sp s1 where sp: "create_address_space s = (sp, s1)"
      by force
    have u1: "same_user s s1"
      by (rule mem_only_user [OF mem_only_create_space [OF sp]])
    show ?thesis
    proof (cases sp)
      case None
      then show ?thesis
        using assms(1) Inr sp u1 unchanged by (auto simp: spawn_with_def)
    next
      case (Some asp)
      obtain q s2 where load: "elf_load s1 img asp = Some (q, s2)"
        using assms(1) Inr sp Some by (auto simp: spawn_with_def split: option.splits)
      have u2: "same_user s s2"
        by (rule same_user_trans [OF u1 mem_only_user [OF mem_only_elf_load [OF load]]])
      show ?thesis
      proof (cases q)
        case (Inl e)
        then have "r = Inl (SpawnElf e)" "s' = free_user_half (pml4_phys asp) s2"
          using assms(1) Inr sp Some load by (auto simp: spawn_with_def)
        then show ?thesis
          using unchanged same_user_trans [OF u2 mem_only_user [OF mem_only_free_user_half]] by blast
      next
        case entry: (Inr entry)
        obtain w s3 where stack: "build_stack s2 asp argv env = Some (w, s3)"
          using assms(1) Inr sp Some load entry by (auto simp: spawn_with_def split: option.splits)
        have u3: "same_user s s3"
          by (rule same_user_trans [OF u2 mem_only_user [OF mem_only_build_stack [OF stack]]])
        show ?thesis
        proof (cases w)
          case None
          then have "r = Inl SpawnNoMemory" "s' = free_user_half (pml4_phys asp) s3"
            using assms(1) Inr sp Some load entry stack by (auto simp: spawn_with_def)
          then show ?thesis
            using unchanged same_user_trans [OF u3 mem_only_user [OF mem_only_free_user_half]] by blast
        next
          case usp: (Some usp)
          obtain p s4 where th: "spawn_user s3 ''user'' asp entry usp = Some (p, s4)"
            using assms(1) Inr sp Some load entry stack usp by (auto simp: spawn_with_def split: option.splits)
          note ids = same_user_ids [OF u3]
          have f0: "sched_ok s3"
            using ids ok by simp
          note f = spawn_user_fields [OF th f0] more_process [OF spawn_user_fields(3) [OF th f0]]
          have s': "(r, s') = (case p of None \<Rightarrow> (Inl SpawnNoThread, s4) | Some p \<Rightarrow>
              (Inr p, s4\<lparr>OPEN_FILES := init_process_files p (OPEN_FILES s4), PROCS := register p (current_id s4) path (PROCS s4)\<rparr>))"
            using assms(1) Inr sp Some load entry stack usp th
            by (cases p) (simp_all add: spawn_with_def Let_def current_id_def)
          show ?thesis
          proof (cases p)
            case None
            then show ?thesis
              using s' f ids u3 by (simp add: same_user_def)
          next
            case (Some p')
            then have "r = Inr p'" "sched s' = sched s4" "waiters s' = waiters s4" "READY s' = READY s4"
              "OPEN_FILES s' = init_process_files p' (OPEN_FILES s4)" "PROCS s' = register p' (current_id s4) path (PROCS s4)"
              "the_vfs s' = the_vfs s4" "pkernel.more s' = pkernel.more s4"
              using s' by simp_all
            then show ?thesis
              using Some f ids u3 sched_ok_cong [of s' s4] by (simp add: same_user_def current_id_def)
          qed
        qed
      qed
    qed
  qed
qed

section \<open>Lemmas: writing memory that holds no tables\<close>

lemma outside_tables:
  assumes inv: "vm_inv m root P" and m': "\<And>a. unat a div 4096 \<notin> P \<Longrightarrow> m' a = m a"
  shows "idx_path q \<Longrightarrow> tbl_at m' root q = tbl_at m root q" "look m' root (vpath v) = look m root (vpath v)" "vm_inv m' root P"
proof -
  have entry: "m' (entry_addr t i) = m (entry_addr t i)" if "idx_path p" "tbl_at m root p = Some t" "i < 512" for p t i
    using m' [of "entry_addr t i"] vm_invD(1,2) [OF inv that(1,2)] entry_addr_frame [of t i] that(3) by simp
  show tbl: "idx_path q \<Longrightarrow> tbl_at m' root q = tbl_at m root q" for q
  proof (rule tbl_at_eqI)
    fix p i r t assume q: "idx_path q" "q = p @ i # r" "tbl_at m root p = Some t"
    then have "idx_path p" "i < 512"
      by (auto simp: idx_path_def)
    then show "m' (entry_addr t i) = m (entry_addr t i)"
      using entry q(3) by blast
  qed
  show "look m' root (vpath v) = look m root (vpath v)"
  proof (rule look_eqI)
    fix p i r t assume q: "vpath v = p @ i # r" "tbl_at m root p = Some t"
    then have "length (p @ i # r) = 4" "list_all (\<lambda>i. i < 512) (p @ i # r)"
      using vpath_path [of v] by metis+
    then have "idx_path p" "i < 512"
      by (auto simp: idx_path_def)
    then show "m' (entry_addr t i) = m (entry_addr t i)"
      using entry q(2) by blast
  qed
  have root: "bit (m' (entry_addr root i)) 0 \<longrightarrow> \<not> bit (m' (entry_addr root i)) 7" if "i < 512" for i
    using inv that entry [of "[]" root i] by (simp add: vm_inv_def)
  show "vm_inv m' root P"
    unfolding vm_inv_def
  proof (intro conjI allI impI)
    fix p t assume p: "idx_path p" "tbl_at m' root p = Some t"
    then show "page_aligned t" "unat t div 4096 \<notin> P"
      using vm_invD(1,2) [OF inv p(1)] tbl by simp_all
  next
    fix p q t assume p: "idx_path p" "idx_path q" "tbl_at m' root p = Some t" "tbl_at m' root q = Some t"
    then show "p = q"
      using vm_invD(3) [OF inv p(2)] tbl by simp
  qed (use root in blast)
qed

lemma walk_outside:
  assumes "vm_inv (mem s) root P" and "\<And>a. unat a div 4096 \<notin> P \<Longrightarrow> mem s' a = mem s a"
  shows "walk s' root v = walk s root v"
  using outside_tables [OF assms(1), of "mem s'"] assms(2) walk_look [OF assms(1)] walk_look [of s' root P] by simp

text \<open>A frame that is taken and cleared holds data: no table, and zeros.\<close>

lemma alloc_zeroed_data:
  assumes ok: "vm_ok s root" and ne: "kernel_free s \<noteq> {}"
  obtains f s1 where "alloc_frame_zeroed s = (Some f, s1)" "page_aligned f" "vm_ok s1 root" "data_frame s1 root (unat f div 4096)"
    "unat f < 4503599627370496" "mem s1 = zero_page (mem s) f" "card (kernel_free s) = Suc (card (kernel_free s1))"
    "keeps_data s root s1" "\<And>v. walk s1 root v = walk s root v" "kernel_free s1 \<subseteq> kernel_free s"
proof -
  have inv: "vm_inv (mem s) root (kernel_free s)" and kok: "kernel_ok s" "kernel_limit s \<le> 1099511627776"
    using ok by (auto simp: vm_ok_def)
  obtain f s1 where f: "alloc_frame_zeroed s = (Some f, s1)" "mem s1 = zero_page (mem s) f" "page_aligned f"
    "unat f < 4503599627370496" "unat f div 4096 \<in> kernel_free s"
    "kernel_free s1 = kernel_free s - {unat f div 4096}" "kernel_ok s1" "kernel_limit s1 = kernel_limit s"
    by (rule alloc_frame_zeroed_cases [OF kok]) (use ne in auto)
  have out: "mem s1 a = mem s a" if "unat a div 4096 \<noteq> unat f div 4096" for a
    using f(2,3) zero_page_other that by simp
  have out': "mem s1 a = mem s a" if "unat a div 4096 \<notin> kernel_free s" for a
    using out f(5) that by metis
  note o = outside_tables [OF inv, of "mem s1", OF out']
  have ok1: "vm_ok s1 root"
    using o(3) f kok vm_inv_mono [of "mem s1" root "kernel_free s" "kernel_free s1"] by (auto simp: vm_ok_def)
  have data: "data_frame s1 root (unat f div 4096)"
    using vm_invD(2) [OF o(3)] f(5,6) unfolding data_frame_def by (metis Diff_iff singletonI)
  have keeps: "keeps_data s root s1"
    unfolding keeps_data_def
  proof (intro allI impI conjI)
    fix g assume g: "data_frame s root g"
    then show "data_frame s1 root g"
      using o(1) f(6) by (simp add: data_frame_def)
    show "mem s1 a = mem s a" if "unat a div 4096 = g" for a
      using out' g that by (simp add: data_frame_def)
  qed
  have "finite (kernel_free s)"
    using frames.frees_limit [OF kok(1)] finite_subset by blast
  then have "card (kernel_free s) = Suc (card (kernel_free s1))"
    using f(5,6) by (metis card_Suc_Diff1)
  then show thesis
    using that [of f s1] f ok1 data keeps walk_outside [OF inv out'] by auto
qed

section \<open>Lemmas: the pages of the stack\<close>

definition stack_va :: "nat \<Rightarrow> u64" where
  "stack_va i = USER_STACK_TOP - (of_nat i + 1) * PAGE_SIZE"

lemma below_16:
  assumes "(i :: nat) < 16" and "P 0" "P 1" "P 2" "P 3" "P 4" "P 5" "P 6" "P 7" "P 8" "P 9" "P 10" "P 11" "P 12" "P 13" "P 14" "P 15"
  shows "P i"
proof -
  have "i \<in> {..<16}"
    using assms(1) by simp
  then show ?thesis
    using assms(2-) by (auto simp: lessThan_nat_numeral lessThan_Suc)
qed

lemma stack_va_facts:
  assumes "i < 16"
  shows "unat (stack_va i) = 140737488351232 - (i + 1) * 4096 \<and> stack_va i < USER_SPACE_END \<and>
    stack_va i AND (PAGE_SIZE - 1) = 0 \<and> stack_va i AND 0x0000FFFFFFFFF000 = stack_va i"
  using assms by (rule below_16) (simp_all add: stack_va_def USER_STACK_TOP_def USER_SPACE_END_def)

lemma stack_va_page:
  assumes "i < 16" and "j < 16" and "same_page (stack_va i) (stack_va j)"
  shows "i = j"
proof -
  have "stack_va i = stack_va j"
    using assms stack_va_facts by (simp add: same_page_def)
  then have "140737488351232 - (i + 1) * 4096 = 140737488351232 - (j + 1) * 4096"
    using stack_va_facts assms(1,2) by metis
  then show ?thesis
    using assms(1,2) by simp
qed

lemma map_stack_page:
  assumes ok: "vm_ok s (pml4_phys asp)" and free: "4 \<le> card (kernel_free s)" and i: "i < 16"
    and unmapped: "walk s (pml4_phys asp) (stack_va i) = None"
  obtains f s1 s2 where "alloc_frame_zeroed s = (Some f, s1)" "space_map s1 asp (stack_va i) f USER_RW = Some s2"
    "vm_ok s2 (pml4_phys asp)" "keeps_data s (pml4_phys asp) s2" "card (kernel_free s) \<le> card (kernel_free s2) + 4"
    "page_aligned f" "unat f < 4503599627370496" "data_frame s2 (pml4_phys asp) (unat f div 4096)"
    "\<And>k. k < 4096 \<Longrightarrow> mem_byte (mem s2) (f + of_nat k) = 0"
    "\<And>v. walk s2 (pml4_phys asp) v =
      (if same_page v (stack_va i) then Some (f + (v AND (PAGE_SIZE - 1))) else walk s (pml4_phys asp) v)"
proof -
  let ?root = "pml4_phys asp"
  have "kernel_free s \<noteq> {}"
    using free by auto
  then obtain f s1 where f: "alloc_frame_zeroed s = (Some f, s1)" "page_aligned f" "vm_ok s1 ?root"
    "data_frame s1 ?root (unat f div 4096)" "unat f < 4503599627370496" "mem s1 = zero_page (mem s) f"
    "card (kernel_free s) = Suc (card (kernel_free s1))" "keeps_data s ?root s1" "\<And>v. walk s1 ?root v = walk s ?root v"
    by (rule alloc_zeroed_data [OF ok]) blast
  have flags: "USER_RW AND ADDR_MASK = 0"
    by (simp add: USER_RW_def PRESENT_def WRITABLE_def USER_def NO_EXECUTE_def ADDR_MASK_def)
  obtain s2 where m: "map4k s1 ?root (stack_va i) f USER_RW = Some s2" "vm_ok s2 ?root"
    "card (kernel_free s1) \<le> card (kernel_free s2) + 3" "keeps_data s1 ?root s2"
    "\<forall>v. walk s2 ?root v = (if vpath v = vpath (stack_va i) then Some ((f AND ADDR_MASK) + (v AND (PAGE_SIZE - 1))) else walk s1 ?root v)"
    using map4k_spec [OF f(3), of USER_RW "stack_va i" f] flags f(7) free by auto
  have mask: "f AND ADDR_MASK = f"
  proof (rule bit_word_eqI)
    fix n
    show "bit (f AND ADDR_MASK) n = bit f n"
      using page_aligned_bits [OF f(2), of n] bit_high [of f 52 n] f(5)
      by (cases "n < 12"; cases "52 \<le> n") (auto simp: bit_and_iff bit_masks)
  qed
  have low: "f AND (PAGE_SIZE - 1) = 0"
    using f(2) unat_and_page_mask [of f] by (simp add: page_aligned_def unat_eq_0)
  have sm: "space_map s1 asp (stack_va i) f USER_RW = Some s2"
    using stack_va_facts [OF i] low unmapped f(9) m(1) by (simp add: space_map_def)
  have zero: "mem_byte (mem s2) (f + of_nat k) = 0" if "k < 4096" for k
  proof -
    have "mem_byte (mem s2) (f + of_nat k) = mem_byte (mem s1) (f + of_nat k)"
      using m(4) f(4) unat_page_add(2) [OF f(2) that] by (intro mem_byte_cong) (auto simp: keeps_data_def)
    then show ?thesis
      using mem_byte_zero_page [OF f(2) that] f(6) by simp
  qed
  have data: "data_frame s2 ?root (unat f div 4096)"
    using m(4) f(4) by (simp add: keeps_data_def)
  show thesis
    using that [OF f(1) sm m(2) keeps_data_trans [OF f(8) m(4)] _ f(2,5) data zero] m(3,5) f(7,9) mask
    by (simp add: vpath_eq_iff)
qed

text \<open>The pages below the first.\<close>

lemma map_stack_rest:
  assumes "vm_ok s (pml4_phys asp)" "4 * length is \<le> card (kernel_free s)" "distinct is" "set is \<subseteq> {..<16} - {0}"
    "\<forall>i \<in> set is. walk s (pml4_phys asp) (stack_va i) = None"
  shows "\<exists>s'. map_user_stack s asp is fr = Some (Some fr, s') \<and> vm_ok s' (pml4_phys asp) \<and> keeps_data s (pml4_phys asp) s' \<and>
    (\<forall>v. walk s (pml4_phys asp) v \<noteq> None \<longrightarrow> walk s' (pml4_phys asp) v = walk s (pml4_phys asp) v) \<and>
    (\<forall>i \<in> set is. walk s' (pml4_phys asp) (stack_va i) \<noteq> None) \<and>
    (\<forall>v. (\<forall>i \<in> set is. \<not> same_page v (stack_va i)) \<longrightarrow> walk s' (pml4_phys asp) v = walk s (pml4_phys asp) v)"
  using assms
proof (induction "is" arbitrary: s)
  case (Cons i "is")
  let ?root = "pml4_phys asp"
  have i: "i < 16" "i \<noteq> 0" "4 \<le> card (kernel_free s)" "walk s ?root (stack_va i) = None"
    using Cons.prems by auto
  obtain f s1 s2 where m: "alloc_frame_zeroed s = (Some f, s1)" "space_map s1 asp (stack_va i) f USER_RW = Some s2"
    "vm_ok s2 ?root" "keeps_data s ?root s2" "card (kernel_free s) \<le> card (kernel_free s2) + 4"
    "\<And>v. walk s2 ?root v = (if same_page v (stack_va i) then Some (f + (v AND (PAGE_SIZE - 1))) else walk s ?root v)"
    by (rule map_stack_page [OF Cons.prems(1) i(3,1,4)]) blast
  have other: "\<not> same_page (stack_va j) (stack_va i)" if "j \<in> set is" for j
    using that Cons.prems(3,4) stack_va_page [of j i] i(1) by auto
  obtain s' where s': "map_user_stack s2 asp is fr = Some (Some fr, s')" "vm_ok s' ?root" "keeps_data s2 ?root s'"
    "\<forall>v. walk s2 ?root v \<noteq> None \<longrightarrow> walk s' ?root v = walk s2 ?root v" "\<forall>j \<in> set is. walk s' ?root (stack_va j) \<noteq> None"
    "\<forall>v. (\<forall>i \<in> set is. \<not> same_page v (stack_va i)) \<longrightarrow> walk s' ?root v = walk s2 ?root v"
    using Cons.IH [of s2] Cons.prems m(3,5,6) other by auto
  have "map_user_stack s asp (i # is) fr = Some (Some fr, s')"
    using m(1,2) s'(1) i(2) by (simp add: stack_va_def)
  moreover have "walk s' ?root v = walk s ?root v" if "walk s ?root v \<noteq> None" for v
  proof -
    have "\<not> same_page v (stack_va i)"
      using that i(4) walk_None_page [OF Cons.prems(1), of v "stack_va i"] vpath_eq_iff by metis
    then show ?thesis
      using that m(6) s'(4) by simp
  qed
  moreover have "walk s' ?root (stack_va i) \<noteq> None"
    using s'(4) m(6) by (simp add: same_page_def)
  ultimately show ?case
    using s' m(6) keeps_data_trans [OF m(4) s'(3)] by simp
qed simp

lemma map_user_stack_spec:
  assumes "vm_ok s (pml4_phys asp)" "64 \<le> card (kernel_free s)"
    "\<forall>i < 16. walk s (pml4_phys asp) (stack_va i) = None"
  obtains f s' where "map_user_stack s asp [0..<USER_STACK_PAGES] 0 = Some (Some f, s')" "vm_ok s' (pml4_phys asp)"
    "page_aligned f" "data_frame s' (pml4_phys asp) (unat f div 4096)"
    "\<And>k. k < 4096 \<Longrightarrow> mem_byte (mem s') (f + of_nat k) = 0"
    "\<And>v. same_page v (stack_va 0) \<Longrightarrow> walk s' (pml4_phys asp) v = Some (f + (v AND (PAGE_SIZE - 1)))"
    "\<And>i. i < 16 \<Longrightarrow> walk s' (pml4_phys asp) (stack_va i) \<noteq> None"
    "\<And>v. (\<forall>i < 16. \<not> same_page v (stack_va i)) \<Longrightarrow> walk s' (pml4_phys asp) v = walk s (pml4_phys asp) v"
proof -
  let ?root = "pml4_phys asp"
  have four: "4 \<le> card (kernel_free s)" "walk s ?root (stack_va 0) = None" "(0 :: nat) < 16"
    using assms by auto
  obtain f s1 s2 where m: "alloc_frame_zeroed s = (Some f, s1)" "space_map s1 asp (stack_va 0) f USER_RW = Some s2"
    "vm_ok s2 ?root" "card (kernel_free s) \<le> card (kernel_free s2) + 4" "page_aligned f"
    "data_frame s2 ?root (unat f div 4096)" "\<And>k. k < 4096 \<Longrightarrow> mem_byte (mem s2) (f + of_nat k) = 0"
    "\<And>v. walk s2 ?root v = (if same_page v (stack_va 0) then Some (f + (v AND (PAGE_SIZE - 1))) else walk s ?root v)"
    by (rule map_stack_page [OF assms(1) four(1,3,2)]) blast
  have free: "4 * length [1..<16] \<le> card (kernel_free s2)"
    using m(4) assms(2) by simp
  have unmapped: "\<forall>i \<in> set [1..<16]. walk s2 ?root (stack_va i) = None"
  proof
    fix i :: nat assume i: "i \<in> set [1..<16]"
    then have "\<not> same_page (stack_va i) (stack_va 0)"
      using stack_va_page [of i 0] by auto
    then show "walk s2 ?root (stack_va i) = None"
      using assms(3) m(8) i by simp
  qed
  have rest: "set [1..<16] \<subseteq> {..<16} - {0}"
    by auto
  obtain s' where s': "map_user_stack s2 asp [1..<16] f = Some (Some f, s')" "vm_ok s' ?root" "keeps_data s2 ?root s'"
    "\<forall>v. walk s2 ?root v \<noteq> None \<longrightarrow> walk s' ?root v = walk s2 ?root v"
    "\<forall>i \<in> set [1..<16]. walk s' ?root (stack_va i) \<noteq> None"
    "\<forall>v. (\<forall>i \<in> set [1..<16]. \<not> same_page v (stack_va i)) \<longrightarrow> walk s' ?root v = walk s2 ?root v"
    using map_stack_rest [OF m(3) free distinct_upt rest unmapped, of f] by blast
  have upt: "[0..<USER_STACK_PAGES] = 0 # [1..<16]"
    by (simp add: USER_STACK_PAGES_def upt_conv_Cons)
  show thesis
  proof (rule that)
    show "map_user_stack s asp [0..<USER_STACK_PAGES] 0 = Some (Some f, s')"
      unfolding upt using m(1,2) s'(1) by (simp add: stack_va_def)
    show "mem_byte (mem s') (f + of_nat k) = 0" if "k < 4096" for k
    proof -
      have "mem_byte (mem s') (f + of_nat k) = mem_byte (mem s2) (f + of_nat k)"
        using s'(3) m(6) unat_page_add(2) [OF m(5) that] by (intro mem_byte_cong) (auto simp: keeps_data_def)
      then show ?thesis
        using m(7) [OF that] by simp
    qed
    show "walk s' ?root (stack_va i) \<noteq> None" if "i < 16" for i
      using that s'(4,5) m(8) by (cases "i = 0") (auto simp: same_page_def)
    show "walk s' ?root v = walk s ?root v" if "\<forall>i < 16. \<not> same_page v (stack_va i)" for v
      using that s'(6) m(8) by auto
  qed (use s' m in \<open>auto simp: keeps_data_def\<close>)
qed

section \<open>Lemmas: the contents of the first page\<close>

text \<open>The bytes of the page by their offset, and the address of an offset.\<close>

definition page_byte :: "'a kernel_scheme \<Rightarrow> u64 \<Rightarrow> nat \<Rightarrow> u8" where
  "page_byte s frame k = mem_byte (mem s) (frame + of_nat k)"

definition at_offset :: "nat \<Rightarrow> u64" where
  "at_offset k = stack_page + of_nat k"

lemma unat_at_offset: "k \<le> 4096 \<Longrightarrow> unat (at_offset k) = 140737488347136 + k"
  unfolding at_offset_def
  by (subst unat_add_u64) (simp_all add: stack_page_def USER_STACK_TOP_def unat_of_nat_u64)

lemma at_offset_top: "at_offset 4096 = USER_STACK_TOP"
  by (simp add: at_offset_def stack_page_def USER_STACK_TOP_def)

lemma at_offset_base: "unat stack_page = 140737488347136"
  by (simp add: stack_page_def USER_STACK_TOP_def)

lemma page_byte_write:
  assumes "off + length bs \<le> 4096" and "k < 4096"
  shows "page_byte (stack_write frame (at_offset off) bs s) frame k =
    (if off \<le> k \<and> k < off + length bs then bs ! (k - off) else page_byte s frame k)"
proof -
  have len: "length bs \<le> 4096"
    using assms(1) by simp
  have base: "frame + (at_offset off - stack_page) = frame + of_nat off"
    by (simp add: at_offset_def)
  have shift: "frame + of_nat off + of_nat j = frame + of_nat (off + j)" for j
    by simp
  show ?thesis
  proof (cases "off \<le> k \<and> k < off + length bs")
    case True
    then have "k - off < length bs"
      by linarith
    then show ?thesis
      using True mem_byte_set_bytes(1) [OF len, of "k - off" "mem s" "frame + of_nat off"] shift [of "k - off"]
      by (simp add: page_byte_def stack_write_def base)
  next
    case False
    have "frame + of_nat k \<noteq> frame + of_nat off + of_nat j" if "j < length bs" for j
      using of_nat_inj_page [of k "off + j" frame] that assms False shift [of j] by auto
    then show ?thesis
      using False mem_byte_set_bytes(2) [OF len, of "frame + of_nat k" "frame + of_nat off" "mem s"]
      by (auto simp: page_byte_def stack_write_def base)
  qed
qed

text \<open>No other memory is written.\<close>

definition same_outside :: "nat \<Rightarrow> 'a kernel_scheme \<Rightarrow> 'a kernel_scheme \<Rightarrow> bool" where
  "same_outside f s s' \<longleftrightarrow> (\<forall>a. unat a div 4096 \<noteq> f \<longrightarrow> mem s' a = mem s a)"

lemma same_outside_write:
  assumes "page_aligned frame" and "off + length bs \<le> 4096"
  shows "same_outside (unat frame div 4096) s (stack_write frame (at_offset off) bs s)"
proof -
  have "set_bytes (mem s) (frame + of_nat off) bs a = mem s a" if "unat a div 4096 \<noteq> unat frame div 4096" for a
  proof (rule set_bytes_other)
    fix k assume "k < length bs"
    then show "unat (frame + of_nat off + of_nat k) div 4096 \<noteq> unat a div 4096"
      using that unat_page_add(2) [OF assms(1), of "off + k"] assms(2) by (simp add: add.assoc)
  qed
  then show ?thesis
    by (simp add: same_outside_def stack_write_def at_offset_def)
qed

lemma same_outside_trans: "same_outside f s s1 \<Longrightarrow> same_outside f s1 s2 \<Longrightarrow> same_outside f s s2"
  by (simp add: same_outside_def)

lemma same_outside_words:
  assumes "page_aligned frame" and "a + 8 * length ws \<le> 4096"
  shows "same_outside (unat frame div 4096) s (write_words frame (at_offset a) ws s)"
  using assms(2)
proof (induction ws arbitrary: a s)
  case (Cons w ws)
  have "at_offset a + 8 = at_offset (a + 8)"
    by (simp add: at_offset_def)
  moreover have "same_outside (unat frame div 4096) s (stack_write frame (at_offset a) (to_le 8 w) s)"
    using Cons.prems by (intro same_outside_write [OF assms(1)]) simp
  moreover have "a + 8 + 8 * length ws \<le> 4096"
    using Cons.prems by simp
  ultimately show ?case
    using same_outside_trans Cons.IH by fastforce
qed (simp add: same_outside_def)

text \<open>Moving the cursor down.\<close>

lemma checked_sub_offset:
  assumes "c \<le> 4096" and "n \<le> 4096"
  shows "checked_sub (at_offset c) (of_nat n) = Some (if n \<le> c then at_offset (c - n) else stack_page - of_nat (n - c))"
    "n \<le> c \<Longrightarrow> \<not> at_offset (c - n) < stack_page" "c < n \<Longrightarrow> stack_page - of_nat (n - c) < stack_page"
proof -
  have n: "unat (of_nat n :: u64) = n"
    using assms(2) by (intro unat_of_nat_u64) linarith
  have le: "of_nat n \<le> at_offset c"
    using assms unat_at_offset [of c] n by (simp add: word_le_nat_alt)
  show "checked_sub (at_offset c) (of_nat n) = Some (if n \<le> c then at_offset (c - n) else stack_page - of_nat (n - c))"
    using le by (simp add: checked_sub_def at_offset_def of_nat_diff)
  show "n \<le> c \<Longrightarrow> \<not> at_offset (c - n) < stack_page"
    using unat_at_offset [of "c - n"] assms(1) by (simp add: word_less_nat_alt at_offset_base)
  have d: "unat (of_nat (n - c) :: u64) = n - c"
    using assms(2) by (intro unat_of_nat_u64) linarith
  then have "of_nat (n - c) \<le> stack_page"
    using assms(2) by (simp add: word_le_nat_alt at_offset_base)
  then show "c < n \<Longrightarrow> stack_page - of_nat (n - c) < stack_page"
    using d by (simp add: word_less_nat_alt unat_sub at_offset_base)
qed

definition strings_size :: "str list \<Rightarrow> nat" where
  "strings_size vs = sum_list (map (\<lambda>v. length v + 1) vs)"

lemma strings_size_simps [simp]: "strings_size [] = 0" "strings_size (v # vs) = length v + 1 + strings_size vs"
  "strings_size (vs @ ws) = strings_size vs + strings_size ws" "strings_size (rev vs) = strings_size vs"
  by (simp_all add: strings_size_def rev_map [symmetric] sum_list_rev)

definition string_at :: "'a kernel_scheme \<Rightarrow> u64 \<Rightarrow> str \<Rightarrow> nat \<Rightarrow> bool" where
  "string_at s frame v p \<longleftrightarrow> p + length v < 4096 \<and> (\<forall>k < length v. page_byte s frame (p + k) = v ! k) \<and>
     page_byte s frame (p + length v) = 0"

lemma string_at_keep:
  assumes "string_at s frame v p" and "c \<le> p" and "\<And>k. c \<le> k \<Longrightarrow> k < 4096 \<Longrightarrow> page_byte s' frame k = page_byte s frame k"
  shows "string_at s' frame v p"
  using assms by (auto simp: string_at_def)

lemma place_strings_spec:
  assumes al: "page_aligned frame" and "c \<le> 4096" "strings_size vs \<le> c" "\<forall>v \<in> set vs. length v \<le> 255" "\<And>k. k < c \<Longrightarrow> page_byte s frame k = 0"
  shows "\<exists>ps s'. place_strings frame vs (at_offset c) ptrs s =
      (Some (at_offset (c - strings_size vs), ptrs @ map at_offset ps), s') \<and>
    list_all2 (\<lambda>v p. string_at s' frame v p \<and> c - strings_size vs \<le> p) vs ps \<and>
    (\<forall>k < c - strings_size vs. page_byte s' frame k = 0) \<and>
    (\<forall>k. c \<le> k \<longrightarrow> k < 4096 \<longrightarrow> page_byte s' frame k = page_byte s frame k) \<and>
    same_outside (unat frame div 4096) s s'"
  using assms(2-)
proof (induction vs arbitrary: c ptrs s)
  case Nil
  then show ?case by (simp add: same_outside_def)
next
  case (Cons v vs)
  define p where "p = c - (length v + 1)"
  have len: "length v \<le> 255" "length v + 1 \<le> c"
    using Cons.prems by auto
  define s1 where "s1 = stack_write frame (at_offset p) v s"
  have b: "page_byte s1 frame k = (if p \<le> k \<and> k < p + length v then v ! (k - p) else page_byte s frame k)" if "k < 4096" for k
  proof -
    have "p + length v \<le> 4096"
      using len Cons.prems(1) by (simp add: p_def)
    then show ?thesis
      unfolding s1_def using page_byte_write that by blast
  qed
  have fit: "p \<le> 4096" "strings_size vs \<le> p" "\<forall>v \<in> set vs. length v \<le> 255"
    using Cons.prems len by (auto simp: p_def)
  have zeros: "page_byte s1 frame k = 0" if "k < p" for k
    using that b [of k] fit(1) Cons.prems(1,4) by (simp add: p_def)
  obtain ps s' where ih: "place_strings frame vs (at_offset p) (ptrs @ [at_offset p]) s1 =
      (Some (at_offset (p - strings_size vs), (ptrs @ [at_offset p]) @ map at_offset ps), s')"
    "list_all2 (\<lambda>v q. string_at s' frame v q \<and> p - strings_size vs \<le> q) vs ps"
    "\<forall>k < p - strings_size vs. page_byte s' frame k = 0"
    "\<forall>k. p \<le> k \<longrightarrow> k < 4096 \<longrightarrow> page_byte s' frame k = page_byte s1 frame k"
    "same_outside (unat frame div 4096) s1 s'"
    using Cons.IH [OF fit zeros, of "ptrs @ [at_offset p]"] by blast
  have size: "c - strings_size (v # vs) = p - strings_size vs"
    by (simp add: p_def)
  have sub: "checked_sub (at_offset c) (of_nat (length v) + 1) = Some (at_offset p)" "\<not> at_offset p < stack_page"
    using checked_sub_offset [OF Cons.prems(1), of "length v + 1"] len by (simp_all add: p_def add.commute)
  have "place_strings frame (v # vs) (at_offset c) ptrs s =
      (Some (at_offset (c - strings_size (v # vs)), ptrs @ map at_offset (p # ps)), s')"
    using ih(1) sub len(1) size by (simp add: s1_def)
  moreover have "string_at s1 frame v p"
    using b Cons.prems(1,4) len by (auto simp: string_at_def p_def)
  then have "string_at s' frame v p"
    by (rule string_at_keep [of _ _ _ _ p]) (use ih(4) in auto)
  then have "list_all2 (\<lambda>w q. string_at s' frame w q \<and> c - strings_size (v # vs) \<le> q) (v # vs) (p # ps)"
    unfolding size using ih(2) by simp
  moreover have "page_byte s' frame k = page_byte s frame k" if "c \<le> k" "k < 4096" for k
  proof -
    have "p \<le> k" "\<not> k < p + length v"
      using that(1) len by (simp_all add: p_def)
    then show ?thesis
      using that ih(4) b [of k] by simp
  qed
  moreover have "same_outside (unat frame div 4096) s s'"
    using same_outside_trans [OF _ ih(5)] same_outside_write [OF al, of p v s] len Cons.prems(1) by (simp add: s1_def p_def)
  moreover have "\<forall>k < c - strings_size (v # vs). page_byte s' frame k = 0"
    unfolding size using ih(3) .
  ultimately show ?case
    by blast
qed

lemma write_words_spec:
  assumes "a + 8 * length ws \<le> 4096" and "k < 4096"
  shows "page_byte (write_words frame (at_offset a) ws s) frame k =
    (if a \<le> k \<and> k < a + 8 * length ws then concat (map (to_le 8) ws) ! (k - a) else page_byte s frame k)"
  using assms
proof (induction ws arbitrary: a s)
  case (Cons w ws)
  have next_at: "at_offset a + 8 = at_offset (a + 8)"
    by (simp add: at_offset_def)
  have b: "page_byte (stack_write frame (at_offset a) (to_le 8 w) s) frame k =
      (if a \<le> k \<and> k < a + 8 then to_le 8 w ! (k - a) else page_byte s frame k)"
    using page_byte_write [of a "to_le 8 w" k frame s] Cons.prems by simp
  show ?case
    using Cons.IH [of "a + 8" "stack_write frame (at_offset a) (to_le 8 w) s"] Cons.prems b
    by (auto simp: next_at nth_append)
qed auto

definition args_fit :: "str list \<Rightarrow> str list \<Rightarrow> bool" where
  "args_fit argv env \<longleftrightarrow> list_all (\<lambda>v. length v \<le> 255) (argv @ env) \<and>
     strings_size argv + strings_size env + 8 * (length argv + length env + 5) \<le> 4096"

lemma align_offset:
  assumes "k \<le> 4096"
  shows "at_offset k AND NOT 0xF = at_offset (k div 16 * 16)"
proof -
  have m: "(0xF :: u64) = mask 4"
    by (simp add: mask_eq_exp_minus_1)
  have "unat (at_offset k AND NOT 0xF) = (140737488347136 + k) div 16 * 16"
    unfolding m using unat_and_not_mask [of "at_offset k" 4] unat_at_offset [OF assms] by simp
  also have "\<dots> = 140737488347136 + k div 16 * 16"
    using div_mult_self1 [of 16 k 8796093021696] by (simp add: add.commute)
  also have "\<dots> = unat (at_offset (k div 16 * 16))"
    using unat_at_offset [of "k div 16 * 16"] assms by simp
  finally show ?thesis
    by (simp only: word_unat_eq_iff)
qed

lemma align_offset_low: "k \<le> 4096 \<Longrightarrow> k mod 16 = 0 \<Longrightarrow> at_offset k AND 0xF = 0"
proof -
  assume k: "k \<le> 4096" "k mod 16 = 0"
  then have "at_offset k AND NOT 0xF = at_offset k"
    using align_offset [of k] by auto
  then have "at_offset k AND 0xF = (at_offset k AND NOT 0xF) AND 0xF"
    by simp
  then show ?thesis
    by (simp add: and.assoc)
qed

lemma length_words: "length (concat (map (to_le 8) ws)) = 8 * length ws"
  by (induction ws) simp_all

lemma fill_stack_spec:
  assumes al: "page_aligned frame" and fit: "args_fit argv env" and zero: "\<And>k. k < 4096 \<Longrightarrow> page_byte s frame k = 0"
  obtains a ap ep s' where "fill_stack frame argv env s = (Some (at_offset a), s')" "a mod 16 = 0"
    "a + 8 * (length argv + length env + 5) \<le> 4096" "list_all2 (string_at s' frame) argv ap" "list_all2 (string_at s' frame) env ep"
    "\<And>k. k < 8 * (length argv + length env + 5) \<Longrightarrow> page_byte s' frame (a + k) =
      concat (map (to_le 8) (stack_words argv (map at_offset ap) (map at_offset ep))) ! k"
    "same_outside (unat frame div 4096) s s'"
proof -
  define c1 where "c1 = 4096 - strings_size argv"
  define c2 where "c2 = c1 - strings_size env"
  define n where "n = length argv + length env + 5"
  have fits: "\<forall>v \<in> set (rev argv). length v \<le> 255" "\<forall>v \<in> set (rev env). length v \<le> 255" "strings_size argv \<le> 4096"
    "strings_size env \<le> c1" "8 * n \<le> c2"
    using fit by (auto simp: args_fit_def list_all_iff c1_def c2_def n_def)
  obtain ps1 s1 where p1: "place_strings frame (rev argv) (at_offset 4096) [] s = (Some (at_offset c1, map at_offset ps1), s1)"
    "list_all2 (\<lambda>v p. string_at s1 frame v p \<and> c1 \<le> p) (rev argv) ps1" "\<forall>k < c1. page_byte s1 frame k = 0"
    "same_outside (unat frame div 4096) s s1"
    using place_strings_spec [OF al, of 4096 "rev argv" s "[]"] fits(1,3) zero by (auto simp: c1_def)
  have c1: "c1 \<le> 4096" "strings_size (rev env) \<le> c1"
    using fits(4) by (simp_all add: c1_def)
  obtain ps2 s2 where p2: "place_strings frame (rev env) (at_offset c1) [] s1 = (Some (at_offset c2, map at_offset ps2), s2)"
    "list_all2 (\<lambda>v p. string_at s2 frame v p \<and> c2 \<le> p) (rev env) ps2"
    "\<forall>k. c1 \<le> k \<longrightarrow> k < 4096 \<longrightarrow> page_byte s2 frame k = page_byte s1 frame k"
    "same_outside (unat frame div 4096) s1 s2"
    using place_strings_spec [OF al c1 fits(2), of s1 "[]"] p1(3) by (auto simp: c2_def)
  have argv2: "list_all2 (\<lambda>v p. string_at s2 frame v p \<and> c2 \<le> p) (rev argv) ps1"
    using p1(2) by (rule list_all2_mono) (use p2(3) in \<open>auto simp: c2_def intro: string_at_keep\<close>)
  define ws where "ws = stack_words argv (map at_offset (rev ps1)) (map at_offset (rev ps2))"
  have len: "length ws = n"
    using list_all2_lengthD [OF p1(2)] list_all2_lengthD [OF p2(2)] by (simp add: ws_def stack_words_def n_def)
  define a where "a = (c2 - 8 * n) div 16 * 16"
  have a: "a \<le> c2 - 8 * n" "a mod 16 = 0" "a + 8 * n \<le> c2" "c2 \<le> 4096"
    using fits(5) by (auto simp: a_def c2_def c1_def)
  define s3 where "s3 = write_words frame (at_offset a) ws s2"
  have b: "page_byte s3 frame k = (if a \<le> k \<and> k < a + 8 * n then concat (map (to_le 8) ws) ! (k - a) else page_byte s2 frame k)"
    if "k < 4096" for k
    unfolding s3_def using write_words_spec [of a ws k frame s2] that a len by auto
  have keep: "list_all2 (string_at s3 frame) vs ps" if "list_all2 (\<lambda>v p. string_at s2 frame v p \<and> c2 \<le> p) vs ps" for vs ps
    using that by (rule list_all2_mono) (use b a in \<open>auto intro!: string_at_keep [of s2 frame _ _ c2]\<close>)
  have sub: "checked_sub (at_offset c2) (of_nat n * 8) = Some (at_offset (c2 - 8 * n))"
    using checked_sub_offset(1) [of c2 "8 * n"] fits(5) a(4) by (simp add: mult.commute)
  have align: "at_offset (c2 - 8 * n) AND NOT 0xF = at_offset a" "\<not> at_offset a < stack_page"
    using align_offset [of "c2 - 8 * n"] a unat_at_offset [of a] by (simp_all add: a_def word_less_nat_alt at_offset_base)
  have "fill_stack frame argv env s = (Some (at_offset a), s3)"
    using p1(1) p2(1) sub align len
    by (simp add: fill_stack_def at_offset_top [symmetric] Let_def ws_def [symmetric] rev_map s3_def)
  moreover have "page_byte s3 frame (a + k) = concat (map (to_le 8) ws) ! k" if "k < 8 * n" for k
    using b [of "a + k"] that a by simp
  moreover have "same_outside (unat frame div 4096) s s3"
    using same_outside_trans [OF same_outside_trans [OF p1(4) p2(4)]] same_outside_words [OF al, of a ws s2] a len
    by (simp add: s3_def)
  ultimately show thesis
    using that [of a s3 "rev ps1" "rev ps2"] a keep [OF argv2] keep [OF p2(2)]
    by (simp add: n_def ws_def list_all2_rev1 [symmetric])
qed

text \<open>So no translation changes.\<close>

lemma walk_same_outside:
  assumes "vm_ok s root" and "data_frame s root f" and "same_outside f s s'"
  shows "walk s' root v = walk s root v"
proof -
  have "vm_inv (mem s) root {f}"
    using assms(1,2) unfolding vm_ok_def vm_inv_def data_frame_def by blast
  then show ?thesis
    by (rule walk_outside) (use assms(3) in \<open>auto simp: same_outside_def\<close>)
qed

text \<open>What a program sees at an address.\<close>

definition sees :: "'a kernel_scheme \<Rightarrow> u64 \<Rightarrow> u64 \<Rightarrow> u8 list \<Rightarrow> bool" where
  "sees s root va bytes \<longleftrightarrow>
     (\<forall>k < length bytes. map_option (mem_byte (mem s)) (walk s root (va + of_nat k)) = Some (bytes ! k))"

lemma at_offset_page:
  assumes "k < 4096"
  shows "same_page (at_offset k) (stack_va 0)" "at_offset k AND (PAGE_SIZE - 1) = of_nat k"
proof -
  have u: "unat (at_offset k) = 34359738366 * 4096 + k"
    using unat_at_offset [of k] assms by simp
  have "unat (at_offset k) div 4096 = 34359738366"
    unfolding u using assms by simp
  then show "same_page (at_offset k) (stack_va 0)"
    using stack_va_facts [of 0] by (simp add: same_page_number)
  have "unat (at_offset k AND (PAGE_SIZE - 1)) = k"
    using unat_and_page_mask [of "at_offset k"] mod_mult_self3 [of 34359738366 4096 k] u assms by (simp only: mod_less) simp
  then show "at_offset k AND (PAGE_SIZE - 1) = of_nat k"
    using unat_of_nat_u64 [of k] assms by (simp add: word_unat_eq_iff)
qed

lemma sees_page:
  assumes "\<And>v. same_page v (stack_va 0) \<Longrightarrow> walk s root v = Some (frame + (v AND (PAGE_SIZE - 1)))"
    and "p + length bytes \<le> 4096" and "\<And>k. k < length bytes \<Longrightarrow> page_byte s frame (p + k) = bytes ! k"
  shows "sees s root (at_offset p) bytes"
  unfolding sees_def
proof (intro allI impI)
  fix k assume k: "k < length bytes"
  then have pk: "p + k < 4096"
    using assms(2) by simp
  have "at_offset p + of_nat k = at_offset (p + k)"
    by (simp add: at_offset_def)
  then show "map_option (mem_byte (mem s)) (walk s root (at_offset p + of_nat k)) = Some (bytes ! k)"
    using assms(1) [OF at_offset_page(1) [OF pk]] at_offset_page(2) [OF pk] assms(3) [OF k] by (simp add: page_byte_def)
qed

lemma string_at_sees:
  assumes "\<And>v. same_page v (stack_va 0) \<Longrightarrow> walk s root v = Some (frame + (v AND (PAGE_SIZE - 1)))" and "string_at s frame v p"
  shows "sees s root (at_offset p) (v @ [0])"
  using assms(2) by (intro sees_page [OF assms(1)]) (auto simp: string_at_def nth_append less_Suc_eq)

section \<open>Properties\<close>

text \<open>C18. The first stack of a process: when the strings fit in a page and there is memory, \<open>build_stack\<close> succeeds; the new
  stack pointer is aligned to 16 bytes; and the program finds there, through its own page tables, the number of arguments,
  the pointers to them, a null, the pointers to the environment, a null and the empty auxiliary vector, where every
  pointer leads to its string and a terminating zero. All pages of the stack are mapped, and no other translation changes.\<close>

theorem build_stack_correct:
  assumes "vm_ok s (pml4_phys asp)" and "64 \<le> card (kernel_free s)" and "args_fit argv env"
    and "\<forall>i < 16. walk s (pml4_phys asp) (stack_va i) = None"
  shows "\<exists>sp s' ap ep. build_stack s asp argv env = Some (Some sp, s') \<and> sp AND 0xF = 0 \<and>
    sees s' (pml4_phys asp) sp (concat (map (to_le 8) ([of_nat (length argv)] @ ap @ [0] @ ep @ [0, 0, 0]))) \<and>
    list_all2 (\<lambda>v p. sees s' (pml4_phys asp) p (v @ [0])) argv ap \<and>
    list_all2 (\<lambda>v p. sees s' (pml4_phys asp) p (v @ [0])) env ep \<and>
    (\<forall>i < 16. walk s' (pml4_phys asp) (stack_va i) \<noteq> None) \<and>
    (\<forall>v. (\<forall>i < 16. \<not> same_page v (stack_va i)) \<longrightarrow> walk s' (pml4_phys asp) v = walk s (pml4_phys asp) v)"
proof -
  let ?root = "pml4_phys asp"
  obtain f s1 where m: "map_user_stack s asp [0..<USER_STACK_PAGES] 0 = Some (Some f, s1)" "vm_ok s1 ?root" "page_aligned f"
    "data_frame s1 ?root (unat f div 4096)" "\<And>k. k < 4096 \<Longrightarrow> mem_byte (mem s1) (f + of_nat k) = 0"
    "\<And>v. same_page v (stack_va 0) \<Longrightarrow> walk s1 ?root v = Some (f + (v AND (PAGE_SIZE - 1)))"
    "\<And>i. i < 16 \<Longrightarrow> walk s1 ?root (stack_va i) \<noteq> None"
    "\<And>v. (\<forall>i < 16. \<not> same_page v (stack_va i)) \<Longrightarrow> walk s1 ?root v = walk s ?root v"
    by (rule map_user_stack_spec [OF assms(1,2,4)]) blast
  have zero: "page_byte s1 f k = 0" if "k < 4096" for k
    using m(5) that by (simp add: page_byte_def)
  obtain a ap ep s' where fill: "fill_stack f argv env s1 = (Some (at_offset a), s')" "a mod 16 = 0"
    "a + 8 * (length argv + length env + 5) \<le> 4096" "list_all2 (string_at s' f) argv ap" "list_all2 (string_at s' f) env ep"
    "\<And>k. k < 8 * (length argv + length env + 5) \<Longrightarrow> page_byte s' f (a + k) =
      concat (map (to_le 8) (stack_words argv (map at_offset ap) (map at_offset ep))) ! k"
    "same_outside (unat f div 4096) s1 s'"
    by (rule fill_stack_spec [OF m(3) assms(3)]) (erule zero, rule that)
  have walk: "walk s' ?root v = walk s1 ?root v" for v
    by (rule walk_same_outside [OF m(2,4) fill(7)])
  have top: "walk s' ?root v = Some (f + (v AND (PAGE_SIZE - 1)))" if "same_page v (stack_va 0)" for v
    using m(6) [OF that] walk by simp
  let ?ws = "stack_words argv (map at_offset ap) (map at_offset ep)"
  have len: "length (concat (map (to_le 8) ?ws)) = 8 * (length argv + length env + 5)"
    using list_all2_lengthD [OF fill(4)] list_all2_lengthD [OF fill(5)] unfolding length_words by (simp add: stack_words_def)
  have "sees s' ?root (at_offset a) (concat (map (to_le 8) ?ws))"
    using fill(3,6) len by (intro sees_page [OF top]) simp_all
  moreover have strings: "list_all2 (\<lambda>v p. sees s' ?root p (v @ [0])) vs (map at_offset ps)"
    if "list_all2 (string_at s' f) vs ps" for vs ps
    using that string_at_sees [OF top] by (auto simp: list_all2_conv_all_nth)
  moreover have "build_stack s asp argv env = Some (Some (at_offset a), s')"
    using m(1) fill(1) by (simp add: build_stack_def)
  moreover have "at_offset a AND 0xF = 0"
    using align_offset_low [of a] fill(2,3) by simp
  ultimately show ?thesis
    using strings [OF fill(4)] strings [OF fill(5)] m(7,8) walk unfolding stack_words_def
    by (intro exI [of _ "at_offset a"] exI [of _ s'] exI [of _ "map at_offset ap"] exI [of _ "map at_offset ep"]) simp
qed

theorem build_stack_correct_witness:
  "\<exists>sp s' p. build_stack sched_kernel \<lparr>pml4_phys = 0x1000\<rparr> [[0x2F, 0x61], [0x62]] [] = Some (Some sp, s') \<and> sp AND 0xF = 0 \<and>
    sees s' 0x1000 p [0x62, 0] \<and> walk s' 0x1000 0x00007FFFFFFFE000 \<noteq> None"
proof -
  have walk: "walk sched_kernel 0x1000 v = None" for v
    by (simp add: walk_def read_entry_def sched_kernel_frames Let_def PRESENT_iff)
  have "vm_ok sched_kernel (pml4_phys \<lparr>pml4_phys = 0x1000\<rparr>)" "64 \<le> card (kernel_free sched_kernel)"
    "args_fit [[0x2F, 0x61], [0x62]] []" "\<forall>i < 16. walk sched_kernel (pml4_phys \<lparr>pml4_phys = 0x1000\<rparr>) (stack_va i) = None"
    using sched_kernel_ok walk by (simp_all add: sched_kernel_frames args_fit_def)
  from build_stack_correct [OF this] obtain sp s' ap ep where
    r: "build_stack sched_kernel \<lparr>pml4_phys = 0x1000\<rparr> [[0x2F, 0x61], [0x62]] [] = Some (Some sp, s')" "sp AND 0xF = 0"
      "list_all2 (\<lambda>v p. sees s' 0x1000 p (v @ [0])) [[0x2F, 0x61], [0x62]] ap" "\<forall>i < 16. walk s' 0x1000 (stack_va i) \<noteq> None"
    by auto
  have "walk s' 0x1000 (stack_va 0) \<noteq> None"
    using r(4) by simp
  moreover have "\<exists>p. sees s' 0x1000 p [0x62, 0]"
    using r(3) by (auto simp: list_all2_Cons1)
  ultimately show ?thesis
    using r(1,2) by (auto simp: stack_va_def USER_STACK_TOP_def)
qed

text \<open>A record is found by its number, and only it.\<close>

lemma record_exit_known:
  assumes "procs_ok procs n" and "r \<in> set procs"
  obtains i where "i < length procs" "procs ! i = r" "record_exit (pid r) code procs = procs[i := r\<lparr>status := Some code\<rparr>]"
proof -
  obtain i where i: "position (\<lambda>x. pid x = pid r) procs = Some i"
    using assms(2) by (cases "position (\<lambda>x. pid x = pid r) procs") (auto simp: position_None)
  note f = position_Some [OF i]
  have "procs ! i = r"
    using assms f by (metis (mono_tags, lifting) nth_mem procs_ok_def distinct_map inj_onD)
  then show ?thesis
    using that [of i] i f by (simp add: record_exit_def)
qed

lemma child_of_number:
  assumes "0 < p" and "p < 2 ^ 64 - 1"
  shows "child_of par (of_nat p) x \<longleftrightarrow> parent x = par \<and> pid x = p"
proof -
  have "unat (of_nat p :: u64) = p"
    using assms by (simp add: unsigned_of_nat take_bit_nat_eq_self)
  moreover have "unat (- 1 :: u64) = 2 ^ 64 - 1"
    by (simp add: unsigned_minus_1_eq_mask mask_eq_exp_minus_1)
  ultimately have "of_nat p \<noteq> (- 1 :: u64)" "of_nat p \<noteq> (0 :: u64)"
    using assms by (metis nat_neq_iff, metis unsigned_0 nat_neq_iff)
  then show ?thesis
    using \<open>unat (of_nat p :: u64) = p\<close> by (simp add: child_of_def)
qed

lemma wait_running:
  assumes "procs_ok procs n" and "r \<in> set procs" and "status r = None" and "0 < pid r" and "pid r < 2 ^ 64 - 1"
  shows "take_child_exit_status (parent r) (of_nat (pid r)) procs = (Inr None, procs)"
proof (cases "take_child_exit_status (parent r) (of_nat (pid r)) procs")
  case (Pair a b)
  have inj: "x = r" if "x \<in> set procs" "pid x = pid r" for x
    using assms(1,2) that by (auto simp: procs_ok_def distinct_map dest: inj_onD)
  note wanted = child_of_number [OF assms(4,5)]
  show ?thesis
  proof (cases rule: take_child_cases [OF Pair])
    case (3 i code)
    then show ?thesis
      using inj [OF nth_mem [OF 3(2)]] wanted assms(3) by simp
  qed (use assms(2) wanted Pair in auto)
qed

lemma wait_exited:
  assumes "procs_ok procs n" and "r \<in> set procs" and "status r = Some code" and "0 < pid r" and "pid r < 2 ^ 64 - 1"
  shows "\<exists>procs'. take_child_exit_status (parent r) (of_nat (pid r)) procs = (Inr (Some (pid r, code)), procs') \<and>
    mset procs = add_mset r (mset procs') \<and> (\<forall>x \<in> set procs'. pid x \<noteq> pid r)"
proof (cases "take_child_exit_status (parent r) (of_nat (pid r)) procs")
  case (Pair a procs')
  have d: "distinct (map pid procs)"
    using assms(1) by (simp add: procs_ok_def)
  note wanted = child_of_number [OF assms(4,5)]
  show ?thesis
  proof (cases rule: take_child_cases [OF Pair])
    case (3 j c)
    have j: "procs ! j = r"
      using inj_onD [of pid "set procs" "procs ! j" r] d nth_mem [OF 3(2)] 3(3) wanted assms(2) by (simp add: distinct_map)
    have "mset procs = add_mset r (mset procs')"
      using mset_swap_remove [OF 3(2)] 3(5) j by simp
    moreover have "pid r \<notin> pid ` set procs'"
      using distinct_map_swap_remove(2) [OF 3(2) d] 3(5) j by simp
    then have "\<forall>x \<in> set procs'. pid x \<noteq> pid r"
      by (metis imageI)
    ultimately show ?thesis
      using Pair 3(1,4) j assms(3) by auto
  qed (use assms(2,3) wanted in auto)
qed

lemma wait_none:
  assumes "\<forall>x \<in> set procs. pid x \<noteq> p" and "0 < p" and "p < 2 ^ 64 - 1"
  shows "take_child_exit_status par (of_nat p) procs = (Inl (), procs)"
proof (cases "take_child_exit_status par (of_nat p) procs")
  case (Pair a b)
  show ?thesis
    by (cases rule: take_child_cases [OF Pair]) (use assms(1) child_of_number [OF assms(2,3)] Pair nth_mem in auto)
qed

text \<open>C19. Exiting and waiting: while a child runs, asking for its status leaves the table alone and reports that there is
  none yet; once it has exited, the parent receives the number and the code of exactly that child, its record and no other
  leaves the table, and a second request finds no such child.\<close>

theorem exit_wait_roundtrip:
  assumes "procs_ok procs n" and "r \<in> set procs" and "status r = None" and "0 < pid r" and "pid r < 2 ^ 64 - 1"
  shows "take_child_exit_status (parent r) (of_nat (pid r)) procs = (Inr None, procs) \<and>
    (\<exists>procs'. take_child_exit_status (parent r) (of_nat (pid r)) (record_exit (pid r) code procs) =
        (Inr (Some (pid r, code)), procs') \<and>
      mset procs = add_mset r (mset procs') \<and>
      take_child_exit_status (parent r) (of_nat (pid r)) procs' = (Inl (), procs'))"
proof -
  let ?r = "r\<lparr>status := Some code\<rparr>"
  obtain i where i: "i < length procs" "procs ! i = r" and e: "record_exit (pid r) code procs = procs[i := ?r]"
    by (rule record_exit_known [OF assms(1,2)])
  have "pid r < n"
    using assms(1,2) by (auto simp: procs_ok_def)
  then have "procs_ok (procs[i := ?r]) n"
    using record_exit_ok [OF assms(1)] e by metis
  then obtain procs' where w: "take_child_exit_status (parent r) (of_nat (pid r)) (procs[i := ?r]) = (Inr (Some (pid r, code)), procs')"
    "mset (procs[i := ?r]) = add_mset ?r (mset procs')" "\<forall>x \<in> set procs'. pid x \<noteq> pid r"
    using wait_exited [of "procs[i := ?r]" n ?r code] set_update_memI [OF i(1), of ?r] assms(4,5) by auto
  have "mset (procs[i := ?r]) = add_mset ?r (mset procs - {#r#})"
    using i by (simp add: mset_update)
  then have "mset procs = add_mset r (mset procs')"
    using w(2) assms(2) by simp
  then show ?thesis
    using wait_running [OF assms] w(1) wait_none [OF w(3) assms(4,5), of "parent r"] e by auto
qed

theorem exit_wait_roundtrip_witness:
  "\<exists>procs'. take_child_exit_status 1 3 (record_exit 3 7
       [\<lparr>pid = 2, parent = 1, pname = [], status = None\<rparr>, \<lparr>pid = 3, parent = 1, pname = [], status = None\<rparr>,
        \<lparr>pid = 4, parent = 3, pname = [], status = None\<rparr>]) = (Inr (Some (3, 7)), procs') \<and> size (mset procs') = 2"
proof -
  let ?r = "\<lparr>pid = 3, parent = 1, pname = [], status = None\<rparr>"
  let ?procs = "[\<lparr>pid = 2, parent = 1, pname = [], status = None\<rparr>, ?r, \<lparr>pid = 4, parent = 3, pname = [], status = None\<rparr>]"
  have "procs_ok ?procs 5" "?r \<in> set ?procs" "status ?r = None" "0 < pid ?r" "pid ?r < 2 ^ 64 - 1"
    by (simp_all add: procs_ok_def)
  from exit_wait_roundtrip [OF this, of 7] obtain procs' where
    "take_child_exit_status 1 3 (record_exit 3 7 ?procs) = (Inr (Some (3, 7)), procs')" "mset ?procs = add_mset ?r (mset procs')"
    by auto
  moreover have "size (mset procs') = 2"
    using arg_cong [OF calculation(2), of size] by simp
  ultimately show ?thesis
    by blast
qed

end
