(* ===== verification/LineEdit.thy ===== *)
theory LineEdit
  imports Text
begin

text \<open>
  The line discipline of the terminal, \<open>read_line\<close> of \<open>src/syscall.rs\<close>: editing of a line with the cursor keys, and the
  history of lines.

  \<open>next_byte\<close> waits for a byte from one of the input devices. Here the bytes that arrive are a list: a call that needs
  more of them than there are is \<open>Blocked\<close>. Only one thread at a time is in \<open>read_line\<close> (\<open>TERMINAL_READER\<close>), so nothing
  else changes the history meanwhile. The text the call writes to the console and the serial port is collected in \<open>echo\<close>. An index out of range
  is \<open>Panicked\<close>.
\<close>

definition HISTORY_CAP :: nat where "HISTORY_CAP = 32"

datatype edit_action = ActUp | ActDown | ActLeft | ActRight | ActHome | ActEnd | ActDelete | ActUnknown

datatype 'a outcome = Blocked | Panicked | Finished 'a

record editor =
  line :: "u8 list"
  cursor :: nat
  history_pos :: "nat option"
  HISTORY :: "u8 list list"
  echo :: "u8 list"

section \<open>Escape sequences\<close>

fun decode_escape :: "u8 list \<Rightarrow> (edit_action \<times> u8 list) option" where
  "decode_escape [] = None"
| "decode_escape (a # input) =
     (if a \<noteq> 0x5B then Some (ActUnknown, input)
      else case input of
          [] \<Rightarrow> None
        | b # input \<Rightarrow>
            if b = 0x41 then Some (ActUp, input)
            else if b = 0x42 then Some (ActDown, input)
            else if b = 0x43 then Some (ActRight, input)
            else if b = 0x44 then Some (ActLeft, input)
            else if b = 0x48 then Some (ActHome, input)
            else if b = 0x46 then Some (ActEnd, input)
            else if b = 0x33 then (case input of [] \<Rightarrow> None | _ # input \<Rightarrow> Some (ActDelete, input))
            else Some (ActUnknown, input))"

section \<open>Output\<close>

definition console_write :: "u8 list \<Rightarrow> editor \<Rightarrow> editor" where
  "console_write bytes e = e\<lparr>echo := echo e @ utf8_lossy bytes\<rparr>"

function itoa_digits :: "nat \<Rightarrow> u8 list \<Rightarrow> u8 list" where
  "itoa_digits n digits = (if n > 0 then itoa_digits (n div 10) (digits @ [0x30 + of_nat (n mod 10)]) else digits)"
  by pat_completeness auto
termination
  by (relation "measure fst") auto

declare itoa_digits.simps [simp del]

definition itoa :: "nat \<Rightarrow> str" where
  "itoa n = (if n = 0 then [0x30] else rev (itoa_digits n []))"

definition term_cursor_left :: "nat \<Rightarrow> editor \<Rightarrow> editor" where
  "term_cursor_left n e = (if n = 0 then e else console_write ([0x1B, 0x5B] @ itoa n @ [0x44]) e)"

definition redraw_tail :: "nat \<Rightarrow> nat \<Rightarrow> editor \<Rightarrow> editor option" where
  "redraw_tail from cur e =
     (if from \<le> length (line e) \<and> cur \<le> length (line e)
      then Some (term_cursor_left (length (line e) - cur + 1) (console_write [0x20] (console_write (drop from (line e)) e)))
      else None)"

definition replace_line :: "u8 list \<Rightarrow> editor \<Rightarrow> editor" where
  "replace_line new_line e =
     (let e = term_cursor_left (cursor e) e;
          e = fold (\<lambda>_. console_write [0x20]) [0..<length (line e)] e;
          e = term_cursor_left (length (line e)) e;
          e = console_write new_line e
      in e\<lparr>line := new_line, cursor := length new_line\<rparr>)"

section \<open>Editing\<close>

definition remove_at :: "nat \<Rightarrow> 'a list \<Rightarrow> 'a list" where
  "remove_at i xs = take i xs @ drop (i + 1) xs"

definition insert_at :: "nat \<Rightarrow> 'a \<Rightarrow> 'a list \<Rightarrow> 'a list" where
  "insert_at i x xs = take i xs @ x # drop i xs"

definition recall :: "nat \<Rightarrow> editor \<Rightarrow> editor option" where
  "recall pos e =
     (if pos < length (HISTORY e) then Some (replace_line (HISTORY e ! pos) (e\<lparr>history_pos := Some pos\<rparr>)) else None)"

fun edit_escape :: "edit_action \<Rightarrow> editor \<Rightarrow> editor option" where
  "edit_escape ActLeft e =
     (if cursor e > 0 then Some (term_cursor_left 1 (e\<lparr>cursor := cursor e - 1\<rparr>)) else Some e)"
| "edit_escape ActRight e =
     (if cursor e < length (line e) then Some ((console_write [line e ! cursor e] e)\<lparr>cursor := cursor e + 1\<rparr>) else Some e)"
| "edit_escape ActHome e = Some ((term_cursor_left (cursor e) e)\<lparr>cursor := 0\<rparr>)"
| "edit_escape ActEnd e =
     (if cursor e \<le> length (line e) then Some ((console_write (drop (cursor e) (line e)) e)\<lparr>cursor := length (line e)\<rparr>) else None)"
| "edit_escape ActDelete e =
     (if cursor e < length (line e) then redraw_tail (cursor e) (cursor e) (e\<lparr>line := remove_at (cursor e) (line e)\<rparr>) else Some e)"
| "edit_escape ActUp e =
     (if HISTORY e = [] then Some e
      else recall (case history_pos e of None \<Rightarrow> length (HISTORY e) - 1 | Some p \<Rightarrow> p - 1) e)"
| "edit_escape ActDown e =
     (case history_pos e of
        None \<Rightarrow> Some e
      | Some p \<Rightarrow>
          if p + 1 < length (HISTORY e) then recall (p + 1) e
          else Some (replace_line [] (e\<lparr>history_pos := None\<rparr>)))"
| "edit_escape ActUnknown e = Some e"

definition edit_backspace :: "editor \<Rightarrow> editor option" where
  "edit_backspace e =
     (if cursor e > 0 then
        if cursor e - 1 < length (line e) then
          redraw_tail (cursor e - 1) (cursor e - 1)
            (console_write [0x08] (e\<lparr>cursor := cursor e - 1, line := remove_at (cursor e - 1) (line e)\<rparr>))
        else None
      else Some e)"

definition edit_insert :: "nat \<Rightarrow> u8 \<Rightarrow> editor \<Rightarrow> editor option" where
  "edit_insert cap b e =
     (if length (line e) + 1 < cap then
        if cursor e = length (line e) then
          Some ((console_write [b] (e\<lparr>line := line e @ [b]\<rparr>))\<lparr>cursor := cursor e + 1\<rparr>)
        else if cursor e \<le> length (line e) then
          let e = e\<lparr>line := insert_at (cursor e) b (line e), cursor := cursor e + 1\<rparr>;
              e = console_write (drop (cursor e - 1) (line e)) e
          in Some (fold (\<lambda>_. console_write [0x08]) [0..<length (line e) - cursor e] e)
        else None
      else Some e)"

text \<open>The end of the line, and the history.\<close>

definition remember :: "u8 list \<Rightarrow> u8 list list \<Rightarrow> u8 list list" where
  "remember ln h =
     (if length ln > 1 then
        let stored = take (length ln - 1) ln in
        if h \<noteq> [] \<and> last h = stored then h
        else (if length h = HISTORY_CAP then tl h else h) @ [stored]
      else h)"

definition end_line :: "nat \<Rightarrow> editor \<Rightarrow> editor" where
  "end_line cap e =
     (let e = console_write [0x0A] e;
          e = (if length (line e) < cap then e\<lparr>line := line e @ [0x0A]\<rparr> else e)
      in e\<lparr>HISTORY := remember (line e) (HISTORY e)\<rparr>)"

lemma decode_escape_shorter: "decode_escape input = Some (act, rest) \<Longrightarrow> length rest < length input"
  by (cases input rule: decode_escape.cases) (auto split: if_splits list.splits)

text \<open>One key: the byte read and, after an escape, what follows it. The result is the state and the rest of the input.\<close>

definition read_key :: "nat \<Rightarrow> editor \<Rightarrow> u8 \<Rightarrow> u8 list \<Rightarrow> (editor \<times> u8 list) outcome" where
  "read_key cap e b input =
     (if b = 0x1B then
        (case decode_escape input of
           None \<Rightarrow> Blocked
         | Some (act, input) \<Rightarrow> (case edit_escape act e of None \<Rightarrow> Panicked | Some e \<Rightarrow> Finished (e, input)))
      else if b = 0x08 \<or> b = 0x7F then (case edit_backspace e of None \<Rightarrow> Panicked | Some e \<Rightarrow> Finished (e, input))
      else (case edit_insert cap b e of None \<Rightarrow> Panicked | Some e \<Rightarrow> Finished (e, input)))"

lemma read_key_shorter: "read_key cap e b input = Finished (e', rest) \<Longrightarrow> length rest \<le> length input"
  by (auto simp: read_key_def dest: decode_escape_shorter split: if_splits option.splits)

function read_loop :: "nat \<Rightarrow> editor \<Rightarrow> u8 list \<Rightarrow> (editor \<times> u8 list) outcome" where
  "read_loop cap e [] = Blocked"
| "read_loop cap e (b # input) =
     (if b = 0x0D \<or> b = 0x0A then Finished (end_line cap e, input)
      else case read_key cap e b input of
          Blocked \<Rightarrow> Blocked
        | Panicked \<Rightarrow> Panicked
        | Finished (e, rest) \<Rightarrow> read_loop cap e rest)"
  by pat_completeness auto
termination
  by (relation "measure (\<lambda>(cap, e, input). length input)") (auto dest: read_key_shorter)

declare read_loop.simps(2) [simp del]

definition editor_start :: "u8 list list \<Rightarrow> editor" where
  "editor_start h = \<lparr>line = [], cursor = 0, history_pos = None, HISTORY = h, echo = []\<rparr>"

definition read_line :: "nat \<Rightarrow> u8 list list \<Rightarrow> u8 list \<Rightarrow> (editor \<times> u8 list) outcome" where
  "read_line cap h input = (if cap = 0 then Finished (editor_start h, input) else read_loop cap (editor_start h) input)"

section \<open>The abstract editor\<close>

text \<open>A line is the text before the cursor and the text after it; the place in the history is counted from its end, zero
  for the line being typed.\<close>

record text_edit =
  before :: "u8 list"
  after :: "u8 list"
  older :: nat

fun spec_action :: "u8 list list \<Rightarrow> edit_action \<Rightarrow> text_edit \<Rightarrow> text_edit" where
  "spec_action h ActLeft t = (if before t = [] then t else t\<lparr>before := butlast (before t), after := last (before t) # after t\<rparr>)"
| "spec_action h ActRight t = (case after t of [] \<Rightarrow> t | c # cs \<Rightarrow> t\<lparr>before := before t @ [c], after := cs\<rparr>)"
| "spec_action h ActHome t = t\<lparr>before := [], after := before t @ after t\<rparr>"
| "spec_action h ActEnd t = t\<lparr>before := before t @ after t, after := []\<rparr>"
| "spec_action h ActDelete t = t\<lparr>after := tl (after t)\<rparr>"
| "spec_action h ActUp t =
     (if h = [] then t else let n = min (older t + 1) (length h) in t\<lparr>before := h ! (length h - n), after := [], older := n\<rparr>)"
| "spec_action h ActDown t =
     (if older t = 0 then t
      else t\<lparr>before := (if older t = 1 then [] else h ! (length h - (older t - 1))), after := [], older := older t - 1\<rparr>)"
| "spec_action h ActUnknown t = t"

definition spec_backspace :: "text_edit \<Rightarrow> text_edit" where
  "spec_backspace t = t\<lparr>before := butlast (before t)\<rparr>"

definition spec_insert :: "nat \<Rightarrow> u8 \<Rightarrow> text_edit \<Rightarrow> text_edit" where
  "spec_insert cap b t = (if length (before t) + length (after t) + 1 < cap then t\<lparr>before := before t @ [b]\<rparr> else t)"

definition spec_key :: "nat \<Rightarrow> u8 list list \<Rightarrow> text_edit \<Rightarrow> u8 \<Rightarrow> u8 list \<Rightarrow> (text_edit \<times> u8 list) option" where
  "spec_key cap h t b input =
     (if b = 0x1B then map_option (\<lambda>(act, input). (spec_action h act t, input)) (decode_escape input)
      else if b = 0x08 \<or> b = 0x7F then Some (spec_backspace t, input)
      else Some (spec_insert cap b t, input))"

lemma spec_key_shorter: "spec_key cap h t b input = Some (t', rest) \<Longrightarrow> length rest \<le> length input"
  by (auto simp: spec_key_def dest: decode_escape_shorter split: if_splits)

function spec_line :: "nat \<Rightarrow> u8 list list \<Rightarrow> text_edit \<Rightarrow> u8 list \<Rightarrow> (u8 list \<times> u8 list) option" where
  "spec_line cap h t [] = None"
| "spec_line cap h t (b # input) =
     (if b = 0x0D \<or> b = 0x0A then Some (before t @ after t, input)
      else case spec_key cap h t b input of None \<Rightarrow> None | Some (t, rest) \<Rightarrow> spec_line cap h t rest)"
  by pat_completeness auto
termination
  by (relation "measure (\<lambda>(cap, h, t, input). length input)") (auto dest: spec_key_shorter)

declare spec_line.simps(2) [simp del]

section \<open>The editor refines the abstract one\<close>

definition editor_ok :: "editor \<Rightarrow> bool" where
  "editor_ok e \<longleftrightarrow> cursor e \<le> length (line e) \<and> (\<forall>p. history_pos e = Some p \<longrightarrow> p < length (HISTORY e))"

fun history_age :: "nat \<Rightarrow> nat option \<Rightarrow> nat" where
  "history_age n None = 0"
| "history_age n (Some p) = n - p"

definition abs_edit :: "editor \<Rightarrow> text_edit" where
  "abs_edit e =
     \<lparr>before = take (cursor e) (line e), after = drop (cursor e) (line e),
      older = history_age (length (HISTORY e)) (history_pos e)\<rparr>"

definition edits_to :: "editor option \<Rightarrow> text_edit \<Rightarrow> u8 list list \<Rightarrow> bool" where
  "edits_to r t h \<longleftrightarrow> (\<exists>e. r = Some e \<and> editor_ok e \<and> abs_edit e = t \<and> HISTORY e = h)"

text \<open>Output changes nothing but the echo.\<close>

lemma console_write_keeps [simp]:
  "line (console_write bs e) = line e" "cursor (console_write bs e) = cursor e"
  "history_pos (console_write bs e) = history_pos e" "HISTORY (console_write bs e) = HISTORY e"
  by (simp_all add: console_write_def)

lemma fold_write_keeps [simp]:
  "line (fold (\<lambda>_. console_write bs) xs e) = line e" "cursor (fold (\<lambda>_. console_write bs) xs e) = cursor e"
  "history_pos (fold (\<lambda>_. console_write bs) xs e) = history_pos e" "HISTORY (fold (\<lambda>_. console_write bs) xs e) = HISTORY e"
  by (induction xs arbitrary: e) simp_all

lemma term_cursor_left_keeps [simp]:
  "line (term_cursor_left n e) = line e" "cursor (term_cursor_left n e) = cursor e"
  "history_pos (term_cursor_left n e) = history_pos e" "HISTORY (term_cursor_left n e) = HISTORY e"
  by (simp_all add: term_cursor_left_def)

lemma redraw_tail_edits:
  assumes "from \<le> length (line e)" "cur \<le> length (line e)"
    and "editor_ok e" "abs_edit e = t" "HISTORY e = h"
  shows "edits_to (redraw_tail from cur e) t h"
  using assms by (auto simp: redraw_tail_def edits_to_def editor_ok_def abs_edit_def)

lemma replace_line_fields [simp]:
  "line (replace_line new e) = new" "cursor (replace_line new e) = length new"
  "history_pos (replace_line new e) = history_pos e" "HISTORY (replace_line new e) = HISTORY e"
  by (simp_all add: replace_line_def Let_def)

lemma recall_edits:
  assumes "pos < length (HISTORY e)"
  shows "edits_to (recall pos e)
    \<lparr>before = HISTORY e ! pos, after = [], older = length (HISTORY e) - pos\<rparr> (HISTORY e)"
  using assms by (simp add: recall_def edits_to_def editor_ok_def abs_edit_def)

lemma take_Suc_last: "0 < n \<Longrightarrow> n \<le> length xs \<Longrightarrow> take n xs = take (n - 1) xs @ [xs ! (n - 1)]"
  using take_Suc_conv_app_nth [of "n - 1" xs] by simp

lemma drop_pred: "0 < n \<Longrightarrow> n \<le> length xs \<Longrightarrow> drop (n - 1) xs = xs ! (n - 1) # drop n xs"
  using Cons_nth_drop_Suc [of "n - 1" xs] by simp

lemma edits_toI: "editor_ok e \<Longrightarrow> abs_edit e = t \<Longrightarrow> HISTORY e = h \<Longrightarrow> edits_to (Some e) t h"
  by (simp add: edits_to_def)

lemma edit_left_refines:
  assumes "editor_ok e"
  shows "edits_to (edit_escape ActLeft e) (spec_action h ActLeft (abs_edit e)) (HISTORY e)"
proof (cases "cursor e = 0")
  case True
  then show ?thesis
    using assms by (auto intro!: edits_toI simp: abs_edit_def)
next
  case False
  then have "line e \<noteq> []" and split: "take (cursor e) (line e) = take (cursor e - 1) (line e) @ [line e ! (cursor e - 1)]"
    using assms take_Suc_last [of "cursor e" "line e"] by (auto simp: editor_ok_def)
  then show ?thesis
    using False assms drop_pred [of "cursor e" "line e"]
    by (auto intro!: edits_toI simp: abs_edit_def editor_ok_def)
qed

lemma edit_right_refines:
  assumes "editor_ok e"
  shows "edits_to (edit_escape ActRight e) (spec_action h ActRight (abs_edit e)) (HISTORY e)"
proof (cases "cursor e < length (line e)")
  case True
  then show ?thesis
    using assms Cons_nth_drop_Suc [OF True, symmetric]
    by (auto intro!: edits_toI simp: abs_edit_def editor_ok_def take_Suc_conv_app_nth)
next
  case False
  then show ?thesis
    using assms by (auto intro!: edits_toI simp: abs_edit_def)
qed

lemma edit_ends_refines:
  assumes "editor_ok e"
  shows "edits_to (edit_escape ActHome e) (spec_action h ActHome (abs_edit e)) (HISTORY e)"
    and "edits_to (edit_escape ActEnd e) (spec_action h ActEnd (abs_edit e)) (HISTORY e)"
    and "edits_to (edit_escape ActUnknown e) (spec_action h ActUnknown (abs_edit e)) (HISTORY e)"
  using assms by (auto intro!: edits_toI simp: abs_edit_def editor_ok_def)

lemma edit_delete_refines:
  assumes "editor_ok e"
  shows "edits_to (edit_escape ActDelete e) (spec_action h ActDelete (abs_edit e)) (HISTORY e)"
proof (cases "cursor e < length (line e)")
  case True
  then show ?thesis
    using assms by (auto intro!: redraw_tail_edits simp: editor_ok_def abs_edit_def remove_at_def drop_Suc tl_drop [symmetric])
next
  case False
  then show ?thesis
    using assms by (auto simp: edits_to_def editor_ok_def abs_edit_def)
qed

lemma edit_up_refines:
  assumes "editor_ok e"
  shows "edits_to (edit_escape ActUp e) (spec_action (HISTORY e) ActUp (abs_edit e)) (HISTORY e)"
proof (cases "HISTORY e = []")
  case True
  then show ?thesis
    using assms by (simp add: edits_to_def)
next
  case False
  define pos where "pos = (case history_pos e of None \<Rightarrow> length (HISTORY e) - 1 | Some p \<Rightarrow> p - 1)"
  have less: "pos < length (HISTORY e)"
    using False assms by (auto simp: pos_def editor_ok_def split: option.splits)
  have up: "edit_escape ActUp e = recall pos e"
    using False by (simp add: pos_def)
  have n: "min (older (abs_edit e) + 1) (length (HISTORY e)) = length (HISTORY e) - pos"
    using less False assms by (auto simp: pos_def abs_edit_def editor_ok_def Suc_leI split: option.splits)
  show ?thesis
    using recall_edits [OF less] False less by (simp only: up spec_action.simps Let_def n) (simp add: abs_edit_def)
qed

lemma edit_down_refines:
  assumes "editor_ok e"
  shows "edits_to (edit_escape ActDown e) (spec_action (HISTORY e) ActDown (abs_edit e)) (HISTORY e)"
proof (cases "history_pos e")
  case None
  then show ?thesis
    using assms by (simp add: edits_to_def abs_edit_def)
next
  case (Some p)
  then have p: "p < length (HISTORY e)"
    using assms by (simp add: editor_ok_def)
  show ?thesis
  proof (cases "p + 1 < length (HISTORY e)")
    case True
    then show ?thesis
      using recall_edits [OF True] Some by (auto simp: abs_edit_def)
  next
    case False
    then have "length (HISTORY e) = p + 1"
      using p by simp
    then show ?thesis
      using Some by (simp add: edits_to_def editor_ok_def abs_edit_def)
  qed
qed

lemma edit_escape_refines:
  assumes "editor_ok e"
  shows "edits_to (edit_escape act e) (spec_action (HISTORY e) act (abs_edit e)) (HISTORY e)"
  using edit_left_refines edit_right_refines edit_ends_refines edit_delete_refines edit_up_refines edit_down_refines assms
  by (cases act) (simp_all only:)

lemma edit_backspace_refines:
  assumes "editor_ok e"
  shows "edits_to (edit_backspace e) (spec_backspace (abs_edit e)) (HISTORY e)"
proof (cases "cursor e > 0")
  case True
  then show ?thesis
    using assms
    by (auto intro!: redraw_tail_edits simp: edit_backspace_def spec_backspace_def editor_ok_def abs_edit_def
        remove_at_def butlast_take)
next
  case False
  then show ?thesis
    using assms by (simp add: edit_backspace_def spec_backspace_def edits_to_def abs_edit_def)
qed

lemma edit_insert_refines:
  assumes "editor_ok e"
  shows "edits_to (edit_insert cap b e) (spec_insert cap b (abs_edit e)) (HISTORY e)"
  using assms
  by (auto simp: edit_insert_def spec_insert_def edits_to_def editor_ok_def abs_edit_def insert_at_def Let_def)

lemma read_key_refines:
  assumes "editor_ok e"
  shows "case spec_key cap (HISTORY e) (abs_edit e) b input of
      None \<Rightarrow> read_key cap e b input = Blocked
    | Some (t, rest) \<Rightarrow> \<exists>e'. read_key cap e b input = Finished (e', rest) \<and> editor_ok e' \<and> abs_edit e' = t \<and> HISTORY e' = HISTORY e"
proof -
  have "\<exists>e'. edit_escape act e = Some e' \<and> editor_ok e' \<and> abs_edit e' = spec_action (HISTORY e) act (abs_edit e) \<and> HISTORY e' = HISTORY e"
    for act
    using edit_escape_refines [OF assms, of act] by (simp add: edits_to_def)
  moreover have "\<exists>e'. edit_backspace e = Some e' \<and> editor_ok e' \<and> abs_edit e' = spec_backspace (abs_edit e) \<and> HISTORY e' = HISTORY e"
    using edit_backspace_refines [OF assms] by (simp add: edits_to_def)
  moreover have "\<exists>e'. edit_insert cap b e = Some e' \<and> editor_ok e' \<and> abs_edit e' = spec_insert cap b (abs_edit e) \<and> HISTORY e' = HISTORY e"
    using edit_insert_refines [OF assms] by (simp add: edits_to_def)
  ultimately show ?thesis
    unfolding read_key_def spec_key_def
    by (cases "decode_escape input") (auto split: option.split, (metis option.sel option.distinct(1))+)
qed

definition terminated :: "nat \<Rightarrow> u8 list \<Rightarrow> u8 list" where
  "terminated cap ln = (if length ln < cap then ln @ [0x0A] else ln)"

definition line_of :: "(editor \<times> u8 list) outcome \<Rightarrow> (u8 list \<times> u8 list \<times> u8 list list) outcome" where
  "line_of = map_outcome (\<lambda>(e, rest). (line e, rest, HISTORY e))"

definition finish_line :: "nat \<Rightarrow> u8 list list \<Rightarrow> (u8 list \<times> u8 list) option \<Rightarrow> (u8 list \<times> u8 list \<times> u8 list list) outcome" where
  "finish_line cap h r =
     (case r of
        None \<Rightarrow> Blocked
      | Some (ln, rest) \<Rightarrow> Finished (terminated cap ln, rest, remember (terminated cap ln) h))"

lemma abs_edit_line: "editor_ok e \<Longrightarrow> before (abs_edit e) @ after (abs_edit e) = line e"
  by (simp add: abs_edit_def)

lemma read_loop_refines:
  assumes "editor_ok e"
  shows "line_of (read_loop cap e input) = finish_line cap (HISTORY e) (spec_line cap (HISTORY e) (abs_edit e) input)"
  using assms
proof (induction cap e input rule: read_loop.induct)
  case (1 cap e)
  then show ?case
    by (simp add: line_of_def finish_line_def)
next
  case (2 cap e b input)
  show ?case
  proof (cases "b = 0x0D \<or> b = 0x0A")
    case True
    then show ?thesis
      using abs_edit_line [OF 2(2)]
      by (auto simp: read_loop.simps spec_line.simps line_of_def end_line_def Let_def terminated_def finish_line_def)
  next
    case False
    show ?thesis
    proof (cases "spec_key cap (HISTORY e) (abs_edit e) b input")
      case None
      then show ?thesis
        using False read_key_refines [OF 2(2), of cap b input] by (simp add: read_loop.simps spec_line.simps line_of_def finish_line_def)
    next
      case (Some r)
      obtain t rest where r: "r = (t, rest)"
        by force
      obtain e' where key: "read_key cap e b input = Finished (e', rest)"
        and e': "editor_ok e'" "abs_edit e' = t" "HISTORY e' = HISTORY e"
        using read_key_refines [OF 2(2), of cap b input] Some r by auto
      show ?thesis
        using 2(1) [OF False key refl e'(1)] False key Some r e' by (simp add: read_loop.simps(2) spec_line.simps(2))
    qed
  qed
qed

definition blank_line :: text_edit where
  "blank_line = \<lparr>before = [], after = [], older = 0\<rparr>"

lemma editor_start_ok: "editor_ok (editor_start h)" "abs_edit (editor_start h) = blank_line" "HISTORY (editor_start h) = h"
  by (simp_all add: editor_start_def editor_ok_def abs_edit_def blank_line_def)

section \<open>Lengths and the history\<close>

definition edit_size :: "text_edit \<Rightarrow> nat" where
  "edit_size t = length (before t) + length (after t)"

lemma spec_action_fits:
  assumes "\<forall>x \<in> set h. length x < cap" and "edit_size t < cap" and "older t \<le> length h"
  shows "edit_size (spec_action h act t) < cap \<and> older (spec_action h act t) \<le> length h"
proof -
  have entry: "length (h ! i) < cap" if "i < length h" for i
    using assms(1) that by simp
  show ?thesis
    using assms(2,3)
    by (cases act; cases "before t" rule: rev_cases) (auto simp: edit_size_def Let_def intro!: entry split: list.splits)
qed

lemma spec_key_fits:
  assumes "\<forall>x \<in> set h. length x < cap" and "edit_size t < cap" and "older t \<le> length h"
    and "spec_key cap h t b input = Some (t', rest)"
  shows "edit_size t' < cap \<and> older t' \<le> length h"
  using assms spec_action_fits [OF assms(1-3)]
  by (auto simp: spec_key_def spec_backspace_def spec_insert_def edit_size_def split: if_splits)

lemma spec_line_fits:
  assumes "\<forall>x \<in> set h. length x < cap" and "edit_size t < cap" and "older t \<le> length h"
    and "spec_line cap h t input = Some (ln, rest)"
  shows "length ln < cap"
  using assms
proof (induction cap h t input rule: spec_line.induct)
  case (2 cap h t b input)
  show ?case
  proof (cases "b = 0x0D \<or> b = 0x0A")
    case True
    then show ?thesis
      using 2(3,5) by (auto simp: spec_line.simps edit_size_def)
  next
    case False
    then obtain t' rest' where key: "spec_key cap h t b input = Some (t', rest')" and rest: "spec_line cap h t' rest' = Some (ln, rest)"
      using 2(5) by (auto simp: spec_line.simps split: option.splits)
    then show ?thesis
      using 2(1) [OF False key refl] 2(2) spec_key_fits [OF 2(2-4) key] by simp
  qed
qed simp

definition history_ok :: "u8 list list \<Rightarrow> bool" where
  "history_ok h \<longleftrightarrow> length h \<le> HISTORY_CAP \<and> [] \<notin> set h \<and> distinct_adj h"

lemma distinct_adj_snoc: "distinct_adj xs \<Longrightarrow> xs = [] \<or> last xs \<noteq> x \<Longrightarrow> distinct_adj (xs @ [x])"
  by (auto simp: distinct_adj_append_iff)

lemma distinct_adj_tl: "distinct_adj xs \<Longrightarrow> distinct_adj (tl xs)"
  by (cases xs) (auto dest: distinct_adj_ConsD)

lemma remember_ok:
  assumes "history_ok h"
  shows "history_ok (remember ln h)"
proof -
  have "distinct_adj (tl h @ [x])" if "h = [] \<or> last h \<noteq> x" for x
    using that assms by (intro distinct_adj_snoc distinct_adj_tl) (auto simp: history_ok_def last_tl)
  moreover have "[] \<notin> set (tl h)"
    using assms by (cases h) (auto simp: history_ok_def)
  ultimately show ?thesis
    using assms distinct_adj_snoc [of h]
    by (auto simp: remember_def history_ok_def Let_def HISTORY_CAP_def)
qed

text \<open>Typed bytes without control codes come back as they were typed.\<close>

definition plain :: "u8 \<Rightarrow> bool" where
  "plain b \<longleftrightarrow> b \<notin> {0x08, 0x0A, 0x0D, 0x1B, 0x7F}"

lemma spec_line_typed:
  assumes "list_all plain s" and "length (before t) + length s < cap" and "after t = []"
  shows "spec_line cap h t (s @ 0x0D # rest) = Some (before t @ s, rest)"
  using assms
proof (induction s arbitrary: t)
  case Nil
  then show ?case
    by (simp add: spec_line.simps)
next
  case (Cons b s)
  then show ?case
    by (simp add: spec_line.simps spec_key_def plain_def spec_insert_def)
qed

lemma read_line_typed:
  assumes "list_all plain s" and "length s < cap"
  shows "line_of (read_line cap h (s @ 0x0D # rest)) = Finished (s @ [0x0A], rest, remember (s @ [0x0A]) h)"
  using read_loop_refines [OF editor_start_ok(1), of cap h "s @ 0x0D # rest"] assms
    spec_line_typed [OF assms(1), of blank_line cap h rest]
  by (simp add: read_line_def editor_start_ok blank_line_def finish_line_def terminated_def)

text \<open>The digits of a cursor movement are the decimal digits of its distance.\<close>

lemma itoa_digits_decimal: "0 < n \<Longrightarrow> rev (itoa_digits n acc) = decimal n @ rev acc"
proof (induction n arbitrary: acc rule: less_induct)
  case (less n)
  then show ?case
    by (cases "n < 10") (simp_all add: itoa_digits.simps [of n] decimal.simps [of n] itoa_digits.simps [of 0])
qed

lemma itoa_decimal: "itoa n = decimal n"
  by (simp add: itoa_def itoa_digits_decimal) (simp add: decimal.simps)

text \<open>A line of the history that is longer than the caller's buffer can be recalled with one press of the up key, and Return
  then hands the whole of it to the caller: more bytes than the buffer holds. Without room for a newline the history
  records the line with its last byte cut off.\<close>

lemma read_line_overruns:
  assumes "0 < cap" and "h \<noteq> []" and "cap < length (last h)"
  shows "\<exists>e. read_line cap h [0x1B, 0x5B, 0x41, 0x0D] = Finished (e, []) \<and> line e = last h \<and> cap < length (line e)
    \<and> last (HISTORY e) = butlast (last h)"
proof -
  have "spec_line cap h blank_line [0x1B, 0x5B, 0x41, 0x0D] = Some (last h, [])"
    using assms(2) by (simp add: spec_line.simps spec_key_def blank_line_def last_conv_nth Let_def Suc_leI min_absorb1)
  then have "line_of (read_line cap h [0x1B, 0x5B, 0x41, 0x0D]) = Finished (last h, [], remember (last h) h)"
    using read_loop_refines [OF editor_start_ok(1), of cap h "[0x1B, 0x5B, 0x41, 0x0D]"] assms
    by (simp add: read_line_def editor_start_ok terminated_def finish_line_def)
  then obtain e where e: "read_line cap h [0x1B, 0x5B, 0x41, 0x0D] = Finished (e, [])"
    and fields: "line e = last h" "HISTORY e = remember (last h) h"
    by (cases "read_line cap h [0x1B, 0x5B, 0x41, 0x0D]") (auto simp: line_of_def)
  have "last h \<noteq> butlast (last h)"
    using assms(3) by (metis append_butlast_last_id length_append_singleton length_butlast list.size(3) n_not_Suc_n not_less_zero)
  then have "last (remember (last h) h) = butlast (last h)"
    using assms by (auto simp: remember_def Let_def butlast_conv_take)
  then show ?thesis
    using e fields assms(3) by simp
qed

section \<open>Properties\<close>

text \<open>C30. Reading a line refines an editor that is a text before the cursor and a text after it: for every sequence of bytes
  from the input devices the kernel's line editor either waits for more, exactly when the abstract one does, or finishes
  with the same line, newline added when there is room, with the same bytes left unread, and with that line recorded in the
  history. It never indexes out of range.\<close>

theorem read_line_refines:
  assumes "0 < cap"
  shows "line_of (read_line cap h input) = finish_line cap h (spec_line cap h blank_line input)"
  using read_loop_refines [OF editor_start_ok(1), of cap h input] assms by (simp add: read_line_def editor_start_ok)

theorem read_line_refines_witness:
  "line_of (read_line 16 [[0x6C]] [0x61, 0x62, 0x1B, 0x5B, 0x44, 0x78, 0x0D, 0x7A]) =
    Finished ([0x61, 0x78, 0x62, 0x0A], [0x7A], [[0x6C], [0x61, 0x78, 0x62]])"
  using read_line_refines [of 16 "[[0x6C]]" "[0x61, 0x62, 0x1B, 0x5B, 0x44, 0x78, 0x0D, 0x7A]"]
  by (simp add: spec_line.simps spec_key_def spec_insert_def blank_line_def finish_line_def terminated_def remember_def
      HISTORY_CAP_def)



end
