(* ===== verification/FsProbe.thy ===== *)
theory FsProbe
  imports FatTable
begin

unbundle bit_operations_syntax

text \<open>
  Recognising the filesystem of a device: \<open>src/fs_probe.rs\<close>. Only reading is needed, so the functions take the device
  and its state. A sector is 512 bytes; the slices of the code are slices of the list. Arithmetic on \<open>u64\<close> that is neither
  checked nor saturating wraps.
\<close>

datatype fs_type = Fat32Fs | VfatFs | ExFatFs | NtfsFs | Ext4Fs | LinuxSwapFs | UnknownFs

record fs_info =
  fs_kind :: fs_type
  fs_version :: str
  fs_label :: str
  fs_uuid :: str
  available :: "u64 option"
  used_percent :: "u8 option"

definition lit :: "string \<Rightarrow> str" where
  "lit cs = map of_char cs"

fun fs_type_name :: "fs_type \<Rightarrow> str" where
  "fs_type_name Fat32Fs = lit ''fat32''"
| "fs_type_name VfatFs = lit ''vfat''"
| "fs_type_name ExFatFs = lit ''exfat''"
| "fs_type_name NtfsFs = lit ''ntfs''"
| "fs_type_name Ext4Fs = lit ''ext4''"
| "fs_type_name LinuxSwapFs = lit ''swap''"
| "fs_type_name UnknownFs = lit ''unknown''"

section \<open>Signatures\<close>

definition bpb_ok :: "u8 list \<Rightarrow> bool" where
  "bpb_ok boot \<longleftrightarrow> slice boot 510 512 = [0x55, 0xAA] \<and> u16le boot 11 = 512 \<and> is_power_of_two (boot ! 13)"

fun read_sectors :: "'d block_device \<Rightarrow> 'd \<Rightarrow> nat list \<Rightarrow> u8 list option" where
  "read_sectors dev d [] = Some []"
| "read_sectors dev d (i # is) =
     (case read_sector dev d (of_nat i) of
        Inl _ \<Rightarrow> None
      | Inr sector \<Rightarrow> map_option (\<lambda>rest. sector @ rest) (read_sectors dev d is))"

definition is_ext4 :: "'d block_device \<Rightarrow> 'd \<Rightarrow> bool" where
  "is_ext4 dev d \<longleftrightarrow>
     sector_count dev d > 2 \<and> (case read_sector dev d 2 of Inl _ \<Rightarrow> False | Inr sb \<Rightarrow> slice sb 56 58 = [0x53, 0xEF])"

definition is_swap :: "'d block_device \<Rightarrow> 'd \<Rightarrow> bool" where
  "is_swap dev d \<longleftrightarrow>
     sector_count dev d \<ge> 8 \<and>
     (case read_sectors dev d [0..<8] of
        None \<Rightarrow> False
      | Some page \<Rightarrow> slice page 4086 4096 = lit ''SWAPSPACE2'' \<or> slice page 4086 4096 = lit ''SWAP-SPACE'')"

definition detect :: "'d block_device \<Rightarrow> 'd \<Rightarrow> fs_type" where
  "detect dev d =
     (case read_sector dev d 0 of
        Inl _ \<Rightarrow> UnknownFs
      | Inr boot \<Rightarrow>
          if slice boot 3 11 = lit ''EXFAT   '' then ExFatFs
          else if slice boot 3 11 = lit ''NTFS    '' then NtfsFs
          else if bpb_ok boot then
            (if boot ! 17 = 0 \<and> boot ! 18 = 0 \<and> boot ! 22 = 0 \<and> boot ! 23 = 0 then Fat32Fs else VfatFs)
          else if is_ext4 dev d then Ext4Fs
          else if is_swap dev d then LinuxSwapFs
          else UnknownFs)"

section \<open>Text\<close>

fun hex_digit :: "u8 \<Rightarrow> nat \<Rightarrow> u8" where
  "hex_digit a n = (if n < 10 then 0x30 + of_nat n else a + of_nat (n - 10))"

fun hex_upper :: "nat \<Rightarrow> str" where
  "hex_upper n = (if n < 16 then [hex_digit 0x41 n] else hex_upper (n div 16) @ [hex_digit 0x41 (n mod 16)])"

declare hex_upper.simps [simp del]

text \<open>\<open>{:0wX}\<close>.\<close>

definition hex_width :: "nat \<Rightarrow> nat \<Rightarrow> str" where
  "hex_width w n = replicate (w - length (hex_upper n)) 0x30 @ hex_upper n"

definition hex_uuid :: "u8 list \<Rightarrow> str" where
  "hex_uuid bytes =
     concat (map (\<lambda>i. (if i \<in> {4, 6, 8, 10} then [0x2D] else []) @
                      [hex_digit 0x61 (unat (drop_bit 4 (bytes ! i))), hex_digit 0x61 (unat (bytes ! i AND 15))])
                 [0..<length bytes])"

text \<open>\<open>str::trim\<close> removes the characters with the property White\_Space.\<close>

definition is_whitespace :: "u32 \<Rightarrow> bool" where
  "is_whitespace c \<longleftrightarrow>
     9 \<le> c \<and> c \<le> 13 \<or> 0x2000 \<le> c \<and> c \<le> 0x200A \<or>
     c \<in> {0x20, 0x85, 0xA0, 0x1680, 0x2028, 0x2029, 0x202F, 0x205F, 0x3000}"

definition trim :: "str \<Rightarrow> str" where
  "trim s = string_of (rev (dropWhile is_whitespace (rev (dropWhile is_whitespace (chars s)))))"

definition fs_text :: "u8 list \<Rightarrow> str" where
  "fs_text bytes = trim (utf8_lossy (takeWhile (\<lambda>b. b \<noteq> 0) bytes))"

section \<open>What the formats say about themselves\<close>

definition sat_add :: "u64 \<Rightarrow> u64 \<Rightarrow> u64" where
  "sat_add a b = (if unat a + unat b < 2 ^ 64 then a + b else - 1)"

definition sat_sub :: "u64 \<Rightarrow> u64 \<Rightarrow> u64" where
  "sat_sub a b = (if b \<le> a then a - b else 0)"

definition sat_mul :: "u64 \<Rightarrow> u64 \<Rightarrow> u64" where
  "sat_mul a b = (if unat a * unat b < 2 ^ 64 then a * b else - 1)"

definition wide16 :: "u8 list \<Rightarrow> nat \<Rightarrow> u64" where
  "wide16 b at = ucast (u16le b at)"

definition wide32 :: "u8 list \<Rightarrow> nat \<Rightarrow> u64" where
  "wide32 b at = ucast (u32le b at)"

definition serial_uuid :: "u32 \<Rightarrow> str" where
  "serial_uuid serial =
     (if serial = 0 then []
      else hex_width 4 (unat (drop_bit 16 serial)) @ [0x2D] @ hex_width 4 (unat (serial AND 0xFFFF)))"

definition percent_used :: "u64 \<Rightarrow> u64 \<Rightarrow> u8" where
  "percent_used n free = ucast ((n - free) * 100 div n)"

definition fat32_clusters :: "u8 list \<Rightarrow> u64" where
  "fat32_clusters boot =
     sat_sub (wide32 boot 32) (sat_add (wide16 boot 14) (sat_mul (ucast (boot ! 16)) (wide32 boot 36))) div max (ucast (boot ! 13)) 1"

definition inspect_fat32 :: "'d block_device \<Rightarrow> 'd \<Rightarrow> u8 list \<Rightarrow> fs_info \<Rightarrow> fs_info" where
  "inspect_fat32 dev d boot info =
     (let info = info\<lparr>fs_version := lit ''FAT32'', fs_label := fs_text (slice boot 71 82), fs_uuid := serial_uuid (u32le boot 67)\<rparr>;
          spc = ucast (boot ! 13);
          clusters = fat32_clusters boot;
          fsinfo = wide16 boot 48
      in if fsinfo < sector_count dev d then
           (case read_sector dev d fsinfo of
              Inl _ \<Rightarrow> info
            | Inr sector \<Rightarrow>
                if u32le sector 0 = 0x41615252 \<and> u32le sector 484 = 0x61417272 \<and> u32le sector 488 \<noteq> 0xFFFFFFFF then
                  let free = min (wide32 sector 488) clusters in
                  info\<lparr>available := Some (sat_mul (sat_mul free spc) 512),
                       used_percent := (if clusters = 0 then None else Some (percent_used clusters free))\<rparr>
                else info)
         else info)"

definition inspect_vfat :: "u8 list \<Rightarrow> fs_info \<Rightarrow> fs_info" where
  "inspect_vfat boot info =
     info\<lparr>fs_version := (if boot ! 22 = 0 \<and> boot ! 23 = 0 then lit ''FAT32'' else lit ''FAT''),
          fs_label := fs_text (slice boot 43 54), fs_uuid := serial_uuid (u32le boot 39)\<rparr>"

text \<open>The directory of an exFAT volume: the entries of a sector, the sectors of a cluster and the chain of clusters. The
  answer is the label, if one was found, and whether the search is over.\<close>

function exfat_entries :: "u8 list \<Rightarrow> str option \<times> bool" where
  "exfat_entries dir =
     (if length dir < 32 then (None, False)
      else if dir ! 0 = 0 then (None, True)
      else if dir ! 0 = 0x83 then
        (Some (from_utf16_lossy (map (\<lambda>i. u16le dir (2 + i * 2)) [0..<min (unat (dir ! 1)) 15])), True)
      else exfat_entries (drop 32 dir))"
  by pat_completeness auto
termination
  by (relation "measure length") auto

declare exfat_entries.simps [simp del]

fun exfat_sectors :: "'d block_device \<Rightarrow> 'd \<Rightarrow> u64 \<Rightarrow> nat list \<Rightarrow> str option \<times> bool" where
  "exfat_sectors dev d first_lba [] = (None, False)"
| "exfat_sectors dev d first_lba (i # is) =
     (case read_sector dev d (sat_add first_lba (of_nat i)) of
        Inl _ \<Rightarrow> (None, True)
      | Inr dir \<Rightarrow>
          (case exfat_entries dir of
             (l, True) \<Rightarrow> (l, True)
           | (l, False) \<Rightarrow> exfat_sectors dev d first_lba is))"

fun exfat_label :: "'d block_device \<Rightarrow> 'd \<Rightarrow> u64 \<Rightarrow> u64 \<Rightarrow> u64 \<Rightarrow> nat \<Rightarrow> u32 \<Rightarrow> str option" where
  "exfat_label dev d fat_start heap_start spc 0 cluster = None"
| "exfat_label dev d fat_start heap_start spc (Suc n) cluster =
     (if cluster < 2 then None
      else
        let first_lba = sat_add heap_start (sat_mul (ucast cluster - 2) spc) in
        (case exfat_sectors dev d first_lba [0..<unat (min spc 8)] of
           (l, True) \<Rightarrow> l
         | (l, False) \<Rightarrow>
             let fat_sector = sat_add fat_start (ucast cluster * 4 div 512);
                 fat_offset = unat (ucast cluster * 4 mod 512 :: u64)
             in case read_sector dev d fat_sector of
                  Inl _ \<Rightarrow> None
                | Inr fat \<Rightarrow>
                    let cluster = u32le fat fat_offset in
                    if cluster \<ge> 0xFFFFFFF8 then None else exfat_label dev d fat_start heap_start spc n cluster))"

definition inspect_exfat :: "'d block_device \<Rightarrow> 'd \<Rightarrow> u8 list \<Rightarrow> fs_info \<Rightarrow> fs_info" where
  "inspect_exfat dev d boot info =
     (let info = info\<lparr>fs_version := decimal (unat (boot ! 105)) @ [0x2E] @ decimal (unat (boot ! 107))\<rparr>;
          serial = u32le boot 100;
          info = (if serial \<noteq> 0 then info\<lparr>fs_uuid := hex_width 8 (unat serial)\<rparr> else info);
          info = (if boot ! 108 = 9 \<and> boot ! 109 < 16 then
                    case exfat_label dev d (from_le (slice boot 80 88)) (from_le (slice boot 88 96))
                           (push_bit (unat (boot ! 109)) 1) 16 (u32le boot 96) of
                      None \<Rightarrow> info
                    | Some l \<Rightarrow> info\<lparr>fs_label := l\<rparr>
                  else info);
          percent = boot ! 112
      in if percent \<le> 100 then
           info\<lparr>used_percent := Some percent,
                available := Some (sat_mul (sat_mul (sector_count dev d) 512) (ucast (100 - percent)) div 100)\<rparr>
         else info)"

definition inspect_ntfs :: "u8 list \<Rightarrow> fs_info \<Rightarrow> fs_info" where
  "inspect_ntfs boot info =
     (let serial = from_le (slice boot 72 80) :: u64 in
      if serial \<noteq> 0 then info\<lparr>fs_uuid := hex_width 16 (unat serial)\<rparr> else info)"

definition ext4_blocks :: "u8 list \<Rightarrow> u64 \<times> u64" where
  "ext4_blocks sb =
     (let blocks = wide32 sb 4; free = wide32 sb 12 in
      if u32le sb 96 AND 0x80 \<noteq> 0
      then (blocks OR push_bit 32 (wide32 sb 336), free OR push_bit 32 (wide32 sb 344))
      else (blocks, free))"

definition inspect_ext4 :: "'d block_device \<Rightarrow> 'd \<Rightarrow> fs_info \<Rightarrow> fs_info" where
  "inspect_ext4 dev d info =
     (case read_sector dev d 2 of
        Inl _ \<Rightarrow> info
      | Inr sb \<Rightarrow>
          let info = info\<lparr>fs_version := lit ''1.0'', fs_label := fs_text (slice sb 120 136), fs_uuid := hex_uuid (slice sb 104 120)\<rparr>;
              block_size = push_bit (unat (min (u32le sb 24) 6)) 1024;
              (blocks, free) = ext4_blocks sb
          in if blocks \<noteq> 0 then
               let free = min free blocks in
               info\<lparr>available := Some (sat_mul free block_size), used_percent := Some (percent_used blocks free)\<rparr>
             else info)"

definition inspect_swap :: "'d block_device \<Rightarrow> 'd \<Rightarrow> fs_info \<Rightarrow> fs_info" where
  "inspect_swap dev d info =
     (case read_sectors dev d [0..<8] of
        None \<Rightarrow> info
      | Some page \<Rightarrow>
          info\<lparr>fs_version := decimal (unat (u32le page 1024)), fs_uuid := hex_uuid (slice page 1036 1052),
               fs_label := fs_text (slice page 1052 1068)\<rparr>)"

definition inspect :: "'d block_device \<Rightarrow> 'd \<Rightarrow> fs_info" where
  "inspect dev d =
     (let kind = detect dev d;
          info = \<lparr>fs_kind = kind, fs_version = [], fs_label = [], fs_uuid = [], available = None, used_percent = None\<rparr>
      in case read_sector dev d 0 of
           Inl _ \<Rightarrow> info
         | Inr boot \<Rightarrow>
             (case kind of
                Fat32Fs \<Rightarrow> inspect_fat32 dev d boot info
              | VfatFs \<Rightarrow> inspect_vfat boot info
              | ExFatFs \<Rightarrow> inspect_exfat dev d boot info
              | NtfsFs \<Rightarrow> inspect_ntfs boot info
              | Ext4Fs \<Rightarrow> inspect_ext4 dev d info
              | LinuxSwapFs \<Rightarrow> inspect_swap dev d info
              | UnknownFs \<Rightarrow> info))"

section \<open>Lemmas\<close>

lemma u16le_bytes:
  assumes "at + 2 \<le> length b"
  shows "unat (u16le b at) = unat (b ! at) + 256 * unat (b ! (at + 1))"
proof -
  have "slice b at (at + 2) = [b ! at, b ! (at + 1)]"
    using assms by (intro nth_equalityI) (auto simp: slice_def less_Suc_eq numeral_2_eq_2)
  moreover have "unat (b ! at) + 256 * unat (b ! (at + 1)) < 2 ^ 16"
    using unsigned_less [where ?'a = nat and w = "b ! at"] unsigned_less [where ?'a = nat and w = "b ! (at + 1)"] by simp
  moreover have "u16le b at = of_nat (unat (b ! at) + 256 * unat (b ! (at + 1)))"
    using calculation(1) unfolding u16le_def from_le_def by (simp only: le_nat.simps) simp
  ultimately show ?thesis
    by (simp only: unsigned_of_nat) (simp add: take_bit_nat_eq_self)
qed

lemma u16le_zero: "at + 2 \<le> length b \<Longrightarrow> u16le b at = 0 \<longleftrightarrow> b ! at = 0 \<and> b ! (at + 1) = 0"
  using u16le_bytes [of at b] by (metis add_is_0 mult_is_0 unat_eq_zero zero_neq_numeral)

text \<open>The boot sector of a volume that mounts.\<close>

lemma fat_mount_boot:
  assumes "fat_mount dev d = Inr v" and "read_sector dev d 0 = Inr boot" and "length boot = 512"
  shows "bpb_ok boot" "boot ! 17 = 0 \<and> boot ! 18 = 0 \<and> boot ! 22 = 0 \<and> boot ! 23 = 0"
proof -
  have sig: "boot ! 510 = 0x55" "boot ! 511 = 0xAA" and fields: "u16le boot 11 = 512" "is_power_of_two (boot ! 13)"
    "u16le boot 17 = 0" "u16le boot 22 = 0"
    using assms(1,2) by (auto simp: fat_mount_def map_err_def and_then_def Let_def split: if_splits)
  have "slice boot 510 512 = [boot ! 510, boot ! 511]"
    using assms(3) by (intro nth_equalityI) (auto simp: slice_def less_Suc_eq numeral_2_eq_2)
  then show "bpb_ok boot"
    using sig fields by (simp add: bpb_ok_def)
  show "boot ! 17 = 0 \<and> boot ! 18 = 0 \<and> boot ! 22 = 0 \<and> boot ! 23 = 0"
    using fields(3,4) u16le_zero [of 17 boot] u16le_zero [of 22 boot] assms(3) by simp
qed

lemma percent_used_value:
  assumes "free \<le> n" and "0 < n" and "unat n * 100 < 2 ^ 64"
  shows "unat (percent_used n free) = (unat n - unat free) * 100 div unat n" "percent_used n free \<le> 100"
proof -
  have sub: "unat (n - free) = unat n - unat free"
    using assms(1) by (rule unat_sub)
  have le: "(unat n - unat free) * 100 \<le> unat n * 100"
    by simp
  then have "unat ((n - free) * 100) = (unat n - unat free) * 100"
    using assms(3) sub unat_mult_lem [of "n - free" 100] by (auto dest: sym)
  then have q: "unat ((n - free) * 100 div n) = (unat n - unat free) * 100 div unat n"
    by (simp add: unat_div)
  have "(unat n - unat free) * 100 div unat n \<le> unat n * 100 div unat n"
    using le by (rule div_le_mono)
  also have "\<dots> = 100"
    using assms(2) by (simp add: word_less_nat_alt)
  finally have "unat ((n - free) * 100 div n) \<le> 100"
    using q by simp
  then have "unat (percent_used n free) = unat ((n - free) * 100 div n)"
    by (simp add: percent_used_def unsigned_ucast_eq take_bit_nat_eq_self)
  then show "unat (percent_used n free) = (unat n - unat free) * 100 div unat n" "percent_used n free \<le> 100"
    using q \<open>unat ((n - free) * 100 div n) \<le> 100\<close> by (simp_all add: word_le_nat_alt)
qed

lemma fat32_clusters_less: "unat (fat32_clusters boot) < 2 ^ 32"
proof -
  have "unat (wide32 boot 32) < 2 ^ 32"
    using unsigned_less [where ?'a = nat and w = "u32le boot 32"] by (simp add: wide32_def unsigned_ucast_eq take_bit_nat_eq_self)
  moreover have "unat (sat_sub a b) \<le> unat a" for a b
    by (simp add: sat_sub_def unat_sub)
  moreover have "unat (a div b) \<le> unat a" for a b :: u64
    by (simp add: unat_div)
  ultimately show ?thesis
    unfolding fat32_clusters_def by (meson le_less_trans order_trans)
qed

text \<open>The share in use that is reported for a FAT32 or exFAT volume is a percentage.\<close>

lemma inspect_percent:
  assumes "used_percent (inspect dev d) = Some p" and "fs_kind (inspect dev d) \<noteq> Ext4Fs"
  shows "p \<le> 100"
proof -
  have fat: "p \<le> 100" if "used_percent (inspect_fat32 dev d boot info) = Some p" "used_percent info = None" for boot info
    using that fat32_clusters_less [of boot] percent_used_value(2) [of "min _ (fat32_clusters boot)" "fat32_clusters boot"]
    by (auto simp: inspect_fat32_def Let_def word_neq_0_conv split: if_splits sum.splits)
  have ext: "fs_kind (inspect_ext4 dev d info) = fs_kind info" for info
    by (simp add: inspect_ext4_def Let_def split: sum.splits prod.splits)
  have exfat: "p \<le> 100" if "used_percent (inspect_exfat dev d boot info) = Some p" "used_percent info = None" for boot info
    using that by (auto simp: inspect_exfat_def Let_def split: if_splits option.splits)
  show ?thesis
    using assms ext
    by (auto simp: inspect_def Let_def inspect_vfat_def inspect_ntfs_def inspect_swap_def intro: fat exfat
        split: sum.splits fs_type.splits if_splits option.splits)
qed

text \<open>The percentage of an ext4 volume is computed from 64-bit block counts that the disk supplies, and the product with
  a hundred wraps: a full volume of \<open>2 ^ 63\<close> blocks is reported as empty.\<close>

lemma ext4_percent_wraps: "percent_used (2 ^ 63) 0 = 0" "(2 ^ 63 - 0) * 100 div 2 ^ 63 = (100 :: nat)"
  by (simp_all add: percent_used_def)

text \<open>The driver takes the number of sectors from the 16-bit field when that is not zero; the probe reads only the 32-bit
  field. The volume of the example mounts with two clusters and is probed as having none.\<close>

lemma probe_ignores_total16: "cluster_count small_volume = 2" "fat32_clusters small_boot = 0"
proof -
  have "small_boot ! 32 = 0" "small_boot ! 33 = 0" "small_boot ! 34 = 0" "small_boot ! 35 = 0"
    unfolding small_boot_def small_fields_def by (simp_all add: copy_at_def nth_append)
  then have "slice small_boot 32 36 = [0, 0, 0, 0]"
    using small_boot_slice(1) by (intro nth_equalityI) (auto simp: nth_slice less_Suc_eq numeral_eq_Suc)
  then have "wide32 small_boot 32 = 0"
    by (simp add: wide32_def u32le_def from_le_def)
  then show "fat32_clusters small_boot = 0"
    by (simp add: fat32_clusters_def sat_sub_def)
qed (simp add: small_volume_def)

section \<open>Properties\<close>



end
