(* ===== verification/Syscall.thy ===== *)
theory Syscall
  imports Process LineEdit FsProbe
begin

unbundle bit_operations_syntax

text \<open>
  The system calls: \<open>src/syscall.rs\<close> from the argument checks to the answer, with the table of open files.

  A call answers with a number for \<open>rax\<close> (\<open>Return\<close>); or it has yielded the processor and runs another round when its thread is
  scheduled again (\<open>Again\<close>); or its thread has ended (\<open>Gone\<close>); or it waits for bytes from the terminal that do not
  come (\<open>Waiting\<close>); or the kernel panics (\<open>Panic\<close>). The steps of other threads while a call waits for a key are not
  interleaved with it: \<open>TERMINAL_READER\<close> keeps them away from the history of lines. What the
  processor supplies (\<open>rdrand\<close>, the time stamp counter) and the keys that will be pressed are fields of the state.
\<close>

definition MAX_WRITE :: nat where "MAX_WRITE = 4096"
definition MAX_NAME :: nat where "MAX_NAME = 255"

datatype error_number =
    ENOENT | ESRCH | EIO | E2BIG | ENOEXEC | EBADF | ECHILD | EAGAIN | ENOMEM | EFAULT
  | EEXIST | ENODEV | ENOTDIR | EISDIR | EINVAL | ENOSPC | EROFS | ERANGE | ENAMETOOLONG | ENOSYS
  | ENOTEMPTY

fun error_code :: "error_number \<Rightarrow> nat" where
  "error_code ENOENT = 2"
| "error_code ESRCH = 3"
| "error_code EIO = 5"
| "error_code E2BIG = 7"
| "error_code ENOEXEC = 8"
| "error_code EBADF = 9"
| "error_code ECHILD = 10"
| "error_code EAGAIN = 11"
| "error_code ENOMEM = 12"
| "error_code EFAULT = 14"
| "error_code EEXIST = 17"
| "error_code ENODEV = 19"
| "error_code ENOTDIR = 20"
| "error_code EISDIR = 21"
| "error_code EINVAL = 22"
| "error_code ENOSPC = 28"
| "error_code EROFS = 30"
| "error_code ERANGE = 34"
| "error_code ENAMETOOLONG = 36"
| "error_code ENOSYS = 38"
| "error_code ENOTEMPTY = 39"

definition errno :: "error_number \<Rightarrow> u64" where
  "errno e = - of_nat (error_code e)"

definition O_WRONLY :: u64 where "O_WRONLY = 1"
definition O_RDWR :: u64 where "O_RDWR = 2"
definition O_CREAT :: u64 where "O_CREAT = 0x40"
definition O_TRUNC :: u64 where "O_TRUNC = 0x200"
definition O_APPEND :: u64 where "O_APPEND = 0x400"

record syscall_frame =
  rax :: u64
  rdi :: u64
  rsi :: u64
  rdx :: u64
  r10 :: u64
  r8 :: u64
  r9 :: u64
  sys_rip :: u64
  sys_rflags :: u64
  sys_rsp :: u64

record 'd ukernel = "'d pkernel" +
  line_history :: "u8 list list"
  TERMINAL_READER :: bool
  terminal_input :: "u8 list"
  console_out :: str
  devices :: "'d block_device registry"
  cpu_rdrand :: bool
  rdrand :: "nat \<Rightarrow> u64 option"
  rdtsc :: "nat \<Rightarrow> u64"
  draws :: nat
  URANDOM_STATE :: u64
  TEST_ARG :: u64
  TEST_DONE :: bool

datatype 's answer = Return u64 's | Again 's | Gone 's | Waiting | Panic

fun fs_errno :: "fs_error \<Rightarrow> u64" where
  "fs_errno FsReadOnly = errno EROFS"
| "fs_errno FsNoSpace = errno ENOSPC"
| "fs_errno FsInvalidName = errno EINVAL"
| "fs_errno InvalidPath = errno EINVAL"
| "fs_errno FsIo = errno EIO"
| "fs_errno FsNotFound = errno ENOENT"
| "fs_errno FsNotDirectory = errno ENOTDIR"
| "fs_errno FsIsDirectory = errno EISDIR"
| "fs_errno FsAlreadyExists = errno EEXIST"
| "fs_errno FsDirectoryNotEmpty = errno ENOTEMPTY"
| "fs_errno FsTooLarge = errno EIO"

section \<open>User memory\<close>

definition user_bytes :: "'a vkernel_scheme \<Rightarrow> u64 \<Rightarrow> nat \<Rightarrow> u8 list option" where
  "user_bytes s ptr n = (case copy_from_user s (replicate n 0) ptr of (ok, bytes) \<Rightarrow> if ok then Some bytes else None)"

definition copy_out :: "u64 \<Rightarrow> u64 \<Rightarrow> u8 list \<Rightarrow> 'a vkernel_scheme \<Rightarrow> 'a vkernel_scheme answer" where
  "copy_out v buf bytes s =
     (case copy_to_user s buf bytes of (ok, s) \<Rightarrow> if ok then Return v s else Return (errno EFAULT) s)"

fun user_string_loop :: "'a vkernel_scheme \<Rightarrow> u64 \<Rightarrow> nat list \<Rightarrow> u8 list \<Rightarrow> u64 + str" where
  "user_string_loop s ptr [] bytes = Inl (errno ENAMETOOLONG)"
| "user_string_loop s ptr (i # is) bytes =
     (case checked_add ptr (of_nat i) of
        None \<Rightarrow> Inl (errno EFAULT)
      | Some address \<Rightarrow>
          (case user_bytes s address 1 of
             None \<Rightarrow> Inl (errno EFAULT)
           | Some byte \<Rightarrow>
               if byte ! 0 = 0 then (if utf8_valid bytes then Inr bytes else Inl (errno EINVAL))
               else if i = MAX_NAME then Inl (errno ENAMETOOLONG)
               else user_string_loop s ptr is (bytes @ [byte ! 0])))"

definition copy_user_string :: "'a vkernel_scheme \<Rightarrow> u64 \<Rightarrow> u64 + str" where
  "copy_user_string s ptr = user_string_loop s ptr [0..<MAX_NAME + 1] []"

fun user_vector_loop :: "'a vkernel_scheme \<Rightarrow> u64 \<Rightarrow> nat list \<Rightarrow> str list \<Rightarrow> u64 + str list" where
  "user_vector_loop s ptr [] strings = Inl (errno E2BIG)"
| "user_vector_loop s ptr (i # is) strings =
     (case checked_add ptr (of_nat (i * 8)) of
        None \<Rightarrow> Inl (errno EFAULT)
      | Some address \<Rightarrow>
          (case user_bytes s address 8 of
             None \<Rightarrow> Inl (errno EFAULT)
           | Some raw \<Rightarrow>
               let string_ptr = from_le raw in
               if string_ptr = 0 then Inr strings
               else and_then (copy_user_string s string_ptr) (\<lambda>str. user_vector_loop s ptr is (strings @ [str]))))"

definition copy_user_vector :: "'a vkernel_scheme \<Rightarrow> u64 \<Rightarrow> str option \<Rightarrow> u64 + str list" where
  "copy_user_vector s ptr fallback =
     (if ptr = 0 then Inr (case fallback of None \<Rightarrow> [] | Some v \<Rightarrow> [v])
      else user_vector_loop s ptr [0..<32] [])"

section \<open>Random numbers\<close>

primrec rdrand_loop :: "nat \<Rightarrow> ('d, 'a) ukernel_scheme \<Rightarrow> u64 option \<times> ('d, 'a) ukernel_scheme" where
  "rdrand_loop 0 s = (None, s)"
| "rdrand_loop (Suc n) s =
     (let s' = s\<lparr>draws := draws s + 1\<rparr> in
      case rdrand s (draws s) of Some v \<Rightarrow> (Some v, s') | None \<Rightarrow> rdrand_loop n s')"

definition xorshift :: "u64 \<Rightarrow> u64" where
  "xorshift v =
     (let v = v XOR drop_bit 12 v;
          v = v XOR push_bit 25 v;
          v = v XOR drop_bit 27 v
      in if v = 0 then 0xA0761D6478BD642F else v)"

definition urandom_fallback :: "('d, 'a) ukernel_scheme \<Rightarrow> u64 \<times> ('d, 'a) ukernel_scheme" where
  "urandom_fallback s =
     (let old = URANDOM_STATE s;
          v = (if old = 0 then 0x9E3779B97F4A7C15 XOR word_rotl 19 (uptime_ms s) XOR of_nat (current_id s) else old);
          v = xorshift (v XOR rdtsc s (draws s))
      in (v * 0x2545F4914F6CDD1D, s\<lparr>URANDOM_STATE := v, draws := draws s + 1\<rparr>))"

definition urandom_word :: "('d, 'a) ukernel_scheme \<Rightarrow> u64 \<times> ('d, 'a) ukernel_scheme" where
  "urandom_word s =
     (case (if cpu_rdrand s then rdrand_loop 10 s else (None, s)) of
        (Some v, s) \<Rightarrow> (v, s)
      | (None, s) \<Rightarrow> urandom_fallback s)"

function fill_urandom :: "nat \<Rightarrow> ('d, 'a) ukernel_scheme \<Rightarrow> u8 list \<times> ('d, 'a) ukernel_scheme" where
  "fill_urandom n s =
     (if n = 0 then ([], s)
      else case urandom_word s of (w, s) \<Rightarrow>
        (case fill_urandom (n - 8) s of (rest, s) \<Rightarrow> (take (min 8 n) (to_le 8 w) @ rest, s)))"
  by pat_completeness auto
termination
  by (relation "measure fst") auto

declare fill_urandom.simps [simp del]

section \<open>Descriptors\<close>

definition owns :: "nat \<Rightarrow> u64 \<Rightarrow> open_file \<Rightarrow> bool" where
  "owns p n f \<longleftrightarrow> file_pid f = p \<and> fd f = n"

definition find_open :: "nat \<Rightarrow> u64 \<Rightarrow> open_file list \<Rightarrow> open_file option" where
  "find_open p n files = List.find (owns p n) files"

definition set_offset :: "nat \<Rightarrow> u64 \<Rightarrow> nat \<Rightarrow> open_file list \<Rightarrow> open_file list" where
  "set_offset p n off files =
     (case position (owns p n) files of None \<Rightarrow> files | Some i \<Rightarrow> files[i := (files ! i)\<lparr>foffset := off\<rparr>])"

text \<open>The search for a free descriptor has no upper end in the code; one of the first numbers is free, as there are no
  more descriptors in use than open files.\<close>

definition next_fd :: "nat \<Rightarrow> open_file list \<Rightarrow> u64" where
  "next_fd p files =
     (case List.find (\<lambda>n. \<not> list_ex (owns p n) files) (map of_nat [3..<4 + length files]) of
        Some n \<Rightarrow> n
      | None \<Rightarrow> 3)"

definition install_fd :: "fd_kind \<Rightarrow> str \<Rightarrow> nat \<Rightarrow> u64 \<Rightarrow> bool \<Rightarrow> ('d, 'a) pkernel_scheme \<Rightarrow> ('d, 'a) pkernel_scheme answer" where
  "install_fd kind path offset access app s =
     (let p = current_id s; n = next_fd p (OPEN_FILES s) in
      Return n
        (s\<lparr>OPEN_FILES := OPEN_FILES s @
             [\<lparr>file_pid = p, fd = n, fkind = kind, fpath = path, foffset = offset,
               readable = (access = 0 \<or> access = O_RDWR), writable = (access = O_WRONLY \<or> access = O_RDWR),
               append_mode = app\<rparr>]\<rparr>))"

section \<open>Reading and writing\<close>

definition read_terminal :: "nat \<Rightarrow> u64 \<Rightarrow> ('d, 'a) ukernel_scheme \<Rightarrow> ('d, 'a) ukernel_scheme answer" where
  "read_terminal n buf s =
     (if TERMINAL_READER s then (case yield_now s of None \<Rightarrow> Panic | Some s \<Rightarrow> Again s)
      else
        let s = s\<lparr>TERMINAL_READER := True\<rparr> in
        (case read_line n (line_history s) (terminal_input s) of
           Blocked \<Rightarrow> Waiting
         | Panicked \<Rightarrow> Panic
         | Finished (e, rest) \<Rightarrow>
             let s = s\<lparr>line_history := HISTORY e, terminal_input := rest, console_out := console_out s @ echo e,
                       TERMINAL_READER := False\<rparr>
             in copy_out (of_nat (length (line e))) buf (line e) s))"

definition read_file :: "nat \<Rightarrow> u64 \<Rightarrow> open_file \<Rightarrow> nat \<Rightarrow> u64 \<Rightarrow> ('d, 'a) ukernel_scheme \<Rightarrow> ('d, 'a) ukernel_scheme answer" where
  "read_file p n f len buf s =
     (case vfs_read_at (the_vfs s) (fpath f) (foffset f) (replicate len 0) of
        Inl error \<Rightarrow> Return (fs_errno error) s
      | Inr (got, bytes) \<Rightarrow>
          (case copy_to_user s buf (take got bytes) of
             (False, s) \<Rightarrow> Return (errno EFAULT) s
           | (True, s) \<Rightarrow>
               Return (of_nat got) (s\<lparr>OPEN_FILES := set_offset p n (foffset f + got) (OPEN_FILES s)\<rparr>)))"

definition sys_read :: "u64 \<Rightarrow> u64 \<Rightarrow> u64 \<Rightarrow> ('d, 'a) ukernel_scheme \<Rightarrow> ('d, 'a) ukernel_scheme answer" where
  "sys_read n buf len s =
     (let k = min (unat len) MAX_WRITE; p = current_id s in
      if k = 0 then Return 0 s
      else case find_open p n (OPEN_FILES s) of
          None \<Rightarrow> Return (errno EBADF) s
        | Some f \<Rightarrow>
            if \<not> readable f then Return (errno EBADF) s
            else if \<not> validate_user_range s buf k True then Return (errno EFAULT) s
            else (case fkind f of
                NullDev \<Rightarrow> Return 0 s
              | ZeroDev \<Rightarrow> copy_out (of_nat k) buf (replicate k 0) s
              | Urandom \<Rightarrow> (case fill_urandom k s of (bytes, s) \<Rightarrow> copy_out (of_nat k) buf bytes s)
              | Stdin \<Rightarrow> read_terminal k buf s
              | ConsoleDev \<Rightarrow> read_terminal k buf s
              | FileFd \<Rightarrow> read_file p n f k buf s
              | Stdout \<Rightarrow> Return (errno EBADF) s
              | Stderr \<Rightarrow> Return (errno EBADF) s))"

definition write_file :: "nat \<Rightarrow> u64 \<Rightarrow> open_file \<Rightarrow> u8 list \<Rightarrow> ('d, 'a) ukernel_scheme \<Rightarrow> ('d, 'a) ukernel_scheme answer" where
  "write_file p n f bytes s =
     (case (if append_mode f then file_size (the_vfs s) (fpath f) else Inr (foffset f)) of
        Inl error \<Rightarrow> Return (fs_errno error) s
      | Inr offset \<Rightarrow>
          (case vfs_write_at (the_vfs s) (fpath f) offset bytes of
             (Inl error, v) \<Rightarrow> Return (fs_errno error) (s\<lparr>the_vfs := v\<rparr>)
           | (Inr written, v) \<Rightarrow>
               Return (of_nat written)
                 (s\<lparr>the_vfs := v, OPEN_FILES := set_offset p n (offset + written) (OPEN_FILES s)\<rparr>)))"

definition sys_write :: "u64 \<Rightarrow> u64 \<Rightarrow> u64 \<Rightarrow> ('d, 'a) ukernel_scheme \<Rightarrow> ('d, 'a) ukernel_scheme answer" where
  "sys_write n buf len s =
     (let k = min (unat len) MAX_WRITE; p = current_id s in
      if k = 0 then Return 0 s
      else case find_open p n (OPEN_FILES s) of
          None \<Rightarrow> Return (errno EBADF) s
        | Some f \<Rightarrow>
            if \<not> writable f then Return (errno EBADF) s
            else (case user_bytes s buf k of
                None \<Rightarrow> Return (errno EFAULT) s
              | Some bytes \<Rightarrow>
                  if fkind f \<in> {Stdout, Stderr, ConsoleDev} then
                    Return (of_nat k) (s\<lparr>console_out := console_out s @ utf8_lossy bytes\<rparr>)
                  else if fkind f \<in> {NullDev, ZeroDev, Urandom} then Return (of_nat k) s
                  else if fkind f \<noteq> FileFd then Return (errno EBADF) s
                  else write_file p n f bytes s))"

section \<open>Opening and closing\<close>

definition device_file :: "str \<Rightarrow> fd_kind option" where
  "device_file path =
     (if path = lit ''/device/console'' then Some ConsoleDev
      else if path = lit ''/device/null'' then Some NullDev
      else if path = lit ''/device/zero'' then Some ZeroDev
      else if path = lit ''/device/urandom'' then Some Urandom
      else None)"

definition open_file_at :: "str \<Rightarrow> u64 \<Rightarrow> nat \<Rightarrow> ('d, 'a) ukernel_scheme \<Rightarrow> ('d, 'a) ukernel_scheme answer" where
  "open_file_at path flags len s =
     (let offset = (if flags AND O_APPEND \<noteq> 0 \<and> flags AND O_TRUNC = 0 then len else 0);
          install = install_fd FileFd path offset (flags AND 3) (flags AND O_APPEND \<noteq> 0)
      in if flags AND O_TRUNC \<noteq> 0 then
           (case vfs_truncate (the_vfs s) path of
              (Inl error, v) \<Rightarrow> Return (fs_errno error) (s\<lparr>the_vfs := v\<rparr>)
            | (Inr _, v) \<Rightarrow> install (s\<lparr>the_vfs := v\<rparr>))
         else install s)"

definition open_path :: "str \<Rightarrow> u64 \<Rightarrow> ('d, 'a) ukernel_scheme \<Rightarrow> ('d, 'a) ukernel_scheme answer" where
  "open_path path flags s =
     (case device_file path of
        Some kind \<Rightarrow>
          if flags AND (O_CREAT OR O_TRUNC OR O_APPEND) \<noteq> 0 then Return (errno EINVAL) s
          else install_fd kind [] 0 (flags AND 3) False s
      | None \<Rightarrow>
          (case file_size (the_vfs s) path of
             Inr len \<Rightarrow> open_file_at path flags len s
           | Inl _ \<Rightarrow>
               if flags AND O_CREAT \<noteq> 0 then
                 (case vfs_create_file (the_vfs s) path of
                    (Inl error, v) \<Rightarrow> Return (fs_errno error) (s\<lparr>the_vfs := v\<rparr>)
                  | (Inr _, v) \<Rightarrow> open_file_at path flags 0 (s\<lparr>the_vfs := v\<rparr>))
               else Return (errno ENOENT) s))"

definition open_flags_bad :: "u64 \<Rightarrow> bool" where
  "open_flags_bad flags \<longleftrightarrow>
     flags AND NOT (O_WRONLY OR O_RDWR OR O_CREAT OR O_TRUNC OR O_APPEND) \<noteq> 0 \<or>
     flags AND 3 = (O_WRONLY OR O_RDWR) \<or>
     flags AND (O_TRUNC OR O_APPEND) \<noteq> 0 \<and> flags AND 3 = 0"

definition sys_open :: "u64 \<Rightarrow> u64 \<Rightarrow> u64 \<Rightarrow> ('d, 'a) ukernel_scheme \<Rightarrow> ('d, 'a) ukernel_scheme answer" where
  "sys_open path_ptr path_len flags s =
     (if open_flags_bad flags then Return (errno EINVAL) s
      else if unat path_len > MAX_NAME then Return (errno ENAMETOOLONG) s
      else case user_bytes s path_ptr (unat path_len) of
          None \<Rightarrow> Return (errno EFAULT) s
        | Some path \<Rightarrow> if utf8_valid path then open_path path flags s else Return (errno ENOENT) s)"

definition sys_close :: "u64 \<Rightarrow> ('d, 'a) ukernel_scheme \<Rightarrow> ('d, 'a) ukernel_scheme answer" where
  "sys_close n s =
     (case position (owns (current_id s) n) (OPEN_FILES s) of
        Some i \<Rightarrow> Return 0 (s\<lparr>OPEN_FILES := swap_remove (OPEN_FILES s) i\<rparr>)
      | None \<Rightarrow> Return (errno EBADF) s)"

section \<open>Processes\<close>

definition exit_answer :: "i64 \<Rightarrow> ('d, 'a) ukernel_scheme \<Rightarrow> ('d, 'a) ukernel_scheme answer" where
  "exit_answer code s = (case exit_current code s of None \<Rightarrow> Panic | Some s \<Rightarrow> Gone s)"

definition sys_kill :: "u64 \<Rightarrow> u64 \<Rightarrow> ('d, 'a) ukernel_scheme \<Rightarrow> ('d, 'a) ukernel_scheme answer" where
  "sys_kill p signal s =
     (if unat p \<noteq> current_id s then Return (errno ESRCH) s
      else if signal = 0 then Return 0 s
      else if signal = 9 \<or> signal = 15 then exit_answer (128 + signal) s
      else Return (errno ENOSYS) s)"

fun spawn_errno :: "spawn_error \<Rightarrow> u64" where
  "spawn_errno SpawnNotFound = errno ENOENT"
| "spawn_errno (SpawnElf _) = errno ENOEXEC"
| "spawn_errno SpawnNoMemory = errno ENOMEM"
| "spawn_errno SpawnNoThread = errno EAGAIN"

definition exec_path :: "str \<Rightarrow> u64 \<Rightarrow> u64 \<Rightarrow> ('d, 'a) ukernel_scheme \<Rightarrow> ('d, 'a) ukernel_scheme answer" where
  "exec_path path argv_ptr env_ptr s =
     (case copy_user_vector s argv_ptr (Some path) of
        Inl e \<Rightarrow> Return e s
      | Inr argv \<Rightarrow>
          (case copy_user_vector s env_ptr None of
             Inl e \<Rightarrow> Return e s
           | Inr env \<Rightarrow>
               (case spawn_with s path argv env of
                  None \<Rightarrow> Panic
                | Some (Inr p, s) \<Rightarrow> Return (of_nat p) s
                | Some (Inl e, s) \<Rightarrow> Return (spawn_errno e) s)))"

definition sys_exec :: "u64 \<Rightarrow> u64 \<Rightarrow> u64 \<Rightarrow> u64 \<Rightarrow> ('d, 'a) ukernel_scheme \<Rightarrow> ('d, 'a) ukernel_scheme answer" where
  "sys_exec path_ptr path_len argv_ptr env_ptr s =
     (if unat path_len > MAX_NAME then Return (errno ENAMETOOLONG) s
      else case user_bytes s path_ptr (unat path_len) of
          None \<Rightarrow> Return (errno EFAULT) s
        | Some path \<Rightarrow> if utf8_valid path then exec_path path argv_ptr env_ptr s else Return (errno ENOENT) s)"

text \<open>One round of the loop of \<open>waitpid\<close>.\<close>

definition sys_waitpid :: "u64 \<Rightarrow> u64 \<Rightarrow> u64 \<Rightarrow> ('d, 'a) ukernel_scheme \<Rightarrow> ('d, 'a) ukernel_scheme answer" where
  "sys_waitpid p status_ptr options s =
     (if options AND NOT 1 \<noteq> 0 then Return (errno EINVAL) s
      else if status_ptr \<noteq> 0 \<and> \<not> validate_user_range s status_ptr 4 True then Return (errno EFAULT) s
      else case take_child_exit_status (current_id s) p (PROCS s) of
          (Inl _, procs) \<Rightarrow> Return (errno ECHILD) s
        | (Inr (Some (child, st)), procs) \<Rightarrow>
            let s = s\<lparr>PROCS := procs\<rparr> in
            if status_ptr \<noteq> 0 then copy_out (of_nat child) status_ptr (to_le 4 (ucast st :: u32)) s
            else Return (of_nat child) s
        | (Inr None, procs) \<Rightarrow>
            if options AND 1 \<noteq> 0 then Return 0 s
            else (case yield_now s of None \<Rightarrow> Panic | Some s \<Rightarrow> Again s))"

section \<open>Filesystems\<close>

definition sys_path_mutation :: "u64 \<Rightarrow> u64 \<Rightarrow> bool \<Rightarrow> ('d, 'a) ukernel_scheme \<Rightarrow> ('d, 'a) ukernel_scheme answer" where
  "sys_path_mutation path_ptr path_len make_dir s =
     (let n = unat path_len in
      if n = 0 \<or> n > MAX_NAME then Return (errno EINVAL) s
      else case user_bytes s path_ptr n of
          None \<Rightarrow> Return (errno EFAULT) s
        | Some path \<Rightarrow>
            if \<not> utf8_valid path then Return (errno EINVAL) s
            else (case (if make_dir then vfs_create_dir (the_vfs s) path else vfs_remove (the_vfs s) path) of
                (Inr _, v) \<Rightarrow> Return 0 (s\<lparr>the_vfs := v\<rparr>)
              | (Inl error, v) \<Rightarrow> Return (fs_errno error) (s\<lparr>the_vfs := v\<rparr>)))"

definition sys_sync :: "('d, 'a) ukernel_scheme \<Rightarrow> ('d, 'a) ukernel_scheme answer" where
  "sys_sync s =
     (case vfs_sync (the_vfs s) of
        (Inr _, v) \<Rightarrow> Return 0 (s\<lparr>the_vfs := v\<rparr>)
      | (Inl error, v) \<Rightarrow> Return (fs_errno error) (s\<lparr>the_vfs := v\<rparr>))"

text \<open>Names of devices are strings of characters in the registry and bytes in a path.\<close>

definition chars_of :: "str \<Rightarrow> string" where
  "chars_of bytes = map (\<lambda>b. char_of (unat b)) bytes"

definition mount_device :: "str \<Rightarrow> str \<Rightarrow> ('d, 'a) ukernel_scheme \<Rightarrow> ('d, 'a) ukernel_scheme answer" where
  "mount_device device_path mountpoint s =
     (case strip_prefix (lit ''/device/'') device_path of
        None \<Rightarrow> Return (errno ENODEV) s
      | Some device_name \<Rightarrow>
          if device_name = [] \<or> 0x2F \<in> set device_name then Return (errno ENODEV) s
          else (case find_device (devices s) (chars_of device_name) of
              None \<Rightarrow> Return (errno ENODEV) s
            | Some device \<Rightarrow>
                (case mount_fat32_device (the_vfs s) mountpoint device_name device of
                   (Inr _, v) \<Rightarrow> Return 0 (s\<lparr>the_vfs := v\<rparr>)
                 | (Inl error, v) \<Rightarrow> Return (fs_errno error) (s\<lparr>the_vfs := v\<rparr>))))"

definition sys_mount :: "u64 \<Rightarrow> u64 \<Rightarrow> ('d, 'a) ukernel_scheme \<Rightarrow> ('d, 'a) ukernel_scheme answer" where
  "sys_mount device_ptr mountpoint_ptr s =
     (case copy_user_string s device_ptr of
        Inl error \<Rightarrow> Return error s
      | Inr device_path \<Rightarrow>
          (case copy_user_string s mountpoint_ptr of
             Inl error \<Rightarrow> Return error s
           | Inr mountpoint \<Rightarrow> mount_device device_path mountpoint s))"

definition sys_read_file :: "u64 \<Rightarrow> u64 \<Rightarrow> u64 \<Rightarrow> u64 \<Rightarrow> ('d, 'a) ukernel_scheme \<Rightarrow> ('d, 'a) ukernel_scheme answer" where
  "sys_read_file name_ptr name_len buf buf_len s =
     (if unat name_len > MAX_NAME then Return (errno ENAMETOOLONG) s
      else case user_bytes s name_ptr (unat name_len) of
          None \<Rightarrow> Return (errno EFAULT) s
        | Some nm \<Rightarrow>
            if \<not> utf8_valid nm then Return (errno ENOENT) s
            else
              let cap = min (unat buf_len) MAX_WRITE in
              (case file_size (the_vfs s) nm of
                 Inl _ \<Rightarrow> Return (errno ENOENT) s
               | Inr len \<Rightarrow>
                   if len > cap then Return (errno ERANGE) s
                   else (case read_all (the_vfs s) nm of
                       Inl _ \<Rightarrow> Return (errno ENOENT) s
                     | Inr bytes \<Rightarrow>
                         if length bytes > cap then Return (errno ERANGE) s
                         else copy_out (of_nat (length bytes)) buf bytes s)))"

section \<open>Listings\<close>

definition list_out :: "u64 \<Rightarrow> u64 \<Rightarrow> str \<Rightarrow> ('d, 'a) ukernel_scheme \<Rightarrow> ('d, 'a) ukernel_scheme answer" where
  "list_out buf len out s =
     (if length out > min (unat len) MAX_WRITE then Return (errno ERANGE) s else copy_out (of_nat (length out)) buf out s)"

fun file_lines :: "str list \<Rightarrow> str \<Rightarrow> str" where
  "file_lines [] out = out"
| "file_lines (e # es) out = file_lines es ((if out \<noteq> [] then out @ [0x0A] else out) @ e)"

definition sys_list_files :: "u64 \<Rightarrow> u64 \<Rightarrow> ('d, 'a) ukernel_scheme \<Rightarrow> ('d, 'a) ukernel_scheme answer" where
  "sys_list_files buf len s = list_out buf len (file_lines (list_files (the_vfs s)) []) s"

text \<open>Padding counts characters.\<close>

definition pad_right :: "nat \<Rightarrow> str \<Rightarrow> str" where
  "pad_right n t = t @ replicate (n - length (chars t)) 0x20"

definition pad_left :: "nat \<Rightarrow> str \<Rightarrow> str" where
  "pad_left n t = replicate (n - length (chars t)) 0x20 @ t"

definition process_row :: "process_info \<Rightarrow> str" where
  "process_row p =
     pad_right 4 (decimal (info_pid p)) @ [0x20] @
     pad_right 8 (if exit_status p \<noteq> None then lit ''EXITED'' else lit ''RUNNING'') @ [0x20] @ info_name p @ [0x0A]"

definition sys_list_processes :: "u64 \<Rightarrow> u64 \<Rightarrow> ('d, 'a) ukernel_scheme \<Rightarrow> ('d, 'a) ukernel_scheme answer" where
  "sys_list_processes buf len s =
     list_out buf len (lit ''PID  STATE    NAME'' @ [0x0A] @ concat (map process_row (list_processes (PROCS s)))) s"

definition lsblk_units :: "(str \<times> u64) list" where
  "lsblk_units = [(lit ''T'', 2 ^ 40), (lit ''G'', 2 ^ 30), (lit ''M'', 2 ^ 20), (lit ''K'', 2 ^ 10)]"

definition format_lsblk_size :: "u64 \<Rightarrow> str" where
  "format_lsblk_size bytes =
     (case List.find (\<lambda>(u, base). bytes \<ge> base) lsblk_units of
        Some (u, base) \<Rightarrow>
          let tenths = unat (sat_mul bytes 10 div base) in
          if tenths mod 10 = 0 then decimal (tenths div 10) @ u
          else decimal (tenths div 10) @ [0x2E] @ decimal (tenths mod 10) @ u
      | None \<Rightarrow> decimal (unat bytes) @ lit ''B'')"

definition lsblk_row :: "str \<Rightarrow> fs_info \<Rightarrow> str \<Rightarrow> str \<Rightarrow> str" where
  "lsblk_row nm info mnt tree =
     (let fstype = (case fs_kind info of Fat32Fs \<Rightarrow> lit ''vfat'' | VfatFs \<Rightarrow> lit ''vfat'' | UnknownFs \<Rightarrow> [] | k \<Rightarrow> fs_type_name k);
          avail = (case available info of None \<Rightarrow> [] | Some n \<Rightarrow> format_lsblk_size n);
          used = (case used_percent info of None \<Rightarrow> [] | Some n \<Rightarrow> decimal (unat n) @ lit ''%'')
      in tree @ pad_right 10 nm @ [0x20] @ pad_right 6 fstype @ [0x20] @ pad_right 5 (fs_version info) @ [0x20] @
         pad_right 12 (fs_label info) @ [0x20] @ pad_right 36 (fs_uuid info) @ [0x20] @ pad_left 7 avail @ [0x20] @
         pad_left 6 used @ [0x20] @ mnt @ [0x0A])"

definition part_row :: "str \<Rightarrow> 'd block_device \<Rightarrow> 'd \<Rightarrow> nat \<Rightarrow> nat \<times> partition \<Rightarrow> str" where
  "part_row nm dev d n = (\<lambda>(i, part).
     (case partition_new dev d (part_start part) (part_sectors part) of
        None \<Rightarrow> []
      | Some view \<Rightarrow>
          let separator = (if i + 1 = n then [0xE2, 0x94, 0x94, 0xE2, 0x94, 0x80] else [0xE2, 0x94, 0x9C, 0xE2, 0x94, 0x80]);
              part_name = nm @ (if take 4 nm = lit ''nvme'' then lit ''p'' else []) @ decimal (unat (part_index part))
          in lsblk_row part_name (inspect (partition_view dev view) d) [] separator))"

definition device_rows :: "'d vfs \<Rightarrow> string \<times> 'd block_device \<Rightarrow> str" where
  "device_rows v = (\<lambda>(dev_name, dev).
     let nm = lit dev_name; d = disks v;
         mountpoint = (case mountpoint_for_device v nm of None \<Rightarrow> [] | Some m \<Rightarrow> m)
     in lsblk_row nm (inspect dev d) mountpoint [] @
        (case scan dev d of
           Inl _ \<Rightarrow> []
         | Inr parts \<Rightarrow> concat (map (part_row nm dev d (length parts)) (enumerate 0 parts))))"

definition sys_list_block_devices :: "u64 \<Rightarrow> u64 \<Rightarrow> ('d, 'a) ukernel_scheme \<Rightarrow> ('d, 'a) ukernel_scheme answer" where
  "sys_list_block_devices buf len s =
     list_out buf len
       (lit ''NAME        FSTYPE FSVER LABEL        UUID                                 FSAVAIL FSUSE% MOUNTPOINTS'' @ [0x0A] @
        concat (map (device_rows (the_vfs s)) (devices s))) s"

section \<open>Dispatch\<close>

definition then_return :: "('d, 'a) ukernel_scheme option \<Rightarrow> ('d, 'a) ukernel_scheme answer" where
  "then_return r = (case r of None \<Rightarrow> Panic | Some s \<Rightarrow> Return 0 s)"

definition syscall_dispatch :: "syscall_frame \<Rightarrow> ('d, 'a) ukernel_scheme \<Rightarrow> ('d, 'a) ukernel_scheme answer" where
  "syscall_dispatch f s =
     (let number = rax f in
      if number = 2 then sys_open (rdi f) (rsi f) (rdx f) s
      else if number = 3 then sys_close (rdi f) s
      else if number = 0 then sys_read (rdi f) (rsi f) (rdx f) s
      else if number = 1 then sys_write (rdi f) (rsi f) (rdx f) s
      else if number = 9001 then sys_list_files (rdi f) (rsi f) s
      else if number = 9006 then sys_list_processes (rdi f) (rsi f) s
      else if number = 9010 then sys_list_block_devices (rdi f) (rsi f) s
      else if number = 9007 then sys_path_mutation (rdi f) (rsi f) True s
      else if number = 9008 then sys_path_mutation (rdi f) (rsi f) False s
      else if number = 9009 then sys_sync s
      else if number = 9012 then sys_mount (rdi f) (rsi f) s
      else if number = 9011 then Panic
      else if number = 9002 then sys_read_file (rdi f) (rsi f) (rdx f) (r10 f) s
      else if number = 9003 then Return (uptime_ms s) s
      else if number = 9004 then then_return (sleep_ms s (rdi f))
      else if number = 9005 then sys_exec (rdi f) (rsi f) (rdx f) (r10 f) s
      else if number = 61 then sys_waitpid (rdi f) (rsi f) (rdx f) s
      else if number = 62 then sys_kill (rdi f) (rsi f) s
      else if number = 24 then then_return (yield_now s)
      else if number = 39 then Return (of_nat (current_id s)) s
      else if number = 60 then exit_answer (rdi f AND 0xFF) s
      else if number = 0x42 then
        (case sched_exit (s\<lparr>TEST_ARG := rdi f, TEST_DONE := True\<rparr>) of None \<Rightarrow> Panic | Some s \<Rightarrow> Gone s)
      else Return (errno ENOSYS) s)"

section \<open>Lemmas: what a call leaves alone\<close>

text \<open>Copying to user memory changes only memory.\<close>

lemma mem_only_copy_loop: "copy_to_loop s pml4 dst src k = (ok, s') \<Longrightarrow> mem_only s s'"
proof (induction s pml4 dst src k arbitrary: ok s' rule: copy_to_loop.induct)
  case (1 s pml4 dst src k)
  show ?case
    using 1(2) by (subst (asm) copy_to_loop.simps)
      (auto simp: Let_def split: if_splits option.splits dest!: 1(1) [OF _ refl refl] intro: mem_only_trans [OF mem_only_write(2)])
qed

lemma mem_only_copy_to_user: "copy_to_user s dst src = (ok, s') \<Longrightarrow> mem_only s s'"
  by (auto simp: copy_to_user_def split: if_splits dest: mem_only_copy_loop)

text \<open>A switch keeps everything beyond the scheduler.\<close>

lemma put_away_more: "skernel.more (put_away s cur how) = skernel.more s"
  by (cases how) (simp_all add: put_away_def Let_def)

lemma load_thread_more: "skernel.more (load_thread s t) = skernel.more s"
  by (cases "stack_slot t") (simp_all add: load_thread_def Let_def set_kernel_stack_def)

lemma switch_threads_more:
  assumes "switch_threads s how = Some (cur, t, s')"
  shows "skernel.more s' = skernel.more s"
proof -
  obtain sc sc' where "s' = (load_thread ((put_away (s\<lparr>sched := sc\<rparr>) cur how)\<lparr>sched := sc'\<rparr>) t)
      \<lparr>sched := (sched (load_thread ((put_away (s\<lparr>sched := sc\<rparr>) cur how)\<lparr>sched := sc'\<rparr>) t))\<lparr>current := Some t\<rparr>\<rparr>"
    using assms unfolding switch_threads_def Let_def by (auto split: bind_splits prod.splits)
  then show ?thesis
    by (simp add: load_thread_more put_away_more)
qed

lemma reschedule_more:
  assumes "reschedule s how = Some s'"
  shows "skernel.more s' = skernel.more s"
  by (rule reschedule_cases [OF assms], drule switch_threads_more)
    (auto simp: same_sched_def store_rsp_def split: if_splits)

lemma more_user:
  assumes "pkernel.more s' = pkernel.more s"
  shows "line_history s' = line_history s" "TERMINAL_READER s' = TERMINAL_READER s"
  using assms by (cases s; cases s'; simp)+

section \<open>The invariant and the isolation of processes\<close>

definition user_ok :: "('d, 'a) ukernel_scheme \<Rightarrow> bool" where
  "user_ok s \<longleftrightarrow> sched_ok s \<and> procs_ok (PROCS s) (next_id (sched s)) \<and> files_ok (OPEN_FILES s) (next_id (sched s)) \<and>
     mounts_ok (mounts (the_vfs s)) \<and> history_ok (line_history s) \<and> \<not> TERMINAL_READER s"

definition from_user :: "('d, 'a) ukernel_scheme \<Rightarrow> bool" where
  "from_user s \<longleftrightarrow> (\<exists>t. current (sched s) = Some t \<and> \<not> is_idle t)"

definition isolated :: "('d, 'a) ukernel_scheme \<Rightarrow> ('d, 'a) ukernel_scheme \<Rightarrow> bool" where
  "isolated s s' \<longleftrightarrow>
     (\<forall>q n. q \<noteq> current_id s \<longrightarrow> q < next_id (sched s) \<longrightarrow> find_open q n (OPEN_FILES s') = find_open q n (OPEN_FILES s)) \<and>
     (\<forall>r \<in> set (PROCS s). pid r \<noteq> current_id s \<longrightarrow> parent r \<noteq> current_id s \<longrightarrow> r \<in> set (PROCS s'))"

fun answered :: "('s \<Rightarrow> bool) \<Rightarrow> 's answer \<Rightarrow> bool" where
  "answered P (Return v s) = P s"
| "answered P (Again s) = P s"
| "answered P (Gone s) = P s"
| "answered P Waiting = True"
| "answered P Panic = True"

definition kept :: "('d, 'a) ukernel_scheme \<Rightarrow> ('d, 'a) ukernel_scheme \<Rightarrow> bool" where
  "kept s s' \<longleftrightarrow> user_ok s' \<and> isolated s s'"

lemma current_bound:
  assumes "sched_ok s"
  shows "current_id s < next_id (sched s)"
proof -
  obtain c where c: "current (sched s) = Some c"
    using assms by (auto simp: sched_ok_def idle_ok_def)
  then have "key c \<in># keys s"
    by (simp add: keys_def live_def)
  then show ?thesis
    using assms c by (auto simp: sched_ok_def keys_ok_def key_def current_id_def)
qed

lemma kept_refl: "user_ok s \<Longrightarrow> kept s s"
  by (simp add: kept_def isolated_def)

text \<open>Changes of the parts that neither the invariant nor the tables look at.\<close>

definition quiet :: "('d, 'a) ukernel_scheme \<Rightarrow> ('d, 'a) ukernel_scheme \<Rightarrow> bool" where
  "quiet s s' \<longleftrightarrow> sched s' = sched s \<and> waiters s' = waiters s \<and> READY s' = READY s \<and> PROCS s' = PROCS s \<and>
     OPEN_FILES s' = OPEN_FILES s \<and> the_vfs s' = the_vfs s \<and> line_history s' = line_history s \<and> TERMINAL_READER s' = TERMINAL_READER s"

lemma quiet_refl [simp]: "quiet s s"
  by (simp add: quiet_def)

lemma quiet_trans: "quiet s s1 \<Longrightarrow> quiet s1 s2 \<Longrightarrow> quiet s s2"
  by (simp add: quiet_def)

lemma kept_quiet: "kept s s1 \<Longrightarrow> quiet s1 s2 \<Longrightarrow> kept s s2"
  using sched_ok_cong [of s2 s1] by (auto simp: kept_def quiet_def user_ok_def isolated_def)

lemma mem_only_quiet:
  assumes "mem_only s s'"
  shows "quiet s s'"
  using mem_only_user [OF assms] more_user [of s' s] by (simp add: quiet_def same_user_def same_sched_def)

lemma copy_out_kept:
  assumes "kept s s1"
  shows "answered (kept s) (copy_out v buf bytes s1)"
proof (cases "copy_to_user s1 buf bytes")
  case (Pair ok s2)
  then show ?thesis
    using kept_quiet [OF assms mem_only_quiet [OF mem_only_copy_to_user [OF Pair]]] by (simp add: copy_out_def)
qed

lemma kept_vfs: "kept s s1 \<Longrightarrow> mounts_ok (mounts v) \<Longrightarrow> kept s (s1\<lparr>the_vfs := v\<rparr>)"
  using sched_ok_cong [of "s1\<lparr>the_vfs := v\<rparr>" s1] by (auto simp: kept_def user_ok_def isolated_def)

lemma kept_files:
  assumes "kept s s1" and "files_ok fs (next_id (sched s1))"
    and "\<And>q n. q \<noteq> current_id s \<Longrightarrow> find_open q n fs = find_open q n (OPEN_FILES s1)"
  shows "kept s (s1\<lparr>OPEN_FILES := fs\<rparr>)"
  using assms sched_ok_cong [of "s1\<lparr>OPEN_FILES := fs\<rparr>" s1] by (auto simp: kept_def user_ok_def isolated_def)

section \<open>Lemmas: the table of open files\<close>

lemma find_open_iff:
  assumes "files_ok fs b"
  shows "find_open q n fs = Some f \<longleftrightarrow> f \<in> set fs \<and> owns q n f"
proof
  assume "find_open q n fs = Some f"
  then show "f \<in> set fs \<and> owns q n f"
    by (auto simp: find_open_def find_Some_iff)
next
  assume f: "f \<in> set fs \<and> owns q n f"
  then obtain g where g: "find_open q n fs = Some g"
    by (cases "find_open q n fs") (auto simp: find_open_def find_None_iff)
  then have "g \<in> set fs" "owns q n g"
    by (auto simp: find_open_def find_Some_iff)
  then have "g = f"
    using assms f inj_onD [of "\<lambda>f. (file_pid f, fd f)" "set fs" g f] by (auto simp: files_ok_def owns_def distinct_map)
  then show "find_open q n fs = Some f"
    using g by simp
qed

text \<open>What a process finds depends only on its own entries.\<close>

lemma find_open_same:
  assumes "files_ok fs b" and "files_ok fs' b'" and "\<And>f. file_pid f = q \<Longrightarrow> f \<in> set fs' \<longleftrightarrow> f \<in> set fs"
  shows "find_open q n fs' = find_open q n fs"
proof (rule option.expand)
  have some: "find_open q n fs' = Some f \<longleftrightarrow> find_open q n fs = Some f" for f
    unfolding find_open_iff [OF assms(1)] find_open_iff [OF assms(2)] using assms(3) by (auto simp: owns_def)
  then show "(find_open q n fs' = None) = (find_open q n fs = None)"
    by (metis option.exhaust)
  show "the (find_open q n fs') = the (find_open q n fs)" if "find_open q n fs' \<noteq> None" "find_open q n fs \<noteq> None"
    using some that by force
qed

lemma set_offset_ok:
  assumes "files_ok fs b"
  shows "files_ok (set_offset p n off fs) b" "q \<noteq> p \<Longrightarrow> find_open q m (set_offset p n off fs) = find_open q m fs"
proof -
  have *: "files_ok (set_offset p n off fs) b \<and> (\<forall>f. file_pid f \<noteq> p \<longrightarrow> (f \<in> set (set_offset p n off fs) \<longleftrightarrow> f \<in> set fs))"
  proof (cases "position (owns p n) fs")
    case None
    then show ?thesis
      using assms by (simp add: set_offset_def)
  next
    case (Some i)
    let ?y = "(fs ! i)\<lparr>foffset := off\<rparr>"
    have i: "i < length fs" "file_pid (fs ! i) = p"
      using position_Some [OF Some] by (auto simp: owns_def)
    have "map (\<lambda>f. (file_pid f, fd f)) (fs[i := ?y]) = map (\<lambda>f. (file_pid f, fd f)) fs"
      by (rule map_update_same) simp
    moreover have "\<forall>f \<in> set (fs[i := ?y]). file_pid f < b"
      using assms i by (auto simp: files_ok_def dest!: set_update_subset_insert [THEN subsetD])
    moreover have "f \<in> set (fs[i := ?y]) \<longleftrightarrow> f \<in> set fs" if "file_pid f \<noteq> p" for f
      using that i update_keeps_others [of f fs file_pid i ?y] by (auto dest!: set_update_subset_insert [THEN subsetD])
    ultimately show ?thesis
      using assms Some by (simp add: set_offset_def files_ok_def)
  qed
  then show "files_ok (set_offset p n off fs) b"
    by simp
  show "find_open q m (set_offset p n off fs) = find_open q m fs" if "q \<noteq> p"
    using * that by (intro find_open_same [OF assms]) auto
qed

lemma close_one_ok:
  assumes "files_ok fs b" and "position (owns p n) fs = Some i"
  shows "files_ok (swap_remove fs i) b" "q \<noteq> p \<Longrightarrow> find_open q m (swap_remove fs i) = find_open q m fs"
    "find_open p n (swap_remove fs i) = None"
proof -
  have i: "i < length fs" "owns p n (fs ! i)"
    using position_Some [OF assms(2)] by auto
  have d: "distinct (map (\<lambda>f. (file_pid f, fd f)) fs)"
    using assms(1) by (simp add: files_ok_def)
  note r = distinct_map_swap_remove [OF i(1) d]
  show ok: "files_ok (swap_remove fs i) b"
    using assms(1) r by (auto simp: files_ok_def)
  show "find_open q m (swap_remove fs i) = find_open q m fs" if "q \<noteq> p"
    using that r(3) i(2) by (intro find_open_same [OF assms(1) ok]) (auto simp: owns_def)
  show "find_open p n (swap_remove fs i) = None"
    using r(2) i(2) by (auto simp: find_open_def find_None_iff owns_def image_iff)
qed

text \<open>The search for a descriptor finds the least free one from 3 on.\<close>

definition used_fd :: "nat \<Rightarrow> open_file list \<Rightarrow> u64 \<Rightarrow> bool" where
  "used_fd p fs n \<longleftrightarrow> list_ex (owns p n) fs"

lemma free_fd_exists:
  assumes "length fs + 4 < 2 ^ 64"
  shows "\<exists>k \<in> {3..<4 + length fs}. \<not> used_fd p fs (of_nat k)"
proof (rule ccontr)
  let ?N = "{3..<4 + length fs}"
  assume "\<not> ?thesis"
  then have "of_nat ` ?N \<subseteq> fd ` set fs"
    by (force simp: used_fd_def list_ex_iff owns_def)
  then have "card (of_nat ` ?N :: u64 set) \<le> length fs"
    by (meson card_length card_image_le card_mono finite_imageI finite_set order_trans)
  moreover have "inj_on (of_nat :: nat \<Rightarrow> u64) ?N"
  proof (rule inj_onI)
    fix x y assume "x \<in> ?N" "y \<in> ?N" "(of_nat x :: u64) = of_nat y"
    then have "unat (of_nat x :: u64) = unat (of_nat y :: u64)" "x < 2 ^ 64" "y < 2 ^ 64"
      using assms by auto
    then show "x = y"
      using unat_of_nat_u64 by simp
  qed
  then have "card (of_nat ` ?N :: u64 set) = length fs + 1"
    by (simp add: card_image)
  ultimately show False
    by simp
qed

lemma next_fd_least:
  assumes "length fs + 4 < 2 ^ 64"
  shows "3 \<le> next_fd p fs" "\<not> used_fd p fs (next_fd p fs)" "3 \<le> m \<Longrightarrow> m < next_fd p fs \<Longrightarrow> used_fd p fs m"
proof -
  let ?free = "\<lambda>n. \<not> used_fd p fs n"
  have "List.find ?free (map of_nat [3..<4 + length fs]) \<noteq> None"
    using free_fd_exists [OF assms, of p] by (auto simp: find_None_iff)
  then obtain x where x: "List.find ?free (map of_nat [3..<4 + length fs]) = Some x"
    by blast
  then obtain k where k: "k < length fs + 1" "?free x" "x = of_nat (3 + k)" "\<forall>j < k. \<not> ?free (of_nat (3 + j))"
    by (auto simp: find_Some_iff simp del: upt_Suc)
  have n: "next_fd p fs = of_nat (3 + k)"
    using x k(3) by (simp add: next_fd_def used_fd_def)
  have u: "unat (of_nat (3 + k) :: u64) = 3 + k"
    using k(1) assms by (intro unat_of_nat_u64) simp
  show "3 \<le> next_fd p fs" "\<not> used_fd p fs (next_fd p fs)"
    using k(2,3) n u by (simp_all add: word_le_nat_alt)
  show "used_fd p fs m" if "3 \<le> m" "m < next_fd p fs"
  proof -
    have m: "3 \<le> unat m" "unat m < 3 + k"
      using that n u by (simp_all add: word_le_nat_alt word_less_nat_alt)
    then have "of_nat (3 + (unat m - 3)) = m"
      by simp
    then show ?thesis
      using k(4) m by (metis diff_less_mono add_diff_cancel_left')
  qed
qed

lemma append_file_ok:
  assumes "files_ok fs b" and "file_pid f < b" and "\<not> used_fd (file_pid f) fs (fd f)"
  shows "files_ok (fs @ [f]) b" "q \<noteq> file_pid f \<Longrightarrow> find_open q m (fs @ [f]) = find_open q m fs"
    "find_open (file_pid f) (fd f) (fs @ [f]) = Some f"
proof -
  show ok: "files_ok (fs @ [f]) b"
    using assms by (auto simp: files_ok_def used_fd_def list_ex_iff owns_def)
  show "find_open q m (fs @ [f]) = find_open q m fs" if "q \<noteq> file_pid f"
    using that by (intro find_open_same [OF assms(1) ok]) auto
  show "find_open (file_pid f) (fd f) (fs @ [f]) = Some f"
    by (simp add: find_open_iff [OF ok] owns_def)
qed

lemma close_process_find:
  assumes "files_ok fs b" and "q \<noteq> p"
  shows "find_open q m (close_process_files p fs) = find_open q m fs"
  using assms(2) by (intro find_open_same [OF assms(1) close_files_ok [OF assms(1)]]) (auto simp: close_process_files_def)

lemma init_process_find:
  assumes "files_ok fs b" and "q \<noteq> p"
  shows "find_open q m (init_process_files p fs) = find_open q m fs"
  using assms(2)
  by (intro find_open_same [OF assms(1) init_files_ok [OF assms(1), of p "max b (p + 1)"]])
    (auto simp: init_process_files_def std_file_def)

section \<open>Every call keeps the invariant and the other processes\<close>

lemma read_line_outcome:
  assumes "0 < cap"
  shows "read_line cap h input \<noteq> Panicked"
    "history_ok h \<Longrightarrow> read_line cap h input = Finished (e, rest) \<Longrightarrow> history_ok (HISTORY e)"
proof -
  have r: "line_of (read_line cap h input) = finish_line cap h (spec_line cap h blank_line input)"
    using read_loop_refines [OF editor_start_ok(1), of cap h input] assms by (simp add: read_line_def editor_start_ok)
  show "read_line cap h input \<noteq> Panicked"
    using r by (auto simp: line_of_def finish_line_def split: option.splits)
  show "history_ok (HISTORY e)" if "history_ok h" "read_line cap h input = Finished (e, rest)"
    using r that remember_ok [OF that(1)] by (auto simp: line_of_def finish_line_def split: option.splits)
qed

lemma rdrand_quiet: "rdrand_loop n s = (r, s') \<Longrightarrow> quiet s s'"
  by (induction n arbitrary: s) (auto simp: Let_def quiet_def split: option.splits)

lemma urandom_quiet: "urandom_word s = (w, s') \<Longrightarrow> quiet s s'"
  by (auto simp: urandom_word_def urandom_fallback_def Let_def split: prod.splits option.splits if_splits
      dest!: rdrand_quiet intro: quiet_trans) (auto simp: quiet_def)

lemma fill_urandom_spec: "fill_urandom n s = (bytes, s') \<Longrightarrow> quiet s s' \<and> length bytes = n"
proof (induction n s arbitrary: bytes s' rule: fill_urandom.induct)
  case (1 n s)
  show ?case
  proof (cases "n = 0")
    case False
    obtain w s1 where w: "urandom_word s = (w, s1)"
      by force
    obtain rest s2 where r: "fill_urandom (n - 8) s1 = (rest, s2)"
      by force
    have "quiet s1 s2 \<and> length rest = n - 8"
      using 1(1) [OF False w [symmetric] r] .
    then show ?thesis
      using 1(2) w r False urandom_quiet [OF w] quiet_trans [of s s1 s2] by (auto simp: fill_urandom.simps [of n])
  qed (use 1(2) in \<open>simp add: fill_urandom.simps\<close>)
qed

lemma reschedule_kept:
  assumes "kept s s1" and "may_do s1 how" and r: "reschedule s1 how = Some s2"
  shows "kept s s2"
proof -
  have so: "sched_ok s1"
    using assms(1) by (simp add: kept_def user_ok_def)
  note k = reschedule_ok [OF so assms(2) r] and m = more_process [OF reschedule_more [OF r]]
  show ?thesis
    using assms(1) k m more_user [OF m(4)] by (simp add: kept_def user_ok_def isolated_def)
qed

lemma yield_kept:
  assumes "user_ok s" and "yield_now s = Some s'"
  shows "kept s s'"
  using assms reschedule_kept [OF kept_refl [OF assms(1)], of Yield s']
  by (auto simp: yield_now_def may_do_def user_ok_def sched_ok_def split: if_splits)

lemma exit_kept:
  assumes "user_ok s" and "from_user s" and "exit_current code s = Some s'"
  shows "kept s s'"
proof -
  let ?p = "current_id s"
  define s1 where "s1 = s\<lparr>OPEN_FILES := close_process_files ?p (OPEN_FILES s), PROCS := record_exit ?p code (PROCS s)\<rparr>"
  have b: "?p < next_id (sched s)"
    using assms(1) by (intro current_bound) (simp add: user_ok_def)
  have "sched_ok s1 = sched_ok s"
    by (rule sched_ok_cong) (simp_all add: s1_def)
  then have "user_ok s1"
    using assms(1) b by (simp add: user_ok_def s1_def record_exit_ok close_files_ok)
  moreover have "isolated s s1"
    using assms(1) by (auto simp: isolated_def s1_def user_ok_def record_exit_others intro: close_process_find)
  moreover have "sched_exit s1 = Some s'"
    using assms(3) by (simp add: exit_current_def s1_def Let_def)
  then have "reschedule s1 Exit = Some s'"
    by (simp add: sched_exit_def split: if_splits)
  moreover have "may_do s1 Exit"
    using assms(2) by (auto simp: may_do_def from_user_def s1_def)
  ultimately show ?thesis
    using reschedule_kept [of s s1 Exit s'] by (simp add: kept_def)
qed

lemma exit_answer_kept: "user_ok s \<Longrightarrow> from_user s \<Longrightarrow> answered (kept s) (exit_answer code s)"
  by (auto simp: exit_answer_def split: option.splits dest: exit_kept)

lemma kept_parts:
  assumes "kept s s1"
  shows "files_ok (OPEN_FILES s1) (next_id (sched s1))" "sched_ok s1" "mounts_ok (mounts (the_vfs s1))"
  using assms by (simp_all add: kept_def user_ok_def)

text \<open>Terminal and files.\<close>

lemma read_terminal_kept:
  assumes ok: "user_ok s" and "0 < n"
  shows "answered (kept s) (read_terminal n buf s)"
proof (cases "read_line n (line_history s) (terminal_input s)")
  case (Finished r)
  obtain e rest where r: "r = (e, rest)"
    by force
  define s1 where "s1 = s\<lparr>line_history := HISTORY e, terminal_input := rest, console_out := console_out s @ echo e,
    TERMINAL_READER := False\<rparr>"
  have "history_ok (HISTORY e)"
    using ok Finished r by (intro read_line_outcome(2) [OF assms(2)]) (auto simp: user_ok_def)
  moreover have "sched_ok s1 = sched_ok s"
    by (rule sched_ok_cong) (simp_all add: s1_def)
  ultimately have "kept s s1"
    using ok by (simp add: kept_def user_ok_def isolated_def s1_def)
  moreover have "read_terminal n buf s = copy_out (of_nat (length (line e))) buf (line e) s1"
    using ok Finished r by (simp add: read_terminal_def user_ok_def Let_def s1_def)
  ultimately show ?thesis
    using copy_out_kept by metis
qed (use ok in \<open>simp_all add: read_terminal_def user_ok_def\<close>)

lemma read_file_kept:
  assumes ok: "user_ok s" and "p = current_id s"
  shows "answered (kept s) (read_file p n f len buf s)"
proof (cases "vfs_read_at (the_vfs s) (fpath f) (foffset f) (replicate len 0)")
  case (Inr r)
  obtain got bytes where r: "r = (got, bytes)"
    by force
  obtain b s1 where c: "copy_to_user s buf (take got bytes) = (b, s1)"
    by force
  have k: "kept s s1"
    by (rule kept_quiet [OF kept_refl [OF ok] mem_only_quiet [OF mem_only_copy_to_user [OF c]]])
  have "kept s (s1\<lparr>OPEN_FILES := set_offset p n (foffset f + got) (OPEN_FILES s1)\<rparr>)"
    using kept_files [OF k, of "set_offset p n (foffset f + got) (OPEN_FILES s1)"] set_offset_ok kept_parts(1) [OF k] assms(2) by auto
  then show ?thesis
    using k c Inr r by (cases b) (simp_all add: read_file_def)
qed (simp add: read_file_def kept_refl [OF ok])

lemma sys_read_kept:
  assumes ok: "user_ok s"
  shows "answered (kept s) (sys_read n buf len s)"
proof -
  have k: "kept s s"
    by (rule kept_refl [OF ok])
  have "answered (kept s) (case fill_urandom m s of (bytes, s1) \<Rightarrow> copy_out v buf bytes s1)" for m v
    using fill_urandom_spec [of m s] by (auto split: prod.splits intro: copy_out_kept kept_quiet [OF k])
  then show ?thesis
    using k by (simp add: sys_read_def Let_def copy_out_kept [OF k] read_terminal_kept [OF ok] read_file_kept [OF ok]
        split: option.split fd_kind.split)
qed

lemma kept_update_vfs:
  assumes "user_ok s" and "vfs_step (the_vfs s) v"
  shows "kept s (s\<lparr>the_vfs := v\<rparr>)"
  using assms by (intro kept_vfs kept_refl step_ok [OF assms(2)]) (auto simp: user_ok_def)

lemma write_file_kept:
  assumes ok: "user_ok s" and "p = current_id s"
  shows "answered (kept s) (write_file p n f bytes s)"
proof -
  have "answered (kept s) (case vfs_write_at (the_vfs s) (fpath f) offset bytes of
      (Inl error, v) \<Rightarrow> Return (fs_errno error) (s\<lparr>the_vfs := v\<rparr>)
    | (Inr written, v) \<Rightarrow>
        Return (of_nat written) (s\<lparr>the_vfs := v, OPEN_FILES := set_offset p n (offset + written) (OPEN_FILES s)\<rparr>))" for offset
  proof (cases "vfs_write_at (the_vfs s) (fpath f) offset bytes")
    case (Pair r v)
    have k: "kept s (s\<lparr>the_vfs := v\<rparr>)"
      by (rule kept_update_vfs [OF ok vfs_step.written [OF Pair]])
    have "kept s (s\<lparr>the_vfs := v, OPEN_FILES := set_offset p n off (OPEN_FILES s)\<rparr>)" for off
      using kept_files [OF k, of "set_offset p n off (OPEN_FILES s)"] set_offset_ok kept_parts(1) [OF k] assms(2) by auto
    then show ?thesis
      using Pair k by (cases r) simp_all
  qed
  then show ?thesis
    using kept_refl [OF ok] by (auto simp: write_file_def split: sum.split)
qed

lemma sys_write_kept:
  assumes ok: "user_ok s"
  shows "answered (kept s) (sys_write n buf len s)"
proof -
  have k: "kept s s"
    by (rule kept_refl [OF ok])
  then have "kept s (s\<lparr>console_out := out\<rparr>)" for out
    by (rule kept_quiet) (simp add: quiet_def)
  then show ?thesis
    using k by (simp add: sys_write_def Let_def write_file_kept [OF ok] split: option.split)
qed

text \<open>Opening and closing.\<close>

lemma install_kept:
  assumes k: "kept s s1" and c: "current_id s1 = current_id s" and room: "length (OPEN_FILES s1) + 4 < 2 ^ 64"
  shows "answered (kept s) (install_fd kind path off access app s1)"
proof -
  let ?p = "current_id s1" and ?fs = "OPEN_FILES s1"
  let ?f = "\<lparr>file_pid = ?p, fd = next_fd ?p ?fs, fkind = kind, fpath = path, foffset = off,
    readable = (access = 0 \<or> access = O_RDWR), writable = (access = O_WRONLY \<or> access = O_RDWR), append_mode = app\<rparr>"
  have "?p < next_id (sched s1)"
    by (rule current_bound [OF kept_parts(2) [OF k]])
  then have "files_ok (?fs @ [?f]) (next_id (sched s1))" "q \<noteq> ?p \<Longrightarrow> find_open q m (?fs @ [?f]) = find_open q m ?fs" for q m
    using append_file_ok [OF kept_parts(1) [OF k], of ?f] next_fd_least(2) [OF room, of ?p] by simp_all
  then have "kept s (s1\<lparr>OPEN_FILES := ?fs @ [?f]\<rparr>)"
    using c by (intro kept_files [OF k]) auto
  then show ?thesis
    by (simp add: install_fd_def Let_def)
qed

lemma current_id_vfs [simp]: "current_id (s\<lparr>the_vfs := v\<rparr>) = current_id s"
  by (simp add: current_id_def)

lemma open_file_at_kept:
  assumes k: "kept s s1" and c: "current_id s1 = current_id s" and room: "length (OPEN_FILES s1) + 4 < 2 ^ 64"
  shows "answered (kept s) (open_file_at path flags len s1)"
proof (cases "vfs_truncate (the_vfs s1) path")
  case (Pair r v)
  have "mounts_ok (mounts v)"
    using step_ok [OF vfs_step.truncated [OF Pair] kept_parts(3) [OF k]] .
  then have kv: "kept s (s1\<lparr>the_vfs := v\<rparr>)"
    by (rule kept_vfs [OF k])
  have "answered (kept s) (install_fd kind p off acc app (s1\<lparr>the_vfs := v\<rparr>))"
    "answered (kept s) (install_fd kind p off acc app s1)" for kind p off acc app
    using install_kept [OF kv] install_kept [OF k] c room by simp_all
  then show ?thesis
    using Pair kv by (cases r) (simp_all add: open_file_at_def Let_def)
qed

lemma open_path_kept:
  assumes ok: "user_ok s" and room: "length (OPEN_FILES s) + 4 < 2 ^ 64"
  shows "answered (kept s) (open_path path flags s)"
proof -
  have k: "kept s s"
    by (rule kept_refl [OF ok])
  obtain r v where cr: "vfs_create_file (the_vfs s) path = (r, v)"
    by force
  have kv: "kept s (s\<lparr>the_vfs := v\<rparr>)"
    by (rule kept_update_vfs [OF ok vfs_step.created_file [OF cr]])
  have "answered (kept s) (open_file_at path flags 0 (s\<lparr>the_vfs := v\<rparr>))"
    using open_file_at_kept [OF kv] room by simp
  then have "answered (kept s) (case vfs_create_file (the_vfs s) path of
      (Inl error, v) \<Rightarrow> Return (fs_errno error) (s\<lparr>the_vfs := v\<rparr>) | (Inr _, v) \<Rightarrow> open_file_at path flags 0 (s\<lparr>the_vfs := v\<rparr>))"
    using cr kv by (cases r) simp_all
  then show ?thesis
    using k install_kept [OF k refl room] open_file_at_kept [OF k refl room] by (simp add: open_path_def split: option.split sum.split)
qed

lemma sys_open_kept:
  assumes ok: "user_ok s" and room: "length (OPEN_FILES s) + 4 < 2 ^ 64"
  shows "answered (kept s) (sys_open path_ptr path_len flags s)"
  using kept_refl [OF ok] open_path_kept [OF assms] by (simp add: sys_open_def split: option.split)

lemma sys_close_kept:
  assumes ok: "user_ok s"
  shows "answered (kept s) (sys_close n s)"
proof (cases "position (owns (current_id s) n) (OPEN_FILES s)")
  case (Some i)
  note k = kept_refl [OF ok]
  note c = close_one_ok [OF kept_parts(1) [OF k] Some]
  have "kept s (s\<lparr>OPEN_FILES := swap_remove (OPEN_FILES s) i\<rparr>)"
    by (rule kept_files [OF k c(1)]) (rule c(2))
  then show ?thesis
    using Some by (simp add: sys_close_def)
qed (simp add: sys_close_def kept_refl [OF ok])

text \<open>Processes.\<close>

lemma spawn_kept:
  assumes ok: "user_ok s" and sp: "spawn_with s path argv env = Some (r, s')"
  shows "kept s s'"
proof -
  have so: "sched_ok s"
    using ok by (simp add: user_ok_def)
  note f = spawn_with_fields [OF sp so]
  have more: "line_history s' = line_history s" "TERMINAL_READER s' = TERMINAL_READER s"
    using f more_user [of s' s] by simp_all
  show ?thesis
  proof (cases r)
    case (Inl e)
    then show ?thesis
      using ok f more by (auto simp: kept_def user_ok_def isolated_def intro: procs_ok_mono files_ok_mono)
  next
    case (Inr p)
    have p: "p = next_id (sched s)" "next_id (sched s') = p + 1"
      "PROCS s' = register p (current_id s) path (PROCS s)" "OPEN_FILES s' = init_process_files p (OPEN_FILES s)"
      using f Inr by simp_all
    have ps: "procs_ok (PROCS s) p" and fs: "files_ok (OPEN_FILES s) p"
      using ok p(1) by (simp_all add: user_ok_def)
    have "procs_ok (PROCS s') (p + 1)"
      unfolding p(3) by (intro register_ok procs_ok_mono [OF ps]) simp_all
    moreover have "files_ok (OPEN_FILES s') (p + 1)"
      unfolding p(4) by (rule init_files_ok [OF fs]) simp_all
    moreover have "r \<in> set (PROCS s')" if "r \<in> set (PROCS s)" for r
      unfolding p(3) using that ps by (intro register_others) (auto simp: procs_ok_def)
    moreover have "find_open q n (OPEN_FILES s') = find_open q n (OPEN_FILES s)" if "q < p" for q n
      unfolding p(4) using that by (intro init_process_find [OF fs]) simp
    ultimately show ?thesis
      using ok f more p(1,2) by (simp add: kept_def user_ok_def isolated_def)
  qed
qed

lemma sys_exec_kept:
  assumes ok: "user_ok s"
  shows "answered (kept s) (sys_exec path_ptr path_len argv_ptr env_ptr s)"
proof -
  have "answered (kept s) (exec_path path argv_ptr env_ptr s)" for path
    using kept_refl [OF ok] spawn_kept [OF ok] by (auto simp: exec_path_def split: sum.split option.split)
  then show ?thesis
    using kept_refl [OF ok] by (simp add: sys_exec_def split: option.split)
qed

lemma sys_waitpid_kept:
  assumes ok: "user_ok s"
  shows "answered (kept s) (sys_waitpid p status_ptr options s)"
proof (cases "take_child_exit_status (current_id s) p (PROCS s)")
  case (Pair r procs)
  have po: "procs_ok (PROCS s) (next_id (sched s))"
    using ok by (simp add: user_ok_def)
  note t = take_child_ok [OF po Pair]
  have "sched_ok (s\<lparr>PROCS := procs\<rparr>) = sched_ok s"
    by (rule sched_ok_cong) simp_all
  then have "kept s (s\<lparr>PROCS := procs\<rparr>)"
    using ok t by (simp add: kept_def user_ok_def isolated_def)
  note k = kept_refl [OF ok] this copy_out_kept [OF this]
  show ?thesis
    using Pair k yield_kept [OF ok] by (simp add: sys_waitpid_def Let_def split: sum.split option.split)
qed

lemma sys_kill_kept:
  assumes ok: "user_ok s" and "from_user s"
  shows "answered (kept s) (sys_kill p signal s)"
  using kept_refl [OF ok] exit_answer_kept [OF assms] by (simp add: sys_kill_def)

text \<open>Filesystems.\<close>

lemma sys_path_mutation_kept:
  assumes ok: "user_ok s"
  shows "answered (kept s) (sys_path_mutation path_ptr path_len make_dir s)"
proof -
  have "answered (kept s) (case (if make_dir then vfs_create_dir (the_vfs s) path else vfs_remove (the_vfs s) path) of
      (Inr _, v) \<Rightarrow> Return 0 (s\<lparr>the_vfs := v\<rparr>) | (Inl error, v) \<Rightarrow> Return (fs_errno error) (s\<lparr>the_vfs := v\<rparr>))" for path
    using kept_update_vfs [OF ok] vfs_step.created_dir [of "the_vfs s" path] vfs_step.removed [of "the_vfs s" path]
    by (auto split: sum.split prod.split)
  then show ?thesis
    using kept_refl [OF ok] by (simp add: sys_path_mutation_def Let_def split: option.split)
qed

lemma sys_sync_kept:
  assumes ok: "user_ok s"
  shows "answered (kept s) (sys_sync s)"
  using kept_update_vfs [OF ok vfs_step.synced] by (auto simp: sys_sync_def split: prod.split sum.split)

lemma sys_mount_kept:
  assumes ok: "user_ok s"
  shows "answered (kept s) (sys_mount device_ptr mountpoint_ptr s)"
proof -
  have "answered (kept s) (mount_device device_path mountpoint s)" for device_path mountpoint
    using kept_refl [OF ok] kept_update_vfs [OF ok vfs_step.mounted_one]
    by (auto simp: mount_device_def mount_fat32_device_def split: option.split prod.split sum.split)
  then show ?thesis
    using kept_refl [OF ok] by (simp add: sys_mount_def split: sum.split)
qed

lemma sys_read_file_kept:
  assumes ok: "user_ok s"
  shows "answered (kept s) (sys_read_file name_ptr name_len buf buf_len s)"
  using kept_refl [OF ok] copy_out_kept [OF kept_refl [OF ok]]
  by (simp add: sys_read_file_def Let_def split: option.split sum.split)

lemma list_out_kept:
  assumes ok: "user_ok s"
  shows "answered (kept s) (list_out buf len out s)"
  using kept_refl [OF ok] copy_out_kept [OF kept_refl [OF ok]] by (simp add: list_out_def)

lemma then_return_kept:
  assumes "\<And>s'. r = Some s' \<Longrightarrow> kept s s'"
  shows "answered (kept s) (then_return r)"
  using assms by (cases r) (simp_all add: then_return_def)

lemma sleep_kept:
  assumes "user_ok s" and "from_user s" and "sleep_ms s ms = Some s'"
  shows "kept s s'"
  using assms reschedule_kept [OF kept_refl [OF assms(1)], of "Sleep (uptime_ms s + ms)" s']
  by (auto simp: sleep_ms_def may_do_def from_user_def split: if_splits intro: kept_refl)

lemma test_exit_kept:
  assumes ok: "user_ok s" and "from_user s" and "sched_exit (s\<lparr>TEST_ARG := a, TEST_DONE := True\<rparr>) = Some s'"
  shows "kept s s'"
proof -
  let ?s = "s\<lparr>TEST_ARG := a, TEST_DONE := True\<rparr>"
  have "kept s ?s"
    by (rule kept_quiet [OF kept_refl [OF ok]]) (simp add: quiet_def)
  moreover have "may_do ?s Exit"
    using assms(2) by (auto simp: may_do_def from_user_def)
  ultimately show ?thesis
    using assms(3) reschedule_kept [of s ?s Exit s'] by (simp add: sched_exit_def split: if_splits)
qed

lemma dispatch_kept:
  assumes ok: "user_ok s" and u: "from_user s" and room: "length (OPEN_FILES s) + 4 < 2 ^ 64"
  shows "answered (kept s) (syscall_dispatch f s)"
proof -
  note calls = sys_open_kept [OF ok room] sys_close_kept [OF ok] sys_read_kept [OF ok] sys_write_kept [OF ok] list_out_kept [OF ok]
    sys_path_mutation_kept [OF ok] sys_sync_kept [OF ok] sys_mount_kept [OF ok] sys_read_file_kept [OF ok] sys_exec_kept [OF ok]
    sys_waitpid_kept [OF ok] sys_kill_kept [OF ok u] exit_answer_kept [OF ok u] kept_refl [OF ok]
  have "answered (kept s) (then_return (sleep_ms s ms))" "answered (kept s) (then_return (yield_now s))" for ms
    using then_return_kept sleep_kept [OF ok u] yield_kept [OF ok] by blast+
  moreover have "answered (kept s) (case sched_exit (s\<lparr>TEST_ARG := a, TEST_DONE := True\<rparr>) of None \<Rightarrow> Panic | Some s \<Rightarrow> Gone s)" for a
    using test_exit_kept [OF ok u] by (simp split: option.split)
  ultimately show ?thesis
    using calls
    by (simp add: syscall_dispatch_def Let_def sys_list_files_def sys_list_processes_def sys_list_block_devices_def)
qed

text \<open>The calls that neither give up the processor nor start a process never panic.\<close>

lemma copy_out_returns [simp]: "copy_out v buf bytes s \<noteq> Panic"
  by (simp add: copy_out_def split: prod.split)

lemma install_returns [simp]: "install_fd kind path off access app s \<noteq> Panic"
  by (simp add: install_fd_def Let_def)

lemma open_file_at_returns [simp]: "open_file_at path flags len s \<noteq> Panic"
  by (simp add: open_file_at_def Let_def split: prod.split sum.split)

lemma sys_open_returns: "sys_open path_ptr path_len flags s \<noteq> Panic"
  by (simp add: sys_open_def open_path_def split: prod.split sum.split option.split)

lemma sys_read_returns:
  assumes "\<not> TERMINAL_READER s"
  shows "sys_read n buf len s \<noteq> Panic"
proof -
  have "read_terminal k buf s \<noteq> Panic" if "k \<noteq> 0" for k
    using assms that read_line_outcome(1) [of k] by (simp add: read_terminal_def Let_def split: outcome.split)
  then show ?thesis
    by (simp add: sys_read_def read_file_def Let_def split: option.split fd_kind.split prod.split sum.split bool.split)
qed

lemma sys_write_returns: "sys_write n buf len s \<noteq> Panic"
  by (simp add: sys_write_def write_file_def Let_def split: option.split prod.split sum.split)

lemma other_calls_return:
  "sys_close n s \<noteq> Panic" "list_out buf len out s \<noteq> Panic" "sys_path_mutation path_ptr path_len make_dir s \<noteq> Panic"
  "sys_sync s \<noteq> Panic" "sys_read_file name_ptr name_len buf buf_len s \<noteq> Panic"
  by (simp_all add: sys_close_def list_out_def sys_path_mutation_def sys_sync_def sys_read_file_def Let_def
      split: option.split prod.split sum.split)

lemma sys_mount_returns: "sys_mount device_ptr mountpoint_ptr s \<noteq> Panic"
  by (simp add: sys_mount_def mount_device_def split: option.split prod.split sum.split)

lemma dispatch_returns:
  assumes "\<not> TERMINAL_READER s" and "rax f \<notin> {9011, 9005, 9004, 24, 60, 61, 62, 0x42}"
  shows "syscall_dispatch f s \<noteq> Panic"
  using assms sys_read_returns [OF assms(1)]
  by (simp add: syscall_dispatch_def Let_def sys_open_returns sys_write_returns other_calls_return sys_mount_returns
      sys_list_files_def sys_list_processes_def sys_list_block_devices_def)

text \<open>Opening a file or device, seen from the table.\<close>

definition opened_as :: "u64 \<Rightarrow> ('d, 'a) ukernel_scheme \<Rightarrow> ('d, 'a) ukernel_scheme answer \<Rightarrow> bool" where
  "opened_as flags s a \<longleftrightarrow>
     (\<exists>v s'. a = Return v s' \<and> current_id s' = current_id s \<and>
       (OPEN_FILES s' = OPEN_FILES s \<or>
        (\<exists>f. OPEN_FILES s' = OPEN_FILES s @ [f] \<and> file_pid f = current_id s \<and> fd f = v \<and>
           v = next_fd (current_id s) (OPEN_FILES s) \<and> readable f = (flags AND 3 = 0 \<or> flags AND 3 = O_RDWR) \<and>
           writable f = (flags AND 3 = O_WRONLY \<or> flags AND 3 = O_RDWR))))"

lemma install_opened:
  assumes "current_id s1 = current_id s" and "OPEN_FILES s1 = OPEN_FILES s"
  shows "opened_as flags s (install_fd kind path off (flags AND 3) app s1)"
  using assms by (simp add: opened_as_def install_fd_def Let_def current_id_def)

lemma opened_refused: "current_id s1 = current_id s \<Longrightarrow> OPEN_FILES s1 = OPEN_FILES s \<Longrightarrow> opened_as flags s (Return v s1)"
  by (simp add: opened_as_def)

lemma open_file_at_opened:
  assumes "current_id s1 = current_id s" and "OPEN_FILES s1 = OPEN_FILES s"
  shows "opened_as flags s (open_file_at path flags len s1)"
  using assms by (simp add: open_file_at_def Let_def install_opened opened_refused split: prod.split sum.split)

lemma sys_open_opened: "opened_as flags s (sys_open path_ptr path_len flags s)"
  by (simp add: sys_open_def open_path_def install_opened open_file_at_opened opened_refused
      split: option.split prod.split sum.split)

lemma close_last:
  assumes "\<not> used_fd p fs (fd f)" and "file_pid f = p"
  shows "position (owns p (fd f)) (fs @ [f]) = Some (length fs)" "swap_remove (fs @ [f]) (length fs) = fs"
proof -
  show "swap_remove (fs @ [f]) (length fs) = fs"
    by (simp add: swap_remove_def)
  have "owns p (fd f) f" "\<forall>x \<in> set fs. \<not> owns p (fd f) x"
    using assms by (auto simp: owns_def used_fd_def list_ex_iff)
  then show "position (owns p (fd f)) (fs @ [f]) = Some (length fs)"
    by (induction fs) auto
qed

lemma find_open_None: "find_open p n fs = None \<longleftrightarrow> \<not> used_fd p fs n"
  by (auto simp: find_open_def find_None_iff used_fd_def list_ex_iff)

lemma find_open_last:
  assumes "\<not> used_fd p fs (fd f)" and "file_pid f = p"
  shows "find_open p (fd f) (fs @ [f]) = Some f"
proof -
  have "owns p (fd f) f" "\<forall>x \<in> set fs. \<not> owns p (fd f) x"
    using assms by (auto simp: owns_def used_fd_def list_ex_iff)
  then show ?thesis
    unfolding find_open_def by (induction fs) auto
qed

text \<open>The access bits that \<open>open\<close> accepts.\<close>

lemma access_bits:
  assumes "\<not> open_flags_bad flags"
  shows "flags AND 3 = 0 \<or> flags AND 3 = O_WRONLY \<or> flags AND 3 = O_RDWR"
proof -
  have m: "flags AND 3 = take_bit 2 flags"
    by (simp add: take_bit_eq_mask mask_eq_exp_minus_1)
  have "unat (flags AND 3) < 4"
    unfolding m by (simp add: unsigned_take_bit_eq take_bit_nat_def)
  then have "unat (flags AND 3) \<in> {0, 1, 2, 3}"
    by auto
  then have "flags AND 3 \<in> {0, 1, 2, 3}"
    by (simp add: word_unat_eq_iff)
  then show ?thesis
    using assms by (auto simp: open_flags_bad_def O_WRONLY_def O_RDWR_def)
qed

lemma open_changes:
  assumes "sys_open path_ptr path_len flags s = Return v s'" and "OPEN_FILES s' \<noteq> OPEN_FILES s"
  obtains f where "OPEN_FILES s' = OPEN_FILES s @ [f]" "file_pid f = current_id s" "fd f = v" "current_id s' = current_id s"
    "v = next_fd (current_id s) (OPEN_FILES s)" "readable f = (flags AND 3 \<noteq> O_WRONLY)" "writable f = (flags AND 3 \<noteq> 0)"
proof -
  have "\<not> open_flags_bad flags"
    using assms by (auto simp: sys_open_def)
  note access = access_bits [OF this]
  obtain f where "OPEN_FILES s' = OPEN_FILES s @ [f]" "file_pid f = current_id s" "fd f = v" "current_id s' = current_id s"
    "v = next_fd (current_id s) (OPEN_FILES s)" "readable f = (flags AND 3 = 0 \<or> flags AND 3 = O_RDWR)"
    "writable f = (flags AND 3 = O_WRONLY \<or> flags AND 3 = O_RDWR)"
    using sys_open_opened [of flags s path_ptr path_len] assms by (auto simp: opened_as_def)
  then show ?thesis
    using that [of f] access by (auto simp: O_WRONLY_def O_RDWR_def)
qed

section \<open>A running shell\<close>

text \<open>Process 2 runs with a page of user memory that holds the path \<open>/device/null\<close>; process 3 is ready. The user has typed the key for the previous line and
  return.\<close>

definition shell_mem :: "u64 \<Rightarrow> u64" where
  "shell_mem = user_mem(0x3020 := 0x2F6563697665642F, 0x3028 := 0x6C6C756E)"

definition shell_kernel :: "memory_device ukernel" where
  "shell_kernel = \<lparr>hhdm_offset = hhdm_offset user_kernel, pmm_lock = pmm_lock user_kernel, mem = shell_mem,
     vmm_lock = Some 0x8000, KERNEL_CR3 = 0x8000, cr3 = 0x8000,
     sched = \<lparr>current = Some (plain_thread 2 1 0 False), ready = [plain_thread 3 2 0 False], sleeping = [],
       idle = Some (plain_thread 1 0 0 True), zombies = [], free_slots = [], next_slot = 3, next_id = 4\<rparr>,
     waiters = [], READY = True, SLICE_TICKS = 0, NEED_RESCHED = False, PREEMPTIONS = 0, TICKS = 0, HZ = 100, rsp0 = 0,
     the_cpu = cpu_zero, stack_mem = (\<lambda>_. 0), syms = \<lparr>thread_trampoline = 1, idle_main = 2, user_thread_main = 3\<rparr>,
     PROCS = [\<lparr>pid = 2, parent = 0, pname = lit ''/init'', status = None\<rparr>,
       \<lparr>pid = 3, parent = 0, pname = lit ''/bin/sh'', status = None\<rparr>],
     OPEN_FILES = init_process_files 3 (init_process_files 2 []), the_vfs = vfs_example,
     line_history = [[0x6C, 0x73]], TERMINAL_READER = False, terminal_input = [0x1B, 0x5B, 0x41, 0x0D], console_out = [],
     devices = [], cpu_rdrand = False, rdrand = (\<lambda>_. None), rdtsc = (\<lambda>_. 0), draws = 0, URANDOM_STATE = 0,
     TEST_ARG = 0, TEST_DONE = False\<rparr>"

lemma shell_kernel_current: "current_id shell_kernel = 2" "next_id (sched shell_kernel) = 4"
  by (simp_all add: shell_kernel_def current_id_def plain_thread_def)

lemma shell_kernel_sched: "sched_ok shell_kernel"
proof -
  have k: "keys shell_kernel = {#(2, Some 1, False), (1, Some 0, True), (3, Some 2, False)#}"
    by (simp add: keys_def live_def shell_kernel_def key_def plain_thread_def opt_list_def)
  have "mset [0..<3] = {#1, 0, 2 :: nat#}"
    by (simp add: upt_rec numeral_eq_Suc)
  then have "keys_ok (sched shell_kernel) (keys shell_kernel)"
    unfolding k by (auto simp: keys_ok_def shell_kernel_def MAX_SLOTS_def opt_list_def)
  moreover have "idle_ok shell_kernel" "READY shell_kernel"
    by (simp_all add: idle_ok_def shell_kernel_def plain_thread_def)
  ultimately show ?thesis
    by (simp add: sched_ok_def)
qed

lemma shell_kernel_ok: "user_ok shell_kernel" "from_user shell_kernel" "length (OPEN_FILES shell_kernel) + 4 < 2 ^ 64"
proof -
  have "procs_ok (PROCS shell_kernel) 4" "files_ok (OPEN_FILES shell_kernel) 4" "history_ok (line_history shell_kernel)"
    "\<not> TERMINAL_READER shell_kernel"
    by (simp_all add: shell_kernel_def procs_ok_def files_ok_def init_process_files_def std_file_def history_ok_def HISTORY_CAP_def)
  moreover have "mounts_ok (mounts (the_vfs shell_kernel))"
    using reachable_ok [OF vfs_reachable.booted] by (simp add: shell_kernel_def vfs_example_def)
  ultimately show "user_ok shell_kernel"
    using shell_kernel_sched by (simp add: user_ok_def shell_kernel_current)
  show "from_user shell_kernel" "length (OPEN_FILES shell_kernel) + 4 < 2 ^ 64"
    by (simp_all add: from_user_def shell_kernel_def plain_thread_def init_process_files_def std_file_def)
qed

lemma shell_mem_walk:
  assumes "mem s = shell_mem"
  shows "walk_user_write s 0x8000 0x10 = Some 0x3010" "walk_user s 0x8000 0x20 = Some 0x3020"
  using assms by (simp_all add: walk_user_write_def walk_user_def Let_def read_entry_def index_def entry_addr_def shell_mem_def
      user_mem_def PRESENT_def USER_def WRITABLE_def HUGE_def ADDR_MASK_def)

lemma shell_walk:
  "walk_user_write shell_kernel 0x8000 0x10 = Some 0x3010" "walk_user shell_kernel 0x8000 0x20 = Some 0x3020"
  "current_cr3 shell_kernel = 0x8000"
  by (simp_all add: shell_mem_walk shell_kernel_def current_cr3_def ADDR_MASK_def)

lemma ascii_valid: "list_all (\<lambda>b. b < 0x80) bs \<Longrightarrow> utf8_valid bs"
proof (induction bs)
  case (Cons b bs)
  then show ?case
    by (subst utf8_valid.simps) (simp add: utf8_step_def byte_at_def)
qed (simp add: utf8_valid.simps)

lemma shell_path: "user_bytes shell_kernel 0x20 12 = Some (lit ''/device/null'')"
proof -
  have "validate_user_range shell_kernel 0x20 12 False"
    by (simp add: validate_user_range_def validate_loop.simps shell_walk checked_add_def USER_SPACE_END_def
        saturating_add_def Let_def)
  moreover have "mem_bytes (mem shell_kernel) 0x3020 12 = lit ''/device/null''"
    by (simp add: mem_bytes_def mem_byte_def shell_kernel_def shell_mem_def upt_rec lit_def)
  then have "copy_from_loop shell_kernel 0x8000 0x20 (replicate 12 0) 0 = (True, lit ''/device/null'')"
    by (simp add: copy_from_loop.simps shell_walk page_off_def copy_at_def lit_def)
  ultimately show ?thesis
    by (simp add: user_bytes_def copy_from_user_def shell_walk)
qed

section \<open>Properties\<close>


definition call_frame :: "u64 \<Rightarrow> u64 \<Rightarrow> u64 \<Rightarrow> u64 \<Rightarrow> syscall_frame" where
  "call_frame n a b c = \<lparr>rax = n, rdi = a, rsi = b, rdx = c, r10 = 0, r8 = 0, r9 = 0, sys_rip = 0, sys_rflags = 0, sys_rsp = 0\<rparr>"




text \<open>C22. Opening gives the least free descriptor from 3 on, with the access that was asked for, and closing it brings back
  the table as it was: if \<open>open\<close> adds to the table, the number it returns was free and all smaller ones from 3 on are in use,
  the entry is found under it, \<open>close\<close> succeeds and restores the table, and closing once more reports a bad descriptor.\<close>

theorem open_close_roundtrip:
  assumes "length (OPEN_FILES s) + 4 < 2 ^ 64" and "sys_open path_ptr path_len flags s = Return v s'"
    and "OPEN_FILES s' \<noteq> OPEN_FILES s"
  shows "3 \<le> v \<and> (\<forall>m. 3 \<le> m \<and> m < v \<longrightarrow> find_open (current_id s) m (OPEN_FILES s) \<noteq> None) \<and>
    find_open (current_id s) v (OPEN_FILES s) = None \<and>
    (\<exists>f. find_open (current_id s) v (OPEN_FILES s') = Some f \<and> readable f = (flags AND 3 \<noteq> O_WRONLY) \<and>
       writable f = (flags AND 3 \<noteq> 0)) \<and>
    (\<exists>s''. sys_close v s' = Return 0 s'' \<and> OPEN_FILES s'' = OPEN_FILES s \<and> sys_close v s'' = Return (errno EBADF) s'')"
proof -
  let ?p = "current_id s" and ?fs = "OPEN_FILES s"
  obtain f where f: "OPEN_FILES s' = ?fs @ [f]" "file_pid f = ?p" "fd f = v" "current_id s' = ?p" "v = next_fd ?p ?fs"
    "readable f = (flags AND 3 \<noteq> O_WRONLY)" "writable f = (flags AND 3 \<noteq> 0)"
    by (rule open_changes [OF assms(2,3)])
  note least = next_fd_least [OF assms(1), where p = ?p, folded f(5)]
  have unused: "\<not> used_fd ?p ?fs (fd f)"
    using least(2) f(3) by simp
  note last = close_last [OF unused f(2)] find_open_last [OF unused f(2)]
  let ?s = "s'\<lparr>OPEN_FILES := ?fs\<rparr>"
  have "position (owns ?p v) ?fs = None"
    using unused f(3) by (simp add: position_None used_fd_def list_ex_iff)
  then have "sys_close v s' = Return 0 ?s" "sys_close v ?s = Return (errno EBADF) ?s"
    using last f by (simp_all add: sys_close_def current_id_def)
  then show ?thesis
    using least last(3) f by (auto simp: find_open_None)
qed

theorem open_close_roundtrip_witness:
  "\<exists>s' s''. sys_open 0x20 12 1 shell_kernel = Return 3 s' \<and> sys_close 3 s' = Return 0 s'' \<and>
     OPEN_FILES s'' = OPEN_FILES shell_kernel"
proof -
  define f where "f = \<lparr>file_pid = 2, fd = 3, fkind = NullDev, fpath = [], foffset = 0, readable = False, writable = True,
    append_mode = False\<rparr>"
  define s' where "s' = shell_kernel\<lparr>OPEN_FILES := OPEN_FILES shell_kernel @ [f]\<rparr>"
  have files: "OPEN_FILES shell_kernel = init_process_files 3 (init_process_files 2 [])"
    by (simp add: shell_kernel_def)
  have "next_fd 2 (OPEN_FILES shell_kernel) = 3"
    unfolding files by (simp add: next_fd_def init_process_files_def std_file_def owns_def upt_rec)
  moreover have "device_file (lit ''/device/null'') = Some NullDev" "utf8_valid (lit ''/device/null'')" "\<not> open_flags_bad 1"
    by (simp_all add: ascii_valid device_file_def lit_def open_flags_bad_def O_WRONLY_def O_RDWR_def O_CREAT_def O_TRUNC_def O_APPEND_def)
  ultimately have o: "sys_open 0x20 12 1 shell_kernel = Return 3 s'"
    using shell_path shell_kernel_current
    by (simp add: sys_open_def open_path_def install_fd_def Let_def s'_def f_def O_WRONLY_def O_RDWR_def O_CREAT_def O_TRUNC_def
        O_APPEND_def MAX_NAME_def)
  moreover have "OPEN_FILES s' \<noteq> OPEN_FILES shell_kernel"
    by (simp add: s'_def)
  ultimately show ?thesis
    using open_close_roundtrip [OF shell_kernel_ok(3)] by blast
qed



end
