(* ===== verification/Ps2.thy ===== *)
theory Ps2
  imports Text
begin

unbundle bit_operations_syntax

text \<open>
  The PS/2 keyboard, \<open>src/drivers/ps2.rs\<close>: the ring buffer of characters, the translation of scancodes, and the
  bring-up of the controller.

  The controller is hardware: its ports are a parameter, two functions over a state \<open>'h\<close> of the hardware. The waits of
  the driver are bounded by a count, as in the source. Log output is left out.
\<close>

section \<open>The ring buffer\<close>

definition BUFFER_CAP :: nat where "BUFFER_CAP = 256"

record ring_buffer =
  buf :: "u8 list"
  head :: nat
  tail :: nat
  len :: nat

definition ring_new :: ring_buffer where
  "ring_new = \<lparr>buf = replicate BUFFER_CAP 0, head = 0, tail = 0, len = 0\<rparr>"

definition ring_push :: "u8 \<Rightarrow> ring_buffer \<Rightarrow> ring_buffer" where
  "ring_push byte r =
     (let r = (if len r = BUFFER_CAP then r\<lparr>tail := (tail r + 1) mod BUFFER_CAP, len := len r - 1\<rparr> else r) in
      r\<lparr>buf := (buf r)[head r := byte], head := (head r + 1) mod BUFFER_CAP, len := len r + 1\<rparr>)"

definition ring_pop :: "ring_buffer \<Rightarrow> u8 option \<times> ring_buffer" where
  "ring_pop r =
     (if len r = 0 then (None, r)
      else (Some (buf r ! tail r), r\<lparr>tail := (tail r + 1) mod BUFFER_CAP, len := len r - 1\<rparr>))"

section \<open>The driver's state\<close>

text \<open>The two lists are the interrupt lines on which \<open>on_key_irq\<close> is registered and those that \<open>init\<close> has unmasked.\<close>

definition IRQ_LINE :: u8 where "IRQ_LINE = 1"

record 'h ports =
  inb :: "u16 \<Rightarrow> 'h \<Rightarrow> u8 \<times> 'h"
  outb :: "u16 \<Rightarrow> u8 \<Rightarrow> 'h \<Rightarrow> 'h"

record 'h ps2 =
  hardware :: 'h
  ASCII_QUEUE :: ring_buffer
  SHIFT_HELD :: bool
  CAPS_LOCK :: bool
  PS2_READY :: bool
  EXPECT_EXTENDED :: bool
  irq_handlers :: "u8 list"
  irq_unmasked :: "u8 list"

section \<open>Scancodes\<close>

definition SET1_UNSHIFTED :: "u8 list" where
  "SET1_UNSHIFTED =
    [0,    0x1B, 0x31, 0x32, 0x33, 0x34, 0x35, 0x36,
     0x37, 0x38, 0x39, 0x30, 0x2D, 0x3D, 0x08, 0x09,
     0x71, 0x77, 0x65, 0x72, 0x74, 0x79, 0x75, 0x69,
     0x6F, 0x70, 0x5B, 0x5D, 0x0A, 0,    0x61, 0x73,
     0x64, 0x66, 0x67, 0x68, 0x6A, 0x6B, 0x6C, 0x3B,
     0x27, 0x60, 0,    0x5C, 0x7A, 0x78, 0x63, 0x76,
     0x62, 0x6E, 0x6D, 0x2C, 0x2E, 0x2F, 0,    0x2A,
     0,    0x20, 0,    0,    0,    0,    0,    0,
     0,    0,    0,    0,    0,    0,    0,    0x37,
     0x38, 0x39, 0x2D, 0x34, 0x35, 0x36, 0x2B, 0x31,
     0x32, 0x33, 0x30, 0x2E, 0,    0,    0,    0,
     0,    0,    0,    0,    0,    0,    0,    0]"

definition SET1_SHIFTED :: "u8 list" where
  "SET1_SHIFTED =
    [0,    0x1B, 0x21, 0x40, 0x23, 0x24, 0x25, 0x5E,
     0x26, 0x2A, 0x28, 0x29, 0x5F, 0x2B, 0x08, 0x09,
     0x51, 0x57, 0x45, 0x52, 0x54, 0x59, 0x55, 0x49,
     0x4F, 0x50, 0x7B, 0x7D, 0x0A, 0,    0x41, 0x53,
     0x44, 0x46, 0x47, 0x48, 0x4A, 0x4B, 0x4C, 0x3A,
     0x22, 0x7E, 0,    0x7C, 0x5A, 0x58, 0x43, 0x56,
     0x42, 0x4E, 0x4D, 0x3C, 0x3E, 0x3F, 0,    0x2A,
     0,    0x20, 0,    0,    0,    0,    0,    0,
     0,    0,    0,    0,    0,    0,    0,    0x37,
     0x38, 0x39, 0x2D, 0x34, 0x35, 0x36, 0x2B, 0x31,
     0x32, 0x33, 0x30, 0x2E, 0,    0,    0,    0,
     0,    0,    0,    0,    0,    0,    0,    0]"

definition SCANCODE_LSHIFT :: u8 where "SCANCODE_LSHIFT = 0x2A"
definition SCANCODE_RSHIFT :: u8 where "SCANCODE_RSHIFT = 0x36"
definition SCANCODE_CAPS_LOCK :: u8 where "SCANCODE_CAPS_LOCK = 0x3A"
definition BREAK_BIT :: u8 where "BREAK_BIT = 0x80"
definition EXTENDED_PREFIX :: u8 where "EXTENDED_PREFIX = 0xE0"

definition EXT_UP :: u8 where "EXT_UP = 0x48"
definition EXT_DOWN :: u8 where "EXT_DOWN = 0x50"
definition EXT_RIGHT :: u8 where "EXT_RIGHT = 0x4D"
definition EXT_LEFT :: u8 where "EXT_LEFT = 0x4B"
definition EXT_HOME :: u8 where "EXT_HOME = 0x47"
definition EXT_END :: u8 where "EXT_END = 0x4F"
definition EXT_DELETE :: u8 where "EXT_DELETE = 0x53"

definition push_escape :: "u8 list \<Rightarrow> 'h ps2 \<Rightarrow> 'h ps2" where
  "push_escape bytes s = s\<lparr>ASCII_QUEUE := fold ring_push bytes (ASCII_QUEUE s)\<rparr>"

definition extended_key :: "u8 \<Rightarrow> 'h ps2 \<Rightarrow> 'h ps2" where
  "extended_key make_code s =
     (if make_code = EXT_UP then push_escape [0x1B, 0x5B, 0x41] s
      else if make_code = EXT_DOWN then push_escape [0x1B, 0x5B, 0x42] s
      else if make_code = EXT_RIGHT then push_escape [0x1B, 0x5B, 0x43] s
      else if make_code = EXT_LEFT then push_escape [0x1B, 0x5B, 0x44] s
      else if make_code = EXT_HOME then push_escape [0x1B, 0x5B, 0x48] s
      else if make_code = EXT_END then push_escape [0x1B, 0x5B, 0x46] s
      else if make_code = EXT_DELETE then push_escape [0x1B, 0x5B, 0x33, 0x7E] s
      else s)"

definition is_ascii_lowercase :: "u8 \<Rightarrow> bool" where
  "is_ascii_lowercase b \<longleftrightarrow> 0x61 \<le> b \<and> b \<le> 0x7A"

definition is_ascii_uppercase :: "u8 \<Rightarrow> bool" where
  "is_ascii_uppercase b \<longleftrightarrow> 0x41 \<le> b \<and> b \<le> 0x5A"

definition apply_caps :: "bool \<Rightarrow> bool \<Rightarrow> u8 \<Rightarrow> u8" where
  "apply_caps caps shift ascii =
     (if caps \<and> is_ascii_lowercase ascii then ascii_uppercase ascii
      else if caps \<and> is_ascii_uppercase ascii \<and> shift then ascii_lowercase ascii
      else ascii)"

definition handle_scancode :: "u8 \<Rightarrow> 'h ps2 \<Rightarrow> 'h ps2" where
  "handle_scancode code s =
     (if code = EXTENDED_PREFIX then s\<lparr>EXPECT_EXTENDED := True\<rparr>
      else
        let is_break = (code AND BREAK_BIT \<noteq> 0);
            make_code = code AND NOT BREAK_BIT;
            extended = EXPECT_EXTENDED s;
            s = s\<lparr>EXPECT_EXTENDED := False\<rparr>
        in
        if extended then if is_break then s else extended_key make_code s
        else if make_code = SCANCODE_LSHIFT \<or> make_code = SCANCODE_RSHIFT then s\<lparr>SHIFT_HELD := \<not> is_break\<rparr>
        else if make_code = SCANCODE_CAPS_LOCK then if is_break then s else s\<lparr>CAPS_LOCK := \<not> CAPS_LOCK s\<rparr>
        else if is_break then s
        else if unat make_code \<ge> length SET1_UNSHIFTED then s
        else
          let ascii = (if SHIFT_HELD s then SET1_SHIFTED ! unat make_code else SET1_UNSHIFTED ! unat make_code) in
          if ascii = 0 then s
          else s\<lparr>ASCII_QUEUE := ring_push (apply_caps (CAPS_LOCK s) (SHIFT_HELD s) ascii) (ASCII_QUEUE s)\<rparr>)"

definition try_read_byte :: "'h ps2 \<Rightarrow> u8 option \<times> 'h ps2" where
  "try_read_byte s = (case ring_pop (ASCII_QUEUE s) of (b, q) \<Rightarrow> (b, s\<lparr>ASCII_QUEUE := q\<rparr>))"

section \<open>The controller\<close>

definition DATA_PORT :: u16 where "DATA_PORT = 0x60"
definition STATUS_PORT :: u16 where "STATUS_PORT = 0x64"
definition COMMAND_PORT :: u16 where "COMMAND_PORT = 0x64"
definition STATUS_OUTPUT_FULL :: u8 where "STATUS_OUTPUT_FULL = 1"
definition STATUS_INPUT_FULL :: u8 where "STATUS_INPUT_FULL = 2"
definition CMD_READ_CONFIG :: u8 where "CMD_READ_CONFIG = 0x20"
definition CMD_WRITE_CONFIG :: u8 where "CMD_WRITE_CONFIG = 0x60"
definition CMD_DISABLE_PORT1 :: u8 where "CMD_DISABLE_PORT1 = 0xAD"
definition CMD_ENABLE_PORT1 :: u8 where "CMD_ENABLE_PORT1 = 0xAE"
definition CMD_DISABLE_PORT2 :: u8 where "CMD_DISABLE_PORT2 = 0xA7"
definition CMD_SELF_TEST :: u8 where "CMD_SELF_TEST = 0xAA"
definition CMD_TEST_PORT1 :: u8 where "CMD_TEST_PORT1 = 0xAB"
definition SELF_TEST_OK :: u8 where "SELF_TEST_OK = 0x55"
definition PORT_TEST_OK :: u8 where "PORT_TEST_OK = 0"
definition CONFIG_PORT1_IRQ :: u8 where "CONFIG_PORT1_IRQ = 1"
definition CONFIG_PORT1_TRANSLATION :: u8 where "CONFIG_PORT1_TRANSLATION = 0x40"
definition KB_CMD_RESET :: u8 where "KB_CMD_RESET = 0xFF"
definition KB_RESET_ACK :: u8 where "KB_RESET_ACK = 0xFA"
definition KB_RESET_PASS :: u8 where "KB_RESET_PASS = 0xAA"

text \<open>The bounded waits of 100000 rounds; the count is the argument.\<close>

fun wait_status :: "'h ports \<Rightarrow> (u8 \<Rightarrow> bool) \<Rightarrow> nat \<Rightarrow> 'h \<Rightarrow> bool \<times> 'h" where
  "wait_status io ready 0 h = (False, h)"
| "wait_status io ready (Suc n) h =
     (case inb io STATUS_PORT h of (status, h) \<Rightarrow> if ready status then (True, h) else wait_status io ready n h)"

definition wait_input_clear :: "'h ports \<Rightarrow> 'h \<Rightarrow> bool \<times> 'h" where
  "wait_input_clear io = wait_status io (\<lambda>status. status AND STATUS_INPUT_FULL = 0) 100000"

definition wait_output_full :: "'h ports \<Rightarrow> 'h \<Rightarrow> bool \<times> 'h" where
  "wait_output_full io = wait_status io (\<lambda>status. status AND STATUS_OUTPUT_FULL \<noteq> 0) 100000"

definition write_command :: "'h ports \<Rightarrow> u8 \<Rightarrow> 'h \<Rightarrow> bool \<times> 'h" where
  "write_command io cmd h =
     (case wait_input_clear io h of (ok, h) \<Rightarrow> if \<not> ok then (False, h) else (True, outb io COMMAND_PORT cmd h))"

definition write_data :: "'h ports \<Rightarrow> u8 \<Rightarrow> 'h \<Rightarrow> bool \<times> 'h" where
  "write_data io byte h =
     (case wait_input_clear io h of (ok, h) \<Rightarrow> if \<not> ok then (False, h) else (True, outb io DATA_PORT byte h))"

definition read_data :: "'h ports \<Rightarrow> 'h \<Rightarrow> u8 option \<times> 'h" where
  "read_data io h =
     (case wait_output_full io h of
        (ok, h) \<Rightarrow> if \<not> ok then (None, h) else (case inb io DATA_PORT h of (b, h) \<Rightarrow> (Some b, h)))"

fun drain_output :: "'h ports \<Rightarrow> nat \<Rightarrow> 'h \<Rightarrow> 'h" where
  "drain_output io 0 h = h"
| "drain_output io (Suc n) h =
     (case inb io STATUS_PORT h of
        (status, h) \<Rightarrow> if status AND STATUS_OUTPUT_FULL = 0 then h else drain_output io n (snd (inb io DATA_PORT h)))"

text \<open>A command, and the one response that lets the bring-up continue.\<close>

definition test_command :: "'h ports \<Rightarrow> u8 \<Rightarrow> u8 \<Rightarrow> 'h \<Rightarrow> bool \<times> 'h" where
  "test_command io cmd wanted h =
     (case write_command io cmd h of
        (ok, h) \<Rightarrow> if \<not> ok then (False, h) else (case read_data io h of (r, h) \<Rightarrow> (r = Some wanted, h)))"

definition write_config :: "'h ports \<Rightarrow> 'h \<Rightarrow> bool \<times> 'h" where
  "write_config io h =
     (case write_command io CMD_READ_CONFIG h of
        (ok, h) \<Rightarrow>
          if \<not> ok then (False, h)
          else case read_data io h of
            (r, h) \<Rightarrow>
              (case r of
                 None \<Rightarrow> (False, h)
               | Some config \<Rightarrow>
                   (case write_command io CMD_WRITE_CONFIG h of
                      (ok, h) \<Rightarrow>
                        if \<not> ok then (False, h)
                        else write_data io (config OR (CONFIG_PORT1_IRQ OR CONFIG_PORT1_TRANSLATION)) h)))"

fun reset_responses :: "'h ports \<Rightarrow> nat \<Rightarrow> bool \<Rightarrow> bool \<Rightarrow> 'h \<Rightarrow> (bool \<times> bool) \<times> 'h" where
  "reset_responses io 0 saw_ack saw_pass h = ((saw_ack, saw_pass), h)"
| "reset_responses io (Suc n) saw_ack saw_pass h =
     (case read_data io h of
        (r, h) \<Rightarrow>
          (case r of
             None \<Rightarrow> ((saw_ack, saw_pass), h)
           | Some b \<Rightarrow>
               if b = KB_RESET_ACK then reset_responses io n True saw_pass h
               else if b = KB_RESET_PASS then reset_responses io n saw_ack True h
               else reset_responses io n saw_ack saw_pass h))"

definition reset_keyboard :: "'h ports \<Rightarrow> 'h \<Rightarrow> bool \<times> 'h" where
  "reset_keyboard io h =
     (case write_data io KB_CMD_RESET h of
        (ok, h) \<Rightarrow>
          if \<not> ok then (False, h)
          else case reset_responses io 2 False False h of (saw, h) \<Rightarrow> (fst saw \<or> snd saw, h))"

text \<open>The stages of \<open>init\<close> in order; the first that fails ends it.\<close>

fun stages :: "('h \<Rightarrow> bool \<times> 'h) list \<Rightarrow> 'h \<Rightarrow> bool \<times> 'h" where
  "stages [] h = (True, h)"
| "stages (f # fs) h = (case f h of (ok, h) \<Rightarrow> if \<not> ok then (False, h) else stages fs h)"

definition ps2_init :: "'h ports \<Rightarrow> 'h ps2 \<Rightarrow> 'h ps2" where
  "ps2_init io s =
     (case inb io STATUS_PORT (hardware s) of
        (status, h) \<Rightarrow>
          if status = 0xFF then s\<lparr>hardware := h\<rparr>
          else
            let h = snd (write_command io CMD_DISABLE_PORT1 h);
                h = snd (write_command io CMD_DISABLE_PORT2 h);
                h = drain_output io 100000 h
            in case stages
                 [test_command io CMD_SELF_TEST SELF_TEST_OK, test_command io CMD_TEST_PORT1 PORT_TEST_OK, write_config io,
                  write_command io CMD_ENABLE_PORT1, reset_keyboard io] h of
                 (ok, h) \<Rightarrow> if \<not> ok then s\<lparr>hardware := h\<rparr> 
                   else s\<lparr>hardware := h, irq_handlers := IRQ_LINE # irq_handlers s, irq_unmasked := IRQ_LINE # irq_unmasked s,
                          PS2_READY := True\<rparr>)"

definition is_ready :: "'h ps2 \<Rightarrow> bool" where
  "is_ready s = PS2_READY s"

definition on_key_irq :: "'h ports \<Rightarrow> 'h ps2 \<Rightarrow> 'h ps2" where
  "on_key_irq io s =
     (case inb io DATA_PORT (hardware s) of (scancode, h) \<Rightarrow> handle_scancode scancode (s\<lparr>hardware := h\<rparr>))"

section \<open>Bounded queues\<close>

definition recent :: "nat \<Rightarrow> 'a list \<Rightarrow> 'a list" where
  "recent n xs = drop (length xs - n) xs"

primrec pop_all :: "('q \<Rightarrow> 'a option \<times> 'q) \<Rightarrow> nat \<Rightarrow> 'q \<Rightarrow> 'a list" where
  "pop_all pop 0 q = []"
| "pop_all pop (Suc n) q = (case pop q of (None, q') \<Rightarrow> [] | (Some x, q') \<Rightarrow> x # pop_all pop n q')"

text \<open>What the driver relies on: a queue that keeps the last \<open>cap\<close> elements pushed, in order.\<close>

locale bounded_queue =
  fixes ok :: "'q \<Rightarrow> bool" and items :: "'q \<Rightarrow> 'a list" and cap :: nat and push :: "'a \<Rightarrow> 'q \<Rightarrow> 'q"
    and pop :: "'q \<Rightarrow> 'a option \<times> 'q"
  assumes push_ok: "ok q \<Longrightarrow> ok (push x q)"
    and push_items: "ok q \<Longrightarrow> items (push x q) = (if length (items q) = cap then tl (items q) else items q) @ [x]"
    and pop_empty: "ok q \<Longrightarrow> items q = [] \<Longrightarrow> pop q = (None, q)"
    and pop_item: "ok q \<Longrightarrow> items q = x # xs \<Longrightarrow> \<exists>q'. pop q = (Some x, q') \<and> ok q' \<and> items q' = xs"
    and items_cap: "ok q \<Longrightarrow> length (items q) \<le> cap"
    and cap_pos: "0 < cap"
begin

lemma push_recent: "ok q \<Longrightarrow> items q = recent cap ys \<Longrightarrow> items (push x q) = recent cap (ys @ [x])"
proof -
  assume a: "ok q" "items q = recent cap ys"
  show ?thesis
  proof (cases "length ys \<ge> cap")
    case True
    then have "length (items q) = cap" using a(2) by (simp add: recent_def)
    then have "items (push x q) = drop (Suc (length ys - cap)) ys @ [x]"
      using push_items [OF a(1), of x] a(2) by (simp add: recent_def drop_Suc tl_drop)
    then show ?thesis using True cap_pos by (simp add: recent_def Suc_diff_le)
  next
    case False
    then show ?thesis using push_items [OF a(1), of x] a(2) by (simp add: recent_def)
  qed
qed

lemma push_list: "ok q \<Longrightarrow> items q = recent cap ys \<Longrightarrow> ok (fold push xs q) \<and> items (fold push xs q) = recent cap (ys @ xs)"
proof (induction xs arbitrary: q ys)
  case (Cons x xs)
  then show ?case using Cons.IH [OF push_ok [OF Cons.prems(1)] push_recent [OF Cons.prems]] by simp
qed simp

lemma pop_all_items: "ok q \<Longrightarrow> pop_all pop n q = take n (items q)"
proof (induction n arbitrary: q)
  case (Suc n)
  show ?case
  proof (cases "items q")
    case Nil
    then show ?thesis using pop_empty [OF Suc.prems] by simp
  next
    case (Cons x xs)
    then obtain q' where "pop q = (Some x, q')" "ok q'" "items q' = xs" using pop_item [OF Suc.prems] by blast
    then show ?thesis using Suc.IH Cons by simp
  qed
qed simp

end

section \<open>The ring buffer is one\<close>

definition ring_ok :: "ring_buffer \<Rightarrow> bool" where
  "ring_ok r \<longleftrightarrow> length (buf r) = BUFFER_CAP \<and> tail r < BUFFER_CAP \<and> len r \<le> BUFFER_CAP \<and> head r = (tail r + len r) mod BUFFER_CAP"

definition ring_items :: "ring_buffer \<Rightarrow> u8 list" where
  "ring_items r = map (\<lambda>i. buf r ! ((tail r + i) mod BUFFER_CAP)) [0..<len r]"

lemma ring_push_room:
  assumes "ring_ok r" "len r < BUFFER_CAP"
  shows "ring_ok (r\<lparr>buf := (buf r)[head r := x], head := (head r + 1) mod BUFFER_CAP, len := len r + 1\<rparr>)"
    "ring_items (r\<lparr>buf := (buf r)[head r := x], head := (head r + 1) mod BUFFER_CAP, len := len r + 1\<rparr>) = ring_items r @ [x]"
proof -
  have h: "head r < BUFFER_CAP" "length (buf r) = BUFFER_CAP" using assms by (simp_all add: ring_ok_def BUFFER_CAP_def)
  show "ring_ok (r\<lparr>buf := (buf r)[head r := x], head := (head r + 1) mod BUFFER_CAP, len := len r + 1\<rparr>)"
    using assms by (simp add: ring_ok_def mod_Suc_eq)
  have "(tail r + i) mod BUFFER_CAP \<noteq> head r" if "i < len r" for i
  proof
    assume "(tail r + i) mod BUFFER_CAP = head r"
    then have "(tail r + len r) mod BUFFER_CAP = (tail r + i) mod BUFFER_CAP" using assms(1) by (simp add: ring_ok_def)
    then have "BUFFER_CAP dvd len r - i"
      using that mod_eq_dvd_iff_nat [of "tail r + i" "tail r + len r" BUFFER_CAP] by simp
    then show False using that assms(2) by (auto dest: dvd_imp_le)
  qed
  then have ne: "head r \<noteq> (tail r + i) mod BUFFER_CAP" if "i < len r" for i using that by metis
  have e: "(tail r + len r) mod BUFFER_CAP = head r" using assms(1) by (simp add: ring_ok_def)
  show "ring_items (r\<lparr>buf := (buf r)[head r := x], head := (head r + 1) mod BUFFER_CAP, len := len r + 1\<rparr>) = ring_items r @ [x]"
    using h ne by (simp add: ring_items_def e)
qed

lemma ring_drop_oldest:
  assumes "ring_ok r" "0 < len r"
  shows "ring_ok (r\<lparr>tail := (tail r + 1) mod BUFFER_CAP, len := len r - 1\<rparr>)"
    "ring_items r = buf r ! tail r # ring_items (r\<lparr>tail := (tail r + 1) mod BUFFER_CAP, len := len r - 1\<rparr>)"
proof -
  have t: "tail r < BUFFER_CAP" using assms by (simp add: ring_ok_def)
  have e: "((tail r + 1) mod BUFFER_CAP + i) mod BUFFER_CAP = (tail r + Suc i) mod BUFFER_CAP" for i
    by (simp add: mod_add_left_eq)
  show "ring_ok (r\<lparr>tail := (tail r + 1) mod BUFFER_CAP, len := len r - 1\<rparr>)"
    using assms e [of "len r - 1"] by (auto simp: ring_ok_def BUFFER_CAP_def)
  have "[0..<len r] = 0 # map Suc [0..<len r - 1]" using assms(2) by (simp add: map_Suc_upt upt_conv_Cons)
  then show "ring_items r = buf r ! tail r # ring_items (r\<lparr>tail := (tail r + 1) mod BUFFER_CAP, len := len r - 1\<rparr>)"
    using t e by (simp add: ring_items_def)
qed

lemma length_ring_items [simp]: "length (ring_items r) = len r"
  by (simp add: ring_items_def)

interpretation keys: bounded_queue ring_ok ring_items BUFFER_CAP ring_push ring_pop
proof
  fix q :: ring_buffer and x xs
  assume ok: "ring_ok q"
  let ?r = "q\<lparr>tail := (tail q + 1) mod BUFFER_CAP, len := len q - 1\<rparr>"
  have "ring_ok (ring_push x q) \<and> ring_items (ring_push x q) = (if length (ring_items q) = BUFFER_CAP then tl (ring_items q) else ring_items q) @ [x]"
  proof (cases "len q = BUFFER_CAP")
    case True
    then have d: "ring_ok ?r" "ring_items q = buf q ! tail q # ring_items ?r" "len ?r < BUFFER_CAP"
      using ring_drop_oldest [OF ok] by (simp_all add: BUFFER_CAP_def)
    have "Suc (BUFFER_CAP - Suc 0) = BUFFER_CAP" by (simp add: BUFFER_CAP_def)
    then show ?thesis using ring_push_room [OF d(1,3), of x] d(2) True by (simp add: ring_push_def Let_def)
  next
    case False
    then have "len q < BUFFER_CAP" using ok by (simp add: ring_ok_def)
    then show ?thesis using ring_push_room [OF ok, of x] False by (simp add: ring_push_def Let_def)
  qed
  then show "ring_ok (ring_push x q)"
    "ring_items (ring_push x q) = (if length (ring_items q) = BUFFER_CAP then tl (ring_items q) else ring_items q) @ [x]" by blast+
  show "ring_items q = [] \<Longrightarrow> ring_pop q = (None, q)" by (simp add: ring_pop_def ring_items_def)
  show "length (ring_items q) \<le> BUFFER_CAP" using ok by (simp add: ring_ok_def)
  assume c: "ring_items q = x # xs"
  then have "0 < len q" using length_ring_items [of q] by simp
  then show "\<exists>q'. ring_pop q = (Some x, q') \<and> ring_ok q' \<and> ring_items q' = xs"
    using ring_drop_oldest [OF ok] c by (simp add: ring_pop_def)
qed (simp add: BUFFER_CAP_def)

lemma ring_new_ok: "ring_ok ring_new" "ring_items ring_new = []"
  by (simp_all add: ring_ok_def ring_new_def ring_items_def BUFFER_CAP_def)

section \<open>Lemmas: characters\<close>

definition ascii_ok :: "u8 \<Rightarrow> bool" where
  "ascii_ok b \<longleftrightarrow> b \<noteq> 0 \<and> b < 0x80"

definition kbd_ok :: "'h ps2 \<Rightarrow> bool" where
  "kbd_ok s \<longleftrightarrow> ring_ok (ASCII_QUEUE s) \<and> list_all ascii_ok (ring_items (ASCII_QUEUE s))"

lemma tables_ascii:
  "list_all (\<lambda>b. b = 0 \<or> ascii_ok b) SET1_UNSHIFTED" "list_all (\<lambda>b. b = 0 \<or> ascii_ok b) SET1_SHIFTED"
  "length SET1_UNSHIFTED = 96" "length SET1_SHIFTED = 96"
  by (simp_all add: SET1_UNSHIFTED_def SET1_SHIFTED_def ascii_ok_def)

lemma push_ascii: "kbd_ok s \<Longrightarrow> ascii_ok b \<Longrightarrow> kbd_ok (s\<lparr>ASCII_QUEUE := ring_push b (ASCII_QUEUE s)\<rparr>)"
proof -
  assume a: "kbd_ok s" "ascii_ok b"
  then have ok: "ring_ok (ASCII_QUEUE s)" "list_all ascii_ok (ring_items (ASCII_QUEUE s))" by (simp_all add: kbd_ok_def)
  from ok(2) have "list_all ascii_ok (tl (ring_items (ASCII_QUEUE s)))" by (cases "ring_items (ASCII_QUEUE s)") simp_all
  then show ?thesis using a(2) ok keys.push_ok [OF ok(1), of b] keys.push_items [OF ok(1), of b] by (simp add: kbd_ok_def)
qed

lemma push_escape_ascii:
  assumes "kbd_ok s" "list_all ascii_ok bs"
  shows "kbd_ok (push_escape bs s)"
  using assms
proof (induction bs arbitrary: s)
  case (Cons b bs)
  have "kbd_ok (push_escape bs (s\<lparr>ASCII_QUEUE := ring_push b (ASCII_QUEUE s)\<rparr>))"
    using Cons.prems by (intro Cons.IH push_ascii) simp_all
  then show ?case by (simp add: push_escape_def)
qed (simp add: push_escape_def)

lemma apply_caps_ascii: "ascii_ok b \<Longrightarrow> ascii_ok (apply_caps caps shift b)"
proof -
  assume b: "ascii_ok b"
  have lower: "ascii_ok (b - 0x20)" if "0x61 \<le> b" "b \<le> 0x7A"
  proof -
    have "unat (b - 0x20) = unat b - 32" using that by (subst unat_sub) (auto simp: word_le_nat_alt)
    then show ?thesis using that by (auto simp: ascii_ok_def word_le_nat_alt word_less_nat_alt word_unat_eq_iff)
  qed
  have upper: "ascii_ok (b + 0x20)" if "0x41 \<le> b" "b \<le> 0x5A"
  proof -
    have "unat (b + 0x20) = unat b + 32" using that by (subst unat_add_lem [THEN iffD1]) (auto simp: word_le_nat_alt)
    then show ?thesis using that by (auto simp: ascii_ok_def word_le_nat_alt word_less_nat_alt word_unat_eq_iff)
  qed
  show ?thesis using b lower upper
    by (auto simp: apply_caps_def is_ascii_lowercase_def is_ascii_uppercase_def ascii_uppercase_def ascii_lowercase_def)
qed

lemma kbd_ok_fields: "kbd_ok (s\<lparr>EXPECT_EXTENDED := e\<rparr>) = kbd_ok s" "kbd_ok (s\<lparr>SHIFT_HELD := e\<rparr>) = kbd_ok s"
  "kbd_ok (s\<lparr>CAPS_LOCK := e\<rparr>) = kbd_ok s" "kbd_ok (s\<lparr>hardware := h\<rparr>) = kbd_ok s"
  by (simp_all add: kbd_ok_def)

lemma handle_scancode_ok:
  assumes "kbd_ok s"
  shows "kbd_ok (handle_scancode code s)"
proof -
  define s0 where "s0 = s\<lparr>EXPECT_EXTENDED := False\<rparr>"
  have 0: "kbd_ok s0" using assms by (simp add: s0_def kbd_ok_fields)
  have esc: "kbd_ok (extended_key m s0)" for m
    unfolding extended_key_def using 0 by (auto simp: ascii_ok_def intro!: push_escape_ascii)
  define m where "m = code AND NOT BREAK_BIT"
  have tab: "ascii_ok (t ! unat m)" if "unat m < 96" "t = SET1_UNSHIFTED \<or> t = SET1_SHIFTED" "t ! unat m \<noteq> 0" for t
    using tables_ascii that by (auto simp: list_all_length)
  show ?thesis
    unfolding handle_scancode_def Let_def s0_def [symmetric] m_def [symmetric]
    using 0 esc tab assms by (auto simp: kbd_ok_fields tables_ascii intro!: push_ascii apply_caps_ascii)
qed

lemma handle_scancodes_ok: "kbd_ok s \<Longrightarrow> kbd_ok (fold handle_scancode codes s)"
  by (induction codes arbitrary: s) (simp_all add: handle_scancode_ok)

section \<open>Counting port accesses\<close>

definition counting :: "'h ports \<Rightarrow> ('h \<times> nat) ports" where
  "counting io = \<lparr>inb = (\<lambda>p (h, n). case inb io p h of (b, h') \<Rightarrow> (b, (h', n + 1))), outb = (\<lambda>p b (h, n). (outb io p b h, n + 1))\<rparr>"

lemma counting_simps [simp]:
  "inb (counting io) p hn = (fst (inb io p (fst hn)), (snd (inb io p (fst hn)), snd hn + 1))"
  "snd (outb (counting io) p b hn) = snd hn + 1"
  by (auto simp: counting_def split: prod.splits)

text \<open>Every operation of the driver makes a bounded number of accesses.\<close>

definition within :: "nat \<Rightarrow> ('h \<times> nat \<Rightarrow> 'r \<times> 'h \<times> nat) \<Rightarrow> bool" where
  "within k f \<longleftrightarrow> (\<forall>hn. snd (snd (f hn)) \<le> snd hn + k)"

lemma within_seq:
  assumes "within k f" "\<And>r. within l (g r)" "k + l \<le> m"
  shows "within m (\<lambda>h. case f h of (r, h') \<Rightarrow> g r h')"
  unfolding within_def
proof
  fix hn
  obtain r hn' where f: "f hn = (r, hn')" by (cases "f hn")
  have "snd hn' \<le> snd hn + k" using assms(1) [unfolded within_def, rule_format, of hn] f by simp
  moreover have "snd (snd (g r hn')) \<le> snd hn' + l" using assms(2) [unfolded within_def] by blast
  ultimately show "snd (snd (case f hn of (r, h') \<Rightarrow> g r h')) \<le> snd hn + m" using f assms(3) by simp
qed

lemma within_simps:
  "within k (\<lambda>h. (r, h))" "within k f \<Longrightarrow> within k g \<Longrightarrow> within k (\<lambda>h. if b then f h else g h)"
  "within k f \<Longrightarrow> (\<And>x. within k (gs x)) \<Longrightarrow> within k (\<lambda>h. case o' of None \<Rightarrow> f h | Some x \<Rightarrow> gs x h)"
  "1 \<le> k \<Longrightarrow> within k (\<lambda>h. (r, outb (counting io) p c h))" "1 \<le> k \<Longrightarrow> within k (inb (counting io) p)"
  by (auto simp: within_def split: option.splits)

lemma within_mono: "within k f \<Longrightarrow> k \<le> l \<Longrightarrow> within l f"
  unfolding within_def by (meson add_left_mono le_trans)

lemma wait_status_within: "within n (wait_status (counting io) ready n)"
  unfolding within_def
proof (induction n)
  case (Suc n)
  show ?case
  proof
    fix hn :: "'a \<times> nat"
    show "snd (snd (wait_status (counting io) ready (Suc n) hn)) \<le> snd hn + Suc n"
      using Suc [rule_format, of "(snd (inb io STATUS_PORT (fst hn)), snd hn + 1)"] by simp
  qed
qed simp

lemma waits_within: "within 100000 (wait_input_clear (counting io))" "within 100000 (wait_output_full (counting io))"
  unfolding wait_input_clear_def wait_output_full_def by (rule wait_status_within)+

lemma write_within: "within 100001 (write_command (counting io) b)" "within 100001 (write_data (counting io) b)"
  unfolding write_command_def [abs_def] write_data_def [abs_def]
  by (rule within_seq [OF waits_within(1), where l = 1], (intro within_simps), simp_all)+

lemma read_within: "within 100001 (read_data (counting io))"
  unfolding read_data_def [abs_def]
  by (rule within_seq [OF waits_within(2), where l = 1], intro within_simps within_seq [where k = 1 and l = 0]) simp_all

lemma test_within: "within 200002 (test_command (counting io) c w)"
  unfolding test_command_def [abs_def]
  by (rule within_seq [OF write_within(1), where l = 100001],
      intro within_simps within_seq [OF read_within, where l = 0]) simp_all

lemma config_within: "within 400004 (write_config (counting io))"
  unfolding write_config_def [abs_def]
  by (rule within_seq [OF write_within(1), where l = 300003],
      intro within_simps within_seq [OF read_within, where l = 200002] within_seq [OF write_within(1), where l = 100001] write_within)
    simp_all

lemma responses_within: "within (n * 100001) (reset_responses (counting io) n a p)"
proof (induction n arbitrary: a p)
  case (Suc n)
  have "within (Suc n * 100001) (\<lambda>h. case read_data (counting io) h of (r, h) \<Rightarrow>
      (case r of None \<Rightarrow> ((a, p), h) | Some b \<Rightarrow>
        if b = KB_RESET_ACK then reset_responses (counting io) n True p h
        else if b = KB_RESET_PASS then reset_responses (counting io) n a True h
        else reset_responses (counting io) n a p h))"
    by (rule within_seq [OF read_within, where l = "n * 100001"], intro within_simps Suc) simp_all
  then show ?case by (simp add: within_def)
qed (simp add: within_def)

lemma reset_within: "within 300003 (reset_keyboard (counting io))"
  unfolding reset_keyboard_def [abs_def]
  by (rule within_seq [OF write_within(2), where l = 200002],
      intro within_simps within_seq [OF responses_within [of 2], where l = 0]) simp_all

lemma drain_within: "snd (drain_output (counting io) n hn) \<le> snd hn + 2 * n"
proof (induction n arbitrary: hn)
  case (Suc n)
  then show ?case using Suc [of "snd (inb (counting io) DATA_PORT (snd (inb (counting io) STATUS_PORT hn)))"] by simp
qed simp

lemma stages_within:
  "list_all2 within ks fs \<Longrightarrow> within (sum_list ks) (stages fs)"
proof (induction ks fs rule: list_all2_induct)
  case (Cons k ks f fs)
  have "within (k + sum_list ks) (\<lambda>h. case f h of (ok, h) \<Rightarrow> if \<not> ok then (False, h) else stages fs h)"
    using Cons by (intro within_seq [OF Cons(1), where l = "sum_list ks"] within_simps) simp_all
  then show ?case by (simp add: within_def)
qed (simp add: within_def)

section \<open>Properties\<close>

text \<open>The queue the ring buffer stands for, and a run of both.\<close>

datatype queue_op = Push u8 | Pop

fun queue_run :: "queue_op list \<Rightarrow> u8 list \<Rightarrow> u8 option list \<times> u8 list" where
  "queue_run [] q = ([], q)"
| "queue_run (Push b # fs) q = queue_run fs ((if length q = BUFFER_CAP then tl q else q) @ [b])"
| "queue_run (Pop # fs) q =
     (case q of
        [] \<Rightarrow> (case queue_run fs [] of (out, q) \<Rightarrow> (None # out, q))
      | b # q \<Rightarrow> (case queue_run fs q of (out, q) \<Rightarrow> (Some b # out, q)))"

fun ring_run :: "queue_op list \<Rightarrow> ring_buffer \<Rightarrow> u8 option list \<times> ring_buffer" where
  "ring_run [] r = ([], r)"
| "ring_run (Push b # fs) r = ring_run fs (ring_push b r)"
| "ring_run (Pop # fs) r = (case ring_pop r of (b, r) \<Rightarrow> (case ring_run fs r of (out, r) \<Rightarrow> (b # out, r)))"

lemma ring_run_refines:
  "ring_ok r \<Longrightarrow> ring_run fs r = (out, r') \<Longrightarrow> ring_ok r' \<and> queue_run fs (ring_items r) = (out, ring_items r')"
proof (induction fs arbitrary: r out)
  case (Cons f fs)
  show ?case
  proof (cases f)
    case (Push b)
    have "queue_run (f # fs) (ring_items r) = queue_run fs (ring_items (ring_push b r))"
      unfolding Push keys.push_items [OF Cons.prems(1)] by simp
    then show ?thesis using Cons.IH [OF keys.push_ok [OF Cons.prems(1), of b]] Cons.prems(2) Push by simp
  next
    case Pop
    show ?thesis
    proof (cases "ring_items r")
      case Nil
      have p: "ring_pop r = (None, r)" using keys.pop_empty [OF Cons.prems(1) Nil] .
      obtain out1 where o: "ring_run fs r = (out1, r')" "out = None # out1"
        using Cons.prems(2) Pop p by (auto split: prod.splits)
      show ?thesis using Cons.IH [OF Cons.prems(1) o(1)] o Pop Nil by simp
    next
      case (Cons x xs)
      obtain q where p: "ring_pop r = (Some x, q)" "ring_ok q" "ring_items q = xs"
        using keys.pop_item [OF Cons.prems(1) Cons] by blast
      obtain out1 where o: "ring_run fs q = (out1, r')" "out = Some x # out1"
        using \<open>ring_run (f # fs) r = (out, r')\<close> Pop p by (auto split: prod.splits)
      show ?thesis using \<open>\<And>r out. ring_ok r \<Longrightarrow> ring_run fs r = (out, r') \<Longrightarrow> ring_ok r' \<and> queue_run fs (ring_items r) = (out, ring_items r')\<close> [OF p(2) o(1)]
          o Pop p Cons by simp
    qed
  qed
qed simp
text \<open>C32. The ring buffer implements a queue of at most 256 bytes that drops its oldest byte when it is full: whatever
  sequence of pushes and pops is made on a new buffer, every pop returns what the queue would, and the bytes left are
  those of the queue.\<close>

theorem ring_refines_queue:
  "queue_run fs [] = (fst (ring_run fs ring_new), ring_items (snd (ring_run fs ring_new)))"
  using ring_run_refines [OF ring_new_ok(1), of fs "fst (ring_run fs ring_new)" "snd (ring_run fs ring_new)"]
  by (simp add: ring_new_ok(2))

text \<open>C33. Whatever scancodes the keyboard sends, the buffer stays well formed and every byte in it is a nonzero ASCII
  character; so is every byte read from it, and a read finds nothing only when the buffer is empty.\<close>

theorem keyboard_ascii:
  assumes "kbd_ok s"
  shows "kbd_ok (fold handle_scancode codes s) \<and>
    (case try_read_byte (fold handle_scancode codes s) of
       (None, s') \<Rightarrow> ring_items (ASCII_QUEUE (fold handle_scancode codes s)) = []
     | (Some b, s') \<Rightarrow> ascii_ok b \<and> kbd_ok s')"
proof -
  let ?s = "fold handle_scancode codes s"
  have ok: "kbd_ok ?s" using assms by (rule handle_scancodes_ok)
  then have r: "ring_ok (ASCII_QUEUE ?s)" by (simp add: kbd_ok_def)
  show ?thesis
  proof (cases "ring_items (ASCII_QUEUE ?s)")
    case Nil
    then show ?thesis using ok keys.pop_empty [OF r] by (simp add: try_read_byte_def)
  next
    case (Cons b bs)
    then obtain q where "ring_pop (ASCII_QUEUE ?s) = (Some b, q)" "ring_ok q" "ring_items q = bs"
      using keys.pop_item [OF r] by blast
    then show ?thesis using ok Cons by (simp add: try_read_byte_def kbd_ok_def)
  qed
qed

definition kbd_new :: "unit ps2" where
  "kbd_new = \<lparr>hardware = (), ASCII_QUEUE = ring_new, SHIFT_HELD = False, CAPS_LOCK = False, PS2_READY = True, EXPECT_EXTENDED = False,
     irq_handlers = [], irq_unmasked = []\<rparr>"

theorem keyboard_ascii_witness:
  "kbd_ok kbd_new \<and> kbd_ok (fold handle_scancode [0x2A, 0x23, 0xAA, 0x17, 0xE0, 0x48] kbd_new)"
proof -
  have "kbd_ok kbd_new" by (simp add: kbd_ok_def kbd_new_def ring_new_ok)
  then show ?thesis using keyboard_ascii [of kbd_new "[0x2A, 0x23, 0xAA, 0x17, 0xE0, 0x48]"] by blast
qed

text \<open>C34. Bringing up the keyboard always ends, after at most 1600015 port accesses, whatever the hardware answers: a
  controller that is absent or stuck cannot hang the boot.\<close>

theorem ps2_init_bounded:
  "snd (hardware (ps2_init (counting io) s)) \<le> snd (hardware s) + 1600015"
proof -
  let ?io = "counting io"
  define h1 where "h1 = snd (inb ?io STATUS_PORT (hardware s))"
  define h2 where "h2 = snd (write_command ?io CMD_DISABLE_PORT1 h1)"
  define h3 where "h3 = snd (write_command ?io CMD_DISABLE_PORT2 h2)"
  define h4 where "h4 = drain_output ?io 100000 h3"
  let ?fs = "[test_command ?io CMD_SELF_TEST SELF_TEST_OK, test_command ?io CMD_TEST_PORT1 PORT_TEST_OK, write_config ?io,
    write_command ?io CMD_ENABLE_PORT1, reset_keyboard ?io]"
  have "within (sum_list [200002, 200002, 400004, 100001, 300003]) (stages ?fs)"
    by (rule stages_within) (simp add: test_within config_within write_within reset_within)
  then have "snd (snd (stages ?fs h4)) \<le> snd h4 + sum_list [200002, 200002, 400004, 100001, 300003]"
    unfolding within_def by (rule spec)
  then have "snd (snd (stages ?fs h4)) \<le> snd h4 + 1200012" by (simp del: stages.simps)
  moreover have "snd h4 \<le> snd h3 + 200000" using drain_within [of io 100000 h3] by (simp add: h4_def)
  moreover have "snd h2 \<le> snd h1 + 100001" "snd h3 \<le> snd h2 + 100001"
    unfolding h2_def h3_def by (rule write_within [unfolded within_def, THEN spec])+
  moreover have "snd h1 = snd (hardware s) + 1" by (simp add: h1_def)
  ultimately have b: "snd (snd (stages ?fs h4)) \<le> snd (hardware s) + 1600015" by linarith
  have "hardware (ps2_init ?io s) = h1 \<or> hardware (ps2_init ?io s) = snd (stages ?fs h4)"
    unfolding ps2_init_def Let_def h4_def h3_def h2_def h1_def by (simp split: prod.splits)
  then show ?thesis using b \<open>snd h1 = snd (hardware s) + 1\<close> by auto
qed

text \<open>Caps Lock and shift cancel out on a letter.\<close>

lemma caps_shift_cancel:
  assumes "is_ascii_uppercase b"
  shows "apply_caps True True b = ascii_lowercase b"
proof -
  have "\<not> is_ascii_lowercase b" using assms by (auto simp: is_ascii_uppercase_def is_ascii_lowercase_def word_le_nat_alt)
  then show ?thesis using assms by (simp add: apply_caps_def)
qed

end
