(* ===== verification/Console.thy ===== *)
theory Console
  imports Text "HOL-Library.Monad_Syntax"
begin

unbundle bit_operations_syntax

text \<open>
  The text console, \<open>src/console.rs\<close>: parsing of the PSF font, drawing into a shadow buffer, the rectangle of changes
  that is copied to the framebuffer, the cursor, and escape sequences.

  The framebuffer \<open>FbInfo\<close> points to is the field \<open>screen\<close>; the calls of \<open>present_rect\<close> of the display driver are
  collected in \<open>presented\<close>. A panic (an index out of range) is \<open>None\<close>. Sizes are natural numbers: they come from a mode
  the hardware has, and the additions that saturate in the source are followed by a minimum with the size of the screen.
\<close>

section \<open>Fonts\<close>

definition PALETTE :: "u32 list" where
  "PALETTE =
    [0x001B1F27, 0x00E06C75, 0x0098C379, 0x00E5C07B,
     0x0061AFEF, 0x00C678DD, 0x0056B6C2, 0x00ABB2BF,
     0x004B5263, 0x00FF7B86, 0x00B5E890, 0x00FFD98E,
     0x0082C4FF, 0x00E09BFF, 0x007FDCE8, 0x00FFFFFF]"

definition DEFAULT_FG :: u32 where "DEFAULT_FG = PALETTE ! 7"
definition DEFAULT_BG :: u32 where "DEFAULT_BG = 0"

record font =
  glyphs :: "u8 list"
  unicode_table :: "u8 list"
  num_glyphs :: nat
  charsize :: nat
  font_width :: nat
  font_height :: nat
  bytes_per_row :: nat
  ascii_glyphs :: "u16 list"

definition position_of :: "u8 \<Rightarrow> u8 list \<Rightarrow> nat option" where
  "position_of b xs = (if b \<in> set xs then Some (length (takeWhile (\<lambda>x. x \<noteq> b) xs)) else None)"

text \<open>The loop over the tokens of one glyph's record; the list holds the values of \<open>token_end\<close> still to come.\<close>

fun token_loop :: "u8 list \<Rightarrow> nat \<Rightarrow> nat \<Rightarrow> nat list \<Rightarrow> nat \<Rightarrow> u16 list \<Rightarrow> u16 list" where
  "token_loop table glyph_idx glyph_end [] token_start ascii = ascii"
| "token_loop table glyph_idx glyph_end (token_end # rest) token_start ascii =
     (if token_end = glyph_end \<or> table ! token_end = 0xFE then
        token_loop table glyph_idx glyph_end rest (token_end + 1)
          (if token_end = token_start + 1 then
             let codepoint = unat (table ! token_start) in
             if codepoint < length ascii \<and> glyph_idx \<le> 65535 \<and> ascii ! codepoint = 0xFFFF
             then ascii[codepoint := of_nat glyph_idx] else ascii
           else ascii)
      else token_loop table glyph_idx glyph_end rest token_start ascii)"

fun ascii_loop :: "u8 list \<Rightarrow> nat list \<Rightarrow> nat \<Rightarrow> u16 list \<Rightarrow> u16 list" where
  "ascii_loop table [] pos ascii = ascii"
| "ascii_loop table (glyph_idx # rest) pos ascii =
     (case position_of 0xFF (drop pos table) of
        None \<Rightarrow> ascii
      | Some relative_end \<Rightarrow>
          let glyph_end = pos + relative_end in
          ascii_loop table rest (glyph_end + 1)
            (token_loop table glyph_idx glyph_end [pos..<glyph_end + 1] pos ascii))"

definition rd_usize :: "u8 list \<Rightarrow> nat \<Rightarrow> nat" where
  "rd_usize bytes offs = unat (from_le (slice bytes offs (offs + 4)) :: u32)"

definition psf_header :: "u8 list \<Rightarrow> (nat \<times> nat \<times> nat \<times> nat \<times> nat \<times> bool) option" where
  "psf_header bytes =
     (if 32 \<le> length bytes \<and> take 4 bytes = [0x72, 0xB5, 0x4A, 0x86] then
        Some (rd_usize bytes 8, rd_usize bytes 16, rd_usize bytes 20, rd_usize bytes 28, rd_usize bytes 24, odd (rd_usize bytes 12))
      else if 4 \<le> length bytes \<and> bytes ! 0 = 0x36 \<and> bytes ! 1 = 0x04 then
        Some (4, if bytes ! 2 AND 1 \<noteq> 0 then 512 else 256, unat (bytes ! 3), 8, unat (bytes ! 3), False)
      else None)"

definition font_parse :: "u8 list \<Rightarrow> font option" where
  "font_parse bytes = do {
     (headersize, num, csize, width, height, has_unicode) \<leftarrow> psf_header bytes;
     let bpr = (width + 7) div 8;
     if width = 0 \<or> height = 0 \<or> num = 0 \<or> csize < bpr * height then None
     else if 2 ^ 64 \<le> num * csize then None
     else do {
       stop \<leftarrow> checked_add_usize headersize (num * csize);
       if stop > length bytes then None
       else
         let table = (if has_unicode then drop stop bytes else []);
             ascii = replicate 128 0xFFFF
         in Some \<lparr>glyphs = slice bytes headersize stop, unicode_table = table, num_glyphs = num, charsize = csize,
              font_width = width, font_height = height, bytes_per_row = bpr,
              ascii_glyphs = (if has_unicode then ascii_loop table [0..<num] 0 ascii else ascii)\<rparr>
     }
   }"

text \<open>The search of the Unicode table for the record that is exactly the character.\<close>

fun glyph_search :: "u8 list \<Rightarrow> u8 list \<Rightarrow> nat list \<Rightarrow> nat \<Rightarrow> nat \<Rightarrow> nat" where
  "glyph_search table encoded [] start idx = idx"
| "glyph_search table encoded (glyph_idx # rest) start idx =
     (case position_of 0xFF (drop start table) of
        None \<Rightarrow> idx
      | Some relative_end \<Rightarrow>
          let stop = start + relative_end in
          if slice table start stop = encoded then glyph_idx else glyph_search table encoded rest (stop + 1) idx)"

definition glyph_index :: "font \<Rightarrow> u32 \<Rightarrow> nat" where
  "glyph_index f ch =
     (let codepoint = unat ch;
          idx = (if codepoint < length (ascii_glyphs f) \<and> ascii_glyphs f ! codepoint \<noteq> 0xFFFF
                 then unat (ascii_glyphs f ! codepoint) else codepoint);
          idx = (if codepoint \<ge> length (ascii_glyphs f) \<and> unicode_table f \<noteq> []
                 then glyph_search (unicode_table f) (encode_utf8 ch) [0..<num_glyphs f] 0 idx else idx);
          idx = (if idx \<ge> num_glyphs f then 0x3F else idx)
      in if idx \<ge> num_glyphs f then 0 else idx)"

definition glyph :: "font \<Rightarrow> u32 \<Rightarrow> u8 list option" where
  "glyph f ch =
     (let idx = glyph_index f ch in
      if (idx + 1) * charsize f \<le> length (glyphs f) then Some (slice (glyphs f) (idx * charsize f) ((idx + 1) * charsize f)) else None)"

section \<open>The state\<close>

datatype esc_state = Normal | Escape | Csi

record console =
  screen :: "u8 list"
  shadow :: "u8 list"
  con_width :: nat
  con_height :: nat
  pitch :: nat
  bytes_per_pixel :: nat
  dirty :: "(nat \<times> nat \<times> nat \<times> nat) option"
  batch_depth :: nat
  con_font :: font
  cols :: nat
  rows :: nat
  cursor_col :: nat
  cursor_row :: nat
  fg :: u32
  bg :: u32
  bold :: bool
  esc :: esc_state
  params :: "u32 list"
  nparams :: nat
  cur :: u32
  have_cur :: bool
  presented :: "(nat \<times> nat \<times> nat \<times> nat) list"

text \<open>\<open>FbInfo\<close>, with the memory it points to.\<close>

record fb_info =
  fb_memory :: "u8 list"
  fb_width :: u64
  fb_height :: u64
  fb_pitch :: u64
  fb_bpp :: u16

definition console_new :: "fb_info \<Rightarrow> font \<Rightarrow> console" where
  "console_new fb f =
     \<lparr>screen = fb_memory fb, shadow = replicate (min (unat (fb_pitch fb) * unat (fb_height fb)) (2 ^ 64 - 1)) 0,
      con_width = unat (fb_width fb), con_height = unat (fb_height fb), pitch = unat (fb_pitch fb),
      bytes_per_pixel = unat (fb_bpp fb) div 8, dirty = None, batch_depth = 0, con_font = f,
      cols = unat (fb_width fb) div font_width f, rows = unat (fb_height fb) div font_height f, cursor_col = 0, cursor_row = 0,
      fg = DEFAULT_FG, bg = DEFAULT_BG, bold = False, esc = Normal, params = replicate 8 0, nparams = 0, cur = 0, have_cur = False,
      presented = []\<rparr>"

section \<open>Drawing\<close>

definition put_slice :: "u8 list \<Rightarrow> nat \<Rightarrow> u8 list \<Rightarrow> u8 list option" where
  "put_slice buf at bytes = (if at + length bytes \<le> length buf then Some (copy_at buf at bytes) else None)"

definition pixel_bytes :: "u32 \<Rightarrow> u8 list" where
  "pixel_bytes c = [ucast c, ucast (drop_bit 8 c), ucast (drop_bit 16 c), ucast (drop_bit 24 c)]"

text \<open>Writing the same number of rows of bytes, one every \<open>pitch\<close> bytes.\<close>

fun put_rows :: "nat \<Rightarrow> u8 list \<Rightarrow> nat \<Rightarrow> u8 list list \<Rightarrow> u8 list option" where
  "put_rows step buf at [] = Some buf"
| "put_rows step buf at (r # rs) = do {buf \<leftarrow> put_slice buf at r; put_rows step buf (at + step) rs}"

definition fill_row :: "console \<Rightarrow> nat \<Rightarrow> u32 \<Rightarrow> u8 list" where
  "fill_row c n color =
     (if color = 0 then replicate (n * bytes_per_pixel c) 0
      else concat (replicate n (take (bytes_per_pixel c) (pixel_bytes color))))"

definition fill_rect :: "nat \<Rightarrow> nat \<Rightarrow> nat \<Rightarrow> nat \<Rightarrow> u32 \<Rightarrow> console \<Rightarrow> console option" where
  "fill_rect x y w h color c =
     (let x_end = min (x + w) (con_width c); y_end = min (y + h) (con_height c) in
      if x \<ge> x_end \<or> y \<ge> y_end then Some c
      else map_option (\<lambda>buf. c\<lparr>shadow := buf\<rparr>)
        (put_rows (pitch c) (shadow c) (y * pitch c + x * bytes_per_pixel c) (replicate (y_end - y) (fill_row c (x_end - x) color))))"

fun flush_rows :: "nat \<Rightarrow> u8 list \<Rightarrow> u8 list \<Rightarrow> nat \<Rightarrow> nat \<Rightarrow> nat \<Rightarrow> u8 list option" where
  "flush_rows step src dst off n 0 = Some dst"
| "flush_rows step src dst off n (Suc k) =
     (if off + n \<le> length src then do {dst \<leftarrow> put_slice dst off (slice src off (off + n)); flush_rows step src dst (off + step) n k}
      else None)"

definition flush_rect :: "nat \<Rightarrow> nat \<Rightarrow> nat \<Rightarrow> nat \<Rightarrow> console \<Rightarrow> console option" where
  "flush_rect x y w h c =
     (let x_end = min (x + w) (con_width c); y_end = min (y + h) (con_height c) in
      if x \<ge> x_end \<or> y \<ge> y_end then Some c
      else map_option (\<lambda>dst. c\<lparr>screen := dst, presented := presented c @ [(x, y, x_end - x, y_end - y)]\<rparr>)
        (flush_rows (pitch c) (shadow c) (screen c) (y * pitch c + x * bytes_per_pixel c) ((x_end - x) * bytes_per_pixel c) (y_end - y)))"

definition mark_dirty :: "nat \<Rightarrow> nat \<Rightarrow> nat \<Rightarrow> nat \<Rightarrow> console \<Rightarrow> console" where
  "mark_dirty x y w h c =
     (let x_end = min (x + w) (con_width c); y_end = min (y + h) (con_height c) in
      if x \<ge> x_end \<or> y \<ge> y_end then c
      else c\<lparr>dirty := Some (case dirty c of
          Some (left, upper, right, bottom) \<Rightarrow> (min left x, min upper y, max right x_end, max bottom y_end)
        | None \<Rightarrow> (x, y, x_end, y_end))\<rparr>)"

definition flush_pending :: "console \<Rightarrow> console option" where
  "flush_pending c =
     (case dirty c of
        None \<Rightarrow> Some c
      | Some (x, y, right, bottom) \<Rightarrow> flush_rect x y (right - x) (bottom - y) (c\<lparr>dirty := None\<rparr>))"

definition begin_batch :: "console \<Rightarrow> console" where
  "begin_batch c = c\<lparr>batch_depth := batch_depth c + 1\<rparr>"

definition end_batch :: "console \<Rightarrow> console option" where
  "end_batch c =
     (let c = c\<lparr>batch_depth := batch_depth c - 1\<rparr> in if batch_depth c = 0 then flush_pending c else Some c)"

definition clear :: "console \<Rightarrow> console option" where
  "clear c =
     map_option (\<lambda>c. (mark_dirty 0 0 (con_width c) (con_height c) c)\<lparr>cursor_col := 0, cursor_row := 0\<rparr>)
       (fill_rect 0 0 (con_width c) (con_height c) (bg c) c)"

definition glyph_row :: "console \<Rightarrow> u8 list \<Rightarrow> u8 list" where
  "glyph_row c bits =
     concat (map (\<lambda>x. take (bytes_per_pixel c)
         (if bits ! (x div 8) AND drop_bit (x mod 8) 0x80 \<noteq> 0 then pixel_bytes (fg c) else pixel_bytes (bg c)))
       [0..<font_width (con_font c)])"

definition draw_glyph :: "u32 \<Rightarrow> nat \<Rightarrow> nat \<Rightarrow> console \<Rightarrow> console option" where
  "draw_glyph ch col row c = do {
     let f = con_font c;
     g \<leftarrow> glyph f ch;
     if font_height f * bytes_per_row f \<le> length g then do {
       let ox = col * font_width f;
       let oy = row * font_height f;
       buf \<leftarrow> put_rows (pitch c) (shadow c) (oy * pitch c + ox * bytes_per_pixel c)
         (map (\<lambda>y. glyph_row c (slice g (y * bytes_per_row f) ((y + 1) * bytes_per_row f))) [0..<font_height f]);
       Some (mark_dirty ox oy (font_width f) (font_height f) (c\<lparr>shadow := buf\<rparr>))
     } else None
   }"

definition scroll :: "console \<Rightarrow> console option" where
  "scroll c =
     (let row_bytes = font_height (con_font c) * pitch c; text_bytes = rows c * row_bytes in
      if text_bytes > length (shadow c) \<or> row_bytes > text_bytes \<or> rows c = 0 \<or> pitch c = 0 then None
      else
        let c = c\<lparr>shadow := copy_at (shadow c) 0 (slice (shadow c) row_bytes text_bytes)\<rparr>;
            y = (rows c - 1) * font_height (con_font c)
        in map_option (\<lambda>c. mark_dirty 0 0 (con_width c) (text_bytes div pitch c) c)
             (fill_rect 0 y (con_width c) (font_height (con_font c)) DEFAULT_BG c))"

definition newline :: "console \<Rightarrow> console option" where
  "newline c =
     (let c = c\<lparr>cursor_col := 0\<rparr> in
      if cursor_row c + 1 \<ge> rows c then scroll c else Some (c\<lparr>cursor_row := cursor_row c + 1\<rparr>))"

definition put_printable :: "u32 \<Rightarrow> console \<Rightarrow> console option" where
  "put_printable ch c = do {
     c \<leftarrow> (if cursor_col c \<ge> cols c then newline c else Some c);
     c \<leftarrow> draw_glyph ch (cursor_col c) (cursor_row c) c;
     Some (c\<lparr>cursor_col := cursor_col c + 1\<rparr>)
   }"

section \<open>Escape sequences\<close>

definition push_param :: "console \<Rightarrow> console" where
  "push_param c =
     (let v = (if have_cur c then cur c else 0);
          c = (if nparams c < length (params c) then c\<lparr>params := (params c)[nparams c := v], nparams := nparams c + 1\<rparr> else c)
      in c\<lparr>cur := 0, have_cur := False\<rparr>)"

definition extended_color :: "console \<Rightarrow> nat \<Rightarrow> (u32 \<times> nat) option" where
  "extended_color c i =
     (let n = nparams c; p = params c in
      if i + 4 < n \<and> p ! (i + 1) = 2 then
        Some (push_bit 16 (p ! (i + 2) AND 0xFF) OR push_bit 8 (p ! (i + 3) AND 0xFF) OR (p ! (i + 4) AND 0xFF), 4)
      else if i + 2 < n \<and> p ! (i + 1) = 5 then
        let idx = unat (p ! (i + 2)) in
        if idx < 16 then Some (PALETTE ! idx, 2) else Some (DEFAULT_FG, 2)
      else None)"

text \<open>One parameter; the number is how many parameters after it were used up.\<close>

definition sgr_one :: "console \<Rightarrow> nat \<Rightarrow> console \<times> nat" where
  "sgr_one c i =
     (let p = unat (params c ! i) in
      if p = 0 then (c\<lparr>fg := DEFAULT_FG, bg := DEFAULT_BG, bold := False\<rparr>, 0)
      else if p = 1 then (c\<lparr>bold := True\<rparr>, 0)
      else if p = 22 then (c\<lparr>bold := False\<rparr>, 0)
      else if 30 \<le> p \<and> p \<le> 37 then (c\<lparr>fg := PALETTE ! (p - 30 + (if bold c then 8 else 0))\<rparr>, 0)
      else if p = 39 then (c\<lparr>fg := DEFAULT_FG\<rparr>, 0)
      else if 40 \<le> p \<and> p \<le> 47 then (c\<lparr>bg := PALETTE ! (p - 40)\<rparr>, 0)
      else if p = 49 then (c\<lparr>bg := DEFAULT_BG\<rparr>, 0)
      else if 90 \<le> p \<and> p \<le> 97 then (c\<lparr>fg := PALETTE ! (p - 90 + 8)\<rparr>, 0)
      else if 100 \<le> p \<and> p \<le> 107 then (c\<lparr>bg := PALETTE ! (p - 100 + 8)\<rparr>, 0)
      else if p = 38 \<or> p = 48 then
        (case extended_color c i of
           None \<Rightarrow> (c, 0)
         | Some (color, used) \<Rightarrow> if p = 38 then (c\<lparr>fg := color\<rparr>, used) else (c\<lparr>bg := color\<rparr>, used))
      else (c, 0))"

lemma sgr_one_keeps:
  "nparams (fst (sgr_one c i)) = nparams c" "params (fst (sgr_one c i)) = params c" "esc (fst (sgr_one c i)) = esc c"
  "shadow (fst (sgr_one c i)) = shadow c"
  by (simp_all add: sgr_one_def Let_def split: option.splits)

function apply_sgr :: "console \<Rightarrow> nat \<Rightarrow> console" where
  "apply_sgr c i =
     (if i < nparams c then apply_sgr (fst (sgr_one c i)) (i + snd (sgr_one c i) + 1) else c)"
  by pat_completeness auto
termination
  by (relation "measure (\<lambda>(c, i). nparams c - i)") (auto simp: sgr_one_keeps)

declare apply_sgr.simps [simp del]

definition con_cursor_left :: "nat \<Rightarrow> console \<Rightarrow> console" where
  "con_cursor_left n c = c\<lparr>cursor_col := cursor_col c - n\<rparr>"

definition backspace :: "console \<Rightarrow> console option" where
  "backspace c =
     (if cursor_col c = 0 then Some c
      else let c = c\<lparr>cursor_col := cursor_col c - 1\<rparr> in draw_glyph 0x20 (cursor_col c) (cursor_row c) c)"

definition csi_char :: "u32 \<Rightarrow> console \<Rightarrow> console option" where
  "csi_char ch c =
     (if 0x30 \<le> ch \<and> ch \<le> 0x39 then Some (c\<lparr>cur := min (cur c * 10 + (ch - 0x30)) 65535, have_cur := True\<rparr>)
      else if ch = 0x3B then Some (push_param c)
      else if ch = 0x6D then Some ((apply_sgr (push_param c) 0)\<lparr>esc := Normal\<rparr>)
      else if ch = 0x44 then
        let c = push_param c; n = (if nparams c > 0 then unat (params c ! 0) else 1) in
        Some ((con_cursor_left n c)\<lparr>esc := Normal\<rparr>)
      else if ch = 0x4A then map_option (\<lambda>c. c\<lparr>esc := Normal\<rparr>) (clear (push_param c))
      else Some (c\<lparr>esc := Normal\<rparr>))"

text \<open>The loop that prints blanks up to the next multiple of four, for as many rounds as it takes.\<close>

definition next_tab :: "console \<Rightarrow> nat" where
  "next_tab c = (cursor_col c + 4) div 4 * 4"

partial_function (option) tab_loop :: "nat \<Rightarrow> console \<Rightarrow> console option" where
  "tab_loop next c = (if cursor_col c < next then Option.bind (put_printable 0x20 c) (tab_loop next) else Some c)"

definition put_char :: "u32 \<Rightarrow> console \<Rightarrow> console option" where
  "put_char ch c =
     (if ch = 0x1B then Some (c\<lparr>esc := Escape\<rparr>)
      else case esc c of
        Escape \<Rightarrow>
          if ch = 0x5B then Some (c\<lparr>esc := Csi, nparams := 0, cur := 0, have_cur := False\<rparr>)
          else Some (c\<lparr>esc := Normal\<rparr>)
      | Csi \<Rightarrow> csi_char ch c
      | Normal \<Rightarrow>
          if ch = 0x0A then newline c
          else if ch = 0x0D then Some (c\<lparr>cursor_col := 0\<rparr>)
          else if ch = 0x08 then backspace c
          else if ch = 0x09 then tab_loop (next_tab c) c
          else put_printable ch c)"

fun put_chars :: "u32 list \<Rightarrow> console \<Rightarrow> console option" where
  "put_chars [] c = Some c"
| "put_chars (ch # chs) c = Option.bind (put_char ch c) (put_chars chs)"

definition console_write_str :: "str \<Rightarrow> console \<Rightarrow> console option" where
  "console_write_str s c = do {
     c \<leftarrow> put_chars (chars s) c;
     if batch_depth c = 0 then flush_pending c else Some c
   }"

text \<open>\<open>init\<close>, with the framebuffer and the font file; the flush of the early log that follows it is left out.\<close>

definition console_init :: "fb_info option \<Rightarrow> u8 list \<Rightarrow> console option" where
  "console_init fb font_data = do {
     fb \<leftarrow> fb;
     if fb_bpp fb \<noteq> 32 \<and> fb_bpp fb \<noteq> 24 then None
     else do {
       f \<leftarrow> font_parse font_data;
       let c = console_new fb f;
       if cols c = 0 \<or> rows c = 0 then None
       else do {c \<leftarrow> clear c; flush_pending c}
     }
   }"

section \<open>Lemmas: fonts\<close>

definition font_ok :: "font \<Rightarrow> bool" where
  "font_ok f \<longleftrightarrow> 0 < font_width f \<and> 0 < font_height f \<and> 0 < num_glyphs f \<and> bytes_per_row f = (font_width f + 7) div 8 \<and>
     bytes_per_row f * font_height f \<le> charsize f \<and> length (glyphs f) = num_glyphs f * charsize f"

lemma font_parse_ok:
  assumes "font_parse bytes = Some f"
  shows "font_ok f"
proof -
  obtain headersize num csize width height uni stop where h: "psf_header bytes = Some (headersize, num, csize, width, height, uni)"
    "width \<noteq> 0" "height \<noteq> 0" "num \<noteq> 0" "(width + 7) div 8 * height \<le> csize" "checked_add_usize headersize (num * csize) = Some stop"
    "stop \<le> length bytes"
    "glyphs f = slice bytes headersize stop" "num_glyphs f = num" "charsize f = csize" "font_width f = width" "font_height f = height"
    "bytes_per_row f = (width + 7) div 8"
    using assms by (auto simp: font_parse_def Let_def not_less split: bind_splits if_splits)
  have "stop = headersize + num * csize" using h(6) by (simp add: checked_add_usize_def split: if_splits)
  then show ?thesis using h by (simp add: font_ok_def)
qed

lemma glyph_Some:
  assumes "font_ok f"
  shows "\<exists>g. glyph f ch = Some g \<and> length g = charsize f"
proof -
  have "glyph_index f ch < num_glyphs f" using assms by (auto simp: glyph_index_def Let_def font_ok_def)
  then have "(glyph_index f ch + 1) * charsize f \<le> num_glyphs f * charsize f" by (intro mult_le_mono1) simp
  then show ?thesis using assms by (simp add: glyph_def Let_def font_ok_def)
qed

section \<open>Lemmas: rectangles of bytes\<close>

text \<open>The bytes of the rows of a rectangle: \<open>n\<close> bytes every \<open>step\<close> bytes from \<open>at\<close>, \<open>m\<close> times.\<close>

definition in_rows :: "nat \<Rightarrow> nat \<Rightarrow> nat \<Rightarrow> nat \<Rightarrow> nat \<Rightarrow> bool" where
  "in_rows step at n m i \<longleftrightarrow> (\<exists>j<m. at + j * step \<le> i \<and> i < at + j * step + n)"

lemma in_rows_Suc: "in_rows step at n (Suc m) i \<longleftrightarrow> at \<le> i \<and> i < at + n \<or> in_rows step (at + step) n m i"
  unfolding in_rows_def by (subst Ex_less_Suc2) (simp add: ac_simps)

lemma in_rows_0 [simp]: "\<not> in_rows step at n 0 i"
  by (simp add: in_rows_def)

lemma put_rows_spec:
  assumes "\<forall>r\<in>set rs. length r = n" "rs = [] \<or> at + (length rs - 1) * step + n \<le> length buf"
  shows "\<exists>buf'. put_rows step buf at rs = Some buf' \<and> length buf' = length buf \<and>
    (\<forall>i<length buf. \<not> in_rows step at n (length rs) i \<longrightarrow> buf' ! i = buf ! i)"
  using assms
proof (induction rs arbitrary: buf at)
  case (Cons r rs)
  have n: "length r = n" using Cons.prems(1) by simp
  have fit: "at + n \<le> length buf" using Cons.prems(2) by simp
  let ?b = "copy_at buf at r"
  have len: "length ?b = length buf" using fit n by simp
  have "rs = [] \<or> at + step + (length rs - 1) * step + n \<le> length ?b"
    using Cons.prems(2) unfolding len by (cases rs) (simp_all add: ac_simps)
  then obtain buf' where b: "put_rows step ?b (at + step) rs = Some buf'" "length buf' = length buf"
    "\<forall>i<length buf. \<not> in_rows step (at + step) n (length rs) i \<longrightarrow> buf' ! i = ?b ! i"
    using Cons.IH [of "at + step" ?b] Cons.prems(1) len by auto
  have "buf' ! i = buf ! i" if "i < length buf" "\<not> in_rows step at n (Suc (length rs)) i" for i
    using b(3) that fit n unfolding in_rows_Suc by (auto simp: nth_copy_at)
  then show ?case using b fit n by (auto simp: put_slice_def)
qed simp

lemma flush_rows_spec:
  assumes "m = 0 \<or> at + (m - 1) * step + n \<le> length src \<and> at + (m - 1) * step + n \<le> length dst"
  shows "\<exists>dst'. flush_rows step src dst at n m = Some dst' \<and> length dst' = length dst \<and>
    (\<forall>i<length dst. dst' ! i = (if in_rows step at n m i then src ! i else dst ! i))"
  using assms
proof (induction m arbitrary: dst at)
  case (Suc m)
  have fit: "at + n \<le> length src" "at + n \<le> length dst" using Suc.prems by auto
  let ?b = "copy_at dst at (slice src at (at + n))"
  have len: "length ?b = length dst" using fit by simp
  have "m = 0 \<or> at + step + (m - 1) * step + n \<le> length src \<and> at + step + (m - 1) * step + n \<le> length ?b"
    using Suc.prems unfolding len by (cases m) (simp_all add: ac_simps)
  then obtain dst' where b: "flush_rows step src ?b (at + step) n m = Some dst'" "length dst' = length dst"
    "\<forall>i<length dst. dst' ! i = (if in_rows step (at + step) n m i then src ! i else ?b ! i)"
    using Suc.IH [of "at + step" ?b] len by auto
  have "dst' ! i = (if in_rows step at n (Suc m) i then src ! i else dst ! i)" if "i < length dst" for i
    using b(3) that fit unfolding in_rows_Suc by (auto simp: nth_copy_at nth_slice)
  then show ?case using b fit by (auto simp: put_slice_def)
qed simp

text \<open>A byte of a pixel lies in the rows of a rectangle of pixels exactly if the pixel lies in the rectangle.\<close>

lemma row_unique:
  fixes y :: nat
  assumes "y * p + a = y' * p + a'" "a < p" "a' < p"
  shows "y = y' \<and> a = a'"
proof -
  have "(y * p + a) div p = y" "(y' * p + a') div p = y'" using assms(2,3) by (simp_all add: div_add)
  then show ?thesis using assms(1) by auto
qed

lemma pixel_in_rows:
  fixes x y :: nat
  assumes "x < w" "k < bpp" "w * bpp \<le> p" "x0 + dx \<le> w"
  shows "in_rows p (y0 * p + x0 * bpp) (dx * bpp) m (y * p + x * bpp + k) \<longleftrightarrow> y0 \<le> y \<and> y < y0 + m \<and> x0 \<le> x \<and> x < x0 + dx"
proof -
  have col: "x' * bpp + b < w * bpp" if "x' < w" "b < bpp" for x' b
  proof -
    have "(x' + 1) * bpp \<le> w * bpp" using that by (intro mult_le_mono1) simp
    then show ?thesis using that by simp
  qed
  have a: "x * bpp + k < p" using col [OF assms(1,2)] assms(3) by simp
  have lim: "x0 * bpp + dx * bpp \<le> p" using mult_le_mono1 [OF assms(4), of bpp] assms(3) by (simp add: add_mult_distrib)
  have row: "(y0 * p + x0 * bpp + j * p \<le> y * p + x * bpp + k \<and> y * p + x * bpp + k < y0 * p + x0 * bpp + j * p + dx * bpp) \<longleftrightarrow>
    (y = y0 + j \<and> x0 * bpp \<le> x * bpp + k \<and> x * bpp + k < x0 * bpp + dx * bpp)" (is "?L \<longleftrightarrow> ?R") for j
  proof
    assume ?L
    then obtain d where d: "y * p + (x * bpp + k) = (y0 + j) * p + (x0 * bpp + d)" "d < dx * bpp"
      by (metis add.assoc add.commute add_less_cancel_left add_mult_distrib le_Suc_ex)
    then have "y = y0 + j \<and> x * bpp + k = x0 * bpp + d" using row_unique [OF d(1) a] lim by simp
    then show ?R using d(2) by simp
  qed (auto simp: add_mult_distrib)
  have "in_rows p (y0 * p + x0 * bpp) (dx * bpp) m (y * p + x * bpp + k) \<longleftrightarrow>
    (\<exists>j<m. y = y0 + j \<and> x0 * bpp \<le> x * bpp + k \<and> x * bpp + k < x0 * bpp + dx * bpp)"
    unfolding in_rows_def row ..
  also have "\<dots> \<longleftrightarrow> y0 \<le> y \<and> y < y0 + m \<and> x0 * bpp \<le> x * bpp + k \<and> x * bpp + k < (x0 + dx) * bpp"
    by (auto simp: add_mult_distrib intro!: exI [of _ "y - y0"])
  also have "x0 * bpp \<le> x * bpp + k \<longleftrightarrow> x0 \<le> x"
  proof
    assume "x0 * bpp \<le> x * bpp + k"
    then have "x0 * bpp < (x + 1) * bpp" using assms(2) by simp
    then have "x0 < x + 1" by (rule mult_less_cancel2 [THEN iffD1, THEN conjunct2])
    then show "x0 \<le> x" by simp
  next
    assume "x0 \<le> x"
    then have "x0 * bpp \<le> x * bpp" by (rule mult_le_mono1)
    then show "x0 * bpp \<le> x * bpp + k" by (rule trans_le_add1)
  qed
  also have "x * bpp + k < (x0 + dx) * bpp \<longleftrightarrow> x < x0 + dx"
  proof
    assume "x * bpp + k < (x0 + dx) * bpp"
    then have "x * bpp < (x0 + dx) * bpp" by (rule add_lessD1)
    then show "x < x0 + dx" by (rule mult_less_cancel2 [THEN iffD1, THEN conjunct2])
  next
    assume "x < x0 + dx"
    then have "(x + 1) * bpp \<le> (x0 + dx) * bpp" by (intro mult_le_mono1) linarith
    then show "x * bpp + k < (x0 + dx) * bpp" using assms(2) by simp
  qed
  finally show ?thesis .
qed

section \<open>The invariant\<close>

text \<open>A pixel is shown if its bytes on the screen are those of the shadow buffer.\<close>

definition shown :: "console \<Rightarrow> nat \<Rightarrow> nat \<Rightarrow> bool" where
  "shown c x y \<longleftrightarrow> (\<forall>k<bytes_per_pixel c.
     screen c ! (y * pitch c + x * bytes_per_pixel c + k) = shadow c ! (y * pitch c + x * bytes_per_pixel c + k))"

definition in_rect :: "(nat \<times> nat \<times> nat \<times> nat) option \<Rightarrow> nat \<Rightarrow> nat \<Rightarrow> bool" where
  "in_rect r x y \<longleftrightarrow> (case r of None \<Rightarrow> False | Some (x0, y0, x1, y1) \<Rightarrow> x0 \<le> x \<and> x < x1 \<and> y0 \<le> y \<and> y < y1)"

text \<open>What never changes: the sizes fit together.\<close>

definition geometry_ok :: "console \<Rightarrow> bool" where
  "geometry_ok c \<longleftrightarrow> font_ok (con_font c) \<and> cols c = con_width c div font_width (con_font c) \<and>
     rows c = con_height c div font_height (con_font c) \<and> 0 < cols c \<and> 0 < rows c \<and> 0 < bytes_per_pixel c \<and> bytes_per_pixel c \<le> 4 \<and>
     con_width c * bytes_per_pixel c \<le> pitch c \<and> length (shadow c) = pitch c * con_height c \<and> length (screen c) = length (shadow c)"

definition rect_ok :: "nat \<Rightarrow> nat \<Rightarrow> (nat \<times> nat \<times> nat \<times> nat) option \<Rightarrow> bool" where
  "rect_ok w h r \<longleftrightarrow> (case r of None \<Rightarrow> True | Some (x0, y0, x1, y1) \<Rightarrow> x0 < x1 \<and> x1 \<le> w \<and> y0 < y1 \<and> y1 \<le> h)"

definition dirty_ok :: "console \<Rightarrow> bool" where
  "dirty_ok c \<longleftrightarrow> rect_ok (con_width c) (con_height c) (dirty c) \<and>
     (\<forall>x<con_width c. \<forall>y<con_height c. \<not> in_rect (dirty c) x y \<longrightarrow> shown c x y)"

definition cursor_ok :: "console \<Rightarrow> bool" where
  "cursor_ok c \<longleftrightarrow> cursor_col c \<le> cols c \<and> cursor_row c < rows c"

definition params_ok :: "console \<Rightarrow> bool" where
  "params_ok c \<longleftrightarrow> length (params c) = 8 \<and> nparams c \<le> 8"

definition console_ok :: "console \<Rightarrow> bool" where
  "console_ok c \<longleftrightarrow> geometry_ok c \<and> dirty_ok c \<and> cursor_ok c \<and> params_ok c"

lemma ok_updates [simp]:
  "geometry_ok (c\<lparr>cursor_col := i\<rparr>) = geometry_ok c" "geometry_ok (c\<lparr>cursor_row := i\<rparr>) = geometry_ok c"
  "geometry_ok (c\<lparr>esc := e\<rparr>) = geometry_ok c" "geometry_ok (c\<lparr>dirty := d\<rparr>) = geometry_ok c"
  "geometry_ok (c\<lparr>params := ps\<rparr>) = geometry_ok c" "geometry_ok (c\<lparr>nparams := i\<rparr>) = geometry_ok c"
  "geometry_ok (c\<lparr>cur := v\<rparr>) = geometry_ok c" "geometry_ok (c\<lparr>have_cur := b\<rparr>) = geometry_ok c"
  "geometry_ok (c\<lparr>fg := v\<rparr>) = geometry_ok c" "geometry_ok (c\<lparr>bg := v\<rparr>) = geometry_ok c" "geometry_ok (c\<lparr>bold := b\<rparr>) = geometry_ok c"
  "dirty_ok (c\<lparr>cursor_col := i\<rparr>) = dirty_ok c" "dirty_ok (c\<lparr>cursor_row := i\<rparr>) = dirty_ok c" "dirty_ok (c\<lparr>esc := e\<rparr>) = dirty_ok c"
  "dirty_ok (c\<lparr>params := ps\<rparr>) = dirty_ok c" "dirty_ok (c\<lparr>nparams := i\<rparr>) = dirty_ok c" "dirty_ok (c\<lparr>cur := v\<rparr>) = dirty_ok c"
  "dirty_ok (c\<lparr>have_cur := b\<rparr>) = dirty_ok c" "dirty_ok (c\<lparr>fg := v\<rparr>) = dirty_ok c" "dirty_ok (c\<lparr>bg := v\<rparr>) = dirty_ok c"
  "dirty_ok (c\<lparr>bold := b\<rparr>) = dirty_ok c"
  by (simp_all add: geometry_ok_def dirty_ok_def shown_def)

lemma text_fits:
  assumes "geometry_ok c"
  shows "rows c * font_height (con_font c) \<le> con_height c" "cols c * font_width (con_font c) \<le> con_width c" "0 < pitch c"
    "row < rows c \<Longrightarrow> row * font_height (con_font c) + font_height (con_font c) \<le> con_height c"
    "col < cols c \<Longrightarrow> col * font_width (con_font c) + font_width (con_font c) \<le> con_width c"
proof -
  show h: "rows c * font_height (con_font c) \<le> con_height c" and w: "cols c * font_width (con_font c) \<le> con_width c"
    using assms by (simp_all add: geometry_ok_def div_times_less_eq_dividend)
  show "row < rows c \<Longrightarrow> row * font_height (con_font c) + font_height (con_font c) \<le> con_height c"
    using h mult_le_mono1 [of "row + 1" "rows c" "font_height (con_font c)"] by simp
  show "col < cols c \<Longrightarrow> col * font_width (con_font c) + font_width (con_font c) \<le> con_width c"
    using w mult_le_mono1 [of "col + 1" "cols c" "font_width (con_font c)"] by simp
  have "0 < con_width c" using assms by (auto simp: geometry_ok_def div_eq_0_iff intro: gr0I)
  then have "0 < con_width c * bytes_per_pixel c" using assms by (simp add: geometry_ok_def)
  moreover have "con_width c * bytes_per_pixel c \<le> pitch c" using assms by (simp add: geometry_ok_def)
  ultimately show "0 < pitch c" by (rule less_le_trans)
qed

lemma rows_fit:
  assumes "geometry_ok c" "y0 + m \<le> con_height c" "x0 + dx \<le> con_width c" "0 < m"
  shows "y0 * pitch c + x0 * bytes_per_pixel c + (m - 1) * pitch c + dx * bytes_per_pixel c \<le> pitch c * con_height c"
proof -
  have "x0 * bytes_per_pixel c + dx * bytes_per_pixel c \<le> con_width c * bytes_per_pixel c"
    using mult_le_mono1 [OF assms(3), of "bytes_per_pixel c"] by (simp add: add_mult_distrib)
  then have "x0 * bytes_per_pixel c + dx * bytes_per_pixel c \<le> pitch c" using assms(1) by (simp add: geometry_ok_def)
  moreover have "(y0 + (m - 1) + 1) * pitch c \<le> con_height c * pitch c" using assms(2,4) by (intro mult_le_mono1) simp
  then have "y0 * pitch c + (m - 1) * pitch c + pitch c \<le> pitch c * con_height c"
    by (simp only: add_mult_distrib mult_1 mult.commute [of "con_height c"])
  ultimately show ?thesis by linarith
qed

text \<open>Where a pixel is, as an index.\<close>

lemma pixel_index:
  assumes "geometry_ok c" "x < con_width c" "y < con_height c" "k < bytes_per_pixel c"
  shows "y * pitch c + x * bytes_per_pixel c + k < pitch c * con_height c"
  using rows_fit [OF assms(1), of y 1 x 1] assms(2-4) by simp

lemma mark_dirty_fields [simp]:
  "screen (mark_dirty x y w h c) = screen c" "shadow (mark_dirty x y w h c) = shadow c" "con_width (mark_dirty x y w h c) = con_width c"
  "con_height (mark_dirty x y w h c) = con_height c" "pitch (mark_dirty x y w h c) = pitch c"
  "bytes_per_pixel (mark_dirty x y w h c) = bytes_per_pixel c" "con_font (mark_dirty x y w h c) = con_font c"
  "cols (mark_dirty x y w h c) = cols c" "rows (mark_dirty x y w h c) = rows c" "cursor_col (mark_dirty x y w h c) = cursor_col c"
  "cursor_row (mark_dirty x y w h c) = cursor_row c" "params (mark_dirty x y w h c) = params c" "nparams (mark_dirty x y w h c) = nparams c"
  "batch_depth (mark_dirty x y w h c) = batch_depth c" "esc (mark_dirty x y w h c) = esc c" "bg (mark_dirty x y w h c) = bg c"
  by (simp_all add: mark_dirty_def Let_def)

lemma mark_dirty_covers:
  assumes "x < con_width c" "y < con_height c"
    "in_rect (dirty c) x y \<or> x0 \<le> x \<and> x < x0 + w \<and> y0 \<le> y \<and> y < y0 + h"
  shows "in_rect (dirty (mark_dirty x0 y0 w h c)) x y"
  using assms by (auto simp: mark_dirty_def Let_def in_rect_def split: option.splits prod.splits)

text \<open>Changing the shadow buffer inside a rectangle and marking it keeps the invariant.\<close>

lemma draw_keeps:
  assumes ok: "geometry_ok c" "dirty_ok c" and len: "length buf = length (shadow c)"
    and out: "\<And>x y k. x < con_width c \<Longrightarrow> y < con_height c \<Longrightarrow> k < bytes_per_pixel c \<Longrightarrow>
      \<not> (x0 \<le> x \<and> x < x0 + w \<and> y0 \<le> y \<and> y < y0 + h) \<Longrightarrow>
      buf ! (y * pitch c + x * bytes_per_pixel c + k) = shadow c ! (y * pitch c + x * bytes_per_pixel c + k)"
  shows "geometry_ok (mark_dirty x0 y0 w h (c\<lparr>shadow := buf\<rparr>))" "dirty_ok (mark_dirty x0 y0 w h (c\<lparr>shadow := buf\<rparr>))"
proof -
  let ?c = "mark_dirty x0 y0 w h (c\<lparr>shadow := buf\<rparr>)"
  show "geometry_ok ?c" using ok(1) len by (simp add: geometry_ok_def)
  have "shown ?c x y" if "x < con_width c" "y < con_height c" "\<not> in_rect (dirty ?c) x y" for x y
  proof -
    have "\<not> in_rect (dirty c) x y" "\<not> (x0 \<le> x \<and> x < x0 + w \<and> y0 \<le> y \<and> y < y0 + h)"
      using mark_dirty_covers [of x "c\<lparr>shadow := buf\<rparr>" y x0 w y0 h] that by auto
    then show ?thesis using ok(2) that(1,2) out [OF that(1,2)] by (simp add: shown_def dirty_ok_def)
  qed
  moreover have "rect_ok (con_width c) (con_height c) (dirty ?c)"
    using ok(2) by (auto simp: mark_dirty_def Let_def dirty_ok_def rect_ok_def split: option.splits prod.splits)
  ultimately show "dirty_ok ?c" by (simp add: dirty_ok_def)
qed

lemma length_pixels: "\<forall>p\<in>set ps. length p = n \<Longrightarrow> length (concat ps) = length ps * n"
  by (induction ps) auto

lemma fill_row_length: "bytes_per_pixel c \<le> 4 \<Longrightarrow> length (fill_row c n color) = n * bytes_per_pixel c"
  using length_pixels [of "replicate n (take (bytes_per_pixel c) (pixel_bytes color))" "bytes_per_pixel c"]
  by (simp add: fill_row_def pixel_bytes_def)

lemma glyph_row_length: "bytes_per_pixel c \<le> 4 \<Longrightarrow> length (glyph_row c bits) = font_width (con_font c) * bytes_per_pixel c"
  unfolding glyph_row_def by (subst length_pixels [where n = "bytes_per_pixel c"]) (auto simp: pixel_bytes_def)

lemma fill_rect_spec:
  assumes "geometry_ok c"
  shows "\<exists>buf. fill_rect x0 y0 w h color c = Some (c\<lparr>shadow := buf\<rparr>) \<and> length buf = length (shadow c) \<and>
    (\<forall>x y k. x < con_width c \<longrightarrow> y < con_height c \<longrightarrow> k < bytes_per_pixel c \<longrightarrow> \<not> (x0 \<le> x \<and> x < x0 + w \<and> y0 \<le> y \<and> y < y0 + h) \<longrightarrow>
      buf ! (y * pitch c + x * bytes_per_pixel c + k) = shadow c ! (y * pitch c + x * bytes_per_pixel c + k))"
proof -
  let ?xe = "min (x0 + w) (con_width c)" and ?ye = "min (y0 + h) (con_height c)" and ?b = "bytes_per_pixel c"
  show ?thesis
  proof (cases "x0 \<ge> ?xe \<or> y0 \<ge> ?ye")
    case True
    then show ?thesis by (intro exI [of _ "shadow c"]) (simp add: fill_rect_def Let_def)
  next
    case False
    let ?rs = "replicate (?ye - y0) (fill_row c (?xe - x0) color)" and ?at = "y0 * pitch c + x0 * ?b"
    have g: "con_width c * ?b \<le> pitch c" "?b \<le> 4" "length (shadow c) = pitch c * con_height c" using assms by (simp_all add: geometry_ok_def)
    have fit: "?at + (?ye - y0 - 1) * pitch c + (?xe - x0) * ?b \<le> length (shadow c)"
    proof -
      have "y0 + (?ye - y0) \<le> con_height c" "x0 + (?xe - x0) \<le> con_width c" "0 < ?ye - y0" using False by auto
      from rows_fit [OF assms this] show ?thesis unfolding g(3) .
    qed
    have "\<exists>buf. put_rows (pitch c) (shadow c) ?at ?rs = Some buf \<and> length buf = length (shadow c) \<and>
      (\<forall>i<length (shadow c). \<not> in_rows (pitch c) ?at ((?xe - x0) * ?b) (length ?rs) i \<longrightarrow> buf ! i = shadow c ! i)"
      using fill_row_length [OF g(2)] fit by (intro put_rows_spec) (simp_all add: ac_simps)
    then obtain buf where b: "put_rows (pitch c) (shadow c) ?at ?rs = Some buf" "length buf = length (shadow c)"
      "\<And>i. i < length (shadow c) \<Longrightarrow> \<not> in_rows (pitch c) ?at ((?xe - x0) * ?b) (?ye - y0) i \<Longrightarrow> buf ! i = shadow c ! i"
      by auto
    have "buf ! (y * pitch c + x * ?b + k) = shadow c ! (y * pitch c + x * ?b + k)"
      if "x < con_width c" "y < con_height c" "k < ?b" "\<not> (x0 \<le> x \<and> x < x0 + w \<and> y0 \<le> y \<and> y < y0 + h)" for x y k
    proof (rule b(3))
      show "y * pitch c + x * ?b + k < length (shadow c)" using pixel_index [OF assms that(1-3)] g(3) by simp
      show "\<not> in_rows (pitch c) ?at ((?xe - x0) * ?b) (?ye - y0) (y * pitch c + x * ?b + k)"
        using that False by (subst pixel_in_rows [OF that(1,3) g(1)]) auto
    qed
    then show ?thesis using b(1,2) False by (auto simp: fill_rect_def Let_def)
  qed
qed

lemma clear_spec:
  assumes "console_ok c"
  shows "\<exists>c'. clear c = Some c' \<and> console_ok c' \<and> batch_depth c' = batch_depth c"
proof -
  obtain buf where b: "fill_rect 0 0 (con_width c) (con_height c) (bg c) c = Some (c\<lparr>shadow := buf\<rparr>)" "length buf = length (shadow c)"
    using fill_rect_spec [of c 0 0 "con_width c" "con_height c" "bg c"] assms by (auto simp: console_ok_def)
  let ?c = "mark_dirty 0 0 (con_width c) (con_height c) (c\<lparr>shadow := buf\<rparr>)"
  have "geometry_ok ?c \<and> dirty_ok ?c" using draw_keeps [of c buf 0 "con_width c" 0 "con_height c"] assms b(2) by (auto simp: console_ok_def)
  moreover have "0 < rows c" using assms by (simp add: console_ok_def geometry_ok_def)
  ultimately show ?thesis using b(1) assms by (simp add: clear_def console_ok_def cursor_ok_def params_ok_def)
qed

text \<open>What drawing keeps.\<close>

definition same_cursor :: "console \<Rightarrow> console \<Rightarrow> bool" where
  "same_cursor c c' \<longleftrightarrow> cursor_col c' = cursor_col c \<and> cursor_row c' = cursor_row c \<and> cols c' = cols c \<and> rows c' = rows c \<and>
     params c' = params c \<and> nparams c' = nparams c \<and> esc c' = esc c \<and> batch_depth c' = batch_depth c"

lemma draw_glyph_spec:
  assumes "geometry_ok c" "dirty_ok c" "col < cols c" "row < rows c"
  shows "\<exists>c'. draw_glyph ch col row c = Some c' \<and> geometry_ok c' \<and> dirty_ok c' \<and> same_cursor c c'"
proof -
  let ?f = "con_font c" and ?b = "bytes_per_pixel c"
  let ?ox = "col * font_width ?f" and ?oy = "row * font_height ?f"
  have f: "font_ok ?f" and g: "con_width c * ?b \<le> pitch c" "?b \<le> 4" "length (shadow c) = pitch c * con_height c"
    using assms(1) by (simp_all add: geometry_ok_def)
  obtain gl where gl: "glyph ?f ch = Some gl" "length gl = charsize ?f" using glyph_Some [OF f] by blast
  have "bytes_per_row ?f * font_height ?f \<le> charsize ?f" using f unfolding font_ok_def by blast
  then have enough: "font_height ?f * bytes_per_row ?f \<le> length gl" using gl(2) by (simp only: mult.commute)
  let ?rs = "map (\<lambda>y. glyph_row c (slice gl (y * bytes_per_row ?f) ((y + 1) * bytes_per_row ?f))) [0..<font_height ?f]"
  let ?at = "?oy * pitch c + ?ox * ?b"
  have fit: "?oy + font_height ?f \<le> con_height c" "?ox + font_width ?f \<le> con_width c" "0 < font_height ?f"
    using text_fits(4,5) [OF assms(1)] assms(3,4) f by (simp_all add: font_ok_def)
  have "?at + (length ?rs - 1) * pitch c + font_width ?f * ?b \<le> length (shadow c)"
    using rows_fit [OF assms(1) fit] g(3) by simp
  then obtain buf where b: "put_rows (pitch c) (shadow c) ?at ?rs = Some buf" "length buf = length (shadow c)"
    "\<And>i. i < length (shadow c) \<Longrightarrow> \<not> in_rows (pitch c) ?at (font_width ?f * ?b) (font_height ?f) i \<Longrightarrow> buf ! i = shadow c ! i"
    using put_rows_spec [of ?rs "font_width ?f * ?b" ?at "pitch c" "shadow c"] glyph_row_length [OF g(2)] by auto
  have out: "buf ! (y * pitch c + x * ?b + k) = shadow c ! (y * pitch c + x * ?b + k)"
    if "x < con_width c" "y < con_height c" "k < ?b" "\<not> (?ox \<le> x \<and> x < ?ox + font_width ?f \<and> ?oy \<le> y \<and> y < ?oy + font_height ?f)" for x y k
  proof (rule b(3))
    show "y * pitch c + x * ?b + k < length (shadow c)" using pixel_index [OF assms(1) that(1-3)] g(3) by simp
    show "\<not> in_rows (pitch c) ?at (font_width ?f * ?b) (font_height ?f) (y * pitch c + x * ?b + k)"
      using that(4) pixel_in_rows [OF that(1,3) g(1) fit(2)] by blast
  qed
  show ?thesis
    using draw_keeps [OF assms(1,2) b(2) out] gl(1) enough b(1) by (simp add: draw_glyph_def Let_def same_cursor_def)
qed

lemma scroll_spec:
  assumes "geometry_ok c" "dirty_ok c"
  shows "\<exists>c'. scroll c = Some c' \<and> geometry_ok c' \<and> dirty_ok c' \<and> same_cursor c c'"
proof -
  let ?f = "con_font c" and ?b = "bytes_per_pixel c"
  let ?rb = "font_height ?f * pitch c" and ?tb = "rows c * (font_height ?f * pitch c)"
  have g: "length (shadow c) = pitch c * con_height c" "0 < rows c" "con_width c * ?b \<le> pitch c"
    using assms(1) by (simp_all add: geometry_ok_def)
  note fits = text_fits(1-3) [OF assms(1)]
  have "rows c * font_height ?f * pitch c \<le> con_height c * pitch c" using fits(1) by (rule mult_le_mono1)
  then have tb: "?tb \<le> length (shadow c)" using g(1) by (simp add: ac_simps)
  have rb: "?rb \<le> ?tb" using mult_le_mono1 [of 1 "rows c" ?rb] g(2) by simp
  define mid where "mid = copy_at (shadow c) 0 (slice (shadow c) ?rb ?tb)"
  have mid: "length mid = length (shadow c)" "\<And>i. i < length (shadow c) \<Longrightarrow> ?tb \<le> i \<Longrightarrow> mid ! i = shadow c ! i"
    using tb rb by (simp_all only: mid_def nth_copy_at length_copy_at length_slice) auto
  have g1: "geometry_ok (c\<lparr>shadow := mid\<rparr>)" using assms(1) mid(1) by (simp add: geometry_ok_def)
  obtain buf where b: "fill_rect 0 ((rows c - 1) * font_height ?f) (con_width c) (font_height ?f) DEFAULT_BG (c\<lparr>shadow := mid\<rparr>) =
      Some (c\<lparr>shadow := buf\<rparr>)" "length buf = length (shadow c)"
    "\<And>x y k. x < con_width c \<Longrightarrow> y < con_height c \<Longrightarrow> k < ?b \<Longrightarrow>
       \<not> ((rows c - 1) * font_height ?f \<le> y \<and> y < (rows c - 1) * font_height ?f + font_height ?f) \<Longrightarrow>
       buf ! (y * pitch c + x * ?b + k) = mid ! (y * pitch c + x * ?b + k)"
    using fill_rect_spec [OF g1, of 0 "(rows c - 1) * font_height ?f" "con_width c" "font_height ?f" DEFAULT_BG] mid(1) by auto
  have th: "?tb div pitch c = rows c * font_height ?f" using fits(3) by (simp add: mult.assoc [symmetric])
  have up: "(rows c - 1) * font_height ?f + font_height ?f = rows c * font_height ?f"
    using g(2) by (cases "rows c") simp_all
  have out: "buf ! (y * pitch c + x * ?b + k) = shadow c ! (y * pitch c + x * ?b + k)"
    if "x < con_width c" "y < con_height c" "k < ?b" "\<not> (0 \<le> x \<and> x < 0 + con_width c \<and> 0 \<le> y \<and> y < 0 + rows c * font_height ?f)" for x y k
  proof -
    have y: "rows c * font_height ?f \<le> y" using that by auto
    then have "rows c * font_height ?f * pitch c \<le> y * pitch c" by (rule mult_le_mono1)
    then have "?tb \<le> y * pitch c" by (simp only: mult.assoc)
    then have "?tb \<le> y * pitch c + x * ?b + k" by linarith
    then show ?thesis using b(3) [OF that(1-3)] mid(2) pixel_index [OF assms(1) that(1-3)] y up g(1) by simp
  qed
  let ?c = "mark_dirty 0 0 (con_width c) (rows c * font_height ?f) (c\<lparr>shadow := buf\<rparr>)"
  have "geometry_ok ?c" "dirty_ok ?c"
    using draw_keeps [OF assms b(2), of 0 "con_width c" 0 "rows c * font_height ?f"] out by blast+
  then show ?thesis using b(1) tb rb g(2) fits(3)
    by (simp add: scroll_def Let_def mid_def [symmetric] th same_cursor_def)
qed

lemma newline_spec:
  assumes "console_ok c"
  shows "\<exists>c'. newline c = Some c' \<and> console_ok c' \<and> cursor_col c' = 0 \<and> cols c' = cols c \<and> esc c' = esc c \<and> batch_depth c' = batch_depth c"
proof (cases "cursor_row c + 1 \<ge> rows c")
  case True
  then show ?thesis using scroll_spec [of "c\<lparr>cursor_col := 0\<rparr>"] assms
    by (auto simp: newline_def Let_def console_ok_def same_cursor_def cursor_ok_def params_ok_def)
next
  case False
  then show ?thesis using assms by (simp add: newline_def Let_def console_ok_def cursor_ok_def params_ok_def)
qed

lemma put_printable_spec:
  assumes "console_ok c"
  shows "\<exists>c'. put_printable ch c = Some c' \<and> console_ok c' \<and> cols c' = cols c \<and> esc c' = esc c \<and> batch_depth c' = batch_depth c \<and>
    cursor_col c' = (if cursor_col c \<ge> cols c then 1 else cursor_col c + 1)"
proof -
  obtain c1 where c1: "(if cursor_col c \<ge> cols c then newline c else Some c) = Some c1" "console_ok c1" "cols c1 = cols c" "esc c1 = esc c"
    "batch_depth c1 = batch_depth c" "cursor_col c1 = (if cursor_col c \<ge> cols c then 0 else cursor_col c)"
    using newline_spec [OF assms] assms by (cases "cursor_col c \<ge> cols c") auto
  have "0 < cols c" using assms by (simp add: console_ok_def geometry_ok_def)
  then have in_text: "cursor_col c1 < cols c1" "cursor_row c1 < rows c1" using c1 by (simp_all add: console_ok_def cursor_ok_def)
  obtain c2 where c2: "draw_glyph ch (cursor_col c1) (cursor_row c1) c1 = Some c2" "geometry_ok c2" "dirty_ok c2" "same_cursor c1 c2"
    using draw_glyph_spec [of c1 "cursor_col c1" "cursor_row c1" ch] c1(2) in_text by (auto simp: console_ok_def)
  have "put_printable ch c = Some (c2\<lparr>cursor_col := cursor_col c2 + 1\<rparr>)" using c1(1) c2(1) by (simp add: put_printable_def)
  moreover have "console_ok (c2\<lparr>cursor_col := cursor_col c2 + 1\<rparr>)"
    using c1(2) c2 in_text by (simp add: console_ok_def cursor_ok_def params_ok_def same_cursor_def)
  ultimately show ?thesis using c1 c2(4) by (auto simp: same_cursor_def)
qed

lemma flush_pending_spec:
  assumes "console_ok c"
  shows "\<exists>c'. flush_pending c = Some c' \<and> console_ok c' \<and> dirty c' = None \<and> batch_depth c' = batch_depth c \<and> cols c' = cols c \<and>
    cursor_col c' = cursor_col c \<and> esc c' = esc c"
proof (cases "dirty c")
  case None
  then show ?thesis using assms by (simp add: flush_pending_def)
next
  case (Some r)
  obtain x0 y0 x1 y1 where r: "r = (x0, y0, x1, y1)" by (metis prod_cases4)
  have g: "geometry_ok c" and d: "dirty_ok c" using assms by (simp_all add: console_ok_def)
  have rect: "x0 < x1" "x1 \<le> con_width c" "y0 < y1" "y1 \<le> con_height c"
    using d Some by (simp_all add: dirty_ok_def rect_ok_def r)
  let ?b = "bytes_per_pixel c"
  let ?at = "y0 * pitch c + x0 * ?b"
  have gm: "con_width c * ?b \<le> pitch c" "length (shadow c) = pitch c * con_height c" "length (screen c) = length (shadow c)"
    using g by (simp_all add: geometry_ok_def)
  have fit: "?at + (y1 - y0 - 1) * pitch c + (x1 - x0) * ?b \<le> length (shadow c)"
    using rows_fit [OF g, of y0 "y1 - y0" x0 "x1 - x0"] rect gm(2) by simp
  obtain dst where dst: "flush_rows (pitch c) (shadow c) (screen c) ?at ((x1 - x0) * ?b) (y1 - y0) = Some dst" "length dst = length (screen c)"
    "\<And>i. i < length (screen c) \<Longrightarrow> dst ! i = (if in_rows (pitch c) ?at ((x1 - x0) * ?b) (y1 - y0) i then shadow c ! i else screen c ! i)"
    using flush_rows_spec [of "y1 - y0" ?at "pitch c" "(x1 - x0) * ?b" "shadow c" "screen c"] fit gm(3) by auto
  let ?c = "c\<lparr>dirty := None, screen := dst, presented := presented c @ [(x0, y0, x1 - x0, y1 - y0)]\<rparr>"
  have res: "flush_pending c = Some ?c"
    using dst(1) rect Some by (simp add: flush_pending_def flush_rect_def Let_def r min_absorb1)
  have "shown ?c x y" if "x < con_width c" "y < con_height c" for x y
  proof -
    have "dst ! (y * pitch c + x * ?b + k) = shadow c ! (y * pitch c + x * ?b + k)" if k: "k < ?b" for k
    proof -
      have i: "y * pitch c + x * ?b + k < length (screen c)" using pixel_index [OF g \<open>x < con_width c\<close> \<open>y < con_height c\<close> k] gm by simp
      have "x0 + (x1 - x0) \<le> con_width c" using rect by simp
      note p = pixel_in_rows [OF \<open>x < con_width c\<close> k gm(1) this, of y0 "y1 - y0" y]
      show ?thesis
      proof (cases "in_rect (dirty c) x y")
        case True
        then show ?thesis using dst(3) [OF i] p rect by (simp add: in_rect_def Some r)
      next
        case False
        then have "shown c x y" using d \<open>x < con_width c\<close> \<open>y < con_height c\<close> by (simp add: dirty_ok_def)
        then show ?thesis using dst(3) [OF i] k by (simp add: shown_def)
      qed
    qed
    then show ?thesis by (simp add: shown_def)
  qed
  then have "console_ok ?c"
    using assms dst(2) by (simp add: console_ok_def geometry_ok_def dirty_ok_def rect_ok_def cursor_ok_def params_ok_def)
  then show ?thesis using res by simp
qed

lemma push_param_ok: "console_ok c \<Longrightarrow> console_ok (push_param c)" "esc (push_param c) = esc c" "batch_depth (push_param c) = batch_depth c"
  "cols (push_param c) = cols c"
  by (auto simp: push_param_def Let_def console_ok_def cursor_ok_def params_ok_def)

lemma sgr_one_ok: "console_ok c \<Longrightarrow> console_ok (fst (sgr_one c i))" "batch_depth (fst (sgr_one c i)) = batch_depth c"
  "cols (fst (sgr_one c i)) = cols c"
  by (auto simp: sgr_one_def Let_def console_ok_def cursor_ok_def params_ok_def split: option.splits)

lemma apply_sgr_ok:
  "console_ok c \<Longrightarrow> console_ok (apply_sgr c i) \<and> batch_depth (apply_sgr c i) = batch_depth c \<and> cols (apply_sgr c i) = cols c"
proof (induction c i rule: apply_sgr.induct)
  case (1 c i)
  then show ?case using sgr_one_ok [of c i] by (simp add: apply_sgr.simps [of c i])
qed

lemma csi_char_spec:
  assumes "console_ok c"
  shows "\<exists>c'. csi_char ch c = Some c' \<and> console_ok c' \<and> batch_depth c' = batch_depth c"
proof -
  note p = push_param_ok [of c]
  have left: "console_ok (con_cursor_left n (push_param c))" for n
    using p(1) [OF assms] by (auto simp: con_cursor_left_def console_ok_def cursor_ok_def params_ok_def)
  have upd: "console_ok (d\<lparr>esc := e\<rparr>) = console_ok d" "console_ok (d\<lparr>cur := v, have_cur := b\<rparr>) = console_ok d" for d e v b
    by (simp_all add: console_ok_def cursor_ok_def params_ok_def)
  obtain c1 where "clear (push_param c) = Some c1" "console_ok c1" "batch_depth c1 = batch_depth c"
    using clear_spec [OF p(1) [OF assms]] p(3) by auto
  then show ?thesis
    using assms p left apply_sgr_ok [OF p(1) [OF assms], of 0] by (simp add: csi_char_def Let_def upd con_cursor_left_def)
qed

lemma put_char_spec:
  assumes "console_ok c" "ch \<noteq> 0x09"
  shows "\<exists>c'. put_char ch c = Some c' \<and> console_ok c' \<and> batch_depth c' = batch_depth c"
proof -
  have upd: "console_ok (d\<lparr>esc := e\<rparr>) = console_ok d" "console_ok (d\<lparr>esc := e, nparams := 0, cur := v, have_cur := b\<rparr>)" if "console_ok d" for d e v b
    using that by (simp_all add: console_ok_def cursor_ok_def params_ok_def)
  have bs: "\<exists>c'. backspace c = Some c' \<and> console_ok c' \<and> batch_depth c' = batch_depth c"
  proof (cases "cursor_col c = 0")
    case False
    let ?c = "c\<lparr>cursor_col := cursor_col c - 1\<rparr>"
    have "cursor_col c - 1 < cols c" "cursor_row c < rows c" using assms(1) False by (auto simp: console_ok_def cursor_ok_def)
    then have "\<exists>c'. draw_glyph 0x20 (cursor_col c - 1) (cursor_row c) ?c = Some c' \<and> geometry_ok c' \<and> dirty_ok c' \<and> same_cursor ?c c'"
      using assms(1) by (intro draw_glyph_spec) (simp_all add: console_ok_def)
    then show ?thesis using assms(1) False
      by (auto simp: backspace_def Let_def console_ok_def same_cursor_def cursor_ok_def params_ok_def)
  qed (use assms(1) in \<open>simp add: backspace_def\<close>)
  have cr: "console_ok (c\<lparr>cursor_col := 0\<rparr>)" using assms(1) by (simp add: console_ok_def cursor_ok_def params_ok_def)
  show ?thesis
    using assms upd [OF assms(1)] bs cr csi_char_spec [OF assms(1), of ch] newline_spec [OF assms(1)] put_printable_spec [OF assms(1), of ch]
    by (cases "esc c") (auto simp: put_char_def)
qed

lemma put_chars_spec:
  "console_ok c \<Longrightarrow> 0x09 \<notin> set chs \<Longrightarrow> \<exists>c'. put_chars chs c = Some c' \<and> console_ok c' \<and> batch_depth c' = batch_depth c"
proof (induction chs arbitrary: c)
  case (Cons ch chs)
  then obtain c1 where "put_char ch c = Some c1" "console_ok c1" "batch_depth c1 = batch_depth c" using put_char_spec [of c ch] by auto
  then show ?case using Cons.IH [of c1] Cons.prems(2) by auto
qed simp

section \<open>Lemmas: tabs\<close>

lemma tab_loop_returns:
  "console_ok c \<Longrightarrow> next \<le> cols c \<Longrightarrow> cursor_col c \<le> next \<Longrightarrow>
     \<exists>c'. tab_loop next c = Some c' \<and> console_ok c' \<and> cursor_col c' = next \<and> batch_depth c' = batch_depth c"
proof (induction "next - cursor_col c" arbitrary: c)
  case 0
  then show ?case by (simp add: tab_loop.simps)
next
  case (Suc n)
  then have less: "cursor_col c < next" by simp
  then obtain c1 where c1: "put_printable 0x20 c = Some c1" "console_ok c1" "cols c1 = cols c" "cursor_col c1 = cursor_col c + 1"
    "batch_depth c1 = batch_depth c"
    using put_printable_spec [OF Suc.prems(1), of "0x20"] Suc.prems(2) by auto
  then have "\<exists>c'. tab_loop next c1 = Some c' \<and> console_ok c' \<and> cursor_col c' = next \<and> batch_depth c' = batch_depth c1"
    using Suc.hyps(2) Suc.prems less by (intro Suc.hyps(1)) simp_all
  then show ?case using c1 less by (subst tab_loop.simps) simp
qed

fun tab_rounds :: "nat \<Rightarrow> console \<Rightarrow> console option" where
  "tab_rounds 0 c = Some c"
| "tab_rounds (Suc n) c = Option.bind (put_printable 0x20 c) (tab_rounds n)"

lemma tab_rounds_ok:
  "console_ok c \<Longrightarrow> \<exists>c'. tab_rounds n c = Some c' \<and> console_ok c' \<and> cols c' = cols c"
proof (induction n arbitrary: c)
  case (Suc n)
  then obtain c1 where "put_printable 0x20 c = Some c1" "console_ok c1" "cols c1 = cols c" using put_printable_spec [of c] by blast
  then show ?case using Suc.IH [of c1] by auto
qed simp

section \<open>Properties\<close>

text \<open>What the boot loader promises of a framebuffer: a row of pixels fits in the pitch, and the memory is as large as
  the rows together.\<close>

definition fb_ok :: "fb_info \<Rightarrow> bool" where
  "fb_ok fb \<longleftrightarrow> unat (fb_width fb) * (unat (fb_bpp fb) div 8) \<le> unat (fb_pitch fb) \<and>
     unat (fb_pitch fb) * unat (fb_height fb) < 2 ^ 64 \<and> length (fb_memory fb) = unat (fb_pitch fb) * unat (fb_height fb)"

lemma console_new_ok:
  assumes "fb_ok fb" "font_ok f" "fb_bpp fb = 32 \<or> fb_bpp fb = 24" "cols (console_new fb f) \<noteq> 0" "rows (console_new fb f) \<noteq> 0"
  shows "geometry_ok (console_new fb f)" "cursor_ok (console_new fb f)" "params_ok (console_new fb f)"
  using assms by (auto simp: console_new_def geometry_ok_def fb_ok_def cursor_ok_def params_ok_def min_absorb1)

lemma console_init_ok:
  assumes "fb_ok fb" "console_init (Some fb) font_data = Some c"
  shows "console_ok c \<and> dirty c = None \<and> batch_depth c = 0 \<and> cursor_col c = 0 \<and> esc c = Normal \<and>
    (\<exists>f. font_parse font_data = Some f \<and> cols c = unat (fb_width fb) div font_width f)"
proof -
  obtain f c1 where f: "font_parse font_data = Some f" "cols (console_new fb f) \<noteq> 0" "rows (console_new fb f) \<noteq> 0"
    "clear (console_new fb f) = Some c1" "flush_pending c1 = Some c" "fb_bpp fb = 32 \<or> fb_bpp fb = 24"
    using assms(2) by (auto simp: console_init_def Let_def split: bind_splits if_splits)
  let ?c = "console_new fb f"
  note n = console_new_ok [OF assms(1) font_parse_ok [OF f(1)] f(6,2,3)]
  obtain buf where b: "fill_rect 0 0 (con_width ?c) (con_height ?c) (bg ?c) ?c = Some (?c\<lparr>shadow := buf\<rparr>)" "length buf = length (shadow ?c)"
    using fill_rect_spec [OF n(1), of 0 0 "con_width ?c" "con_height ?c" "bg ?c"] by auto
  have c1: "c1 = (mark_dirty 0 0 (con_width ?c) (con_height ?c) (?c\<lparr>shadow := buf\<rparr>))\<lparr>cursor_col := 0, cursor_row := 0\<rparr>"
    using f(4) b(1) by (simp add: clear_def)
  have pos: "0 < con_width ?c" "0 < con_height ?c" using f(2,3) by (auto simp: console_new_def intro: gr0I)
  then have d: "dirty c1 = Some (0, 0, con_width ?c, con_height ?c)" unfolding c1 by (simp add: mark_dirty_def console_new_def Let_def)
  have "dirty_ok c1" using pos by (simp add: dirty_ok_def d in_rect_def rect_ok_def) (simp add: c1)
  moreover have "geometry_ok c1" using n(1) b(2) by (simp add: c1) (simp add: geometry_ok_def)
  moreover have "cursor_ok c1" "params_ok c1" "batch_depth c1 = 0" using n(2,3) by (simp_all add: c1 cursor_ok_def params_ok_def console_new_def)
  ultimately have ok1: "console_ok c1" "batch_depth c1 = 0" by (simp_all add: console_ok_def)
  moreover have "cursor_col c1 = 0" "esc c1 = Normal" "cols c1 = unat (fb_width fb) div font_width f"
    by (simp_all add: c1 console_new_def)
  ultimately show ?thesis using flush_pending_spec [OF ok1(1)] f(1,5) by auto
qed

fun write_strs :: "str list \<Rightarrow> console \<Rightarrow> console option" where
  "write_strs [] c = Some c"
| "write_strs (s # ss) c = Option.bind (console_write_str s c) (write_strs ss)"

lemma write_strs_ok:
  assumes "console_ok c" "dirty c = None" "batch_depth c = 0" "\<forall>s\<in>set ss. 0x09 \<notin> set (chars s)"
  shows "\<exists>c'. write_strs ss c = Some c' \<and> console_ok c' \<and> dirty c' = None \<and> batch_depth c' = 0"
  using assms
proof (induction ss arbitrary: c)
  case (Cons s ss)
  obtain c1 where c1: "put_chars (chars s) c = Some c1" "console_ok c1" "batch_depth c1 = 0"
    using put_chars_spec [of c "chars s"] Cons.prems by auto
  obtain c2 where "flush_pending c1 = Some c2" "console_ok c2" "dirty c2 = None" "batch_depth c2 = 0"
    using flush_pending_spec [OF c1(2)] c1(3) by auto
  then show ?case using Cons.IH [of c2] Cons.prems c1 by (auto simp: console_write_str_def)
qed simp

text \<open>C29. Whatever text is written to the console after it has started, escape sequences included and tabs excepted, no
  access is out of range, the cursor stays on the screen, and afterwards the framebuffer shows every pixel of the shadow
  buffer: the rectangle of changes always covers what has been drawn since the last flush.\<close>

theorem console_shows:
  assumes "fb_ok fb" "console_init (Some fb) font_data = Some c" "\<forall>s\<in>set ss. 0x09 \<notin> set (chars s)"
  shows "\<exists>c'. write_strs ss c = Some c' \<and> cursor_col c' \<le> cols c' \<and> cursor_row c' < rows c' \<and>
    (\<forall>x<con_width c'. \<forall>y<con_height c'. shown c' x y)"
proof -
  have "console_ok c" "dirty c = None" "batch_depth c = 0" using console_init_ok [OF assms(1,2)] by simp_all
  then obtain c' where "write_strs ss c = Some c'" "console_ok c'" "dirty c' = None" using write_strs_ok [OF _ _ _ assms(3)] by blast
  then show ?thesis by (auto simp: console_ok_def cursor_ok_def dirty_ok_def in_rect_def)
qed

definition tiny_font :: "u8 list" where
  "tiny_font = [0x36, 0x04, 0, 1] @ replicate 256 0xFF"

definition tiny_fb :: fb_info where
  "tiny_fb = \<lparr>fb_memory = replicate 64 0, fb_width = 16, fb_height = 1, fb_pitch = 64, fb_bpp = 32\<rparr>"

lemma tiny_font_parses: "\<exists>f. font_parse tiny_font = Some f \<and> font_width f = 8 \<and> font_height f = 1"
proof -
  have "length tiny_font = 260" "tiny_font ! 0 = 0x36" "tiny_font ! 1 = 4" "tiny_font ! 2 = 0" "tiny_font ! 3 = 1"
    by (simp_all add: tiny_font_def)
  moreover have "take 4 tiny_font = [0x36, 4, 0, 1]" by (simp add: tiny_font_def)
  ultimately have "psf_header tiny_font = Some (4, 256, 1, 8, 1, False)" by (simp add: psf_header_def)
  then show ?thesis using \<open>length tiny_font = 260\<close> by (simp add: font_parse_def Let_def checked_add_usize_def)
qed

lemma tiny_console: "fb_ok tiny_fb" "\<exists>c. console_init (Some tiny_fb) tiny_font = Some c"
proof -
  show ok: "fb_ok tiny_fb" by (simp add: fb_ok_def tiny_fb_def)
  obtain f where f: "font_parse tiny_font = Some f" "font_width f = 8" "font_height f = 1" using tiny_font_parses by blast
  let ?c = "console_new tiny_fb f"
  have cr: "cols ?c = 2" "rows ?c = 1" "fb_bpp tiny_fb = 32" by (simp_all add: console_new_def tiny_fb_def f)
  note n = console_new_ok [OF ok font_parse_ok [OF f(1)]]
  have g: "geometry_ok ?c" "cursor_ok ?c" "params_ok ?c" using n cr by simp_all
  have "screen ?c = shadow ?c" by (simp add: console_new_def tiny_fb_def)
  then have "dirty_ok ?c" by (simp add: dirty_ok_def shown_def) (simp add: console_new_def rect_ok_def)
  then have "console_ok ?c" using g by (simp add: console_ok_def)
  then obtain c1 where "clear ?c = Some c1" "console_ok c1" using clear_spec by blast
  then show "\<exists>c. console_init (Some tiny_fb) tiny_font = Some c"
    using flush_pending_spec [of c1] f(1) cr by (auto simp: console_init_def Let_def)
qed

theorem console_shows_witness:
  "\<exists>c c'. console_init (Some tiny_fb) tiny_font = Some c \<and> write_strs [[0x41, 0x42, 0x43], [0x1B, 0x5B, 0x31, 0x6D, 0x0A]] c = Some c' \<and>
     cursor_row c' < rows c'"
proof -
  obtain c where c: "console_init (Some tiny_fb) tiny_font = Some c" using tiny_console(2) by blast
  have "\<forall>s\<in>set [[0x41, 0x42, 0x43], [0x1B, 0x5B, 0x31, 0x6D, 0x0A]]. 0x09 \<notin> set (chars s)"
    by (simp add: chars.simps utf8_step_def byte_at_def decode_utf8_def)
  then show ?thesis using console_shows [OF tiny_console(1) c] c by blast
qed



text \<open>\<open>CSI D\<close> without a parameter leaves the cursor where it is, since a missing parameter is pushed as zero.\<close>

lemma csi_back_without_parameter:
  assumes "console_ok c" "esc c = Csi" "nparams c = 0" "\<not> have_cur c"
  shows "\<exists>c'. put_char 0x44 c = Some c' \<and> cursor_col c' = cursor_col c"
  using assms by (simp add: put_char_def csi_char_def Let_def push_param_def con_cursor_left_def console_ok_def params_ok_def)

end
