(* ===== verification/Spec2Isabelle.thy ===== *)
theory Spec2Isabelle
  imports Heap Blocking Syscall Ps2 Console
begin

text \<open>
  eonos is a small x86-64 kernel in Rust. This library models the parts of it that compute: memory
  management, threads, program loading, storage, files and keyboard input, and shows that they do what they are for.

  \<^bold>\<open>How the code is modelled.\<close> A source module is a theory; a struct is a record, an enum a datatype, a function a
  HOL function of the same name (with the module's name in front where two modules share one). Code behind a lock
  takes the locked state as an argument and returns it updated. \<open>Result\<close> is a sum type with the error on the left and
  \<open>?\<close> is \<open>and_then\<close>, or \<open>and_next\<close> where state is threaded; a panic is \<open>None\<close> of an option type. Addresses and
  other values whose width matters are words (\<open>u64\<close> is \<open>64 word\<close>); counters and sizes that cannot reach their limit
  are natural numbers. Loops are recursive functions, all of them total; a loop of the source that is bounded by a
  step count has that count as an argument. Strings are lists of UTF-8 bytes.

  \<^bold>\<open>The theories.\<close>
  \<^item> \<open>Prelude\<close>: machine integers, little-endian bytes, slices, results; the arithmetic of page addresses.
  \<^item> \<open>Text\<close>: what the kernel uses of Rust's strings, UTF-8 and UTF-16.
  \<^item> \<open>Pmm\<close> (\<open>pmm.rs\<close>): the bitmap of physical frames, its construction from the boot memory map, allocation of one
    frame and of runs, freeing. The locale \<open>frame_allocator\<close> is what the rest of the kernel relies on.
  \<^item> \<open>Vmm\<close> (\<open>vmm.rs\<close>): four-level page tables in physical memory: walks, mapping, unmapping, protection, splitting of
    huge pages, the kernel's own tables, address spaces, and copies from and to user memory.
  \<^item> \<open>Heap\<close> (\<open>heap.rs\<close>): the address-ordered free list stored in the heap itself, growth from \<open>Pmm\<close> through \<open>Vmm\<close>.
  \<^item> \<open>Elf\<close> (\<open>elf.rs\<close>): validation of a program image, its pages, mapping into an address space.
  \<^item> \<open>Scheduler\<close> (\<open>scheduler.rs\<close>, the clock of \<open>pit.rs\<close>): threads and their stacks, the context switch as its effect on
    registers and stack words, sleeping, exit, time slices and preemption, wait queues. Each call is one step, and
    \<open>sched_reachable\<close> is what any interleaving of steps can reach.
  \<^item> \<open>Block\<close> (\<open>block.rs\<close>): block devices, partitions of them, and boot images with written sectors kept in memory. The
    locale \<open>device_contract\<close> is what a filesystem may assume of a device.
  \<^item> \<open>Partition\<close> (\<open>partition.rs\<close>): MBR and GPT tables. \<open>Initramfs\<close> (\<open>initramfs.rs\<close>): the boot archive, a tar file.
  \<^item> \<open>Fat32\<close> (\<open>fat32.rs\<close>): the FAT32 filesystem. \<open>FatTable\<close>: the layout of a mounted volume.
  \<^item> \<open>Vfs\<close> (\<open>vfs.rs\<close>): paths, the mount table, dispatch to the boot archive or a volume.
  \<^item> \<open>Ps2\<close> (\<open>drivers/ps2.rs\<close>): the keyboard's ring buffer, scancodes, and the bring-up of its controller over ports
    given as a parameter. The locale \<open>bounded_queue\<close> is what readers of the buffer rely on.

  \<^bold>\<open>What is shown.\<close>
  \<^item> Frames: the allocator's counters and bitmap agree in every state; an allocation returns a free frame and fails only
    when there is none, the contiguous search finds the lowest run, freeing rejects exactly the invalid
    requests; the word-wise fill is the bit-wise one; booting leaves exactly the usable memory free.
  \<^item> Page tables: tables never overlap each other or free frames; mapping, unmapping and protecting change the
    translation of their page and no other, across splits of huge pages; user copies fail exactly on ranges
    that are not mapped for the user.
  \<^item> Heap: whatever sequence of calls is made, live allocations are aligned, disjoint and inside the mapped heap.
  \<^item> ELF: an accepted image respects the address, size and permission limits; loading gives the image's
    bytes in distinct frames; a failed load gives every frame back.
  \<^item> Storage: partitions found lie inside the disk; a partition cannot touch sectors outside itself; a written sector
    is read back; tar archives and partition tables round-trip; CRC-32 detects a changed byte; a volume that
    mounts has its tables and clusters inside its device.
  \<^item> Threads: in every reachable state each thread is in exactly one place, stacks belong to one thread, and the idle
    thread never blocks; a ready thread runs after a bounded number of ticks whatever the others do; a sleeper is
    ready at the first tick at or after its time; creating a thread maps its stack, and failing to leaves no trace.
  \<^item> Keyboard: the ring buffer is a queue that drops its oldest byte; what is read is always ASCII; bringing up the
    controller ends within a fixed number of port accesses.
  \<^item> Files: normal forms of paths, longest-prefix routing, and the invariant of the mount table.

  \<^bold>\<open>Bounds.\<close> Chains of clusters are followed for at most \<open>MAX_CHAIN_STEPS\<close> steps and \<open>list_files\<close> descends 32
  directories, as in the source. No other function takes fuel.

  \<^bold>\<open>Not modelled.\<close> Code whose effect is on devices (the AHCI, NVMe, xHCI, virtio-gpu drivers, the interrupt
  controllers, programming the timer, the serial port, the framebuffer), the descriptor tables and interrupt entry
  code, logging and the boot-time self-tests, and the assembly of the user programs. Interrupts do not appear inside
  the modelled calls: each runs under a lock that keeps interrupts off, or has no shared state; the timer interrupt
  is a step of \<open>Scheduler\<close> and the keyboard interrupt a step of \<open>Ps2\<close>.
\<close>

end
